(* ===== verification/Prelude.thy ===== *)
theory Prelude
  imports Main "HOL-Library.Sublist"
begin

text \<open>
  What the components share.  A Python \<open>bytes\<close> object and a Python \<open>str\<close> are both modelled as
  a HOL string: a \<open>char\<close> is exactly one octet.  For text this means that only the code points
  below 256 are represented; every pattern the code matches is ASCII.  A Python \<open>int\<close> is an
  \<open>int\<close>.  Here: slices and searches as \<open>bytes\<close> and \<open>str\<close> have them, the number formats the
  code prints, big- and little-endian conversions, and half-open ranges.
\<close>

named_theorems range_simps "unfolding rules for ranges and region tables"
named_theorems guard_simps "unfolding rules for guards and verdicts"
named_theorems text_simps "rules that evaluate the text primitives"

type_synonym bytes = "char list"

subsection \<open>Half-open ranges\<close>

definition overlaps :: "int \<Rightarrow> int \<Rightarrow> int \<Rightarrow> int \<Rightarrow> bool" where
  "overlaps a b lo hi \<longleftrightarrow> a < hi \<and> b > lo"

lemma overlaps_disjoint:
  assumes "a < b" "lo < hi"
  shows "overlaps a b lo hi \<longleftrightarrow> {a..<b} \<inter> {lo..<hi} \<noteq> {}"
  using assms by (auto simp: overlaps_def)

lemma not_overlaps_disjoint: "\<not> overlaps a b lo hi \<Longrightarrow> {a..<b} \<inter> {lo..<hi} = {}"
  by (auto simp: overlaps_def)

subsection \<open>Slices and searches\<close>

definition slice :: "'a list \<Rightarrow> nat \<Rightarrow> nat \<Rightarrow> 'a list" where
  "slice xs i j = take (j - i) (drop i xs)"

fun find_sub :: "'a list \<Rightarrow> 'a list \<Rightarrow> nat option" where
  "find_sub p [] = (if p = [] then Some 0 else None)"
| "find_sub p (x # xs) = (if prefix p (x # xs) then Some 0 else map_option Suc (find_sub p xs))"

definition occurs :: "'a list \<Rightarrow> 'a list \<Rightarrow> bool" where
  "occurs p s \<longleftrightarrow> find_sub p s \<noteq> None"

fun count_sub :: "'a list \<Rightarrow> 'a list \<Rightarrow> nat" where
  "count_sub p [] = (if p = [] then 1 else 0)"
| "count_sub p (x # xs) =
     (if prefix p (x # xs) then Suc (count_sub p (drop (length p - 1) xs)) else count_sub p xs)"

fun split_seq :: "'a list \<Rightarrow> 'a list \<Rightarrow> 'a list list" where
  "split_seq sep [] = [[]]"
| "split_seq sep (x # xs) =
     (if prefix sep (x # xs) then [] # split_seq sep (drop (length sep - 1) xs)
      else (case split_seq sep xs of [] \<Rightarrow> [[x]] | l # ls \<Rightarrow> (x # l) # ls))"

fun join :: "'a list \<Rightarrow> 'a list list \<Rightarrow> 'a list" where
  "join sep [] = []"
| "join sep [l] = l"
| "join sep (l # m # ls) = l @ sep @ join sep (m # ls)"


lemma slice_0 [simp]: "slice xs 0 j = take j xs"
  by (simp add: slice_def)

lemma length_slice [simp]: "length (slice xs i j) = min (j - i) (length xs - i)"
  by (simp add: slice_def)

lemma slice_append: "i \<le> j \<Longrightarrow> j \<le> k \<Longrightarrow> slice xs i j @ slice xs j k = slice xs i k"
  using take_add [of "j - i" "k - j" "drop i xs"] by (simp add: slice_def)

lemma find_sub_Some_iff:
  "find_sub p s = Some i \<Longrightarrow> i + length p \<le> length s \<and> take (length p) (drop i s) = p"
proof (induction p s arbitrary: i rule: find_sub.induct)
  case (1 p)
  then show ?case by (auto split: if_splits)
next
  case (2 p x xs)
  show ?case
  proof (cases "prefix p (x # xs)")
    case True
    then have "length p \<le> length (x # xs)" by (rule prefix_length_le)
    with True 2 show ?thesis by (auto elim: prefixE)
  next
    case False
    with 2 show ?thesis by fastforce
  qed
qed

lemma find_sub_None: "find_sub p s = None \<Longrightarrow> \<not> prefix p (drop i s)"
proof (induction p s arbitrary: i rule: find_sub.induct)
  case (1 p)
  then show ?case by (auto split: if_splits)
next
  case (2 p x xs)
  then show ?case by (cases i) (auto split: if_splits)
qed

lemma occurs_iff: "occurs p s \<longleftrightarrow> (\<exists>a b. s = a @ p @ b)"
proof
  assume "occurs p s"
  then obtain i where "find_sub p s = Some i" by (auto simp: occurs_def)
  from find_sub_Some_iff [OF this] have "s = take i s @ p @ drop (i + length p) s"
    by (metis add.commute append_take_drop_id drop_drop)
  then show "\<exists>a b. s = a @ p @ b" by blast
next
  assume "\<exists>a b. s = a @ p @ b"
  then obtain a b where s: "s = a @ p @ b" by blast
  then have "prefix p (drop (length a) s)" by simp
  with find_sub_None show "occurs p s" by (force simp: occurs_def)
qed

lemma count_sub_no_hd: "hd p \<notin> set s \<Longrightarrow> p \<noteq> [] \<Longrightarrow> count_sub p s = 0"
proof (induction s)
  case (Cons c s)
  then have "\<not> prefix p (c # s)" by (cases p) auto
  with Cons show ?case by simp
qed simp

lemma count_sub_self: "p \<noteq> [] \<Longrightarrow> count_sub p p = 1"
  by (cases p) simp_all

lemma split_seq_neq_Nil [simp]: "split_seq sep s \<noteq> []"
  by (cases s) (auto split: list.splits)

lemma join_Cons: "ls \<noteq> [] \<Longrightarrow> join sep (l # ls) = l @ sep @ join sep ls"
  by (cases ls) auto

lemma join_split_seq:
  assumes "sep \<noteq> []" shows "join sep (split_seq sep s) = s"
  using assms
proof (induction sep s rule: split_seq.induct)
  case (1 sep)
  then show ?case by simp
next
  case (2 sep x xs)
  show ?case
  proof (cases "prefix sep (x # xs)")
    case True
    then obtain t where t: "x # xs = sep @ t" by (auto elim: prefixE)
    with 2 have "drop (length sep - 1) xs = t"
      by (cases sep) auto
    with True have "split_seq sep (x # xs) = [] # split_seq sep t" by simp
    moreover have "join sep (split_seq sep t) = t"
      using 2 True \<open>drop (length sep - 1) xs = t\<close> by simp
    ultimately show ?thesis by (simp add: join_Cons t del: split_seq.simps)
  next
    case False
    with 2 show ?thesis
      by (cases "split_seq sep xs"; cases "tl (split_seq sep xs)") auto
  qed
qed

text \<open>A piece that nowhere holds a prefix of the separator followed by the separator itself.\<close>

lemma split_seq_piece:
  assumes "\<And>i. i < length l \<Longrightarrow> \<not> prefix sep (drop i (l @ sep @ r))" and "sep \<noteq> []"
  shows "split_seq sep (l @ sep @ r) = l # split_seq sep r"
  using assms(1)
proof (induction l)
  case Nil
  from \<open>sep \<noteq> []\<close> obtain y ys where "sep = y # ys" by (cases sep) auto
  then show ?case by simp
next
  case (Cons x l)
  have "\<not> prefix sep (drop i (l @ sep @ r))" if "i < length l" for i
    using Cons.prems [of "Suc i"] that by simp
  then have "split_seq sep (l @ sep @ r) = l # split_seq sep r" by (rule Cons.IH)
  moreover have "\<not> prefix sep (x # (l @ sep @ r))" using Cons.prems [of 0] by simp
  ultimately show ?case by simp
qed

lemma split_seq_free:
  assumes "\<And>i. \<not> prefix sep (drop i l)" and "sep \<noteq> []"
  shows "split_seq sep l = [l]"
  using assms(1)
proof (induction l)
  case Nil
  then show ?case by simp
next
  case (Cons x l)
  have "\<not> prefix sep (drop i l)" for i using Cons.prems [of "Suc i"] by simp
  then have "split_seq sep l = [l]" by (rule Cons.IH)
  moreover have "\<not> prefix sep (x # l)" using Cons.prems [of 0] by simp
  ultimately show ?case by simp
qed

lemma split_seq_hd:
  assumes "hd sep \<notin> set l" "sep \<noteq> []"
  shows "split_seq sep (l @ sep @ r) = l # split_seq sep r"
proof (rule split_seq_piece)
  fix i assume "i < length l"
  then have "drop i (l @ sep @ r) = l ! i # drop (Suc i) l @ sep @ r"
    by (simp add: Cons_nth_drop_Suc [symmetric])
  moreover from \<open>i < length l\<close> assms have "hd sep \<noteq> l ! i" by (metis nth_mem)
  ultimately show "\<not> prefix sep (drop i (l @ sep @ r))"
    using assms(2) by (cases sep) auto
qed (rule assms(2))

lemma split_seq_hd_free:
  assumes "hd sep \<notin> set l" "sep \<noteq> []"
  shows "split_seq sep l = [l]"
  using assms(1)
proof (induction l)
  case (Cons x l)
  with assms(2) have "\<not> prefix sep (x # l)" by (cases sep) auto
  with Cons show ?case by simp
qed simp

text \<open>Splitting at one character, as \<open>str.split(c)\<close> does.\<close>

abbreviation split_on :: "'a \<Rightarrow> 'a list \<Rightarrow> 'a list list" where
  "split_on c s \<equiv> split_seq [c] s"

lemma split_on_piece: "c \<notin> set l \<Longrightarrow> split_on c (l @ c # r) = l # split_on c r"
  by (induction l) auto

lemma sep_inj:
  assumes "c \<notin> set a" "c \<notin> set a'" "a @ c # r = a' @ c # r'"
  shows "a = a' \<and> r = r'"
  using assms
proof (induction a arbitrary: a')
  case Nil
  then show ?case by (cases a') auto
next
  case (Cons x a)
  then show ?case by (cases a') auto
qed

lemma split_on_free: "c \<notin> set l \<Longrightarrow> split_on c l = [l]"
  by (induction l) auto

lemma split_on_append: "split_on c (a @ c # b) = split_on c a @ split_on c b"
proof (induction a)
  case (Cons x a)
  then show ?case by (cases "split_on c a") auto
qed simp

lemma split_on_join:
  assumes "\<forall>l \<in> set ls. c \<notin> set l" "ls \<noteq> []"
  shows "split_on c (join [c] ls) = ls"
  using assms
proof (induction "[c]" ls rule: join.induct)
  case (3 l m ls)
  then show ?case using split_on_piece [of c l] by simp
qed (simp_all add: split_on_free)

lemma split_on_subset: "l \<in> set (split_on c s) \<Longrightarrow> set l \<subseteq> set s"
proof (induction s arbitrary: l)
  case (Cons x s)
  show ?case
  proof (cases "split_on c s")
    case c: (Cons a as)
    have "set a \<subseteq> set s" using Cons.IH [of a] c by simp
    then show ?thesis using Cons.IH Cons.prems c by (fastforce split: if_splits)
  qed simp
qed simp

lemma split_on_no_sep: "l \<in> set (split_on c s) \<Longrightarrow> c \<notin> set l"
proof (induction s arbitrary: l)
  case (Cons x s)
  then show ?case by (cases "split_on c s") (auto split: if_splits)
qed simp

subsection \<open>Numbers in text\<close>

fun to_base :: "nat \<Rightarrow> nat \<Rightarrow> nat list" where
  "to_base b n = (if n < b \<or> b < 2 then [n] else to_base b (n div b) @ [n mod b])"

declare to_base.simps [simp del]

definition of_base :: "nat \<Rightarrow> nat list \<Rightarrow> nat" where
  "of_base b ds = foldl (\<lambda>a d. a * b + d) 0 ds"

lemma of_base_snoc [simp]: "of_base b (ds @ [d]) = of_base b ds * b + d"
  by (simp add: of_base_def)

lemma of_base_Nil [simp]: "of_base b [] = 0"
  by (simp add: of_base_def)

lemma of_base_to_base: "of_base b (to_base b n) = n"
proof (induction b n rule: to_base.induct)
  case (1 b n)
  show ?case
  proof (cases "n < b \<or> b < 2")
    case True
    then show ?thesis by (subst to_base.simps) (simp add: of_base_def)
  next
    case False
    with 1 show ?thesis by (subst to_base.simps) simp
  qed
qed

lemma to_base_less: "2 \<le> b \<Longrightarrow> d \<in> set (to_base b n) \<Longrightarrow> d < b"
proof (induction b n rule: to_base.induct)
  case (1 b n)
  then show ?case by (subst (asm) to_base.simps) (auto split: if_splits)
qed

lemma length_to_base: "2 \<le> b \<Longrightarrow> n < b ^ k \<Longrightarrow> 0 < k \<Longrightarrow> length (to_base b n) \<le> k"
proof (induction b n arbitrary: k rule: to_base.induct)
  case (1 b n)
  show ?case
  proof (cases "n < b")
    case True
    with 1 show ?thesis by (subst to_base.simps) simp
  next
    case False
    with 1 obtain j where k: "k = Suc j" "0 < j" by (cases k; cases "k - 1") auto
    with 1 have "n div b < b ^ j" by (simp add: less_mult_imp_div_less mult.commute)
    with 1 False k have "length (to_base b (n div b)) \<le> j" by simp
    with False k 1 show ?thesis by (subst to_base.simps) simp
  qed
qed

definition is_digit :: "char \<Rightarrow> bool" where
  "is_digit c \<longleftrightarrow> 48 \<le> (of_char c :: nat) \<and> (of_char c :: nat) \<le> 57"

definition is_hex_lower :: "char \<Rightarrow> bool" where
  "is_hex_lower c \<longleftrightarrow> is_digit c \<or> 97 \<le> (of_char c :: nat) \<and> (of_char c :: nat) \<le> 102"

definition is_hex :: "char \<Rightarrow> bool" where
  "is_hex c \<longleftrightarrow> is_hex_lower c \<or> 65 \<le> (of_char c :: nat) \<and> (of_char c :: nat) \<le> 70"

text \<open>The value of one hexadecimal digit, either case; meaningful where \<open>is_hex\<close> holds.\<close>

definition hex_val :: "char \<Rightarrow> nat" where
  "hex_val c = (let n = of_char c in if n \<le> 57 then n - 48 else if n \<le> 70 then n - 55 else n - 87)"

definition hex_char :: "nat \<Rightarrow> char" where
  "hex_char d = char_of (if d < 10 then 48 + d else 55 + d)"

definition hex_char_lower :: "nat \<Rightarrow> char" where
  "hex_char_lower d = char_of (if d < 10 then 48 + d else 87 + d)"

definition dec_char :: "nat \<Rightarrow> char" where
  "dec_char d = char_of (48 + d)"

definition pad0 :: "nat \<Rightarrow> string \<Rightarrow> string" where
  "pad0 w s = replicate (w - length s) (CHR ''0'') @ s"

definition hexU :: "nat \<Rightarrow> nat \<Rightarrow> string" where
  "hexU w n = pad0 w (map hex_char (to_base 16 n))"

definition hexL :: "nat \<Rightarrow> nat \<Rightarrow> string" where
  "hexL w n = pad0 w (map hex_char_lower (to_base 16 n))"

definition dec :: "nat \<Rightarrow> string" where
  "dec n = map dec_char (to_base 10 n)"

text \<open>\<open>%0wX\<close> and \<open>%d\<close> on a Python \<open>int\<close>: a sign takes one place of the width.\<close>

definition fmtX :: "nat \<Rightarrow> int \<Rightarrow> string" where
  "fmtX w n = (if n < 0 then CHR ''-'' # hexU (w - 1) (nat (- n)) else hexU w (nat n))"

definition fmtx :: "nat \<Rightarrow> int \<Rightarrow> string" where
  "fmtx w n = (if n < 0 then CHR ''-'' # hexL (w - 1) (nat (- n)) else hexL w (nat n))"

definition fmtd :: "int \<Rightarrow> string" where
  "fmtd n = (if n < 0 then CHR ''-'' # dec (nat (- n)) else dec (nat n))"

definition hex_num :: "string \<Rightarrow> nat" where
  "hex_num s = of_base 16 (map hex_val s)"

definition dec_num :: "string \<Rightarrow> nat" where
  "dec_num s = of_base 10 (map hex_val s)"

lemma of_char_char_of_small: "n < 256 \<Longrightarrow> of_char (char_of n) = (n :: nat)"
  by simp

lemma hex_char_props:
  assumes "d < 16"
  shows "is_hex (hex_char d)" "hex_val (hex_char d) = d"
  using assms by (auto simp: is_hex_def is_hex_lower_def is_digit_def hex_val_def hex_char_def
      of_char_char_of_small)

lemma hex_char_lower_props:
  assumes "d < 16"
  shows "is_hex_lower (hex_char_lower d)" "hex_val (hex_char_lower d) = d"
  using assms by (auto simp: is_hex_lower_def is_digit_def hex_val_def hex_char_lower_def
      of_char_char_of_small)

lemma dec_char_props:
  assumes "d < 10"
  shows "is_digit (dec_char d)" "hex_val (dec_char d) = d"
  using assms by (auto simp: is_digit_def hex_val_def dec_char_def of_char_char_of_small)

lemma is_hex_zero: "is_digit (CHR ''0'')" "is_hex_lower (CHR ''0'')" "is_hex (CHR ''0'')"
    "hex_val (CHR ''0'') = 0"
  by (simp_all add: is_digit_def is_hex_lower_def is_hex_def hex_val_def)

lemma hexU_hex: "c \<in> set (hexU w n) \<Longrightarrow> is_hex c"
  using to_base_less [of 16] by (auto simp: hexU_def pad0_def is_hex_zero hex_char_props)

lemma hexL_hex: "c \<in> set (hexL w n) \<Longrightarrow> is_hex_lower c"
  using to_base_less [of 16] by (auto simp: hexL_def pad0_def is_hex_zero hex_char_lower_props)

lemma dec_digit: "c \<in> set (dec n) \<Longrightarrow> is_digit c"
  using to_base_less [of 10] by (auto simp: dec_def dec_char_props)

lemma of_base_zeros: "of_base b (replicate k 0 @ ds) = of_base b ds"
  by (induction k) (auto simp: of_base_def)

lemma hex_num_hexU: "hex_num (hexU w n) = n"
proof -
  have "map hex_val (map hex_char (to_base 16 n)) = to_base 16 n"
    by (rule map_idI [THEN trans [OF map_map]]) (use to_base_less [of 16] hex_char_props in auto)
  then show ?thesis
    by (simp add: hex_num_def hexU_def pad0_def is_hex_zero of_base_zeros of_base_to_base
        map_replicate_const)
qed

lemma hex_num_fmtX: "0 \<le> n \<Longrightarrow> int (hex_num (fmtX w n)) = n"
  by (simp add: fmtX_def hex_num_hexU)

lemma hex_num_hexL: "hex_num (hexL w n) = n"
proof -
  have "map hex_val (map hex_char_lower (to_base 16 n)) = to_base 16 n"
    by (rule map_idI [THEN trans [OF map_map]])
      (use to_base_less [of 16] hex_char_lower_props in auto)
  then show ?thesis
    by (simp add: hex_num_def hexL_def pad0_def is_hex_zero of_base_zeros of_base_to_base
        map_replicate_const)
qed

lemma dec_num_dec: "dec_num (dec n) = n"
proof -
  have "map hex_val (map dec_char (to_base 10 n)) = to_base 10 n"
    by (rule map_idI [THEN trans [OF map_map]]) (use to_base_less [of 10] dec_char_props in auto)
  then show ?thesis by (simp add: dec_num_def dec_def of_base_to_base)
qed

lemma fmtX_inj: "0 \<le> a \<Longrightarrow> 0 \<le> b \<Longrightarrow> fmtX w a = fmtX w b \<Longrightarrow> a = b"
proof -
  assume "0 \<le> a" "0 \<le> b" "fmtX w a = fmtX w b"
  then have "hexU w (nat a) = hexU w (nat b)" by (simp add: fmtX_def)
  then have "nat a = nat b" by (metis hex_num_hexU)
  with \<open>0 \<le> a\<close> \<open>0 \<le> b\<close> show ?thesis by simp
qed

lemma fmtX_hex: "0 \<le> n \<Longrightarrow> c \<in> set (fmtX w n) \<Longrightarrow> is_hex c"
  by (simp add: fmtX_def hexU_hex)

lemma length_hexU: "n < 16 ^ w \<Longrightarrow> 0 < w \<Longrightarrow> length (hexU w n) = w"
  using length_to_base [of 16 n w] by (simp add: hexU_def pad0_def)

lemma length_hexL: "n < 16 ^ w \<Longrightarrow> 0 < w \<Longrightarrow> length (hexL w n) = w"
  using length_to_base [of 16 n w] by (simp add: hexL_def pad0_def)

lemma to_base_neq_Nil [simp]: "to_base b n \<noteq> []"
  by (subst to_base.simps) simp

lemma dec_neq_Nil [simp]: "dec n \<noteq> []"
  by (simp add: dec_def)

subsection \<open>Numbers in bytes\<close>

fun be_bytes :: "nat \<Rightarrow> nat \<Rightarrow> bytes" where
  "be_bytes 0 n = []"
| "be_bytes (Suc k) n = be_bytes k (n div 256) @ [char_of (n mod 256)]"

definition be_val :: "bytes \<Rightarrow> nat" where
  "be_val b = of_base 256 (map of_char b)"

definition le_bytes :: "nat \<Rightarrow> nat \<Rightarrow> bytes" where
  "le_bytes k n = rev (be_bytes k n)"

definition le_val :: "bytes \<Rightarrow> nat" where
  "le_val b = be_val (rev b)"

lemma length_be_bytes [simp]: "length (be_bytes k n) = k"
  by (induction k n rule: be_bytes.induct) auto

lemma be_val_Nil [simp]: "be_val [] = 0"
  by (simp add: be_val_def)

lemma be_val_snoc [simp]: "be_val (b @ [c]) = be_val b * 256 + of_char c"
  by (simp add: be_val_def)

lemma be_val_be_bytes: "be_val (be_bytes k n) = n mod 256 ^ k"
proof (induction k n rule: be_bytes.induct)
  case (1 n)
  then show ?case by simp
next
  case (2 k n)
  have "n mod 256 ^ Suc k = (n div 256 mod 256 ^ k) * 256 + n mod 256"
    by (metis add.commute mod_mult2_eq mult.commute power_Suc)
  with 2 show ?case by (simp add: of_char_char_of_small)
qed

lemma be_val_less: "be_val b < 256 ^ length b"
proof (induction b rule: rev_induct)
  case Nil
  then show ?case by simp
next
  case (snoc c b)
  have "of_char c < (256 :: nat)" by simp
  with snoc have "be_val b * 256 + of_char c < 256 ^ length b * 256" by linarith
  then show ?case by (simp add: mult.commute)
qed

lemma be_bytes_be_val: "be_bytes (length b) (be_val b) = b"
proof (induction b rule: rev_induct)
  case Nil
  then show ?case by simp
next
  case (snoc c b)
  have "of_char c < (256 :: nat)" by simp
  with snoc show ?case by simp
qed

lemma le_val_le_bytes: "le_val (le_bytes k n) = n mod 256 ^ k"
  by (simp add: le_val_def le_bytes_def be_val_be_bytes)

lemma le_bytes_le_val: "length b = k \<Longrightarrow> le_bytes k (le_val b) = b"
  using be_bytes_be_val [of "rev b"] by (simp add: le_val_def le_bytes_def)

lemma length_le_bytes [simp]: "length (le_bytes k n) = k"
  by (simp add: le_bytes_def)

lemma le_val_less: "le_val b < 256 ^ length b"
  using be_val_less [of "rev b"] by (simp add: le_val_def)

lemma be_val_inj: "length a = length b \<Longrightarrow> be_val a = be_val b \<Longrightarrow> a = b"
  using be_bytes_be_val [of a] be_bytes_be_val [of b] by metis

lemma le_val_inj: "length a = length b \<Longrightarrow> le_val a = le_val b \<Longrightarrow> a = b"
  using be_val_inj [of "rev a" "rev b"] by (simp add: le_val_def)

text \<open>Pieces of fixed length, the last one possibly shorter.\<close>

fun chunks :: "nat \<Rightarrow> 'a list \<Rightarrow> 'a list list" where
  "chunks k [] = []"
| "chunks k (x # xs) = take (Suc k) (x # xs) # chunks k (drop k xs)"

lemma concat_chunks: "concat (chunks k xs) = xs"
  by (induction k xs rule: chunks.induct) auto

lemma length_in_chunks: "c \<in> set (chunks k xs) \<Longrightarrow> length xs mod Suc k = 0 \<Longrightarrow> length c = Suc k"
proof (induction k xs rule: chunks.induct)
  case (2 k x xs)
  from 2(3) have "Suc k \<le> Suc (length xs)"
    by (metis Suc_leI length_Cons linorder_not_less mod_less nat.distinct(1) zero_less_Suc not_less_eq_eq)
  moreover from this 2(3) have "length (drop k xs) mod Suc k = 0"
    by (simp add: mod_if [of "Suc (length xs)"])
  ultimately show ?case using 2 by auto
qed simp

subsection \<open>Reading formats\<close>

text \<open>A slice with Python's negative indices.\<close>

definition py_index :: "nat \<Rightarrow> int \<Rightarrow> nat" where
  "py_index n i = (if i < 0 then nat (max 0 (i + int n)) else min (nat i) n)"

definition py_slice :: "'a list \<Rightarrow> int \<Rightarrow> int \<Rightarrow> 'a list" where
  "py_slice xs i j = slice xs (py_index (length xs) i) (py_index (length xs) j)"

lemma py_slice_nonneg: "0 \<le> i \<Longrightarrow> 0 \<le> j \<Longrightarrow> py_slice xs i j = slice xs (nat i) (nat j)"
  by (cases "nat i \<le> length xs") (auto simp: py_slice_def py_index_def slice_def min_def)

text \<open>\<open>struct.unpack_from\<close> of one unsigned field of k bytes; None where it raises \<open>struct.error\<close>.\<close>

definition be_at :: "nat \<Rightarrow> bytes \<Rightarrow> nat \<Rightarrow> nat option" where
  "be_at k b i = (if i + k \<le> length b then Some (be_val (slice b i (i + k))) else None)"

definition le_at :: "nat \<Rightarrow> bytes \<Rightarrow> nat \<Rightarrow> nat option" where
  "le_at k b i = (if i + k \<le> length b then Some (le_val (slice b i (i + k))) else None)"

lemma be_at_less: "be_at k b i = Some v \<Longrightarrow> v < 256 ^ k"
  using be_val_less [of "slice b i (i + k)"] by (auto simp: be_at_def split: if_splits)

lemma be_at_skip: "length a \<le> i \<Longrightarrow> be_at k (a @ r) i = be_at k r (i - length a)"
  by (auto simp: be_at_def slice_def)

lemma be_at_here: "be_at k (be_bytes k n @ r) 0 = Some (n mod 256 ^ k)"
  by (simp add: be_at_def be_val_be_bytes)

lemma char_of_nat_eq [text_simps]:
  "char_of (n :: nat) = c \<longleftrightarrow> n mod 256 = of_char c" "c = char_of (n :: nat) \<longleftrightarrow> of_char c = n mod 256"
  by (metis char_of_char of_char_of char_of_mod_256)+

lemma be_bytes_4:
  "be_bytes 4 n = [char_of (n div 256 div 256 div 256 mod 256), char_of (n div 256 div 256 mod 256),
     char_of (n div 256 mod 256), char_of (n mod 256)]"
proof -
  have four: "(4 :: nat) = Suc (Suc (Suc (Suc 0)))" by simp
  show ?thesis unfolding four by (simp only: be_bytes.simps append.simps)
qed

lemma be_at_val: "be_at k b i = Some v \<Longrightarrow> be_val (slice b i (i + k)) = v"
  by (auto simp: be_at_def split: if_splits)

lemma slice_skip: "length a \<le> i \<Longrightarrow> slice (a @ r) i j = slice r (i - length a) (j - length a)"
  by (simp add: slice_def)

lemma slice_here: "length a = n \<Longrightarrow> slice (a @ r) 0 n = a"
  by (simp add: slice_def)

text \<open>Errors as values: sequencing, and a loop that stops at the first error.\<close>

definition sbind :: "'e + 'a \<Rightarrow> ('a \<Rightarrow> 'e + 'b) \<Rightarrow> 'e + 'b" where
  "sbind m f = (case m of Inl e \<Rightarrow> Inl e | Inr x \<Rightarrow> f x)"

lemma sbind_simps [simp]: "sbind (Inl e) f = Inl e" "sbind (Inr x) f = f x"
  by (simp_all add: sbind_def)

lemma sbind_Inr: "sbind m f = Inr y \<longleftrightarrow> (\<exists>x. m = Inr x \<and> f x = Inr y)"
  by (cases m) auto

definition or_err :: "'e \<Rightarrow> 'a option \<Rightarrow> 'e + 'a" where
  "or_err e x = (case x of None \<Rightarrow> Inl e | Some v \<Rightarrow> Inr v)"

lemma or_err_simps [simp]: "or_err e None = Inl e" "or_err e (Some v) = Inr v"
  by (simp_all add: or_err_def)

fun traverse :: "('a \<Rightarrow> 'e + 'b) \<Rightarrow> 'a list \<Rightarrow> 'e + 'b list" where
  "traverse f [] = Inr []"
| "traverse f (x # xs) = sbind (f x) (\<lambda>y. sbind (traverse f xs) (\<lambda>ys. Inr (y # ys)))"

lemma traverse_Inr: "traverse f xs = Inr ys \<longleftrightarrow> list_all2 (\<lambda>x y. f x = Inr y) xs ys"
  by (induction xs arbitrary: ys) (auto simp: sbind_Inr list_all2_Cons1)

text \<open>A literal, and the non-overlapping matches of a pattern, left to right.\<close>

definition lit :: "string \<Rightarrow> string \<Rightarrow> string option" where
  "lit p s = (if prefix p s then Some (drop (length p) s) else None)"

lemma lit_iff: "lit p s = Some r \<longleftrightarrow> s = p @ r"
  by (auto simp: lit_def prefix_def)

lemma lit_append [simp]: "lit p (p @ r) = Some r"
  by (simp add: lit_def)

lemma lit_None: "\<not> prefix p s \<Longrightarrow> lit p s = None"
  by (simp add: lit_def)

lemma lit_length: "lit p s = Some r \<Longrightarrow> length r \<le> length s"
  by (simp add: lit_iff)

function findall :: "(string \<Rightarrow> ('a \<times> string) option) \<Rightarrow> string \<Rightarrow> 'a list" where
  "findall m s =
     (case m s of
        Some (x, r) \<Rightarrow> x # (if length r < length s then findall m r else [])
      | None \<Rightarrow> (case s of [] \<Rightarrow> [] | c # s' \<Rightarrow> findall m s'))"
  by pat_completeness auto
termination by (relation "measure (\<lambda>(m, s). length s)") auto

declare findall.simps [simp del]

fun rfind_sub :: "'a list \<Rightarrow> 'a list \<Rightarrow> nat option" where
  "rfind_sub p [] = (if p = [] then Some 0 else None)"
| "rfind_sub p (x # xs) =
     (case rfind_sub p xs of
        Some i \<Rightarrow> Some (Suc i)
      | None \<Rightarrow> if prefix p (x # xs) then Some 0 else None)"

text \<open>White space as \<open>str.strip\<close> and \<open>\s\<close> see it, on the code points below 256.\<close>

definition py_space :: "char \<Rightarrow> bool" where
  "py_space c = (let n = (of_char c :: nat) in
     9 \<le> n \<and> n \<le> 13 \<or> 28 \<le> n \<and> n \<le> 32 \<or> n = 0x85 \<or> n = 0xA0)"

definition rstrip :: "string \<Rightarrow> string" where
  "rstrip s = rev (dropWhile py_space (rev s))"

definition lstrip :: "string \<Rightarrow> string" where
  "lstrip s = dropWhile py_space s"

definition strip :: "string \<Rightarrow> string" where
  "strip s = rstrip (lstrip s)"

text \<open>\<open>bytes.fromhex\<close>: pairs of digits, ASCII white space allowed between them.\<close>

definition ascii_space :: "char \<Rightarrow> bool" where
  "ascii_space c = (let n = (of_char c :: nat) in 9 \<le> n \<and> n \<le> 13 \<or> n = 32)"

fun fromhex :: "string \<Rightarrow> bytes option" where
  "fromhex [] = Some []"
| "fromhex (c # s) =
     (if ascii_space c then fromhex s
      else case s of
        [] \<Rightarrow> None
      | d # s' \<Rightarrow>
          (if is_hex c \<and> is_hex d
           then map_option (\<lambda>b. char_of (16 * hex_val c + hex_val d) # b) (fromhex s') else None))"

text \<open>
  \<open>bytes.decode('ascii', 'replace')\<close>: an octet of 0x80 or above becomes U+FFFD.  The decoded text
  holds ASCII characters and U+FFFD and nothing else, so the octet 0xFF, which is no ASCII
  character, stands for U+FFFD in it.
\<close>

definition REPLACEMENT :: char where "REPLACEMENT = CHR 0xFF"

definition ascii_char :: "char \<Rightarrow> bool" where
  "ascii_char c \<longleftrightarrow> (of_char c :: nat) < 128"

definition ascii_replace :: "bytes \<Rightarrow> string" where
  "ascii_replace b = map (\<lambda>c. if ascii_char c then c else REPLACEMENT) b"

lemma ascii_replace_id: "list_all ascii_char b \<Longrightarrow> ascii_replace b = b"
  by (induction b) (simp_all add: ascii_replace_def)

lemma ascii_replace_Nil [simp]: "ascii_replace b = [] \<longleftrightarrow> b = []"
  by (simp add: ascii_replace_def)

text \<open>\<open>\w\<close> on the code points below 256.\<close>

definition word_char :: "char \<Rightarrow> bool" where
  "word_char c = (let n = (of_char c :: nat) in
     is_digit c \<or> 65 \<le> n \<and> n \<le> 90 \<or> n = 95 \<or> 97 \<le> n \<and> n \<le> 122
     \<or> n \<in> {0xAA, 0xB2, 0xB3, 0xB5, 0xB9, 0xBA, 0xBC, 0xBD, 0xBE} \<or> 0xC0 \<le> n \<and> n \<noteq> 0xD7 \<and> n \<noteq> 0xF7)"

end
