(* ===== verification/PyText.thy ===== *)
theory PyText
  imports Prelude
begin

text \<open>
  Python's text layer above \<open>Prelude\<close>: line ends, \<open>str.split()\<close>, \<open>int(s)\<close> and \<open>int(s, 16)\<close>, \<open>str.isalpha\<close>,
  on the code points below 256, with what they return on text that the tools print.
\<close>

subsection \<open>Line ends and words\<close>

fun universal_newlines :: "string \<Rightarrow> string" where
  "universal_newlines [] = []"
| "universal_newlines (c # s) =
     (if c = CHR 0x0D then CHR 0x0A # universal_newlines (if take 1 s = [CHR 0x0A] then tl s else s)
      else c # universal_newlines s)"

text \<open>\<open>str.split()\<close>.\<close>

function py_words :: "string \<Rightarrow> string list" where
  "py_words s =
     (case dropWhile py_space s of
        [] \<Rightarrow> []
      | c # r \<Rightarrow> (c # takeWhile (\<lambda>x. \<not> py_space x) r) # py_words (dropWhile (\<lambda>x. \<not> py_space x) r))"
  by pat_completeness auto
termination
proof (relation "measure length")
  fix s :: string and c r
  assume "dropWhile py_space s = c # r"
  then have "length (c # r) \<le> length s" by (metis length_dropWhile_le)
  then show "(dropWhile (\<lambda>x. \<not> py_space x) r, s) \<in> measure length"
    using length_dropWhile_le [of "\<lambda>x. \<not> py_space x" r] by simp
qed simp

declare py_words.simps [simp del]

definition alpha :: "char \<Rightarrow> bool" where
  "alpha c = (let n = (of_char c :: nat) in
     65 \<le> n \<and> n \<le> 90 \<or> 97 \<le> n \<and> n \<le> 122 \<or> n \<in> {0xAA, 0xB5, 0xBA} \<or> 0xC0 \<le> n \<and> n \<noteq> 0xD7 \<and> n \<noteq> 0xF7)"

subsection \<open>\<open>int\<close> of a text\<close>

text \<open>Digits with single underscores between them.\<close>

fun group_digits :: "(char \<Rightarrow> bool) \<Rightarrow> string \<Rightarrow> string option" where
  "group_digits ok [] = None"
| "group_digits ok [c] = (if ok c then Some [c] else None)"
| "group_digits ok (c # d # s) =
     (if \<not> ok c then None
      else if d = CHR ''_'' then map_option (\<lambda>r. c # r) (group_digits ok s)
      else map_option (\<lambda>r. c # r) (group_digits ok (d # s)))"

definition base_num :: "nat \<Rightarrow> string \<Rightarrow> int option" where
  "base_num b s = map_option (\<lambda>t. int (of_base b (map hex_val t)))
     (group_digits (\<lambda>c. is_hex c \<and> hex_val c < b) s)"

definition prefixed :: "nat \<Rightarrow> string \<Rightarrow> int option" where
  "prefixed b s = base_num b (if take 1 s = ''_'' then tl s else s)"

text \<open>\<open>int(s, 0)\<close>: a sign, a base prefix, digits.\<close>

definition unsigned0 :: "string \<Rightarrow> int option" where
  "unsigned0 s =
     (let p = take 2 s; r = drop 2 s in
      if p \<in> {''0x'', ''0X''} then prefixed 16 r
      else if p \<in> {''0o'', ''0O''} then prefixed 8 r
      else if p \<in> {''0b'', ''0B''} then prefixed 2 r
      else if take 1 s = ''0'' then (if base_num 10 s = Some 0 then Some 0 else None)
      else base_num 10 s)"

definition int0 :: "string \<Rightarrow> int option" where
  "int0 s =
     (let t = strip s in
      if take 1 t = ''-'' then map_option uminus (unsigned0 (tl t))
      else unsigned0 (if take 1 t = ''+'' then tl t else t))"

text \<open>\<open>int(s, b)\<close> for the bases 10 and 16.\<close>

definition py_int :: "nat \<Rightarrow> string \<Rightarrow> int option" where
  "py_int b s =
     (let t = strip s; u = (if take 1 t \<in> {''-'', ''+''} then tl t else t);
          v = (if b = 16 \<and> take 2 u \<in> {''0x'', ''0X''} then prefixed 16 (drop 2 u) else base_num b u)
      in if take 1 t = ''-'' then map_option uminus v else v)"

subsection \<open>Reading what was printed\<close>

lemma universal_newlines_free: "CHR 0x0D \<notin> set s \<Longrightarrow> universal_newlines (s @ r) = s @ universal_newlines r"
  by (induction s) auto

lemma universal_newlines_crlf: "universal_newlines (CHR 0x0D # CHR 0x0A # r) = CHR 0x0A # universal_newlines r"
  by simp

lemma py_words_Nil [simp]: "py_words [] = []"
  by (simp add: py_words.simps)

lemma py_words_space: "py_space c \<Longrightarrow> py_words (c # r) = py_words r"
  by (subst (1 2) py_words.simps) simp

lemma py_words_spaces: "list_all py_space p \<Longrightarrow> py_words (p @ r) = py_words r"
  by (induction p) (simp_all add: py_words_space)

lemma py_words_word:
  assumes "list_all (\<lambda>x. \<not> py_space x) w" "w \<noteq> []" "r = [] \<or> py_space (hd r)"
  shows "py_words (w @ r) = w # py_words r"
proof -
  obtain c v where w: "w = c # v" using assms(2) by (cases w) auto
  have v: "takeWhile (\<lambda>x. \<not> py_space x) (v @ r) = v \<and> dropWhile (\<lambda>x. \<not> py_space x) (v @ r) = r"
    using assms(1,3) by (cases r) (auto simp: w takeWhile_append dropWhile_append list_all_iff)
  have d: "dropWhile py_space (w @ r) = c # (v @ r)" using assms(1) by (simp add: w)
  have "py_words (w @ r) = (c # takeWhile (\<lambda>x. \<not> py_space x) (v @ r)) # py_words (dropWhile (\<lambda>x. \<not> py_space x) (v @ r))"
    by (subst py_words.simps) (simp only: d list.case)
  then show ?thesis unfolding v [THEN conjunct1] v [THEN conjunct2] w .
qed

lemma py_words_Cons:
  "list_all (\<lambda>x. \<not> py_space x) w \<Longrightarrow> w \<noteq> [] \<Longrightarrow> py_space c \<Longrightarrow> py_words (w @ c # r) = w # py_words r"
  using py_words_word [of w "c # r"] py_words_space by simp

lemma py_words_one: "list_all (\<lambda>x. \<not> py_space x) w \<Longrightarrow> w \<noteq> [] \<Longrightarrow> py_words w = [w]"
  using py_words_word [of w "[]"] by simp

lemma hex_no_space: "is_hex c \<Longrightarrow> \<not> py_space c"
  by (auto simp: is_hex_def is_hex_lower_def is_digit_def py_space_def Let_def)

lemma digits_hex: "is_digit c \<Longrightarrow> is_hex c" "is_hex_lower c \<Longrightarrow> is_hex c"
  by (auto simp: is_hex_def is_hex_lower_def)

lemma strip_free: "list_all (\<lambda>x. \<not> py_space x) w \<Longrightarrow> strip w = w"
proof -
  assume "list_all (\<lambda>x. \<not> py_space x) w"
  moreover from this have "list_all (\<lambda>x. \<not> py_space x) (rev w)" by simp
  moreover have "dropWhile py_space u = u" if "list_all (\<lambda>x. \<not> py_space x) u" for u
    using that by (cases u) auto
  ultimately show ?thesis by (simp add: strip_def lstrip_def rstrip_def)
qed

lemma strip_ends:
  assumes "w \<noteq> []" "\<not> py_space (hd w)" "\<not> py_space (last w)"
  shows "strip w = w"
proof -
  have "dropWhile py_space u = u" if "u \<noteq> []" "\<not> py_space (hd u)" for u using that by (cases u) auto
  from this [of w] this [of "rev w"] assms show ?thesis by (simp add: strip_def lstrip_def rstrip_def hd_rev)
qed

lemma py_words_join:
  assumes "list_all (\<lambda>w. w \<noteq> [] \<and> list_all (\<lambda>x. \<not> py_space x) w) ws"
  shows "py_words (join '' '' ws) = ws"
  using assms
proof (induction ws)
  case (Cons w ws)
  have sp: "py_space (CHR '' '')" by (simp add: py_space_def)
  show ?case
  proof (cases ws)
    case Nil
    then show ?thesis using Cons.prems by (simp add: py_words_one)
  next
    case c: (Cons v vs)
    have "join '' '' (w # ws) = w @ CHR '' '' # join '' '' ws" by (simp add: c)
    then show ?thesis using Cons py_words_Cons [of w "CHR '' ''" "join '' '' ws"] sp by simp
  qed
qed simp

lemma group_digits_all: "list_all ok s \<Longrightarrow> \<not> ok (CHR ''_'') \<Longrightarrow> s \<noteq> [] \<Longrightarrow> group_digits ok s = Some s"
  by (induction ok s rule: group_digits.induct) auto

lemma dec_bits: "dec 0 = ''0''" "dec 1 = ''1''"
  by code_simp+

lemma py_int_dec: "py_int 10 (dec n) = Some (int n)"
proof -
  have d: "list_all is_digit (dec n)" using dec_digit by (auto simp: list_all_iff)
  then have s: "strip (dec n) = dec n"
    using hex_no_space digits_hex(1) by (intro strip_free) (auto simp: list_all_iff)
  obtain c t where c: "dec n = c # t" using dec_neq_Nil by (cases "dec n") auto
  have p: "take 1 (dec n) \<noteq> ''-''" "take 1 (dec n) \<noteq> ''+''" using d by (auto simp: c is_digit_def)
  have v: "is_digit x \<Longrightarrow> is_hex x \<and> hex_val x < 10" for x
    by (auto simp: is_digit_def is_hex_def is_hex_lower_def hex_val_def Let_def)
  have "group_digits (\<lambda>c. is_hex c \<and> hex_val c < 10) (dec n) = Some (dec n)"
    using d v by (intro group_digits_all) (auto simp: list_all_iff is_hex_def is_hex_lower_def is_digit_def)
  then show ?thesis using p dec_num_dec [of n] by (simp add: py_int_def s base_num_def dec_num_def)
qed

lemma py_int_hexU: "py_int 16 (hexU w n) = Some (int n)"
proof -
  have d: "list_all is_hex (hexU w n)" using hexU_hex by (auto simp: list_all_iff)
  then have s: "strip (hexU w n) = hexU w n"
    using hex_no_space by (intro strip_free) (auto simp: list_all_iff)
  have ne: "hexU w n \<noteq> []" by (auto simp: hexU_def pad0_def)
  have x: "\<not> is_hex (CHR ''-'')" "\<not> is_hex (CHR ''+'')" "\<not> is_hex (CHR ''x'')" "\<not> is_hex (CHR ''X'')"
    "\<not> is_hex (CHR ''_'')"
    by (simp_all add: is_hex_def is_hex_lower_def is_digit_def)
  have p: "take 1 (hexU w n) \<noteq> ''-''" "take 1 (hexU w n) \<noteq> ''+''" "take 2 (hexU w n) \<noteq> ''0x''"
    "take 2 (hexU w n) \<noteq> ''0X''"
    using d x by (cases "hexU w n" rule: remdups_adj.cases; auto)+
  have v: "is_hex y \<Longrightarrow> hex_val y < 16" for y
    by (auto simp: is_digit_def is_hex_def is_hex_lower_def hex_val_def Let_def)
  have "group_digits (\<lambda>c. is_hex c \<and> hex_val c < 16) (hexU w n) = Some (hexU w n)"
    using d v x ne by (intro group_digits_all) (auto simp: list_all_iff)
  then show ?thesis using p hex_num_hexU [of w n] by (simp add: py_int_def s base_num_def hex_num_def)
qed

end
