(* ===== verification/FlashWin.thy ===== *)
theory FlashWin
  imports Prelude "HOL-Library.Product_Lexorder"
begin

text \<open>
  \<open>tools/flashwin.py\<close>: the one owner of the range that may not be published (\<open>FORBIDDEN\<close>), the
  renderer of the loader's \<open>DW\<close> reply, its normaliser, and the scanner that looks for content of
  the range in a file.  A refusal (\<open>_fail\<close>, exit 2) is a value of \<open>fw_fail\<close>, with the arguments
  of its message.
\<close>

datatype fw_fail =
    Not_whole_lines nat | Not_ascii
  | No_dw_echo | Bad_dw_line bytes | No_data_lines
  | No_probe
  | Bytes_not_16 int | Seek_error int | Dump_short nat int
  | Needs_out int int string | Out_inside_repo string int int string
  | Empty_sweep string | Needs_file

subsection \<open>The range that may not be published\<close>

definition H601_why :: string where
  "H601_why = ''H601 -- this unit's MAC and radio calibration''"

definition FORBIDDEN :: "(int \<times> int \<times> string) list" where
  "FORBIDDEN = [(0x006000, 0x008000, H601_why)]"

definition overlaps_forbidden :: "int \<Rightarrow> int \<Rightarrow> (int \<times> int \<times> string) option" where
  "overlaps_forbidden at nbytes =
     (let end = at + nbytes in find (\<lambda>(lo, hi, why). at < hi \<and> end > lo) FORBIDDEN)"

definition H601 :: "int set" where
  "H601 = {0x006000..<0x008000}"

lemma overlaps_forbidden_iff:
  "0 < n \<Longrightarrow> overlaps_forbidden at n = None \<longleftrightarrow> {at..<at + n} \<inter> H601 = {}"
  by (auto simp: overlaps_forbidden_def FORBIDDEN_def H601_def Let_def)

lemma overlaps_forbidden_arith [range_simps]:
  "overlaps_forbidden at n =
     (if at < 0x8000 \<and> at + n > 0x6000
      then Some (0x6000, 0x8000, H601_why) else None)"
  by (simp add: overlaps_forbidden_def FORBIDDEN_def Let_def)

subsection \<open>The \<open>DW\<close> reply\<close>

abbreviation nlcr :: bytes where
  "nlcr \<equiv> [CHR 0x0A, CHR 0x0D]"

abbreviation tab :: char where
  "tab \<equiv> CHR 0x09"

abbreviation colon :: char where
  "colon \<equiv> CHR '':''"

definition dw_prompt :: bytes where
  "dw_prompt = ''<RealTek>''"

definition dw_words :: "bytes \<Rightarrow> bytes list" where
  "dw_words d = map (\<lambda>k. fmtX 8 (int (be_val (slice d k (k + 4))))) [0, 4, 8, 12]"

definition dw_line :: "int \<Rightarrow> bytes \<Rightarrow> bytes" where
  "dw_line addr d = fmtX 8 addr @ [colon] @ concat (map (\<lambda>w. tab # w) (dw_words d)) @ nlcr"

fun dw_lines :: "int \<Rightarrow> bytes \<Rightarrow> bytes" where
  "dw_lines ram [] = []"
| "dw_lines ram (b # bs) = dw_line ram (take 16 (b # bs)) @ dw_lines (ram + 16) (drop 15 bs)"

definition is_ascii :: "string \<Rightarrow> bool" where
  "is_ascii s \<longleftrightarrow> (\<forall>c \<in> set s. (of_char c :: nat) < 128)"

definition render_dw :: "int \<Rightarrow> bytes \<Rightarrow> string \<Rightarrow> fw_fail + bytes" where
  "render_dw ram_base data cmd =
     (if length data mod 16 \<noteq> 0 then Inl (Not_whole_lines (length data))
      else if \<not> is_ascii cmd then Inl Not_ascii
      else Inr (cmd @ nlcr @ dw_lines ram_base data @ dw_prompt))"

subsection \<open>The normaliser\<close>

definition take_hex8 :: "bytes \<Rightarrow> (bytes \<times> bytes) option" where
  "take_hex8 s = (if length (take 8 s) = 8 \<and> list_all is_hex (take 8 s)
                  then Some (take 8 s, drop 8 s) else None)"

definition DW_ECHO :: "bytes \<Rightarrow> bool" where
  "DW_ECHO s =
     (prefix ''DW '' s \<and>
      (case take_hex8 (drop 3 s) of
         None \<Rightarrow> False
       | Some (_, r) \<Rightarrow>
           prefix '' '' r \<and>
           (let ds = takeWhile is_digit (tl r)
            in ds \<noteq> [] \<and> prefix nlcr (dropWhile is_digit (tl r)))))"

fun tab_words :: "nat \<Rightarrow> bytes \<Rightarrow> bytes list \<times> bytes" where
  "tab_words 0 s = ([], s)"
| "tab_words (Suc k) s =
     (case s of
        [] \<Rightarrow> ([], s)
      | c # r \<Rightarrow>
          (if c = tab then
             (case take_hex8 r of
                None \<Rightarrow> ([], s)
              | Some (w, r') \<Rightarrow> (let (ws, t) = tab_words k r' in (w # ws, t)))
           else ([], s)))"

definition DW_LINE :: "bytes \<Rightarrow> bytes list option" where
  "DW_LINE s =
     (case take_hex8 s of
        None \<Rightarrow> None
      | Some (_, r) \<Rightarrow>
          (if prefix [colon] r then
             (let (ws, t) = tab_words (length r) (tl r)
              in if ws \<noteq> [] \<and> prefix nlcr t then Some ws else None)
           else None))"

fun norm_lines :: "bytes list \<Rightarrow> fw_fail + bytes list \<times> nat" where
  "norm_lines [] = Inr ([], 0)"
| "norm_lines (raw # rest) =
     (if raw = dw_prompt \<or> raw = [] then norm_lines rest
      else (case DW_LINE (raw @ nlcr) of
              None \<Rightarrow> Inl (Bad_dw_line (take 32 raw))
            | Some ws \<Rightarrow>
                (case norm_lines rest of
                   Inl e \<Rightarrow> Inl e
                 | Inr (out, n) \<Rightarrow> Inr (join [tab] ws # out, length ws + n))))"

definition normalise_dw :: "bytes \<Rightarrow> fw_fail + bytes" where
  "normalise_dw text =
     (if \<not> DW_ECHO text then Inl No_dw_echo
      else (case norm_lines (tl (split_seq nlcr text)) of
              Inl e \<Rightarrow> Inl e
            | Inr (out, n) \<Rightarrow>
                if n = 0 then Inl No_data_lines
                else Inr (join [CHR 0x0A] out @ [CHR 0x0A])))"

subsection \<open>What a rendered reply normalises to\<close>

definition data_line :: "bytes \<Rightarrow> bytes" where
  "data_line d = join [tab] (dw_words d)"

lemma fmtX8:
  assumes "0 \<le> n" "n < 2 ^ 32"
  shows "length (fmtX 8 n) = 8" "\<forall>c \<in> set (fmtX 8 n). is_hex c"
proof -
  from assms have "nat n < 16 ^ 8" by (simp add: nat_less_iff)
  then show "length (fmtX 8 n) = 8" using assms by (simp add: fmtX_def length_hexU)
  show "\<forall>c \<in> set (fmtX 8 n). is_hex c" using assms by (auto simp: fmtX_def dest: hexU_hex)
qed

lemma take_hex8_app:
  assumes "length w = 8" "\<forall>c \<in> set w. is_hex c"
  shows "take_hex8 (w @ r) = Some (w, r)"
  using assms by (simp add: take_hex8_def list_all_iff)

lemma be_val_word:
  assumes "length d = 16" "k \<in> {0, 4, 8, 12}"
  shows "int (be_val (slice d k (k + 4))) < 2 ^ 32"
proof -
  have "length (slice d k (k + 4)) = 4" using assms by auto
  then have "be_val (slice d k (k + 4)) < 256 ^ 4" by (metis be_val_less)
  then show ?thesis by simp
qed

lemma dw_words_shape:
  assumes "length d = 16"
  shows "length (dw_words d) = 4" "\<forall>w \<in> set (dw_words d). length w = 8 \<and> (\<forall>c \<in> set w. is_hex c)"
proof -
  show "length (dw_words d) = 4" by (simp add: dw_words_def)
  show "\<forall>w \<in> set (dw_words d). length w = 8 \<and> (\<forall>c \<in> set w. is_hex c)"
  proof
    fix w assume "w \<in> set (dw_words d)"
    then obtain k where "k \<in> set [0, 4, 8, 12]" and w: "w = fmtX 8 (int (be_val (slice d k (k + 4))))"
      unfolding dw_words_def set_map by (elim imageE)
    then have "k \<in> {0, 4, 8, 12}" by (simp only: list.set)
    from be_val_word [OF assms this] fmtX8 [of "int (be_val (slice d k (k + 4)))"]
    show "length w = 8 \<and> (\<forall>c \<in> set w. is_hex c)" unfolding w by simp
  qed
qed

lemma tab_words_concat:
  assumes "\<forall>w \<in> set ws. length w = 8 \<and> (\<forall>c \<in> set w. is_hex c)"
    and "r = [] \<or> hd r \<noteq> tab" and "length ws < k"
  shows "tab_words k (concat (map (\<lambda>w. tab # w) ws) @ r) = (ws, r)"
  using assms
proof (induction ws arbitrary: k)
  case Nil
  then show ?case by (cases k; cases r) auto
next
  case (Cons w ws)
  then obtain j where "k = Suc j" "length ws < j" by (cases k) auto
  with Cons show ?case by (simp add: take_hex8_app)
qed

lemma not_hex_char: "\<not> is_hex (CHR 0x0A)" "\<not> is_hex tab" "\<not> is_hex colon" "\<not> is_hex (CHR 0x0D)"
    "\<not> is_hex (CHR '' '')" "\<not> is_hex (CHR ''<'')" "\<not> is_digit (CHR 0x0A)"
  by (simp_all add: is_hex_def is_hex_lower_def is_digit_def)

lemma DW_LINE_dw_line:
  assumes "length d = 16" "0 \<le> addr" "addr < 2 ^ 32"
  shows "DW_LINE (dw_line addr d) = Some (dw_words d)"
proof -
  let ?t = "concat (map (\<lambda>w. tab # w) (dw_words d))"
  have "tab_words (Suc (length (?t @ nlcr))) (?t @ nlcr) = (dw_words d, nlcr)"
    by (rule tab_words_concat)
      (use assms dw_words_shape [of d] in \<open>auto simp: dw_words_def length_concat\<close>)
  then show ?thesis
    using fmtX8 [OF assms(2,3)] dw_words_shape [OF assms(1)]
    by (auto simp: DW_LINE_def dw_line_def take_hex8_app)
qed

definition dw_body :: "int \<Rightarrow> bytes \<Rightarrow> bytes" where
  "dw_body addr d = fmtX 8 addr @ [colon] @ concat (map (\<lambda>w. tab # w) (dw_words d))"

lemma dw_line_body: "dw_line addr d = dw_body addr d @ nlcr"
  by (simp add: dw_line_def dw_body_def)

lemma dw_body_no_nl:
  assumes "length d = 16" "0 \<le> addr" "addr < 2 ^ 32"
  shows "CHR 0x0A \<notin> set (dw_body addr d)" "dw_body addr d \<noteq> []"
    "dw_body addr d \<noteq> dw_prompt"
proof -
  have "c = colon \<or> c = tab \<or> is_hex c" if "c \<in> set (dw_body addr d)" for c
    using that fmtX8(2) [OF assms(2,3)] dw_words_shape(2) [OF assms(1)]
    unfolding dw_body_def by (auto split: if_splits)
  then show "CHR 0x0A \<notin> set (dw_body addr d)" using not_hex_char(1) by fastforce
  show "dw_body addr d \<noteq> []" by (simp add: dw_body_def)
  obtain c cs where "fmtX 8 addr = c # cs" "is_hex c"
    using fmtX8 [OF assms(2,3)] by (cases "fmtX 8 addr") auto
  then show "dw_body addr d \<noteq> dw_prompt"
    using not_hex_char(6) by (auto simp: dw_body_def dw_prompt_def)
qed

lemma norm_lines_render:
  assumes "length data mod 16 = 0" "0 \<le> ram" "ram + int (length data) \<le> 2 ^ 32"
  shows "norm_lines (split_seq nlcr (dw_lines ram data @ dw_prompt)) =
     Inr (map data_line (chunks 15 data), 4 * length (chunks 15 data))"
  using assms
proof (induction ram data rule: dw_lines.induct)
  case (1 ram)
  have "split_seq nlcr dw_prompt = [dw_prompt]"
    by (rule split_seq_hd_free) (auto simp: dw_prompt_def)
  then show ?case by simp
next
  case (2 ram b bs)
  have l: "15 \<le> length bs" and m: "length (drop 15 bs) mod 16 = 0"
    using 2(2) by (auto simp: mod_if [of "Suc (length bs)"] split: if_splits)
  let ?d = "take 16 (b # bs)"
  have d: "length ?d = 16" using l by simp
  have a: "ram < 2 ^ 32" using 2(4) by simp
  have IH: "norm_lines (split_seq nlcr (dw_lines (ram + 16) (drop 15 bs) @ dw_prompt)) =
     Inr (map data_line (chunks 15 (drop 15 bs)), 4 * length (chunks 15 (drop 15 bs)))"
    using 2 m l by simp
  have "split_seq nlcr (dw_lines ram (b # bs) @ dw_prompt) =
      dw_body ram ?d # split_seq nlcr (dw_lines (ram + 16) (drop 15 bs) @ dw_prompt)"
    using split_seq_hd [of nlcr "dw_body ram ?d"] dw_body_no_nl [OF d 2(3) a]
    by (simp add: dw_line_body)
  moreover have "DW_LINE (dw_body ram ?d @ nlcr) = Some (dw_words ?d)"
    using DW_LINE_dw_line [OF d 2(3) a] by (simp add: dw_line_body)
  ultimately show ?case
    using IH dw_body_no_nl [OF d 2(3) a] dw_words_shape(1) [OF d] by (simp add: data_line_def)
qed

text \<open>The command \<open>cmd_render\<close> types for a window of \<open>nbytes\<close> bytes.\<close>

definition dw_cmd :: "int \<Rightarrow> int \<Rightarrow> string" where
  "dw_cmd ram nbytes = ''DW '' @ fmtX 8 ram @ '' '' @ fmtd (nbytes div 4)"

lemma is_hex_ascii: "is_hex c \<Longrightarrow> (of_char c :: nat) < 128"
  by (auto simp: is_hex_def is_hex_lower_def is_digit_def)

lemma fmtd_digits: "0 \<le> n \<Longrightarrow> fmtd n \<noteq> [] \<and> (\<forall>c \<in> set (fmtd n). is_digit c)"
  by (auto simp: fmtd_def dec_digit)

lemma digit_hex: "is_digit c \<Longrightarrow> is_hex c"
  by (simp add: is_hex_def is_hex_lower_def)

lemma dw_cmd_ascii:
  assumes "0 \<le> ram" "ram < 2 ^ 32" "0 \<le> n"
  shows "is_ascii (dw_cmd ram n)" "CHR 0x0A \<notin> set (dw_cmd ram n)"
proof -
  from assms have "0 \<le> n div 4" by simp
  then have h: "is_hex c \<or> c \<in> set ''DW ''" if "c \<in> set (dw_cmd ram n)" for c
    using that fmtX8(2) [OF assms(1,2)] fmtd_digits [of "n div 4"]
    by (auto simp: dw_cmd_def dest: digit_hex)
  show "is_ascii (dw_cmd ram n)"
    unfolding is_ascii_def using h is_hex_ascii by fastforce
  show "CHR 0x0A \<notin> set (dw_cmd ram n)" using h not_hex_char(1) by fastforce
qed

lemma DW_ECHO_dw_cmd:
  assumes "0 \<le> ram" "ram < 2 ^ 32" "0 \<le> n"
  shows "DW_ECHO (dw_cmd ram n @ nlcr @ r)"
proof -
  from assms have "0 \<le> n div 4" by simp
  from fmtd_digits [OF this] have d: "fmtd (n div 4) \<noteq> []" "\<forall>c \<in> set (fmtd (n div 4)). is_digit c"
    by auto
  then have "takeWhile is_digit (fmtd (n div 4) @ nlcr @ r) = fmtd (n div 4)"
    "dropWhile is_digit (fmtd (n div 4) @ nlcr @ r) = nlcr @ r"
    using not_hex_char(7) by (simp_all add: takeWhile_append2 dropWhile_append2)
  with d show ?thesis
    using fmtX8 [OF assms(1,2)] by (simp add: DW_ECHO_def dw_cmd_def take_hex8_app Let_def)
qed

lemma normalise_render:
  assumes "length data mod 16 = 0" "data \<noteq> []" "0 \<le> ram" "ram + int (length data) \<le> 2 ^ 32"
    and "render_dw ram data (dw_cmd ram (int (length data))) = Inr reply"
  shows "normalise_dw reply = Inr (join [CHR 0x0A] (map data_line (chunks 15 data)) @ [CHR 0x0A])"
proof -
  let ?c = "dw_cmd ram (int (length data))"
  have ram: "ram < 2 ^ 32" using assms by (cases data) auto
  have reply: "reply = ?c @ nlcr @ dw_lines ram data @ dw_prompt"
    using assms(1,5) by (simp add: render_dw_def split: if_splits)
  have "DW_ECHO reply" unfolding reply by (rule DW_ECHO_dw_cmd) (use assms ram in auto)
  moreover have "split_seq nlcr reply = ?c # split_seq nlcr (dw_lines ram data @ dw_prompt)"
    unfolding reply
    by (rule split_seq_hd) (use dw_cmd_ascii(2) [OF assms(3) ram] in auto)
  moreover have "chunks 15 data \<noteq> []" using assms(2) by (cases data) auto
  ultimately show ?thesis
    using norm_lines_render [OF assms(1,3,4)] by (simp add: normalise_dw_def)
qed

subsection \<open>The scanner\<close>

definition SCAN_WINDOW :: nat where "SCAN_WINDOW = 16"
definition SCAN_MIN_DISTINCT :: nat where "SCAN_MIN_DISTINCT = 4"

fun unhex :: "bytes \<Rightarrow> bytes" where
  "unhex (a # b # r) = char_of (16 * hex_val a + hex_val b) # unhex r"
| "unhex _ = []"

function hex_stream :: "bytes \<Rightarrow> bytes" where
  "hex_stream text =
     (case dropWhile (\<lambda>c. \<not> is_hex c) text of
        [] \<Rightarrow> []
      | c # r \<Rightarrow>
          (let tok = takeWhile is_hex (c # r); rest = dropWhile is_hex (c # r) in
           (if prefix [colon] rest then [] else if length tok < 4 \<or> odd (length tok) then []
            else unhex tok) @ hex_stream rest))"
  by pat_completeness auto
termination
proof (relation "measure length")
  fix s :: bytes and c r tok rest
  assume d: "dropWhile (\<lambda>c. \<not> is_hex c) s = c # r" and "rest = dropWhile is_hex (c # r)"
  from d have "is_hex c" by (metis (no_types) dropWhile_eq_Cons_conv)
  then have "length rest \<le> length r" using \<open>rest = _\<close> by (simp add: length_dropWhile_le)
  also have "length r < length s" using length_dropWhile_le [of _ s] d
    by (metis Suc_le_eq length_Cons)
  finally show "(rest, s) \<in> measure length" by simp
qed simp

declare hex_stream.simps [simp del]

definition probe_ok :: "bytes \<Rightarrow> bool" where
  "probe_ok w \<longleftrightarrow> length w = SCAN_WINDOW \<and> SCAN_MIN_DISTINCT \<le> length (remdups w)"

fun probes_from :: "bytes \<Rightarrow> int list \<Rightarrow> (bytes \<times> int) list \<Rightarrow> (bytes \<times> int) list" where
  "probes_from dump [] acc = acc"
| "probes_from dump (at # ats) acc =
     (let w = slice dump (nat at) (nat at + SCAN_WINDOW)
      in probes_from dump ats
           (if probe_ok w \<and> w \<notin> fst ` set acc then acc @ [(w, at)] else acc))"

definition scan_probes ::
    "bytes \<Rightarrow> (int \<times> int \<times> string) list \<Rightarrow> fw_fail + (bytes \<times> int) list" where
  "scan_probes dump regions =
     (let probes = fold (\<lambda>(lo, hi, why). probes_from dump [lo..hi - int SCAN_WINDOW]) regions []
      in if probes = [] then Inl No_probe else Inr probes)"

fun positions :: "bytes \<Rightarrow> nat \<Rightarrow> bytes \<Rightarrow> nat list" where
  "positions p i [] = (if p = [] then [i] else [])"
| "positions p i (x # xs) =
     (if prefix p (x # xs) then i # positions p (Suc i) xs else positions p (Suc i) xs)"

definition scan_hits :: "bytes \<Rightarrow> (bytes \<times> int) list \<Rightarrow> (nat \<times> int) list" where
  "scan_hits data probes =
     sort (concat (map (\<lambda>(needle, at). map (\<lambda>i. (i, at)) (positions needle 0 data)) probes))"

fun merge_hits :: "nat \<Rightarrow> nat \<Rightarrow> int \<Rightarrow> (nat \<times> int) list \<Rightarrow> (nat \<times> int \<times> nat) list" where
  "merge_hits b e flash [] = [(b, flash, e - b)]"
| "merge_hits b e flash ((i, at) # hs) =
     (if i \<le> e then merge_hits b (max e (i + SCAN_WINDOW)) (min flash at) hs
      else (b, flash, e - b) # merge_hits i (i + SCAN_WINDOW) at hs)"

definition scan_bytes :: "bytes \<Rightarrow> (bytes \<times> int) list \<Rightarrow> (nat \<times> int \<times> nat) list" where
  "scan_bytes data probes =
     (case scan_hits data probes of
        [] \<Rightarrow> []
      | (i, at) # hs \<Rightarrow> merge_hits i (i + SCAN_WINDOW) at hs)"

datatype channel = Raw | Hex

definition scan_capture :: "bytes \<Rightarrow> (bytes \<times> int) list \<Rightarrow> (channel \<times> nat \<times> int \<times> nat) list" where
  "scan_capture blob probes =
     map (\<lambda>(off, at, n). (Raw, off, at, n)) (scan_bytes blob probes) @
     map (\<lambda>(off, at, n). (Hex, off, at, n)) (scan_bytes (hex_stream blob) probes)"

subsection \<open>What the scanner guarantees\<close>

lemma positions_iff:
  assumes "p \<noteq> []"
  shows "i \<in> set (positions p k s) \<longleftrightarrow> (\<exists>j. i = k + j \<and> prefix p (drop j s))"
  using assms
proof (induction p k s rule: positions.induct)
  case (1 p k)
  then show ?case by simp
next
  case (2 p k x xs)
  have "(\<exists>j. i = k + j \<and> prefix p (drop j (x # xs))) \<longleftrightarrow>
      (i = k \<and> prefix p (x # xs)) \<or> (\<exists>j. i = Suc k + j \<and> prefix p (drop j xs))"
    (is "?l \<longleftrightarrow> ?r")
  proof
    assume ?l
    then obtain j where "i = k + j" "prefix p (drop j (x # xs))" by blast
    then show ?r by (cases j) auto
  next
    assume ?r
    then show ?l by (metis add_0_right add_Suc_shift drop0 drop_Suc_Cons)
  qed
  with 2 show ?case by auto
qed

definition hit :: "bytes \<Rightarrow> (bytes \<times> int) list \<Rightarrow> nat \<Rightarrow> int \<Rightarrow> bool" where
  "hit data probes i at \<longleftrightarrow> (\<exists>needle. (needle, at) \<in> set probes \<and> prefix needle (drop i data))"

lemma scan_hits_iff:
  assumes "\<forall>(w, at) \<in> set probes. w \<noteq> []"
  shows "(i, at) \<in> set (scan_hits data probes) \<longleftrightarrow> hit data probes i at"
proof -
  have "(i, at) \<in> set (scan_hits data probes) \<longleftrightarrow>
      (\<exists>needle. (needle, at) \<in> set probes \<and> i \<in> set (positions needle 0 data))"
    unfolding scan_hits_def by force
  moreover have "i \<in> set (positions needle 0 data) \<longleftrightarrow> prefix needle (drop i data)"
    if "(needle, at) \<in> set probes" for needle
    using assms that by (auto simp: positions_iff)
  ultimately show ?thesis unfolding hit_def by blast
qed

text \<open>The merger: every hit lies in a run, every position of a run lies in a hit, runs are apart.\<close>

definition covers :: "(nat \<times> int \<times> nat) list \<Rightarrow> nat \<Rightarrow> int \<Rightarrow> bool" where
  "covers runs i at \<longleftrightarrow>
     (\<exists>(off, flash, n) \<in> set runs. off \<le> i \<and> i + SCAN_WINDOW \<le> off + n \<and> flash \<le> at)"

lemma merge_hits_covers_start:
  "b + SCAN_WINDOW \<le> e \<Longrightarrow> i + SCAN_WINDOW \<le> e \<Longrightarrow> b \<le> i \<Longrightarrow> flash \<le> at \<Longrightarrow>
     covers (merge_hits b e flash hs) i at"
proof (induction b e flash hs rule: merge_hits.induct)
  case (2 b e flash i' at' hs)
  show ?case
  proof (cases "i' \<le> e")
    case True
    with 2 show ?thesis by simp
  next
    case False
    with 2 show ?thesis by (auto simp: covers_def)
  qed
qed (auto simp: covers_def)

lemma merge_hits_covers:
  assumes "b + SCAN_WINDOW \<le> e" "\<forall>(i, at) \<in> set hs. b \<le> i" "sorted (map fst hs)"
    and "(i, at) \<in> set hs"
  shows "covers (merge_hits b e flash hs) i at"
  using assms
proof (induction b e flash hs rule: merge_hits.induct)
  case (2 b e flash i' at' hs)
  show ?case
  proof (cases "i' \<le> e")
    case True
    show ?thesis
    proof (cases "(i, at) = (i', at')")
      case True
      with \<open>i' \<le> e\<close> 2 show ?thesis by (auto intro!: merge_hits_covers_start)
    next
      case False
      with True 2 show ?thesis by (auto intro!: 2(1))
    qed
  next
    case False
    have "covers (merge_hits i' (i' + SCAN_WINDOW) at' hs) i at"
    proof (cases "(i, at) = (i', at')")
      case True
      then show ?thesis by (auto intro!: merge_hits_covers_start)
    next
      case ne: False
      with False 2 show ?thesis by (auto intro!: 2(2))
    qed
    with False show ?thesis by (auto simp: covers_def)
  qed
qed simp

lemma merge_hits_sound:
  assumes "(off, fl, n) \<in> set (merge_hits b e flash hs)" "off \<le> x" "x < off + n"
    and "\<And>x. b \<le> x \<Longrightarrow> x < e \<Longrightarrow> \<exists>(i, at) \<in> S. i \<le> x \<and> x < i + SCAN_WINDOW"
    and "set hs \<subseteq> S" "b \<le> e"
  shows "\<exists>(i, at) \<in> S. i \<le> x \<and> x < i + SCAN_WINDOW"
  using assms
proof (induction b e flash hs rule: merge_hits.induct)
  case (1 b e flash)
  then show ?case by auto
next
  case (2 b e flash i at hs)
  show ?case
  proof (cases "i \<le> e")
    case True
    show ?thesis
    proof (rule 2(1) [OF True])
      fix y assume y: "b \<le> y" "y < max e (i + SCAN_WINDOW)"
      show "\<exists>(i, at) \<in> S. i \<le> y \<and> y < i + SCAN_WINDOW"
      proof (cases "y < e")
        case True
        with y(1) show ?thesis by (rule 2(6))
      next
        case False
        with y(2) True have "i \<le> y" "y < i + SCAN_WINDOW" by auto
        moreover have "(i, at) \<in> S" using 2(7) by simp
        ultimately show ?thesis by blast
      qed
    next
      show "(off, fl, n) \<in> set (merge_hits b (max e (i + SCAN_WINDOW)) (min flash at) hs)"
        using 2(3) True by simp
    qed (use 2(4,5,7,8) in simp_all)
  next
    case False
    show ?thesis
    proof (cases "(off, fl, n) = (b, flash, e - b)")
      case True
      with 2 show ?thesis by auto
    next
      case ne: False
      have "(i, at) \<in> S" "set hs \<subseteq> S" using 2(7) by auto
      moreover have "(off, fl, n) \<in> set (merge_hits i (i + SCAN_WINDOW) at hs)"
        using 2(3) False ne by auto
      moreover have "\<exists>(i, at) \<in> S. i \<le> y \<and> y < i + SCAN_WINDOW" if "i \<le> y" "y < i + SCAN_WINDOW" for y
        using that \<open>(i, at) \<in> S\<close> by blast
      ultimately show ?thesis
        by (intro 2(2) [OF False _ 2(4,5)]) simp_all
    qed
  qed
qed

fun apart :: "(nat \<times> int \<times> nat) list \<Rightarrow> bool" where
  "apart ((o1, f1, n1) # (o2, f2, n2) # rs) \<longleftrightarrow> o1 + n1 < o2 \<and> apart ((o2, f2, n2) # rs)"
| "apart _ \<longleftrightarrow> True"

lemma merge_hits_hd: "\<exists>f n rs. merge_hits b e flash hs = (b, f, n) # rs"
  by (induction b e flash hs rule: merge_hits.induct) auto

lemma merge_hits_apart: "b \<le> e \<Longrightarrow> apart (merge_hits b e flash hs)"
proof (induction b e flash hs rule: merge_hits.induct)
  case (2 b e flash i at hs)
  obtain f n rs where "merge_hits i (i + SCAN_WINDOW) at hs = (i, f, n) # rs"
    using merge_hits_hd by metis
  with 2 show ?case by auto
qed simp

lemma scan_bytes_covers:
  assumes "\<forall>(w, at) \<in> set probes. w \<noteq> []" "hit data probes i at"
  shows "covers (scan_bytes data probes) i at"
proof (cases "scan_hits data probes")
  case Nil
  with scan_hits_iff [OF assms(1)] assms(2) show ?thesis by force
next
  case (Cons h hs)
  have "sorted (scan_hits data probes)" by (simp add: scan_hits_def)
  then have s: "sorted (map fst (scan_hits data probes))"
    by (rule sorted_map_mono) (auto simp: mono_on_def less_eq_prod_def)
  obtain i0 a0 where h: "h = (i0, a0)" by force
  from s Cons h have le: "\<forall>(i, at) \<in> set hs. i0 \<le> i" "sorted (map fst hs)" by auto
  from assms scan_hits_iff [OF assms(1)] have "(i, at) \<in> set (scan_hits data probes)" by blast
  with Cons h consider "(i, at) = (i0, a0)" | "(i, at) \<in> set hs" by auto
  then have "covers (merge_hits i0 (i0 + SCAN_WINDOW) a0 hs) i at"
    using le by cases (auto intro: merge_hits_covers_start merge_hits_covers)
  then show ?thesis by (simp add: scan_bytes_def Cons h)
qed

lemma scan_bytes_sound:
  assumes "\<forall>(w, at) \<in> set probes. w \<noteq> []" "(off, fl, n) \<in> set (scan_bytes data probes)"
    and "off \<le> x" "x < off + n"
  shows "\<exists>i at. hit data probes i at \<and> i \<le> x \<and> x < i + SCAN_WINDOW"
proof (cases "scan_hits data probes")
  case Nil
  with assms(2) show ?thesis by (simp add: scan_bytes_def)
next
  case (Cons h hs)
  obtain i0 a0 where h: "h = (i0, a0)" by force
  from assms(2) Cons h have "(off, fl, n) \<in> set (merge_hits i0 (i0 + SCAN_WINDOW) a0 hs)"
    by (simp add: scan_bytes_def)
  then have "\<exists>(i, at) \<in> set (scan_hits data probes). i \<le> x \<and> x < i + SCAN_WINDOW"
    by (rule merge_hits_sound) (use assms Cons h in auto)
  then show ?thesis using scan_hits_iff [OF assms(1)] by force
qed

lemma scan_bytes_apart: "apart (scan_bytes data probes)"
  by (auto simp: scan_bytes_def merge_hits_apart split: list.splits)

lemma probes_from_mono: "set acc \<subseteq> set (probes_from dump ats acc)"
  by (induction dump ats acc rule: probes_from.induct) (auto simp: Let_def split: if_splits)

lemma probes_from_complete:
  assumes "at \<in> set ats" "probe_ok (slice dump (nat at) (nat at + SCAN_WINDOW))"
  shows "slice dump (nat at) (nat at + SCAN_WINDOW) \<in> fst ` set (probes_from dump ats acc)"
  using assms
proof (induction dump ats acc rule: probes_from.induct)
  case (2 dump a ats acc)
  let ?w = "slice dump (nat a) (nat a + SCAN_WINDOW)"
  let ?acc = "if probe_ok ?w \<and> ?w \<notin> fst ` set acc then acc @ [(?w, a)] else acc"
  show ?case
  proof (cases "at = a")
    case True
    with 2(3) have "?w \<in> fst ` set ?acc" by auto
    then have "?w \<in> fst ` set (probes_from dump ats ?acc)"
      using image_mono [OF probes_from_mono [of ?acc dump ats], of fst] by blast
    with True show ?thesis by (simp only: probes_from.simps Let_def)
  next
    case False
    with 2 show ?thesis by (simp add: Let_def)
  qed
qed simp

lemma probes_from_inv:
  assumes "\<forall>(w, at) \<in> set acc. P w at"
    and "\<And>at. at \<in> set ats \<Longrightarrow> probe_ok (slice dump (nat at) (nat at + SCAN_WINDOW)) \<Longrightarrow>
          P (slice dump (nat at) (nat at + SCAN_WINDOW)) at"
  shows "\<forall>(w, at) \<in> set (probes_from dump ats acc). P w at"
  using assms
proof (induction dump ats acc rule: probes_from.induct)
  case (2 dump a ats acc)
  let ?w = "slice dump (nat a) (nat a + SCAN_WINDOW)"
  let ?acc = "if probe_ok ?w \<and> ?w \<notin> fst ` set acc then acc @ [(?w, a)] else acc"
  have "\<forall>(w, at) \<in> set ?acc. P w at" using 2(2) 2(3) [of a] by auto
  then have "\<forall>(w, at) \<in> set (probes_from dump ats ?acc). P w at"
    by (rule 2(1) [OF refl]) (rule 2(3), simp_all)
  then show ?case by (simp only: probes_from.simps Let_def)
qed simp

lemma scan_probes_inv:
  assumes "scan_probes dump FORBIDDEN = Inr probes" "(w, at) \<in> set probes"
  shows "w = slice dump (nat at) (nat at + SCAN_WINDOW)" "probe_ok w"
    "0x6000 \<le> at" "at + int SCAN_WINDOW \<le> 0x8000"
proof -
  let ?P = "\<lambda>w at. w = slice dump (nat at) (nat at + SCAN_WINDOW) \<and> probe_ok w
      \<and> 0x6000 \<le> at \<and> at + int SCAN_WINDOW \<le> 0x8000"
  from assms(1) have p: "probes = probes_from dump [0x6000..0x8000 - int SCAN_WINDOW] []"
    by (simp add: scan_probes_def FORBIDDEN_def Let_def split: if_splits)
  have "\<forall>(w, at) \<in> set probes. ?P w at"
    unfolding p by (rule probes_from_inv) auto
  with assms(2) have "?P w at" by blast
  then show "w = slice dump (nat at) (nat at + SCAN_WINDOW)" "probe_ok w"
    "0x6000 \<le> at" "at + int SCAN_WINDOW \<le> 0x8000" by auto
qed

lemma probe_ok_neq_Nil: "probe_ok w \<Longrightarrow> w \<noteq> []"
  by (auto simp: probe_ok_def SCAN_WINDOW_def)

lemma scan_probes_complete:
  assumes "0x6000 \<le> at" "at + int SCAN_WINDOW \<le> 0x8000"
    and "probe_ok (slice dump (nat at) (nat at + SCAN_WINDOW))"
  shows "\<exists>probes at'. scan_probes dump FORBIDDEN = Inr probes \<and>
     (slice dump (nat at) (nat at + SCAN_WINDOW), at') \<in> set probes"
proof -
  let ?w = "slice dump (nat at) (nat at + SCAN_WINDOW)"
  let ?ps = "probes_from dump [0x6000..0x8000 - int SCAN_WINDOW] []"
  have "?w \<in> fst ` set ?ps" by (rule probes_from_complete) (use assms in auto)
  then obtain at' where "(?w, at') \<in> set ?ps" by auto
  moreover from this have "?ps \<noteq> []" by auto
  ultimately show ?thesis by (auto simp: scan_probes_def FORBIDDEN_def Let_def)
qed

lemma scan_bytes_detects:
  assumes "scan_probes dump FORBIDDEN = Inr probes" "(w, at) \<in> set probes"
    and "data = pre @ w @ post"
  shows "\<exists>(off, fl, n) \<in> set (scan_bytes data probes).
     off \<le> length pre \<and> length pre + SCAN_WINDOW \<le> off + n"
proof -
  have "hit data probes (length pre) at" using assms by (auto simp: hit_def)
  moreover have "\<forall>(w, at) \<in> set probes. w \<noteq> []"
    using scan_probes_inv(2) [OF assms(1)] probe_ok_neq_Nil by blast
  ultimately have "covers (scan_bytes data probes) (length pre) at"
    by (rule scan_bytes_covers [rotated])
  then show ?thesis by (auto simp: covers_def)
qed

subsection \<open>The hex channel\<close>

lemma hex_stream_Nil [simp]: "hex_stream [] = []"
  by (subst hex_stream.simps) simp

lemma hex_stream_skip [simp]: "\<not> is_hex c \<Longrightarrow> hex_stream (c # s) = hex_stream s"
  by (subst hex_stream.simps, subst (2) hex_stream.simps) simp

lemma hex_stream_tok:
  assumes "tok \<noteq> []" "\<forall>c \<in> set tok. is_hex c" "rest = [] \<or> \<not> is_hex (hd rest)"
  shows "hex_stream (tok @ rest) =
    (if prefix [colon] rest \<or> length tok < 4 \<or> odd (length tok) then [] else unhex tok) @ hex_stream rest"
proof -
  from assms obtain c r where tok: "tok = c # r" "is_hex c" by (cases tok) auto
  have "takeWhile is_hex (tok @ rest) = tok" "dropWhile is_hex (tok @ rest) = rest"
    using assms(2,3) by (cases rest; simp)+
  then show ?thesis
    using tok by (subst hex_stream.simps) (simp add: Let_def)
qed

lemma of_base_Cons: "of_base b (d # ds) = d * b ^ length ds + of_base b ds"
proof (induction ds rule: rev_induct)
  case (snoc x ds)
  have "of_base b (d # ds @ [x]) = of_base b (d # ds) * b + x"
    using of_base_snoc [of b "d # ds" x] by simp
  with snoc show ?case by (simp add: algebra_simps)
qed (simp add: of_base_def)

lemma be_val_Cons: "be_val (c # r) = of_char c * 256 ^ length r + be_val r"
  by (simp add: be_val_def of_base_Cons)

lemma hex_val_less: "is_hex c \<Longrightarrow> hex_val c < 16"
  by (auto simp: is_hex_def is_hex_lower_def is_digit_def hex_val_def Let_def)

lemma unhex_props:
  assumes "\<forall>c \<in> set s. is_hex c" "even (length s)"
  shows "length (unhex s) = length s div 2 \<and> be_val (unhex s) = hex_num s"
  using assms
proof (induction s rule: unhex.induct)
  case (1 a b r)
  then have IH: "length (unhex r) = length r div 2" "be_val (unhex r) = hex_num r" by auto
  have "hex_val a < 16" "hex_val b < 16" using 1 by (auto intro: hex_val_less)
  then have "16 * hex_val a + hex_val b < 256" by simp
  then have "of_char (char_of (16 * hex_val a + hex_val b) :: char) = 16 * hex_val a + hex_val b"
    by simp
  moreover have "(256 :: nat) ^ (length r div 2) = 16 ^ length r"
  proof -
    have "length r = 2 * (length r div 2)" using 1(3) by simp
    then have "(16 :: nat) ^ length r = (16\<^sup>2) ^ (length r div 2)" by (metis power_mult)
    then show ?thesis by simp
  qed
  ultimately show ?case
    using IH 1(3) by (simp add: be_val_Cons hex_num_def of_base_Cons algebra_simps)
qed (auto simp: hex_num_def be_val_def of_base_def)

lemma unhex_word:
  assumes "length d = 4"
  shows "unhex (fmtX 8 (int (be_val d))) = d"
proof (rule be_val_inj)
  have v: "int (be_val d) < 2 ^ 32" using be_val_less [of d] assms by simp
  note f = fmtX8 [OF _ v]
  have "unhex (fmtX 8 (int (be_val d))) = unhex (fmtX 8 (int (be_val d)))" ..
  show "length (unhex (fmtX 8 (int (be_val d)))) = length d"
    using unhex_props f assms by simp
  show "be_val (unhex (fmtX 8 (int (be_val d)))) = be_val d"
    using unhex_props f by (simp add: fmtX_def hex_num_hexU)
qed

lemma hex_stream_skips: "\<forall>c \<in> set a. \<not> is_hex c \<Longrightarrow> hex_stream (a @ s) = hex_stream s"
  by (induction a) auto

lemma prefix_one_app: "c \<noteq> x \<Longrightarrow> prefix [x] (r @ c # b) \<longleftrightarrow> prefix [x] r"
  by (cases r) auto

lemma hex_stream_split:
  assumes "\<not> is_hex c" "c \<noteq> colon"
  shows "hex_stream (a @ c # b) = hex_stream a @ hex_stream b"
proof (induction a rule: length_induct)
  case (1 a)
  let ?p = "takeWhile (\<lambda>c. \<not> is_hex c) a" and ?q = "dropWhile (\<lambda>c. \<not> is_hex c) a"
  have a: "a = ?p @ ?q" by simp
  have p: "hex_stream (?p @ s) = hex_stream s" for s
    by (rule hex_stream_skips) (auto dest: set_takeWhileD)
  show ?case
  proof (cases ?q)
    case Nil
    then have "hex_stream (a @ c # b) = hex_stream b" "hex_stream a = []"
      using p [of "c # b"] p [of "[]"] a assms by (metis append_Nil2 hex_stream_skip, metis append_Nil2 hex_stream_Nil)
    then show ?thesis by simp
  next
    case (Cons x y)
    then have x: "is_hex x" by (metis dropWhile_eq_Cons_conv)
    let ?t = "takeWhile is_hex ?q" and ?r = "dropWhile is_hex ?q"
    have q: "?q = ?t @ ?r" by simp
    have t: "?t \<noteq> []" "\<forall>c \<in> set ?t. is_hex c" using Cons x by (auto dest: set_takeWhileD)
    have r: "?r = [] \<or> \<not> is_hex (hd ?r)" using hd_dropWhile by blast
    have "length ?r < length ?q" using Cons x by (simp add: length_dropWhile_le le_imp_less_Suc)
    also have "length ?q \<le> length a" by (rule length_dropWhile_le)
    finally have IH: "hex_stream (?r @ c # b) = hex_stream ?r @ hex_stream b" using 1 by blast
    have pc: "prefix [colon] (?r @ c # b) \<longleftrightarrow> prefix [colon] ?r"
      by (rule prefix_one_app [OF assms(2)])
    have r': "?r @ c # b = [] \<or> \<not> is_hex (hd (?r @ c # b))"
      using r assms(1) by (auto simp only: hd_append list.sel split: if_splits)
    have "hex_stream (?q @ c # b) = hex_stream (?t @ (?r @ c # b))" by (metis append_assoc q)
    also have "\<dots> = (if prefix [colon] ?r \<or> length ?t < 4 \<or> odd (length ?t) then [] else unhex ?t)
        @ hex_stream ?r @ hex_stream b"
      by (simp only: hex_stream_tok [OF t r'] pc IH)
    also have "\<dots> = hex_stream (?t @ ?r) @ hex_stream b"
      using hex_stream_tok [OF t r] by simp
    finally have "hex_stream (?q @ c # b) = hex_stream ?q @ hex_stream b" using q by simp
    then show ?thesis using p [of ?q] p [of "?q @ c # b"] a by (metis append_assoc)
  qed
qed

lemma hex_stream_words:
  assumes "\<forall>w \<in> set ws. length w = 8 \<and> (\<forall>c \<in> set w. is_hex c)" "\<not> is_hex (hd s)" "s \<noteq> []"
    "hd s \<noteq> colon"
  shows "hex_stream (concat (map (\<lambda>w. tab # w) ws) @ s) = concat (map unhex ws) @ hex_stream s"
  using assms
proof (induction ws)
  case (Cons w ws)
  let ?s = "concat (map (\<lambda>w. tab # w) ws) @ s"
  have w: "w \<noteq> []" "\<forall>c \<in> set w. is_hex c" "length w = 8" using Cons by auto
  have s: "?s = [] \<or> \<not> is_hex (hd ?s)" "\<not> prefix [colon] ?s"
    using Cons not_hex_char by (cases ws; cases s; auto)+
  have "hex_stream (tab # w @ ?s) = unhex w @ hex_stream ?s"
    using hex_stream_tok [OF w(1,2) s(1)] s(2) w(3) not_hex_char by simp
  with Cons show ?case by simp
qed simp

lemma unhex_dw_words:
  assumes "length d = 16" shows "concat (map unhex (dw_words d)) = d"
proof -
  have u: "unhex (fmtX 8 (int (be_val (slice d k (k + 4))))) = slice d k (k + 4)" if "k \<le> 12" for k
    by (rule unhex_word) (use assms that in simp)
  have "concat (map unhex (dw_words d)) =
      slice d 0 4 @ slice d 4 8 @ slice d 8 12 @ slice d 12 16"
    using u [of 0] u [of 4] u [of 8] u [of 12] by (simp add: dw_words_def)
  also have "\<dots> = d"
    using assms by (simp add: slice_append slice_append [of 0] del: slice_0) (simp add: slice_def)
  finally show ?thesis .
qed

lemma hex_stream_dw_line:
  assumes "length d = 16" "0 \<le> addr" "addr < 2 ^ 32"
  shows "hex_stream (dw_line addr d @ s) = d @ hex_stream s"
proof -
  let ?w = "concat (map (\<lambda>w. tab # w) (dw_words d))"
  note f = fmtX8 [OF assms(2,3)]
  then have ne: "fmtX 8 addr \<noteq> []" by auto
  have "hex_stream (dw_line addr d @ s) = hex_stream (fmtX 8 addr @ colon # ?w @ nlcr @ s)"
    by (simp add: dw_line_def)
  also have "\<dots> = hex_stream (?w @ nlcr @ s)"
    using hex_stream_tok [OF ne f(2), of "colon # ?w @ nlcr @ s"] not_hex_char by simp
  also have "\<dots> = concat (map unhex (dw_words d)) @ hex_stream (nlcr @ s)"
    by (rule hex_stream_words) (use dw_words_shape [OF assms(1)] not_hex_char in auto)
  also have "\<dots> = d @ hex_stream s"
    using unhex_dw_words [OF assms(1)] not_hex_char by simp
  finally show ?thesis .
qed

lemma hex_stream_dw_lines:
  assumes "length data mod 16 = 0" "0 \<le> ram" "ram + int (length data) \<le> 2 ^ 32"
  shows "hex_stream (dw_lines ram data @ s) = data @ hex_stream s"
  using assms
proof (induction ram data rule: dw_lines.induct)
  case (2 ram b bs)
  have l: "15 \<le> length bs" and m: "length (drop 15 bs) mod 16 = 0"
    using 2(2) by (auto simp: mod_if [of "Suc (length bs)"] split: if_splits)
  let ?d = "take 16 (b # bs)"
  have d: "length ?d = 16" using l by simp
  have a: "ram < 2 ^ 32" using 2(4) by simp
  have "hex_stream (dw_lines (ram + 16) (drop 15 bs) @ s) = drop 15 bs @ hex_stream s"
    using 2 m l by simp
  with hex_stream_dw_line [OF d 2(3) a] have
    "hex_stream (dw_lines ram (b # bs) @ s) = ?d @ drop 15 bs @ hex_stream s" by simp
  then show ?case by simp
qed simp

lemma hex_stream_render:
  assumes "length data mod 16 = 0" "0 \<le> ram" "ram + int (length data) \<le> 2 ^ 32"
    and "render_dw ram data cmd = Inr reply"
  shows "hex_stream reply = hex_stream cmd @ data"
proof -
  have "reply = cmd @ CHR 0x0A # CHR 0x0D # dw_lines ram data @ dw_prompt"
    using assms by (simp add: render_dw_def split: if_splits)
  then have "hex_stream reply = hex_stream cmd @ hex_stream (dw_lines ram data @ dw_prompt)"
    using hex_stream_split [of "CHR 0x0A" cmd] not_hex_char by simp
  moreover have "hex_stream dw_prompt = []"
    by (simp add: dw_prompt_def hex_stream.simps is_hex_def is_hex_lower_def is_digit_def)
  ultimately show ?thesis using hex_stream_dw_lines [OF assms(1-3)] by simp
qed

subsection \<open>The commands\<close>

text \<open>
  \<open>_inside_repo\<close> resolves symbolic links: \<open>realpath\<close> is the file system's answer and a parameter.
\<close>

definition inside_repo :: "(string \<Rightarrow> string) \<Rightarrow> string \<Rightarrow> string \<Rightarrow> bool" where
  "inside_repo realpath repo_root path =
     (let root = realpath repo_root; p = realpath path in p = root \<or> prefix (root @ ''/'') p)"

record render_args =
  ra_at :: int
  ra_ram :: int
  ra_bytes :: int
  ra_out :: "string option"

text \<open>
  What \<open>cmd_render\<close> leaves behind: a file, whether its report names the forbidden region, and the
  text whose SHA-256 is printed, if one is; or the text on standard output, with its digest on
  standard error.  The file is one write: the temporary beside it, which \<open>os.replace\<close> renames, is
  not a state of its own, and \<open>inside\<close> judges the path that was given and no link at the
  temporary's name.
\<close>

datatype render_out =
    Wrote string bytes "string option" "bytes option"
  | Printed bytes bytes

definition read_at :: "bytes \<Rightarrow> int \<Rightarrow> int \<Rightarrow> bytes" where
  "read_at f at n = (if n < 0 then drop (nat at) f else slice f (nat at) (nat at + nat n))"

definition cmd_render ::
    "(string \<Rightarrow> bool) \<Rightarrow> bytes \<Rightarrow> render_args \<Rightarrow> fw_fail + render_out" where
  "cmd_render inside dump args =
     (if ra_bytes args mod 16 \<noteq> 0 then Inl (Bytes_not_16 (ra_bytes args))
      else if ra_at args < 0 then Inl (Seek_error (ra_at args))
      else
        let data = read_at dump (ra_at args) (ra_bytes args) in
        if int (length data) \<noteq> ra_bytes args then Inl (Dump_short (length data) (ra_at args))
        else case render_dw (ra_ram args) data (dw_cmd (ra_ram args) (ra_bytes args)) of
          Inl e \<Rightarrow> Inl e
        | Inr reply \<Rightarrow>
            (let hit = overlaps_forbidden (ra_at args) (ra_bytes args);
                 out = (case ra_out args of None \<Rightarrow> [] | Some p \<Rightarrow> p) in
             case hit of
               None \<Rightarrow> Inr (if out \<noteq> [] then Wrote out reply None (Some reply) else Printed reply reply)
             | Some (lo, hi, why) \<Rightarrow>
                 (if out = [] then Inl (Needs_out lo hi why)
                  else if inside out then Inl (Out_inside_repo out lo hi why)
                  else Inr (Wrote out reply (Some why) None))))"

text \<open>
  \<open>cmd_scan\<close> over the list of paths the command names: the files are a partial map (None is an
  \<open>OSError\<close>, which skips the file).  The result is the list of findings and the exit status.
\<close>

definition cmd_scan ::
    "(string \<Rightarrow> bytes option) \<Rightarrow> bytes \<Rightarrow> string list option \<Rightarrow> string \<Rightarrow> string option \<Rightarrow>
       fw_fail + (string \<times> channel \<times> nat \<times> int \<times> nat) list \<times> int" where
  "cmd_scan files dump sweep sweep_dir file =
     (case scan_probes dump FORBIDDEN of
        Inl e \<Rightarrow> Inl e
      | Inr probes \<Rightarrow>
          (case (case sweep of
                   Some paths \<Rightarrow> if paths = [] then Inl (Empty_sweep sweep_dir) else Inr paths
                 | None \<Rightarrow> (case file of
                              None \<Rightarrow> Inl Needs_file
                            | Some p \<Rightarrow> if p = [] then Inl Needs_file else Inr [p])) of
             Inl e \<Rightarrow> Inl e
           | Inr paths \<Rightarrow>
               (let hits = concat (map (\<lambda>p. case files p of
                               None \<Rightarrow> []
                             | Some blob \<Rightarrow> map (\<lambda>h. (p, h)) (scan_capture blob probes)) paths)
                in Inr (hits, if hits \<noteq> [] then 1 else 0))))"

definition cmd_normalise :: "bytes \<Rightarrow> string option \<Rightarrow> fw_fail + (string \<times> bytes) + bytes" where
  "cmd_normalise contents out =
     (case normalise_dw contents of
        Inl e \<Rightarrow> Inl e
      | Inr data \<Rightarrow> Inr (case out of
                          None \<Rightarrow> Inr data
                        | Some p \<Rightarrow> if p = [] then Inr data else Inl (p, data)))"

lemma hex_stream_join:
  assumes "\<not> is_hex c" "c \<noteq> colon"
  shows "hex_stream (join [c] ls) = concat (map hex_stream ls)"
  by (induction "[c]" ls rule: join.induct) (simp_all add: hex_stream_split [OF assms])

lemma hex_stream_word:
  assumes "length w = 8" "\<forall>c \<in> set w. is_hex c"
  shows "hex_stream w = unhex w"
  using hex_stream_tok [of w "[]"] assms by (cases w) auto

lemma hex_stream_data_line: "length d = 16 \<Longrightarrow> hex_stream (data_line d) = d"
proof -
  assume d: "length d = 16"
  have "map hex_stream (dw_words d) = map unhex (dw_words d)"
    using dw_words_shape(2) [OF d] by (auto intro: hex_stream_word)
  with unhex_dw_words [OF d] have "concat (map hex_stream (dw_words d)) = d" by (simp only:)
  then show ?thesis
    using hex_stream_join [of tab "dw_words d"] not_hex_char by (simp add: data_line_def)
qed

lemma hex_stream_normalised:
  assumes "length data mod 16 = 0"
  shows "hex_stream (join [CHR 0x0A] (map data_line (chunks 15 data)) @ [CHR 0x0A]) = data"
proof -
  have "map (\<lambda>d. hex_stream (data_line d)) (chunks 15 data) = chunks 15 data"
    using length_in_chunks [of _ 15 data] assms by (auto intro!: map_idI hex_stream_data_line)
  then have "concat (map hex_stream (map data_line (chunks 15 data))) = data"
    by (simp add: comp_def concat_chunks)
  then show ?thesis
    using hex_stream_split [of "CHR 0x0A" _ "[]"] not_hex_char by (simp add: hex_stream_join)
qed

lemma render_dw_Inr:
  assumes "length data mod 16 = 0" "0 \<le> ram" "ram < 2 ^ 32"
  shows "\<exists>reply. render_dw ram data (dw_cmd ram (int (length data))) = Inr reply"
  using assms dw_cmd_ascii(1) [OF assms(2,3)] by (simp add: render_dw_def)

subsection \<open>Properties\<close>

text \<open>
  C1. Containment of a rendering: whenever \<open>cmd_render\<close> succeeds on a window that overlaps the
  range that may not be published, the text is not printed, it is written to a path that is not
  inside the repository, and no digest of it is printed.
\<close>

theorem render_contained:
  assumes "cmd_render inside dump args = Inr r"
    and "{ra_at args..<ra_at args + ra_bytes args} \<inter> H601 \<noteq> {}"
  shows "\<exists>path reply. r = Wrote path reply (Some H601_why) None \<and> \<not> inside path"
proof -
  from assms(2) have "0 < ra_bytes args" by auto
  from overlaps_forbidden_iff [OF this, of "ra_at args"] assms(2)
  have "overlaps_forbidden (ra_at args) (ra_bytes args) = Some (0x6000, 0x8000, H601_why)"
    by (auto simp: overlaps_forbidden_arith split: if_splits)
  with assms(1) show ?thesis
    by (auto simp: cmd_render_def Let_def split: if_splits sum.splits option.splits)
qed

theorem render_contained_witness:
  "\<exists>reply. cmd_render (inside_repo id ''/repo'') (replicate 0x6020 (CHR ''x''))
     \<lparr>ra_at = 0x6000, ra_ram = 0x80A00000, ra_bytes = 0x20, ra_out = Some ''/tmp/w''\<rparr>
   = Inr (Wrote ''/tmp/w'' reply (Some H601_why) None)"
proof -
  let ?args = "\<lparr>ra_at = 0x6000, ra_ram = 0x80A00000, ra_bytes = 0x20, ra_out = Some ''/tmp/w''\<rparr>"
  let ?in = "inside_repo id ''/repo''" and ?d = "replicate 0x6020 (CHR ''x'')"
  have d: "read_at ?d 0x6000 0x20 = replicate 0x20 (CHR ''x'')"
    by (simp only: read_at_def slice_def drop_replicate take_replicate) simp
  obtain reply where "render_dw 0x80A00000 (replicate 0x20 (CHR ''x'')) (dw_cmd 0x80A00000 0x20) = Inr reply"
    using render_dw_Inr [of "replicate 0x20 (CHR ''x'')" "0x80A00000"]
    by auto
  then have r: "cmd_render ?in ?d ?args = Inr (Wrote ''/tmp/w'' reply (Some H601_why) None)"
    by (simp add: cmd_render_def d overlaps_forbidden_arith inside_repo_def)
  have "{ra_at ?args..<ra_at ?args + ra_bytes ?args} \<inter> H601 \<noteq> {}"
    by (auto simp: H601_def)
  from render_contained [OF r this] r show ?thesis by blast
qed

text \<open>
  The normal form of a \<open>DW\<close> reply is its data and nothing else: the replies rendered for two
  windows at any two RAM addresses both normalise, and their normal forms are equal exactly when
  the windows hold the same bytes.
\<close>

theorem normalise_compares_data:
  assumes "length d1 mod 16 = 0" "d1 \<noteq> []" "0 \<le> r1" "r1 + int (length d1) \<le> 2 ^ 32"
    and "length d2 mod 16 = 0" "d2 \<noteq> []" "0 \<le> r2" "r2 + int (length d2) \<le> 2 ^ 32"
    and "render_dw r1 d1 (dw_cmd r1 (int (length d1))) = Inr t1"
    and "render_dw r2 d2 (dw_cmd r2 (int (length d2))) = Inr t2"
  shows "\<exists>n1 n2. normalise_dw t1 = Inr n1 \<and> normalise_dw t2 = Inr n2 \<and> (n1 = n2 \<longleftrightarrow> d1 = d2)"
  using normalise_render [OF assms(1-4,9)] normalise_render [OF assms(5-8,10)]
    hex_stream_normalised [OF assms(1)] hex_stream_normalised [OF assms(5)] by metis

theorem normalise_compares_data_witness:
  "\<exists>t1 t2 n1 n2.
     render_dw 0x80A00000 ''0123456789abcdef'' (dw_cmd 0x80A00000 16) = Inr t1 \<and>
     render_dw 0x80A00200 ''0123456789abcdef'' (dw_cmd 0x80A00200 16) = Inr t2 \<and>
     normalise_dw t1 = Inr n1 \<and> normalise_dw t2 = Inr n2 \<and> n1 = n2"
proof -
  let ?d = "''0123456789abcdef''"
  obtain t1 where t1: "render_dw 0x80A00000 ?d (dw_cmd 0x80A00000 (int (length ?d))) = Inr t1"
    using render_dw_Inr [of ?d "0x80A00000"] by auto
  obtain t2 where t2: "render_dw 0x80A00200 ?d (dw_cmd 0x80A00200 (int (length ?d))) = Inr t2"
    using render_dw_Inr [of ?d "0x80A00200"] by auto
  have "\<exists>n1 n2. normalise_dw t1 = Inr n1 \<and> normalise_dw t2 = Inr n2 \<and> (n1 = n2 \<longleftrightarrow> ?d = ?d)"
    by (rule normalise_compares_data [OF _ _ _ _ _ _ _ _ t1 t2]) simp_all
  moreover have "int (length ?d) = 16" by simp
  ultimately show ?thesis using t1 t2 by metis
qed

text \<open>
  C2. A committed capture cannot carry the range unseen: if the loader's \<open>DW\<close> reply for a RAM
  window, whose data holds sixteen bytes of the forbidden range with at least four distinct
  values, is one of the files \<open>cmd_scan\<close> reads, the scan ends with status 1 and reports, on the
  hex channel, a run that covers those sixteen bytes.
\<close>

theorem scan_detects_capture:
  assumes "0x6000 \<le> at" "at + 16 \<le> 0x8000" "probe_ok (slice dump (nat at) (nat at + 16))"
    and "data = pre @ slice dump (nat at) (nat at + 16) @ post"
    and "length data mod 16 = 0" "0 \<le> ram" "ram + int (length data) \<le> 2 ^ 32"
    and "render_dw ram data cmd = Inr capture"
    and "path \<in> set paths" "files path = Some capture"
  shows "\<exists>hits off fl n. cmd_scan files dump (Some paths) dir None = Inr (hits, 1) \<and>
     (path, Hex, off, fl, n) \<in> set hits \<and>
     off \<le> length (hex_stream cmd @ pre) \<and> length (hex_stream cmd @ pre) + 16 \<le> off + n"
proof -
  have W: "SCAN_WINDOW = 16" by (simp add: SCAN_WINDOW_def)
  obtain probes at' where p: "scan_probes dump FORBIDDEN = Inr probes"
    "(slice dump (nat at) (nat at + 16), at') \<in> set probes"
    using scan_probes_complete [of at dump] assms(1-3) by (auto simp: W)
  have "hex_stream capture = (hex_stream cmd @ pre) @ slice dump (nat at) (nat at + 16) @ post"
    using hex_stream_render [OF assms(5-8)] assms(4) by simp
  from scan_bytes_detects [OF p this] obtain off fl n where
    r: "(off, fl, n) \<in> set (scan_bytes (hex_stream capture) probes)"
      "off \<le> length (hex_stream cmd @ pre)" "length (hex_stream cmd @ pre) + 16 \<le> off + n"
    by (auto simp: W)
  let ?hits = "concat (map (\<lambda>p. case files p of None \<Rightarrow> []
      | Some blob \<Rightarrow> map (\<lambda>h. (p, h)) (scan_capture blob probes)) paths)"
  from r(1) have "(Hex, off, fl, n) \<in> set (scan_capture capture probes)"
    unfolding scan_capture_def by force
  with assms(9,10) have "(path, Hex, off, fl, n) \<in> set ?hits" by force
  moreover from this have "?hits \<noteq> []" by (metis empty_iff list.set(1))
  moreover have "paths \<noteq> []" using assms(9) by auto
  ultimately have "cmd_scan files dump (Some paths) dir None = Inr (?hits, 1)"
    "(path, Hex, off, fl, n) \<in> set ?hits"
    using p(1) by (simp_all only: cmd_scan_def Let_def sum.case option.case if_False if_True not_False_eq_True)
  with r(2,3) show ?thesis by blast
qed

theorem scan_detects_capture_witness:
  "\<exists>capture hits off fl n.
     cmd_scan [''bench/x.log'' \<mapsto> capture] (replicate 0x6000 (CHR ''-'') @ ''0123456789abcdef'')
       (Some [''bench/x.log'']) ''bench'' None = Inr (hits, 1) \<and>
     (''bench/x.log'', Hex, off, fl, n) \<in> set hits"
proof -
  let ?w = "''0123456789abcdef''"
  let ?dump = "replicate 0x6000 (CHR ''-'') @ ?w"
  have s: "slice ?dump (nat 0x6000) (nat 0x6000 + 16) = ?w"
    by (simp only: slice_def drop_append drop_replicate length_replicate) simp
  have ok: "probe_ok ?w" by (simp add: probe_ok_def SCAN_WINDOW_def SCAN_MIN_DISTINCT_def)
  obtain capture where c: "render_dw 0x80A00000 ?w (dw_cmd 0x80A00000 16) = Inr capture"
    using render_dw_Inr [of ?w "0x80A00000"] by auto
  let ?files = "[''bench/x.log'' \<mapsto> capture]"
  have h: "probe_ok (slice ?dump (nat 0x6000) (nat 0x6000 + 16))"
    "?w = [] @ slice ?dump (nat 0x6000) (nat 0x6000 + 16) @ []"
    by (simp_all only: s ok append_Nil append_Nil2)
  have r: "(0x80A00000 :: int) + int (length ?w) \<le> 2 ^ 32" by simp
  have f: "''bench/x.log'' \<in> set [''bench/x.log'']" "?files ''bench/x.log'' = Some capture" by simp_all
  have "\<exists>hits off fl n. cmd_scan ?files ?dump (Some [''bench/x.log'']) ''bench'' None = Inr (hits, 1) \<and>
     (''bench/x.log'', Hex, off, fl, n) \<in> set hits \<and>
     off \<le> length (hex_stream (dw_cmd 0x80A00000 16) @ []) \<and>
     length (hex_stream (dw_cmd 0x80A00000 16) @ []) + 16 \<le> off + n"
    by (rule scan_detects_capture [where at = "0x6000" and pre = "[]" and post = "[]" and dump = ?dump
          and files = ?files, OF _ _ h _ _ r c f])
      simp_all
  then show ?thesis by blast
qed

text \<open>
  The scanner's report is exact: the runs it lists for one file are in increasing order with a
  gap between any two, every byte of a run belongs to an occurrence of a probe, and every
  occurrence of a probe lies inside one run.
\<close>

theorem scan_report_exact:
  assumes "scan_probes dump FORBIDDEN = Inr probes"
  shows "apart (scan_bytes data probes) \<and>
    (\<forall>x. (\<exists>(off, fl, n) \<in> set (scan_bytes data probes). off \<le> x \<and> x < off + n) \<longleftrightarrow>
         (\<exists>i at. hit data probes i at \<and> i \<le> x \<and> x < i + SCAN_WINDOW))"
proof -
  have ne: "\<forall>(w, at) \<in> set probes. w \<noteq> []"
    using scan_probes_inv(2) [OF assms] probe_ok_neq_Nil by blast
  have "\<exists>(off, fl, n) \<in> set (scan_bytes data probes). off \<le> x \<and> x < off + n"
    if "hit data probes i at" "i \<le> x" "x < i + SCAN_WINDOW" for x i at
  proof -
    note cov = scan_bytes_covers [OF ne that(1)] and x = that(2,3)
    obtain off fl n where "(off, fl, n) \<in> set (scan_bytes data probes)" "off \<le> i"
      "i + SCAN_WINDOW \<le> off + n"
      using cov by (auto simp: covers_def)
    moreover from this x have "off \<le> x \<and> x < off + n" by linarith
    ultimately show ?thesis by blast
  qed
  moreover have "\<exists>i at. hit data probes i at \<and> i \<le> x \<and> x < i + SCAN_WINDOW"
    if "(off, fl, n) \<in> set (scan_bytes data probes)" "off \<le> x" "x < off + n" for x off fl n
    using scan_bytes_sound [OF ne that] .
  ultimately show ?thesis using scan_bytes_apart by blast
qed

theorem scan_report_exact_witness:
  "\<exists>probes. scan_probes (replicate 0x6000 (CHR ''-'') @ ''0123456789abcdef'') FORBIDDEN = Inr probes \<and>
     apart (scan_bytes ''aa0123456789abcdefbb'' probes)"
proof -
  let ?dump = "replicate 0x6000 (CHR ''-'') @ ''0123456789abcdef''"
  have "slice ?dump (nat 0x6000) (nat 0x6000 + 16) = ''0123456789abcdef''"
    by (simp only: slice_def drop_append drop_replicate length_replicate) simp
  then obtain probes where "scan_probes ?dump FORBIDDEN = Inr probes"
    using scan_probes_complete [of "0x6000" ?dump]
    by (auto simp: probe_ok_def SCAN_WINDOW_def SCAN_MIN_DISTINCT_def)
  with scan_report_exact [OF this] show ?thesis by blast
qed

end
