(* ===== verification/FlashGuard.thy ===== *)
theory FlashGuard
  imports FlashWin
begin

text \<open>
  \<open>tools/flashguard.py\<close>: which flash ranges may be a destination.  \<open>check\<close> is the blanket verdict,
  \<open>check_unrecoverable\<close> its part that no licence opens, \<open>check_licensed\<close> the narrow gate that
  reads the owner's dated rows.  A \<open>ValueError\<close> is a \<open>guard_error\<close>; a refusal carries its region
  and, where the code appends a sentence to the reason, a \<open>refusal_note\<close> with the sentence's
  arguments.
\<close>

datatype guard_error = Bad_length int | Negative_offset int | No_region string | Bad_digest string

datatype defect = Malformed_row string | Second_yes string

datatype refusal_note =
    Plain | Past_chip int | Leaves_region int int | No_digest | Needs_row string
  | Has_defects nat "defect list" | No_such_row nat string

record refusal =
  rf_lo :: int
  rf_hi :: int
  rf_rid :: string
  rf_why :: string
  rf_note :: refusal_note

definition CHIP_SIZE :: int where "CHIP_SIZE = 0x00400000"

definition loader_why :: string where "loader_why = ''the boot loader (CLAUDE.md Never).  burn() has no lower bound ''
     @ ''(docs/loader-flash-write.md 1); a partial write here is an ''
     @ ''unrecoverable brick and there is no spare unit''"
definition rescue_why :: string where "rescue_why = ''the read-only rescue slot rlxboot-rescue (plan D6).  The stock loader ''
     @ ''scans 0x020000, so this is the one image that still boots when ''
     @ ''0x010000 is broken; the update path never writes it''"

definition OWN_FORBIDDEN :: "(int \<times> int \<times> string \<times> string) list" where
  "OWN_FORBIDDEN = [(0x000000, 0x006000, ''loader'', loader_why),
                    (0x020000, 0x030000, ''rescue'', rescue_why)]"

definition DELEGATED_ID :: string where "DELEGATED_ID = ''H601''"
definition LICENSABLE :: "string list" where "LICENSABLE = [''rescue'']"
definition UNRECOVERABLE :: "string list" where
  "UNRECOVERABLE = [''loader'', DELEGATED_ID, ''off-chip'']"

definition delegated_suffix :: string where
  "delegated_suffix = ''.  Never restored by a reset, never published ''
     @ ''(delegated to tools/flashwin.py)''"

text \<open>\<open>sorted\<close> on the tuples: the lower bounds of the rows differ, so they decide the order.\<close>

definition forbidden_ranges :: "(int \<times> int \<times> string \<times> string) list" where
  "forbidden_ranges =
     sort_key (\<lambda>(lo, hi, rid, why). lo)
       (OWN_FORBIDDEN @ map (\<lambda>(lo, hi, why). (lo, hi, DELEGATED_ID, why @ delegated_suffix)) FORBIDDEN)"

definition region_bounds :: "string \<Rightarrow> guard_error + int \<times> int" where
  "region_bounds rid =
     (case find (\<lambda>(lo, hi, r, why). r = rid) forbidden_ranges of
        None \<Rightarrow> Inl (No_region rid) | Some (lo, hi, r, why) \<Rightarrow> Inr (lo, hi))"

definition range_args :: "int \<Rightarrow> int \<Rightarrow> guard_error option" where
  "range_args at nbytes =
     (if nbytes \<le> 0 then Some (Bad_length nbytes)
      else if at < 0 then Some (Negative_offset at) else None)"

definition off_chip :: "int \<Rightarrow> int \<Rightarrow> refusal" where
  "off_chip at end = \<lparr>rf_lo = at, rf_hi = end, rf_rid = ''off-chip'', rf_why = [],
                      rf_note = Past_chip end\<rparr>"

definition own_hit :: "(string \<Rightarrow> bool) \<Rightarrow> int \<Rightarrow> int \<Rightarrow> refusal option" where
  "own_hit applies at end =
     (case find (\<lambda>(lo, hi, rid, why). applies rid \<and> at < hi \<and> end > lo) OWN_FORBIDDEN of
        None \<Rightarrow> None
      | Some (lo, hi, rid, why) \<Rightarrow>
          Some \<lparr>rf_lo = lo, rf_hi = hi, rf_rid = rid, rf_why = why, rf_note = Plain\<rparr>)"

definition check :: "int \<Rightarrow> int \<Rightarrow> guard_error + refusal option" where
  "check at nbytes =
     (case range_args at nbytes of Some e \<Rightarrow> Inl e
      | None \<Rightarrow>
          (let end = at + nbytes in
           if end > CHIP_SIZE then Inr (Some (off_chip at end))
           else case overlaps_forbidden at nbytes of
             Some (lo, hi, why) \<Rightarrow>
               Inr (Some \<lparr>rf_lo = lo, rf_hi = hi, rf_rid = DELEGATED_ID, rf_why = why, rf_note = Plain\<rparr>)
           | None \<Rightarrow> Inr (own_hit (\<lambda>rid. True) at end)))"

definition check_unrecoverable :: "int \<Rightarrow> int \<Rightarrow> guard_error + refusal option" where
  "check_unrecoverable at nbytes =
     (case range_args at nbytes of Some e \<Rightarrow> Inl e
      | None \<Rightarrow>
          (let end = at + nbytes in
           if end > CHIP_SIZE then Inr (Some (off_chip at end))
           else case overlaps_forbidden at nbytes of
             Some (lo, hi, why) \<Rightarrow>
               Inr (Some \<lparr>rf_lo = lo, rf_hi = hi, rf_rid = DELEGATED_ID, rf_why = why, rf_note = Plain\<rparr>)
           | None \<Rightarrow> Inr (own_hit (\<lambda>rid. rid \<in> set UNRECOVERABLE) at end)))"

definition permitted :: "int \<Rightarrow> int \<Rightarrow> guard_error + bool" where
  "permitted at nbytes =
     (case check at nbytes of Inl e \<Rightarrow> Inl e | Inr r \<Rightarrow> Inr (r = None))"

definition refusal_text :: "int \<Rightarrow> int \<Rightarrow> guard_error + (int \<times> int \<times> int \<times> int \<times> refusal) option" where
  "refusal_text at nbytes =
     (case check at nbytes of Inl e \<Rightarrow> Inl e
      | Inr None \<Rightarrow> Inr None
      | Inr (Some r) \<Rightarrow> Inr (Some (at, nbytes, at, at + nbytes - 1, r)))"

subsection \<open>The licence\<close>

definition is_sha256_hex :: "string \<Rightarrow> bool" where
  "is_sha256_hex s \<longleftrightarrow> length s = 64 \<and> list_all is_hex_lower s"

definition licence_payload :: "int \<Rightarrow> int \<Rightarrow> string \<Rightarrow> string \<Rightarrow> guard_error + string" where
  "licence_payload at nbytes rid digest_hex =
     (if \<not> is_sha256_hex digest_hex then Inl (Bad_digest digest_hex)
      else Inr (''flash-at 0x'' @ fmtX 6 at @ ''+0x'' @ fmtX 6 nbytes @ '' '' @ rid @ '' '' @ digest_hex))"

definition fence_close :: "string \<Rightarrow> string option" where
  "fence_close s =
     (if prefix (CHR 0x0D # CHR 0x0A # ''```'') s then Some (drop 5 s)
      else if prefix (CHR 0x0A # ''```'') s then Some (drop 4 s) else None)"

fun fence_body :: "string \<Rightarrow> (string \<times> string) option" where
  "fence_body [] = None"
| "fence_body (c # s) =
     (case fence_close (c # s) of
        Some r \<Rightarrow> Some ([], r)
      | None \<Rightarrow> map_option (\<lambda>(b, r). (c # b, r)) (fence_body s))"

definition fence_at :: "string \<Rightarrow> (string \<times> string) option" where
  "fence_at s =
     (if prefix ''```owner-yes'' s then
        (let r = drop 12 s; r' = (if prefix [CHR 0x0D] r then tl r else r)
         in if prefix [CHR 0x0A] r' then fence_body (tl r') else None)
      else None)"

lemma fence_close_length: "fence_close s = Some r \<Longrightarrow> length r < length s"
  by (auto simp: fence_close_def split: if_splits dest!: prefix_length_le)

lemma fence_body_length: "fence_body s = Some (b, r) \<Longrightarrow> length r < length s"
  by (induction s arbitrary: b) (auto split: option.splits dest: fence_close_length intro: less_SucI)

lemma fence_at_length: "fence_at s = Some (b, r) \<Longrightarrow> length r < length s"
  by (auto simp: fence_at_def Let_def split: if_splits dest!: fence_body_length)

function fences :: "string \<Rightarrow> string list" where
  "fences s =
     (case fence_at s of
        Some (body, r) \<Rightarrow> body # fences r
      | None \<Rightarrow> (case s of [] \<Rightarrow> [] | c # s' \<Rightarrow> fences s'))"
  by pat_completeness auto
termination
  by (relation "measure length") (auto dest: fence_at_length)

declare fences.simps [simp del]

definition rstrip_cr :: "string \<Rightarrow> string" where
  "rstrip_cr s = rev (dropWhile (\<lambda>c. c = CHR 0x0D) (rev s))"

definition days_in_month :: "nat \<Rightarrow> nat \<Rightarrow> nat" where
  "days_in_month y m =
     (if m = 2 then (if y mod 4 = 0 \<and> (y mod 100 \<noteq> 0 \<or> y mod 400 = 0) then 29 else 28)
      else if m \<in> {4, 6, 9, 11} then 30 else 31)"

definition valid_date :: "string \<Rightarrow> bool" where
  "valid_date s =
     (length s = 10 \<and> list_all is_digit (slice s 0 4) \<and> slice s 4 5 = ''-''
      \<and> list_all is_digit (slice s 5 7) \<and> slice s 7 8 = ''-'' \<and> list_all is_digit (slice s 8 10)
      \<and> (let y = dec_num (slice s 0 4); m = dec_num (slice s 5 7); d = dec_num (slice s 8 10)
         in 1 \<le> y \<and> 1 \<le> m \<and> m \<le> 12 \<and> 1 \<le> d \<and> d \<le> days_in_month y m))"

definition partition_tab :: "string \<Rightarrow> string \<times> bool \<times> string" where
  "partition_tab s = (let a = takeWhile (\<lambda>c. c \<noteq> tab) s; b = dropWhile (\<lambda>c. c \<noteq> tab) s
                      in (a, b \<noteq> [], tl b))"

definition licence_row ::
    "(string \<times> string) list \<times> defect list \<Rightarrow> string \<Rightarrow> (string \<times> string) list \<times> defect list" where
  "licence_row st raw =
     (let (rows, defects) = st; ln = rstrip_cr raw in
      if lstrip ln = [] \<or> prefix ''#'' (lstrip ln) then (rows, defects)
      else let (date, tb, payload) = partition_tab ln in
        if \<not> (tb \<and> payload \<noteq> [] \<and> valid_date date) then (rows, defects @ [Malformed_row ln])
        else if payload \<in> fst ` set rows then (rows, defects @ [Second_yes ln])
        else (rows @ [(payload, date)], defects))"

definition parse_licence :: "string \<Rightarrow> (string \<times> string) list \<times> defect list" where
  "parse_licence txt =
     foldl licence_row ([], []) (concat (map (split_on (CHR 0x0A)) (fences txt)))"

definition licence_grant ::
    "int \<Rightarrow> int \<Rightarrow> string option \<Rightarrow> string \<Rightarrow> guard_error + (string \<times> string) option" where
  "licence_grant at nbytes licence digest_hex =
     (case licence of None \<Rightarrow> Inr None
      | Some txt \<Rightarrow>
         (let (rows, defects) = parse_licence txt in
          if defects \<noteq> [] then Inr None
          else case check at nbytes of Inl e \<Rightarrow> Inl e
            | Inr None \<Rightarrow> Inr None
            | Inr (Some r) \<Rightarrow>
               (if rf_rid r \<notin> set LICENSABLE then Inr None
                else case licence_payload at nbytes (rf_rid r) digest_hex of Inl e \<Rightarrow> Inl e
                  | Inr want \<Rightarrow> Inr (case map_of rows want of None \<Rightarrow> None
                                    | Some date \<Rightarrow> Some (date, want)))))"

definition check_licensed ::
    "int \<Rightarrow> int \<Rightarrow> string option \<Rightarrow> string option \<Rightarrow> guard_error + refusal option" where
  "check_licensed at nbytes licence digest_hex =
     (case check at nbytes of Inl e \<Rightarrow> Inl e
      | Inr None \<Rightarrow> Inr None
      | Inr (Some r) \<Rightarrow>
         (if rf_rid r \<notin> set LICENSABLE then Inr (Some r)
          else case region_bounds (rf_rid r) of Inl e \<Rightarrow> Inl e
          | Inr (lo, hi) \<Rightarrow>
            (if \<not> (lo \<le> at \<and> at + nbytes \<le> hi) then Inr (Some (r\<lparr>rf_note := Leaves_region lo hi\<rparr>))
             else case digest_hex of None \<Rightarrow> Inr (Some (r\<lparr>rf_note := No_digest\<rparr>))
             | Some dig \<Rightarrow>
               (case licence_payload at nbytes (rf_rid r) dig of Inl e \<Rightarrow> Inl e
                | Inr want \<Rightarrow>
                  (case licence of None \<Rightarrow> Inr (Some (r\<lparr>rf_note := Needs_row want\<rparr>))
                   | Some txt \<Rightarrow>
                     (let (rows, defects) = parse_licence txt in
                      if defects \<noteq> [] then Inr (Some (r\<lparr>rf_note := Has_defects (length defects) (take 2 defects)\<rparr>))
                      else if want \<notin> fst ` set rows
                      then Inr (Some (r\<lparr>rf_note := No_such_row (length rows) want\<rparr>))
                      else Inr None))))))"

subsection \<open>The commands\<close>

definition cmd_check :: "int \<Rightarrow> int \<Rightarrow> int" where
  "cmd_check at nbytes = (case check at nbytes of Inl e \<Rightarrow> 3 | Inr None \<Rightarrow> 0 | Inr (Some r) \<Rightarrow> 1)"

text \<open>
  \<open>cmd_licence\<close>: \<open>files\<close> is the decoded text of the regular file a path names, None when there is
  none; \<open>owner_yes\<close> is the option's argument, empty when it is not given.
\<close>

datatype licence_out =
    Die_no_file string | Die_input guard_error | Refused_by refusal | Permitted_plain
  | Permitted_under string string

definition cmd_licence ::
    "(string \<Rightarrow> string option) \<Rightarrow> int \<Rightarrow> int \<Rightarrow> string \<Rightarrow> string \<Rightarrow> licence_out \<times> int" where
  "cmd_licence files at nbytes sha owner_yes =
     (if owner_yes \<noteq> [] \<and> files owner_yes = None then (Die_no_file owner_yes, 3)
      else let txt = (if owner_yes \<noteq> [] then files owner_yes else None) in
        (case check_licensed at nbytes txt (Some sha) of
           Inl e \<Rightarrow> (Die_input e, 3)
         | Inr (Some r) \<Rightarrow> (Refused_by r, 1)
         | Inr None \<Rightarrow>
             (case licence_grant at nbytes txt sha of
                Inr (Some (date, row)) \<Rightarrow> (Permitted_under date row, 0)
              | _ \<Rightarrow> (Permitted_plain, 0))))"

text \<open>\<open>cmd_table\<close>: the rows it prints, the regions, the ruling and one probe per neighbour.\<close>

definition NEIGHBOURS :: "(int \<times> int) list" where
  "NEIGHBOURS = [(0x005000, 0x1000), (0x008000, 0x1000), (0x010000, 0x10000), (0x030000, 0x10000),
                 (0x060000, 0x10000), (0x3F0000, 0x200), (0x3FFE00, 0x200)]"

definition table_ruling :: "(int \<times> int \<times> string \<times> bool) list" where
  "table_ruling = map (\<lambda>(lo, hi, rid, why). (lo, hi - 1, rid, rid \<in> set LICENSABLE)) forbidden_ranges"

definition table_probes :: "(int \<times> int \<times> bool) list" where
  "table_probes = map (\<lambda>(at, n). (at, n, check at n = Inr None)) NEIGHBOURS"

definition cmd_table ::
    "(int \<times> int \<times> string \<times> string) list \<times> (int \<times> int \<times> string \<times> bool) list \<times> (int \<times> int \<times> bool) list \<times> int" where
  "cmd_table = (map (\<lambda>(lo, hi, rid, why). (lo, hi - 1, rid, why)) forbidden_ranges,
                table_ruling, table_probes, 0)"

subsection \<open>The permitted set\<close>

definition UNREC_SET :: "int set" where
  "UNREC_SET = {..<0x8000} \<union> {0x400000..}"

definition BARRED :: "int set" where
  "BARRED = UNREC_SET \<union> {0x20000..<0x30000}"

lemmas guard_tables [guard_simps] =
  OWN_FORBIDDEN_def CHIP_SIZE_def UNRECOVERABLE_def DELEGATED_ID_def LICENSABLE_def
  own_hit_def off_chip_def range_args_def overlaps_forbidden_arith

lemma int_disjoint [range_simps]:
  "{a..<b :: int} \<inter> {lo..<hi} = {} \<longleftrightarrow> \<not> max a lo < min b hi"
  by auto

lemma int_disjoint_below [range_simps]: "{a..<b :: int} \<inter> {..<hi} = {} \<longleftrightarrow> \<not> a < min b hi"
  by (auto simp: disjoint_iff)

lemma int_disjoint_above [range_simps]: "{a..<b :: int} \<inter> {lo..} = {} \<longleftrightarrow> \<not> max a lo < b"
proof
  show "{a..<b} \<inter> {lo..} = {} \<Longrightarrow> \<not> max a lo < b"
    by (metis Int_iff atLeastLessThan_iff atLeast_iff empty_iff max.cobounded1 max.cobounded2)
qed auto

lemma UNREC_arith:
  "0 < n \<Longrightarrow> {at..<at + n} \<inter> UNREC_SET = {} \<longleftrightarrow> 0x8000 \<le> at \<and> at + n \<le> 0x400000"
  by (auto simp: UNREC_SET_def Int_Un_distrib int_disjoint_below int_disjoint_above)

lemma BARRED_arith:
  "0 < n \<Longrightarrow> {at..<at + n} \<inter> BARRED = {} \<longleftrightarrow>
     0x8000 \<le> at \<and> at + n \<le> 0x400000 \<and> (at + n \<le> 0x20000 \<or> 0x30000 \<le> at)"
  by (auto simp: BARRED_def Int_Un_distrib UNREC_arith int_disjoint)

lemma check_arith:
  "check at n = Inr None \<longleftrightarrow>
     0 < n \<and> 0x8000 \<le> at \<and> at + n \<le> 0x400000 \<and> (at + n \<le> 0x20000 \<or> 0x30000 \<le> at)"
  by (auto simp: check_def guard_simps Let_def)

lemma check_unrecoverable_arith:
  "check_unrecoverable at n = Inr None \<longleftrightarrow> 0 < n \<and> 0x8000 \<le> at \<and> at + n \<le> 0x400000"
  by (auto simp: check_unrecoverable_def guard_simps Let_def)

lemma check_rid:
  "check at n = Inr (Some r) \<Longrightarrow> 0 < n \<and> 0 \<le> at \<and>
     (if rf_rid r = ''rescue'' then 0x8000 \<le> at \<and> at + n \<le> 0x400000 \<and> at < 0x30000 \<and> 0x20000 < at + n
      else rf_rid r \<in> set UNRECOVERABLE \<and> \<not> {at..<at + n} \<inter> UNREC_SET = {})"
  by (auto simp: check_def guard_simps Let_def UNREC_arith split: if_splits)

lemma check_Inl: "check at n = Inl e \<longleftrightarrow>
     (n \<le> 0 \<and> e = Bad_length n) \<or> (0 < n \<and> at < 0 \<and> e = Negative_offset at)"
  by (auto simp: check_def guard_simps Let_def)

lemma check_unrecoverable_Inl: "check_unrecoverable at n = Inl e \<longleftrightarrow>
     (n \<le> 0 \<and> e = Bad_length n) \<or> (0 < n \<and> at < 0 \<and> e = Negative_offset at)"
  by (auto simp: check_unrecoverable_def guard_simps Let_def)

subsection \<open>The contract of a range verdict\<close>

locale region_guard =
  fixes verdict :: "int \<Rightarrow> int \<Rightarrow> guard_error + refusal option"
    and barred :: "int set"
  assumes permits: "verdict at n = Inr None \<longleftrightarrow> 0 < n \<and> 0 \<le> at \<and> {at..<at + n} \<inter> barred = {}"
    and refuses: "(\<exists>e. verdict at n = Inl e) \<longleftrightarrow> n \<le> 0 \<or> at < 0"
begin

lemma pointwise:
  "0 < n \<Longrightarrow> verdict at n = Inr None \<longleftrightarrow> (\<forall>x \<in> {at..<at + n}. verdict x 1 = Inr None)"
  by (auto simp: permits disjoint_iff)

lemma sub_range:
  "verdict at n = Inr None \<Longrightarrow> at \<le> at' \<Longrightarrow> 0 < n' \<Longrightarrow> at' + n' \<le> at + n \<Longrightarrow> verdict at' n' = Inr None"
  by (auto simp: permits disjoint_iff)

lemma split_range:
  "0 < n \<Longrightarrow> 0 < m \<Longrightarrow>
   verdict at (n + m) = Inr None \<longleftrightarrow> verdict at n = Inr None \<and> verdict (at + n) m = Inr None"
proof -
  assume "0 < n" "0 < m"
  then have "{at..<at + (n + m)} = {at..<at + n} \<union> {at + n..<at + n + m}" by auto
  with \<open>0 < n\<close> \<open>0 < m\<close> show ?thesis by (auto simp: permits Int_Un_distrib2)
qed

lemma refused: "0 < n \<Longrightarrow> 0 \<le> at \<Longrightarrow> {at..<at + n} \<inter> barred \<noteq> {} \<Longrightarrow> \<exists>r. verdict at n = Inr (Some r)"
proof -
  assume a: "0 < n" "0 \<le> at" "{at..<at + n} \<inter> barred \<noteq> {}"
  then obtain v where "verdict at n = Inr v"
    using refuses [of at n] by (cases "verdict at n") auto
  moreover have "v \<noteq> None" using a permits [of at n] calculation by auto
  ultimately show ?thesis by auto
qed

end

interpretation blanket: region_guard check BARRED
proof
  fix at n
  show "check at n = Inr None \<longleftrightarrow> 0 < n \<and> 0 \<le> at \<and> {at..<at + n} \<inter> BARRED = {}"
    using BARRED_arith [of n at] by (auto simp: check_arith)
  show "(\<exists>e. check at n = Inl e) \<longleftrightarrow> n \<le> 0 \<or> at < 0"
    by (cases "n \<le> 0") (auto simp: check_Inl)
qed

interpretation unrec: region_guard check_unrecoverable UNREC_SET
proof
  fix at n
  show "check_unrecoverable at n = Inr None \<longleftrightarrow> 0 < n \<and> 0 \<le> at \<and> {at..<at + n} \<inter> UNREC_SET = {}"
    using UNREC_arith [of n at] by (auto simp: check_unrecoverable_arith)
  show "(\<exists>e. check_unrecoverable at n = Inl e) \<longleftrightarrow> n \<le> 0 \<or> at < 0"
    by (cases "n \<le> 0") (auto simp: check_unrecoverable_Inl)
qed

subsection \<open>What a licence can do\<close>

lemma rescue_bounds: "region_bounds ''rescue'' = Inr (0x20000, 0x30000)"
  by (simp add: region_bounds_def forbidden_ranges_def OWN_FORBIDDEN_def FORBIDDEN_def DELEGATED_ID_def)

lemma check_licensed_iff:
  "check_licensed at n licence digest = Inr None \<longleftrightarrow>
     check at n = Inr None \<or>
     (0 < n \<and> 0x20000 \<le> at \<and> at + n \<le> 0x30000 \<and>
      (\<exists>txt d want. licence = Some txt \<and> digest = Some d \<and>
         licence_payload at n ''rescue'' d = Inr want \<and>
         snd (parse_licence txt) = [] \<and> want \<in> fst ` set (fst (parse_licence txt))))"
proof (cases "0 < n \<and> 0x20000 \<le> at \<and> at + n \<le> 0x30000")
  case True
  then have c: "check at n = Inr (Some \<lparr>rf_lo = 0x20000, rf_hi = 0x30000, rf_rid = ''rescue'',
      rf_why = rescue_why, rf_note = Plain\<rparr>)"
    by (auto simp: check_def guard_simps Let_def)
  have b: "region_bounds ''rescue'' = Inr (0x20000, 0x30000)"
    by (rule rescue_bounds)
  show ?thesis
    using True by (auto simp: check_licensed_def c b LICENSABLE_def Let_def split_beta
        split: option.splits sum.splits)
next
  case False
  have b: "region_bounds ''rescue'' = Inr (0x20000, 0x30000)"
    by (rule rescue_bounds)
  show ?thesis
  proof (cases "check at n")
    case (Inr v)
    show ?thesis
    proof (cases v)
      case (Some r)
      with Inr check_rid [of at n r] False show ?thesis
        by (auto simp: check_licensed_def b LICENSABLE_def)
    qed (use Inr False in \<open>auto simp: check_licensed_def\<close>)
  qed (use False in \<open>auto simp: check_licensed_def\<close>)
qed

subsection \<open>Reading a licence file back\<close>

abbreviation backtick :: char where "backtick \<equiv> CHR 0x60"

definition row_text :: "string \<times> string \<Rightarrow> string" where
  "row_text row = (let (payload, date) = row in date @ tab # payload)"

definition licence_file :: "string \<Rightarrow> (string \<times> string) list \<Rightarrow> string" where
  "licence_file pre rows =
     pre @ ''```owner-yes'' @ CHR 0x0A # join [CHR 0x0A] (map row_text rows) @ CHR 0x0A # ''```''"

definition good_row :: "string \<times> string \<Rightarrow> bool" where
  "good_row row \<longleftrightarrow> fst row \<noteq> [] \<and> valid_date (snd row) \<and>
     set (fst row) \<inter> {backtick, CHR 0x0A, CHR 0x0D} = {}"

lemma fence_body_clean:
  assumes "set body \<inter> {backtick, CHR 0x0D} = {}"
  shows "fence_body (body @ CHR 0x0A # ''```'' @ r) = Some (body, r)"
  using assms
proof (induction body)
  case Nil
  then show ?case by (simp add: fence_close_def)
next
  case (Cons c body)
  then have "fence_close ((c # body) @ CHR 0x0A # ''```'' @ r) = None"
    by (cases body) (auto simp: fence_close_def)
  with Cons show ?case by simp
qed

lemma fences_skip: "backtick \<notin> set pre \<Longrightarrow> fences (pre @ s) = fences s"
proof (induction pre)
  case (Cons c pre)
  then have "fence_at ((c # pre) @ s) = None" by (simp add: fence_at_def)
  with Cons show ?case by (simp add: fences.simps [of "c # pre @ s"])
qed simp

lemma fences_Nil [simp]: "fences [] = []"
  by (subst fences.simps) (simp add: fence_at_def)

lemma fences_one:
  assumes "backtick \<notin> set pre" "set body \<inter> {backtick, CHR 0x0D} = {}"
  shows "fences (pre @ ''```owner-yes'' @ CHR 0x0A # body @ CHR 0x0A # ''```'') = [body]"
proof -
  let ?s = "''```owner-yes'' @ CHR 0x0A # body @ CHR 0x0A # ''```''"
  have "fence_at ?s = Some (body, [])"
    using fence_body_clean [OF assms(2), of "[]"] by (simp add: fence_at_def Let_def)
  then have "fences ?s = [body]" by (subst fences.simps) simp
  then show ?thesis using fences_skip [OF assms(1), of ?s] by (rule trans [rotated])
qed

lemma valid_date_chars:
  assumes "valid_date d" "c \<in> set d"
  shows "is_digit c \<or> c = CHR ''-''"
proof -
  have "d = slice d 0 4 @ slice d 4 5 @ slice d 5 7 @ slice d 7 8 @ slice d 8 10"
  proof -
    have "length d = 10" using assms(1) by (simp add: valid_date_def)
    then have "slice d 0 10 = d" by simp
    then show ?thesis by (simp add: slice_append del: slice_0)
  qed
  with assms(2) have "c \<in> set (slice d 0 4) \<union> set (slice d 4 5) \<union> set (slice d 5 7)
      \<union> set (slice d 7 8) \<union> set (slice d 8 10)"
    by (metis Un_iff set_append)
  with assms(1) show ?thesis by (auto simp: valid_date_def list_all_iff)
qed

lemma digit_class: "is_digit c \<Longrightarrow> c \<notin> {tab, CHR 0x0A, CHR 0x0D, backtick, CHR ''#''} \<and> \<not> py_space c"
  by (auto simp: is_digit_def py_space_def Let_def)

lemma row_text_chars:
  assumes "good_row row"
  shows "set (row_text row) \<inter> {backtick, CHR 0x0A, CHR 0x0D} = {}"
  using assms digit_class valid_date_chars [of "snd row"]
  by (auto simp: row_text_def good_row_def split_beta)

lemma rstrip_cr_id: "CHR 0x0D \<notin> set s \<Longrightarrow> rstrip_cr s = s"
  by (cases "rev s") (auto simp: rstrip_cr_def)

lemma partition_tab_app: "tab \<notin> set a \<Longrightarrow> partition_tab (a @ tab # b) = (a, True, b)"
  by (induction a) (auto simp: partition_tab_def Let_def)

lemma licence_row_good:
  assumes "good_row row" "fst row \<notin> fst ` set rows"
  shows "licence_row (rows, ds) (row_text row) = (rows @ [row], ds)"
proof -
  obtain payload date where row: "row = (payload, date)" by fastforce
  have d: "valid_date date" and p: "payload \<noteq> []" using assms(1) by (auto simp: row good_row_def)
  have "length date = 10" "list_all is_digit (slice date 0 4)" using d by (auto simp: valid_date_def)
  then obtain c cs where date: "date = c # cs" and c: "is_digit c" by (cases date) auto
  have "tab \<notin> set date" using valid_date_chars [OF d] digit_class by fastforce
  then have pt: "partition_tab (date @ tab # payload) = (date, True, payload)"
    by (rule partition_tab_app)
  have "rstrip_cr (row_text row) = date @ tab # payload"
    using row_text_chars [OF assms(1)] by (subst rstrip_cr_id) (auto simp: row row_text_def)
  moreover have "lstrip (date @ tab # payload) = date @ tab # payload" "c \<noteq> CHR ''#''"
    using digit_class [OF c] by (auto simp: date lstrip_def)
  ultimately show ?thesis
    using pt d p assms(2) by (simp add: licence_row_def row date)
qed

lemma licence_rows_good:
  assumes "list_all good_row rows" "distinct (map fst (rows0 @ rows))"
  shows "foldl licence_row (rows0, ds) (map row_text rows) = (rows0 @ rows, ds)"
  using assms
proof (induction rows arbitrary: rows0)
  case (Cons row rows)
  then have "licence_row (rows0, ds) (row_text row) = (rows0 @ [row], ds)"
    by (intro licence_row_good) auto
  with Cons.IH [of "rows0 @ [row]"] Cons.prems show ?case by simp
qed simp

lemma parse_licence_file':
  assumes "backtick \<notin> set pre" "rows \<noteq> []" "list_all good_row rows" "distinct (map fst rows)"
  shows "parse_licence (licence_file pre rows) = (rows, [])"
proof -
  let ?ls = "map row_text rows"
  have c: "\<forall>l \<in> set ?ls. set l \<inter> {backtick, CHR 0x0A, CHR 0x0D} = {}"
    using assms(3) row_text_chars by (auto simp: list_all_iff)
  have "set (join [CHR 0x0A] ls) \<subseteq> insert (CHR 0x0A) (\<Union>l \<in> set ls. set l)" for ls :: "string list"
    by (induction "[CHR 0x0A]" ls rule: join.induct) auto
  with c have "set (join [CHR 0x0A] ?ls) \<inter> {backtick, CHR 0x0D} = {}" by fastforce
  from fences_one [OF assms(1) this] have "fences (licence_file pre rows) = [join [CHR 0x0A] ?ls]"
    by (simp only: licence_file_def)
  moreover have "split_on (CHR 0x0A) (join [CHR 0x0A] ?ls) = ?ls"
    using c assms(2) by (intro split_on_join) auto
  ultimately show ?thesis
    using licence_rows_good [of rows "[]" "[]"] assms by (simp add: parse_licence_def)
qed

lemma licence_payload_inj:
  assumes "licence_payload a n rid d = Inr w" "licence_payload a' n' rid d' = Inr w"
    and "0 \<le> a" "0 \<le> a'" "0 \<le> n" "0 \<le> n'"
  shows "a = a' \<and> n = n' \<and> d = d'"
proof -
  have no: "CHR ''+'' \<notin> set (fmtX 6 k)" "CHR '' '' \<notin> set (fmtX 6 k)" if "0 \<le> k" for k
    using fmtX_hex [OF that] by (auto simp: is_hex_def is_hex_lower_def is_digit_def dest!: fmtX_hex [OF that])
  have e: "fmtX 6 a @ CHR ''+'' # ''0x'' @ fmtX 6 n @ CHR '' '' # rid @ '' '' @ d =
      fmtX 6 a' @ CHR ''+'' # ''0x'' @ fmtX 6 n' @ CHR '' '' # rid @ '' '' @ d'"
    using assms(1,2) by (auto simp: licence_payload_def split: if_splits)
  from sep_inj [OF no(1) [OF assms(3)] no(1) [OF assms(4)] e]
  have a: "fmtX 6 a = fmtX 6 a'" and r: "fmtX 6 n @ CHR '' '' # rid @ '' '' @ d = fmtX 6 n' @ CHR '' '' # rid @ '' '' @ d'"
    by simp_all
  from sep_inj [OF no(2) [OF assms(5)] no(2) [OF assms(6)] r]
  have "fmtX 6 n = fmtX 6 n'" "d = d'" by simp_all
  with a assms(3-6) show ?thesis using fmtX_inj by blast
qed

lemma licensed_in_rescue:
  assumes "check_licensed at n (Some txt) (Some d) = Inr None" "{at..<at + n} \<inter> {0x20000..<0x30000} \<noteq> {}"
  shows "\<exists>want. licence_payload at n ''rescue'' d = Inr want \<and> want \<in> fst ` set (fst (parse_licence txt))
     \<and> 0 < n \<and> 0 \<le> at"
proof -
  have "0 < n" using assms(2) by auto
  moreover from this have "check at n \<noteq> Inr None"
    using assms(2) by (auto simp: check_arith int_disjoint)
  ultimately show ?thesis using assms(1) by (auto simp: check_licensed_iff)
qed

lemma licence_grant_rescue:
  assumes "0 < n" "0x20000 \<le> at" "at + n \<le> 0x30000" "licence_payload at n ''rescue'' d = Inr want"
    and "parse_licence txt = (rows, [])"
  shows "licence_grant at n (Some txt) d =
    Inr (case map_of rows want of None \<Rightarrow> None | Some date \<Rightarrow> Some (date, want))"
proof -
  have "check at n = Inr (Some \<lparr>rf_lo = 0x20000, rf_hi = 0x30000, rf_rid = ''rescue'',
      rf_why = rescue_why, rf_note = Plain\<rparr>)"
    using assms(1-3) by (auto simp: check_def guard_simps Let_def)
  then show ?thesis using assms(4,5) by (simp add: licence_grant_def LICENSABLE_def)
qed

lemma demo_licence:
  "\<exists>want. licence_payload 0x20000 0x10A0 ''rescue'' (replicate 64 (CHR ''a'')) = Inr want \<and>
     good_row (want, ''2026-10-04'')"
proof -
  let ?d = "replicate 64 (CHR ''a'')"
  have d: "is_sha256_hex ?d" by (simp add: is_sha256_hex_def is_hex_lower_def is_digit_def list_all_iff)
  let ?w = "''flash-at 0x'' @ fmtX 6 0x20000 @ ''+0x'' @ fmtX 6 0x10A0 @ '' '' @ ''rescue'' @ '' '' @ ?d"
  have "c \<notin> {backtick, CHR 0x0A, CHR 0x0D}" if "is_hex c" for c
    using that by (auto simp: is_hex_def is_hex_lower_def is_digit_def)
  then have "set (fmtX 6 n) \<inter> {backtick, CHR 0x0A, CHR 0x0D} = {}" if "0 \<le> n" for n
    using fmtX_hex [OF that] by blast
  then have "set (fmtX 6 0x20000) \<inter> {backtick, CHR 0x0A, CHR 0x0D} = {}"
    "set (fmtX 6 0x10A0) \<inter> {backtick, CHR 0x0A, CHR 0x0D} = {}" by simp_all
  then have "set ?w \<inter> {backtick, CHR 0x0A, CHR 0x0D} = {}" by auto
  moreover have "valid_date ''2026-10-04''" by code_simp
  ultimately have "good_row (?w, ''2026-10-04'')" by (simp add: good_row_def)
  with d show ?thesis by (simp add: licence_payload_def)
qed

subsection \<open>Properties\<close>

text \<open>
  The blanket verdict is exactly the printed table: a destination is permitted if and only if it
  is a non-empty range of non-negative offsets that ends inside the chip and meets no row of
  \<open>forbidden_ranges\<close>; it is a usage error exactly when the length is not positive or the offset
  is negative.
\<close>

theorem check_exact:
  "(check at n = Inr None \<longleftrightarrow> 0 < n \<and> 0 \<le> at \<and> at + n \<le> CHIP_SIZE \<and>
      {at..<at + n} \<inter> (\<Union>(lo, hi, rid, why) \<in> set forbidden_ranges. {lo..<hi}) = {}) \<and>
   ((\<exists>e. check at n = Inl e) \<longleftrightarrow> n \<le> 0 \<or> at < 0)"
proof -
  define U where "U = (\<Union>(lo, hi, rid, why) \<in> set forbidden_ranges. {lo..<hi :: int})"
  have "U = {0..<0x6000} \<union> {0x6000..<0x8000} \<union> {0x20000..<0x30000}"
    by (auto simp: U_def forbidden_ranges_def OWN_FORBIDDEN_def FORBIDDEN_def)
  then have "BARRED = {..<0} \<union> U \<union> {CHIP_SIZE..}"
    by (auto simp: BARRED_def UNREC_SET_def CHIP_SIZE_def)
  then have "check at n = Inr None \<longleftrightarrow> 0 < n \<and> 0 \<le> at \<and> at + n \<le> CHIP_SIZE \<and> {at..<at + n} \<inter> U = {}"
    using int_disjoint_above [of at "at + n" CHIP_SIZE] int_disjoint_below [of at "at + n" 0]
    by (auto simp: blanket.permits Int_Un_distrib simp del: int_disjoint_above int_disjoint_below)
  with blanket.refuses [of at n] show ?thesis by (simp only: U_def)
qed

text \<open>
  C3. What a licence can open, exactly: with a licence offered, a write is permitted if and only if
  the blanket verdict permits it anyway, or the whole range lies inside the rescue slot and a
  licence without a single defect names this base, this length, this region and this digest.  No
  licence text opens the loader, H601 or the end of the chip.
\<close>

theorem check_licensed_exact:
  "check_licensed at n licence digest = Inr None \<longleftrightarrow>
     check at n = Inr None \<or>
     (0 < n \<and> {at..<at + n} \<subseteq> {0x20000..<0x30000} \<and>
      (\<exists>txt d want. licence = Some txt \<and> digest = Some d \<and>
         licence_payload at n ''rescue'' d = Inr want \<and>
         snd (parse_licence txt) = [] \<and> want \<in> fst ` set (fst (parse_licence txt))))"
  unfolding check_licensed_iff by (auto simp: atLeastLessThan_subset_iff)

text \<open>
  One row licenses one write: if a licence file whose only row is \<open>row\<close> permits two writes
  that touch the rescue slot, they are the same write, of the same length, at the same base, with
  the same payload digest.
\<close>

theorem one_row_one_write:
  assumes "fst (parse_licence txt) = [(row, date)]"
    and "check_licensed a n (Some txt) (Some d) = Inr None"
    and "check_licensed a' n' (Some txt) (Some d') = Inr None"
    and "{a..<a + n} \<inter> {0x20000..<0x30000} \<noteq> {}" "{a'..<a' + n'} \<inter> {0x20000..<0x30000} \<noteq> {}"
  shows "a = a' \<and> n = n' \<and> d = d'"
proof -
  from licensed_in_rescue [OF assms(2,4)] licensed_in_rescue [OF assms(3,5)] assms(1)
  have "licence_payload a n ''rescue'' d = Inr row" "licence_payload a' n' ''rescue'' d' = Inr row"
    "0 < n" "0 \<le> a" "0 < n'" "0 \<le> a'" by auto
  then show ?thesis using licence_payload_inj [of a n "''rescue''" d row a' n' d'] by simp
qed

theorem one_row_one_write_witness:
  "\<exists>txt. check_licensed 0x20000 0x10A0 (Some txt) (Some (replicate 64 (CHR ''a''))) = Inr None \<and>
     check_licensed 0x20000 0x10A1 (Some txt) (Some (replicate 64 (CHR ''a''))) \<noteq> Inr None"
proof -
  let ?d = "replicate 64 (CHR ''a'')"
  obtain want where w: "licence_payload 0x20000 0x10A0 ''rescue'' ?d = Inr want"
    "good_row (want, ''2026-10-04'')" using demo_licence by blast
  let ?txt = "licence_file [] [(want, ''2026-10-04'')]"
  have p: "parse_licence ?txt = ([(want, ''2026-10-04'')], [])"
    by (rule parse_licence_file') (use w(2) in auto)
  then have ok: "check_licensed 0x20000 0x10A0 (Some ?txt) (Some ?d) = Inr None"
    using w(1) by (simp add: check_licensed_iff)
  have "check_licensed 0x20000 0x10A1 (Some ?txt) (Some ?d) \<noteq> Inr None"
  proof
    assume "check_licensed 0x20000 0x10A1 (Some ?txt) (Some ?d) = Inr None"
    from one_row_one_write [OF _ ok this] p show False by (simp add: int_disjoint)
  qed
  with ok show ?thesis by blast
qed

text \<open>
  C4. The owner's row is honoured: a licence file that lists any well-formed rows with distinct
  payloads, one of which names this write inside the rescue slot, is read back without a defect
  and \<open>cmd_licence\<close> permits the write under the date of that row, with status 0.
\<close>

theorem licence_opens_its_write:
  assumes "files path = Some (licence_file pre rows)" "path \<noteq> []"
    and "backtick \<notin> set pre" "list_all good_row rows" "distinct (map fst rows)"
    and "licence_payload at n ''rescue'' d = Inr want" "(want, date) \<in> set rows"
    and "0 < n" "0x20000 \<le> at" "at + n \<le> 0x30000"
  shows "parse_licence (licence_file pre rows) = (rows, []) \<and>
    cmd_licence files at n d path = (Permitted_under date want, 0)"
proof -
  have "rows \<noteq> []" using assms(7) by auto
  from parse_licence_file' [OF assms(3) this assms(4,5)]
  have p: "parse_licence (licence_file pre rows) = (rows, [])" .
  have "want \<in> fst ` set rows" using assms(7) by force
  then have "check_licensed at n (Some (licence_file pre rows)) (Some d) = Inr None"
    using assms(6,8-10) by (simp add: check_licensed_iff p)
  moreover have "map_of rows want = Some date" using assms(5,7) by simp
  then have "licence_grant at n (Some (licence_file pre rows)) d = Inr (Some (date, want))"
    using licence_grant_rescue [OF assms(8-10,6) p] by simp
  ultimately show ?thesis using assms(1,2) p by (simp add: cmd_licence_def Let_def)
qed

theorem licence_opens_its_write_witness:
  "\<exists>want. cmd_licence [''yes.md'' \<mapsto> licence_file ''the row:'' [(want, ''2026-10-04'')]]
     0x20000 0x10A0 (replicate 64 (CHR ''a'')) ''yes.md'' = (Permitted_under ''2026-10-04'' want, 0)"
proof -
  obtain want where w: "licence_payload 0x20000 0x10A0 ''rescue'' (replicate 64 (CHR ''a'')) = Inr want"
    "good_row (want, ''2026-10-04'')" using demo_licence by blast
  have "parse_licence (licence_file ''the row:'' [(want, ''2026-10-04'')]) = ([(want, ''2026-10-04'')], []) \<and>
    cmd_licence [''yes.md'' \<mapsto> licence_file ''the row:'' [(want, ''2026-10-04'')]]
     0x20000 0x10A0 (replicate 64 (CHR ''a'')) ''yes.md'' = (Permitted_under ''2026-10-04'' want, 0)"
    by (rule licence_opens_its_write [OF _ _ _ _ _ w(1)]) (use w(2) in auto)
  then show ?thesis by blast
qed

end
