(* ===== verification/FlrBracket.thy ===== *)
theory FlrBracket
  imports FlashWin
begin

text \<open>
  \<open>tools/flrbracket.py\<close>: one flash window read through the loader's \<open>FLR\<close> command.  The loader
  echoes the transfer and asks; \<open>classify\<close> decides whether \<open>Y\<close> may be typed and \<open>cmd_run\<close> drives
  the four captures.  The serial line is a parameter: a \<open>capture\<close> answers the next step from the
  history of the steps before it, None when \<open>console-capture\<close> fails.  A reason is a value of
  \<open>reason\<close> with the arguments of its sentence.
\<close>

subsection \<open>The echo\<close>

type_synonym echo = "string \<times> string \<times> string"

definition ECHO_RE :: "string \<Rightarrow> (echo \<times> string) option" where
  "ECHO_RE s =
     Option.bind (lit ''Flash read from '' s) (\<lambda>s. Option.bind (take_hex8 s) (\<lambda>(a, s).
     Option.bind (lit '' to '' s) (\<lambda>s. Option.bind (take_hex8 s) (\<lambda>(b, s).
     Option.bind (lit '' with '' s) (\<lambda>s. Option.bind (take_hex8 s) (\<lambda>(c, s).
     Option.bind (lit '' bytes'' s) (\<lambda>s. Some ((a, b, c), s))))))))"

definition echo_text :: "echo \<Rightarrow> string" where
  "echo_text e = (case e of (a, b, c) \<Rightarrow>
     ''Flash read from '' @ a @ '' to '' @ b @ '' with '' @ c @ '' bytes'')"

definition hex8 :: "string \<Rightarrow> bool" where
  "hex8 s \<longleftrightarrow> length s = 8 \<and> (\<forall>c \<in> set s. is_hex c)"

definition echo_ok :: "echo \<Rightarrow> bool" where
  "echo_ok e = (case e of (a, b, c) \<Rightarrow> hex8 a \<and> hex8 b \<and> hex8 c)"

lemma take_hex8_iff: "take_hex8 s = Some (w, r) \<longleftrightarrow> s = w @ r \<and> hex8 w"
  by (auto simp: take_hex8_def hex8_def list_all_iff)

lemma ECHO_RE_iff: "ECHO_RE s = Some (e, r) \<longleftrightarrow> s = echo_text e @ r \<and> echo_ok e"
proof -
  obtain a b c where e: "e = (a, b, c)" by (cases e)
  show ?thesis
    by (auto simp: e ECHO_RE_def bind_eq_Some_conv lit_iff take_hex8_iff echo_text_def echo_ok_def)
qed

text \<open>\<open>findall\<close>, and the start of the first match that \<open>search\<close> finds.\<close>

function echo_findall :: "string \<Rightarrow> echo list" where
  "echo_findall s =
     (case ECHO_RE s of
        Some (e, r) \<Rightarrow> e # echo_findall r
      | None \<Rightarrow> (case s of [] \<Rightarrow> [] | c # s' \<Rightarrow> echo_findall s'))"
  by pat_completeness auto
termination
  by (relation "measure length") (auto simp: ECHO_RE_iff echo_text_def)

declare echo_findall.simps [simp del]

fun echo_search :: "string \<Rightarrow> nat option" where
  "echo_search [] = None"
| "echo_search (c # s) = (if ECHO_RE (c # s) \<noteq> None then Some 0 else map_option Suc (echo_search s))"

subsection \<open>The three classifiers\<close>

definition CONFIRM :: string where "CONFIRM = ''(Y)es , (N)o ?''"
definition PROMPT :: string where "PROMPT = ''<RealTek>''"
definition SUCCESS :: string where "SUCCESS = ''Flash Read Successed!''"
definition ABORTED_MSG :: string where "ABORTED_MSG = ''Abort!''"

datatype verdict = PROCEED | ABORT | REFUSE

datatype reason =
    Prompt_back | Echo_count nat | Confirm_count nat | Confirm_before_echo
  | Other_transfer nat nat nat | Same_transfer

definition strip_sent :: "string \<Rightarrow> string option \<Rightarrow> string" where
  "strip_sent reply sent =
     (case sent of None \<Rightarrow> reply
      | Some x \<Rightarrow> if x \<noteq> [] \<and> prefix x reply then drop (length x) reply else reply)"

definition before :: "nat option \<Rightarrow> nat option \<Rightarrow> bool" where
  "before a b = (case (a, b) of (Some i, Some j) \<Rightarrow> i < j | (None, Some j) \<Rightarrow> True | _ \<Rightarrow> False)"

definition classify ::
    "string \<Rightarrow> int \<Rightarrow> int \<Rightarrow> int \<Rightarrow> string option \<Rightarrow> verdict \<times> reason" where
  "classify reply src dst nbytes sent =
     (if occurs PROMPT reply then (REFUSE, Prompt_back)
      else let body = strip_sent reply sent; hits = echo_findall body in
        if length hits \<noteq> 1 then (REFUSE, Echo_count (length hits))
        else if count_sub CONFIRM body \<noteq> 1 then (REFUSE, Confirm_count (count_sub CONFIRM body))
        else if before (find_sub CONFIRM body) (echo_search body) then (REFUSE, Confirm_before_echo)
        else (case hits ! 0 of (a, b, c) \<Rightarrow>
          (let got_src = hex_num a; got_dst = hex_num b; got_len = hex_num c in
           if int got_src \<noteq> src \<or> int got_dst \<noteq> dst \<or> int got_len \<noteq> nbytes
           then (ABORT, Other_transfer got_src got_dst got_len)
           else (PROCEED, Same_transfer))))"

datatype yes_verdict = SUCCEEDED | FAILED | UNKNOWN

definition classify_yes :: "string \<Rightarrow> yes_verdict" where
  "classify_yes reply =
     (if occurs SUCCESS reply then (if \<not> occurs PROMPT reply then UNKNOWN else SUCCEEDED)
      else if occurs PROMPT reply then FAILED else UNKNOWN)"

text \<open>True is \<open>ABORTED\<close>, False is \<open>UNKNOWN\<close>.\<close>

definition classify_abort :: "string \<Rightarrow> bool" where
  "classify_abort reply \<longleftrightarrow> occurs ABORTED_MSG reply \<and> occurs PROMPT reply"

subsection \<open>Containment\<close>

definition FLASH_SIZE :: int where "FLASH_SIZE = 0x400000"
definition RAM_LO :: int where "RAM_LO = 0x80000000"
definition RAM_HI :: int where "RAM_HI = 0x82000000"

datatype range_refusal =
    Not_a_window | Not_words | Larger_than_part | Past_the_part | Outside_ram

definition check_ranges :: "int \<Rightarrow> int \<Rightarrow> int \<Rightarrow> range_refusal option" where
  "check_ranges src dst nbytes =
     (if nbytes \<le> 0 then Some Not_a_window
      else if nbytes mod 4 \<noteq> 0 then Some Not_words
      else if nbytes > FLASH_SIZE then Some Larger_than_part
      else if src < 0 \<or> src + nbytes > FLASH_SIZE then Some Past_the_part
      else if dst < RAM_LO \<or> dst + nbytes > RAM_HI then Some Outside_ram
      else None)"

definition readback_target ::
    "(string \<Rightarrow> bool) \<Rightarrow> int \<Rightarrow> int \<Rightarrow> string \<Rightarrow> (string \<times> int \<times> int \<times> string) option" where
  "readback_target inside src nbytes path =
     (case overlaps_forbidden src nbytes of None \<Rightarrow> None
      | Some (lo, hi, why) \<Rightarrow> if inside path then Some (path, lo, hi, why) else None)"

definition preread_target :: "(string \<Rightarrow> bool) \<Rightarrow> string \<Rightarrow> string option" where
  "preread_target inside path = (if inside path then Some path else None)"

subsection \<open>\<open>verify\<close>\<close>

text \<open>
  The sibling \<open>.meta.json\<close>: \<open>metas\<close> is the \<open>sent\<close> member of the JSON document a path holds, None
  when there is no such file, it does not parse or it has no such member.
\<close>

definition sent_of :: "(string \<Rightarrow> string option) \<Rightarrow> string \<Rightarrow> string option" where
  "sent_of metas log_path =
     (if suffix ''.log'' log_path
      then metas (take (length log_path - 4) log_path @ ''.meta.json'') else None)"

definition cmd_verify ::
    "(string \<Rightarrow> string) \<Rightarrow> (string \<Rightarrow> string option) \<Rightarrow> string \<Rightarrow> int \<Rightarrow> int \<Rightarrow> int \<Rightarrow>
       (verdict \<times> reason) \<times> int" where
  "cmd_verify read_text metas file src dst nbytes =
     (let v = classify (read_text file) src dst nbytes (sent_of metas file)
      in (v, if fst v = PROCEED then 0 else 1))"

subsection \<open>\<open>run\<close>\<close>

definition path_join :: "string \<Rightarrow> string \<Rightarrow> string" where
  "path_join a b = (if prefix ''/'' b then b else if a = [] \<or> suffix ''/'' a then a @ b
                    else a @ ''/'' @ b)"

record run_args =
  rn_port :: string
  rn_stem :: string
  rn_suffix :: string
  rn_dst :: int
  rn_src :: int
  rn_bytes :: int
  rn_echo_dir :: string
  rn_dw_dir :: string
  rn_pre_dir :: string
  rn_go :: bool

text \<open>The terminators are whole seconds.\<close>

definition SECS_DW :: nat where "SECS_DW = 6"
definition SECS_FLR :: nat where "SECS_FLR = 5"
definition SECS_YES :: nat where "SECS_YES = 6"
definition SECS_NO :: nat where "SECS_NO = 4"

record step =
  st_label :: string
  st_out :: string
  st_send :: string
  st_secs :: nat

definition build_plan ::
    "string \<Rightarrow> string \<Rightarrow> int \<Rightarrow> int \<Rightarrow> int \<Rightarrow> string \<Rightarrow> string \<Rightarrow> string \<Rightarrow> step list" where
  "build_plan stem sfx dst src nbytes echo_d dw_d pre_d =
     [\<lparr>st_label = ''pre-read'', st_out = path_join pre_d (stem @ ''-p'' @ sfx),
       st_send = ''DW '' @ fmtX 8 dst @ '' '' @ fmtd (nbytes div 4), st_secs = SECS_DW\<rparr>,
      \<lparr>st_label = ''FLR'', st_out = path_join echo_d (stem @ ''-flr'' @ sfx),
       st_send = ''FLR '' @ fmtX 8 dst @ '' '' @ fmtX 6 src @ '' '' @ fmtX 0 nbytes, st_secs = SECS_FLR\<rparr>,
      \<lparr>st_label = ''confirm'', st_out = path_join echo_d (stem @ ''-yes'' @ sfx),
       st_send = ''Y'', st_secs = SECS_YES\<rparr>,
      \<lparr>st_label = ''read-back'', st_out = path_join dw_d (stem @ ''-rd'' @ sfx),
       st_send = ''DW '' @ fmtX 8 dst @ '' '' @ fmtd (nbytes div 4), st_secs = SECS_DW\<rparr>]"

definition no_step :: "run_args \<Rightarrow> step" where
  "no_step a = \<lparr>st_label = ''no'', st_out = path_join (rn_echo_dir a) (rn_stem a @ ''-no'' @ rn_suffix a),
                st_send = ''N'', st_secs = SECS_NO\<rparr>"

definition plan_of :: "run_args \<Rightarrow> step list" where
  "plan_of a = build_plan (rn_stem a) (rn_suffix a) (rn_dst a) (rn_src a) (rn_bytes a)
                 (rn_echo_dir a) (rn_dw_dir a) (rn_pre_dir a)"

datatype run_refusal =
    Bad_ranges range_refusal | Bad_preread string | Bad_readback "string \<times> int \<times> int \<times> string"

definition refuse_args :: "(string \<Rightarrow> bool) \<Rightarrow> run_args \<Rightarrow> run_refusal option" where
  "refuse_args inside a =
     (case check_ranges (rn_src a) (rn_dst a) (rn_bytes a) of Some bad \<Rightarrow> Some (Bad_ranges bad)
      | None \<Rightarrow>
        (case preread_target inside (st_out (plan_of a ! 0)) of Some bad \<Rightarrow> Some (Bad_preread bad)
         | None \<Rightarrow>
           (case readback_target inside (rn_src a) (rn_bytes a) (st_out (plan_of a ! 3)) of
              Some bad \<Rightarrow> Some (Bad_readback bad) | None \<Rightarrow> None)))"

type_synonym capture = "step list \<Rightarrow> step \<Rightarrow> string option"

definition take_step :: "capture \<Rightarrow> step list \<Rightarrow> step \<Rightarrow> step list + string \<times> step list" where
  "take_step cap tr st =
     (case cap tr st of None \<Rightarrow> Inl (tr @ [st]) | Some reply \<Rightarrow> Inr (reply, tr @ [st]))"

text \<open>
  What \<open>cmd_run\<close> does: refused before anything is sent (exit 2), a dry run (the plan that would be
  driven, the \<open>no\<close> step and the forbidden window it would read), or the exit code and the steps
  that were put on the wire, the last of them the one whose capture failed when the code is 2.
\<close>

datatype run_outcome =
    Run_refused run_refusal
  | Dry_run "step list" step "(int \<times> int \<times> string) option"
  | Ran int "step list"

definition cmd_run :: "(string \<Rightarrow> bool) \<Rightarrow> capture \<Rightarrow> run_args \<Rightarrow> run_outcome" where
  "cmd_run inside cap a =
     (case check_ranges (rn_src a) (rn_dst a) (rn_bytes a) of
        Some bad \<Rightarrow> Run_refused (Bad_ranges bad)
      | None \<Rightarrow>
     (let plan = plan_of a in
      case preread_target inside (st_out (plan ! 0)) of
        Some bad \<Rightarrow> Run_refused (Bad_preread bad)
      | None \<Rightarrow>
     (case readback_target inside (rn_src a) (rn_bytes a) (st_out (plan ! 3)) of
        Some bad \<Rightarrow> Run_refused (Bad_readback bad)
      | None \<Rightarrow>
     (if \<not> rn_go a then Dry_run plan (no_step a) (overlaps_forbidden (rn_src a) (rn_bytes a))
      else case take_step cap [] (plan ! 0) of Inl tr \<Rightarrow> Ran 2 tr | Inr (_, tr) \<Rightarrow>
     (case take_step cap tr (plan ! 1) of Inl tr \<Rightarrow> Ran 2 tr | Inr (reply, tr) \<Rightarrow>
     (case fst (classify reply (rn_src a) (rn_dst a) (rn_bytes a) (Some (st_send (plan ! 1)))) of
        REFUSE \<Rightarrow> Ran 3 tr
      | ABORT \<Rightarrow>
          (case take_step cap tr (no_step a) of Inl tr \<Rightarrow> Ran 2 tr
           | Inr (r, tr) \<Rightarrow> Ran (if classify_abort r then 4 else 5) tr)
      | PROCEED \<Rightarrow>
     (case take_step cap tr (plan ! 2) of Inl tr \<Rightarrow> Ran 2 tr | Inr (r, tr) \<Rightarrow>
     (if classify_yes r \<noteq> SUCCEEDED then Ran 6 tr
      else case take_step cap tr (plan ! 3) of Inl tr \<Rightarrow> Ran 2 tr | Inr (_, tr) \<Rightarrow> Ran 0 tr))))))))"

subsection \<open>What \<open>PROCEED\<close> establishes\<close>

lemma ECHO_RE_Nil [simp]: "ECHO_RE [] = None"
  by (simp add: ECHO_RE_def lit_def)

lemma echo_search_findall:
  "(echo_search s = None \<longleftrightarrow> echo_findall s = []) \<and>
   (\<forall>i. echo_search s = Some i \<longrightarrow>
     (\<exists>r. drop i s = echo_text (hd (echo_findall s)) @ r \<and> echo_ok (hd (echo_findall s))))"
proof (induction s)
  case Nil
  then show ?case by (subst (1 2 3) echo_findall.simps) simp
next
  case (Cons c s)
  show ?case
  proof (cases "ECHO_RE (c # s)")
    case None
    then have "echo_findall (c # s) = echo_findall s" by (subst echo_findall.simps) simp
    with None Cons show ?thesis by auto
  next
    case (Some er)
    then obtain e r where er: "ECHO_RE (c # s) = Some (e, r)" by (cases er) auto
    then have "echo_findall (c # s) = e # echo_findall r" by (subst echo_findall.simps) simp
    moreover from er have "echo_search (c # s) = Some 0" by simp
    moreover from er have "c # s = echo_text e @ r \<and> echo_ok e" by (simp only: ECHO_RE_iff)
    ultimately show ?thesis by (metis drop_0 list.sel(1) list.simps(3) option.inject option.simps(3))
  qed
qed

lemma count_sub_pos: "count_sub p s \<noteq> 0 \<longleftrightarrow> occurs p s"
proof (induction p s rule: count_sub.induct)
  case (1 p)
  then show ?case by (simp add: occurs_def)
next
  case (2 p x xs)
  then show ?case by (auto simp: occurs_def)
qed

lemma echo_text_no_paren: "echo_ok e \<Longrightarrow> CHR 0x28 \<notin> set (echo_text e)"
  by (cases e) (auto simp: echo_ok_def hex8_def echo_text_def is_hex_def is_hex_lower_def is_digit_def)

lemma confirm_after:
  assumes "find_sub CONFIRM (take i s @ t @ r) = Some j" "i \<le> length s" "i \<le> j" "CHR 0x28 \<notin> set t"
  shows "\<exists>mid post. r = mid @ CONFIRM @ post"
proof -
  let ?b = "take i s @ t @ r"
  from find_sub_Some_iff [OF assms(1)] have c: "take (length CONFIRM) (drop j ?b) = CONFIRM" by simp
  have "i + length t \<le> j"
  proof (rule ccontr)
    assume n: "\<not> i + length t \<le> j"
    then have "drop j ?b = drop (j - i) t @ r" using assms(2,3) by simp
    moreover have "drop (j - i) t = t ! (j - i) # drop (Suc (j - i)) t"
      using n assms(3) by (simp add: Cons_nth_drop_Suc)
    ultimately have "t ! (j - i) = CHR 0x28" using c by (simp add: CONFIRM_def)
    moreover have "j - i < length t" using n assms(3) by linarith
    ultimately show False using assms(4) nth_mem [of "j - i" t] by metis
  qed
  then have "drop j ?b = drop (j - i - length t) r" using assms(2,3) by simp
  with c have "r = take (j - i - length t) r @ CONFIRM @ drop (length CONFIRM) (drop (j - i - length t) r)"
    by (metis append_take_drop_id)
  then show ?thesis by blast
qed

definition asked :: "string \<Rightarrow> int \<Rightarrow> int \<Rightarrow> int \<Rightarrow> bool" where
  "asked body src dst nbytes \<longleftrightarrow>
     (\<exists>pre a b c mid post. body = pre @ echo_text (a, b, c) @ mid @ CONFIRM @ post \<and>
        echo_ok (a, b, c) \<and> echo_findall body = [(a, b, c)] \<and> count_sub CONFIRM body = 1 \<and>
        int (hex_num a) = src \<and> int (hex_num b) = dst \<and> int (hex_num c) = nbytes)"

lemma classify_proceed:
  assumes "fst (classify reply src dst nbytes sent) = PROCEED"
  shows "\<not> occurs PROMPT reply \<and> asked (strip_sent reply sent) src dst nbytes"
proof -
  let ?b = "strip_sent reply sent"
  have p: "\<not> occurs PROMPT reply" and h: "length (echo_findall ?b) = 1" and n: "count_sub CONFIRM ?b = 1"
    and o: "\<not> before (find_sub CONFIRM ?b) (echo_search ?b)"
    using assms by (auto simp: classify_def Let_def split: if_splits)
  from h obtain a b c where e: "echo_findall ?b = [(a, b, c)]"
    by (cases "echo_findall ?b") auto
  have v: "int (hex_num a) = src" "int (hex_num b) = dst" "int (hex_num c) = nbytes"
    using assms p n o by (auto simp: classify_def Let_def e split: if_splits)
  have "occurs CONFIRM ?b" using n count_sub_pos [of CONFIRM ?b] by simp
  then obtain j where j: "find_sub CONFIRM ?b = Some j" by (auto simp: occurs_def)
  obtain i where i: "echo_search ?b = Some i"
    using echo_search_findall [of ?b] e by (cases "echo_search ?b") auto
  with echo_search_findall [of ?b] e obtain r where r: "drop i ?b = echo_text (a, b, c) @ r"
    and ok: "echo_ok (a, b, c)" by auto
  have b: "?b = take i ?b @ echo_text (a, b, c) @ r" using r by (metis append_take_drop_id)
  have "drop i ?b \<noteq> []" unfolding r by (simp add: echo_text_def)
  then have "i \<le> length ?b" by simp
  moreover have "i \<le> j" using o i j by (simp add: before_def)
  ultimately obtain mid post where "r = mid @ CONFIRM @ post"
    using confirm_after [of i ?b "echo_text (a, b, c)" r j] j b echo_text_no_paren [OF ok] by metis
  with b have "?b = take i ?b @ echo_text (a, b, c) @ mid @ CONFIRM @ post" by simp
  with p e n v ok show ?thesis unfolding asked_def by blast
qed

subsection \<open>An honest loader\<close>

definition quiet :: "string \<Rightarrow> bool" where
  "quiet s \<longleftrightarrow> set s \<inter> {CHR ''F'', CHR 0x28, CHR ''<''} = {}"

lemma ECHO_RE_no_F: "c \<noteq> CHR ''F'' \<Longrightarrow> ECHO_RE (c # s) = None"
  by (simp add: ECHO_RE_def lit_def)

lemma map_option_plus_0: "map_option ((+) (0 :: nat)) x = x"
  by (cases x) simp_all

lemma echo_quiet:
  "CHR ''F'' \<notin> set pre \<Longrightarrow> echo_findall (pre @ s) = echo_findall s"
  "CHR ''F'' \<notin> set pre \<Longrightarrow> echo_search (pre @ s) = map_option (\<lambda>i. length pre + i) (echo_search s)"
proof (induction pre)
  case (Cons c pre)
  { case 1
    then have "ECHO_RE (c # pre @ s) = None" by (auto intro: ECHO_RE_no_F)
    with 1 Cons show ?case by (simp add: echo_findall.simps [of "c # pre @ s"]) }
  { case 2
    then have "ECHO_RE (c # pre @ s) = None" by (auto intro: ECHO_RE_no_F)
    with 2 Cons show ?case by (simp add: option.map_comp comp_def) }
qed (simp_all add: map_option_plus_0)

lemma echo_findall_Nil [simp]: "echo_findall [] = []"
  by (subst echo_findall.simps) simp

lemma sub_quiet:
  "hd p \<notin> set pre \<Longrightarrow> p \<noteq> [] \<Longrightarrow> count_sub p (pre @ s) = count_sub p s"
  "hd p \<notin> set pre \<Longrightarrow> p \<noteq> [] \<Longrightarrow> find_sub p (pre @ s) = map_option (\<lambda>i. length pre + i) (find_sub p s)"
proof (induction pre)
  case (Cons c pre)
  then have n: "\<not> prefix p (c # pre @ s)" if "hd p \<noteq> c" "p \<noteq> []" using that by (cases p) auto
  { case 1
    with n Cons show ?case by simp }
  { case 2
    with n Cons show ?case by (simp add: option.map_comp comp_def) }
qed (simp_all add: map_option_plus_0)

lemma occurs_quiet: "hd p \<notin> set s \<Longrightarrow> p \<noteq> [] \<Longrightarrow> \<not> occurs p s"
  using sub_quiet(2) [of p s "[]"] by (simp add: occurs_def)

definition honest_echo :: "int \<Rightarrow> int \<Rightarrow> int \<Rightarrow> echo" where
  "honest_echo src dst nbytes = (fmtX 8 src, fmtX 8 dst, fmtX 8 nbytes)"

lemma honest_echo_ok:
  assumes "0 \<le> src" "src < 2 ^ 32" "0 \<le> dst" "dst < 2 ^ 32" "0 \<le> n" "n < 2 ^ 32"
  shows "echo_ok (honest_echo src dst n)"
  using fmtX8 assms by (simp add: honest_echo_def echo_ok_def hex8_def)

lemma classify_honest:
  assumes "0 \<le> src" "src < 2 ^ 32" "0 \<le> dst" "dst < 2 ^ 32" "0 \<le> n" "n < 2 ^ 32"
    and q: "quiet pre" "quiet mid" "quiet post" and c: "cmd \<noteq> []" "CHR ''<'' \<notin> set cmd"
  shows "fst (classify (cmd @ pre @ echo_text (honest_echo src dst n) @ mid @ CONFIRM @ post)
           src dst n (Some cmd)) = PROCEED"
proof -
  let ?e = "honest_echo src dst n"
  let ?b = "pre @ echo_text ?e @ mid @ CONFIRM @ post"
  have ok: "echo_ok ?e" using assms(1-6) by (rule honest_echo_ok)
  have pF: "CHR ''F'' \<notin> set pre" "CHR ''F'' \<notin> set (mid @ CONFIRM @ post)"
    and pP: "CHR 0x28 \<notin> set (pre @ echo_text ?e @ mid)" "CHR 0x28 \<notin> set post"
    using q echo_text_no_paren [OF ok] by (auto simp: quiet_def CONFIRM_def)
  have m: "ECHO_RE (echo_text ?e @ mid @ CONFIRM @ post) = Some (?e, mid @ CONFIRM @ post)"
    using ok by (simp add: ECHO_RE_iff)
  then have "echo_findall (echo_text ?e @ mid @ CONFIRM @ post) = [?e]"
    using echo_quiet(1) [OF pF(2), of "[]"] by (subst echo_findall.simps) simp
  then have f: "echo_findall ?b = [?e]" using echo_quiet(1) [OF pF(1)] by simp
  obtain c' t where ct: "echo_text ?e @ mid @ CONFIRM @ post = c' # t"
    by (cases "echo_text ?e @ mid @ CONFIRM @ post") (auto simp: echo_text_def honest_echo_def)
  then have "echo_search (echo_text ?e @ mid @ CONFIRM @ post) = Some 0" using m by simp
  then have s: "echo_search ?b = Some (length pre)" using echo_quiet(2) [OF pF(1)] by simp
  have C: "hd CONFIRM = CHR 0x28" "CONFIRM \<noteq> []" by (simp_all add: CONFIRM_def)
  have "prefix CONFIRM (CONFIRM @ post)" by simp
  then have "count_sub CONFIRM (CONFIRM @ post) = 1" "find_sub CONFIRM (CONFIRM @ post) = Some 0"
    using sub_quiet(1) [of CONFIRM post "[]"] pP(2) by (simp_all add: CONFIRM_def)
  then have n: "count_sub CONFIRM ?b = 1" "\<exists>j. find_sub CONFIRM ?b = Some j \<and> length pre \<le> j"
    using sub_quiet [of CONFIRM "pre @ echo_text ?e @ mid" "CONFIRM @ post"] pP(1) C by auto
  have "CHR ''<'' \<notin> set (cmd @ ?b)"
    using q c(2) ok by (cases ?e)
      (auto simp: quiet_def CONFIRM_def echo_text_def echo_ok_def hex8_def is_hex_def is_hex_lower_def is_digit_def)
  then have "\<not> occurs PROMPT (cmd @ ?b)" by (intro occurs_quiet) (auto simp: PROMPT_def)
  moreover have "strip_sent (cmd @ ?b) (Some cmd) = ?b" using c(1) by (simp add: strip_sent_def)
  moreover have "\<not> before (find_sub CONFIRM ?b) (echo_search ?b)" using n(2) s by (auto simp: before_def)
  ultimately show ?thesis
    using f n(1) assms(1-6) by (simp add: classify_def honest_echo_def hex_num_fmtX)
qed

subsection \<open>The runs\<close>

lemma plan_sends:
  "st_send (plan_of a ! 0) = ''DW '' @ fmtX 8 (rn_dst a) @ '' '' @ fmtd (rn_bytes a div 4)"
  "st_send (plan_of a ! 1) = ''FLR '' @ fmtX 8 (rn_dst a) @ '' '' @ fmtX 6 (rn_src a) @ '' '' @ fmtX 0 (rn_bytes a)"
  "st_send (plan_of a ! 2) = ''Y''"
  "st_send (plan_of a ! 3) = ''DW '' @ fmtX 8 (rn_dst a) @ '' '' @ fmtd (rn_bytes a div 4)"
  "st_send (no_step a) = ''N''"
  by (simp_all add: plan_of_def build_plan_def no_step_def)

lemma plan_4: "plan_of a = [plan_of a ! 0, plan_of a ! 1, plan_of a ! 2, plan_of a ! 3]"
  by (simp add: plan_of_def build_plan_def)

text \<open>Every run that reaches the wire, by what the captures answered.\<close>

lemma run_cases:
  assumes "cmd_run inside cap a = Ran rc tr"
  obtains (Preread_lost) "rc = 2" "tr = [plan_of a ! 0]"
  | (Flr_lost) "rc = 2" "tr = [plan_of a ! 0, plan_of a ! 1]"
  | (Silent) reply where "rc = 3" "tr = [plan_of a ! 0, plan_of a ! 1]"
      "cap [plan_of a ! 0] (plan_of a ! 1) = Some reply"
      "fst (classify reply (rn_src a) (rn_dst a) (rn_bytes a) (Some (st_send (plan_of a ! 1)))) = REFUSE"
  | (No) reply where "rc \<in> {2, 4, 5}" "tr = [plan_of a ! 0, plan_of a ! 1, no_step a]"
      "cap [plan_of a ! 0] (plan_of a ! 1) = Some reply"
      "fst (classify reply (rn_src a) (rn_dst a) (rn_bytes a) (Some (st_send (plan_of a ! 1)))) = ABORT"
  | (Yes) reply where "rc \<in> {2, 6}" "tr = [plan_of a ! 0, plan_of a ! 1, plan_of a ! 2]"
      "cap [plan_of a ! 0] (plan_of a ! 1) = Some reply"
      "fst (classify reply (rn_src a) (rn_dst a) (rn_bytes a) (Some (st_send (plan_of a ! 1)))) = PROCEED"
  | (Window) reply r where "rc \<in> {0, 2}" "tr = plan_of a"
      "cap [plan_of a ! 0] (plan_of a ! 1) = Some reply"
      "fst (classify reply (rn_src a) (rn_dst a) (rn_bytes a) (Some (st_send (plan_of a ! 1)))) = PROCEED"
      "cap [plan_of a ! 0, plan_of a ! 1] (plan_of a ! 2) = Some r" "classify_yes r = SUCCEEDED"
  using assms plan_4 [of a]
  by (auto simp: cmd_run_def take_step_def Let_def
      split: option.splits if_splits sum.splits prod.splits verdict.splits)

lemma set_plan:
  "set (plan_of a) = {plan_of a ! 0, plan_of a ! 1, plan_of a ! 2, plan_of a ! 3}"
  by (subst plan_4) simp

lemma run_steps:
  assumes "cmd_run inside cap a = Ran rc tr"
  shows "set tr \<subseteq> {plan_of a ! 0, plan_of a ! 1, plan_of a ! 2, plan_of a ! 3, no_step a}"
  using assms by (cases rule: run_cases) (auto simp: set_plan)

lemma refuse_args_Ran: "cmd_run inside cap a = Ran rc tr \<Longrightarrow> refuse_args inside a = None"
  by (auto simp: cmd_run_def refuse_args_def Let_def split: option.splits)

lemma honest_run:
  assumes "refuse_args inside a = None" "rn_go a"
    and "cap [] (plan_of a ! 0) = Some r0"
    and "cap [plan_of a ! 0] (plan_of a ! 1) = Some (st_send (plan_of a ! 1) @ pre @
           echo_text (honest_echo (rn_src a) (rn_dst a) (rn_bytes a)) @ mid @ CONFIRM @ post)"
    and "quiet pre" "quiet mid" "quiet post"
    and "cap [plan_of a ! 0, plan_of a ! 1] (plan_of a ! 2) = Some r2"
    and "occurs SUCCESS r2" "occurs PROMPT r2"
    and "cap [plan_of a ! 0, plan_of a ! 1, plan_of a ! 2] (plan_of a ! 3) = Some r3"
  shows "cmd_run inside cap a = Ran 0 (plan_of a)"
proof -
  have rng: "0 \<le> rn_src a" "rn_src a < 2 ^ 32" "0 \<le> rn_dst a" "rn_dst a < 2 ^ 32" "0 \<le> rn_bytes a"
      "rn_bytes a < 2 ^ 32"
    using assms(1) by (auto simp: refuse_args_def check_ranges_def FLASH_SIZE_def RAM_LO_def RAM_HI_def
        split: option.splits if_splits)
  let ?cmd = "st_send (plan_of a ! 1)"
  have "c \<noteq> CHR ''<''" if "is_hex c" for c
    using that not_hex_char(6) by auto
  then have "?cmd \<noteq> []" "CHR ''<'' \<notin> set ?cmd"
    unfolding plan_sends using rng by (auto dest!: fmtX_hex [rotated])
  from classify_honest [OF rng assms(5-7) this] have
    "fst (classify (?cmd @ pre @ echo_text (honest_echo (rn_src a) (rn_dst a) (rn_bytes a)) @ mid @ CONFIRM @ post)
       (rn_src a) (rn_dst a) (rn_bytes a) (Some ?cmd)) = PROCEED" .
  moreover have "classify_yes r2 = SUCCEEDED" using assms(9,10) by (simp add: classify_yes_def)
  ultimately show ?thesis
    using assms(1-4,8,11) plan_4 [of a]
    by (auto simp: cmd_run_def refuse_args_def take_step_def Let_def split: option.splits)
qed

definition demo_args :: run_args where
  "demo_args = \<lparr>rn_port = ''/dev/ttyUSB0'', rn_stem = ''W'', rn_suffix = ''6'', rn_dst = 0x80A00400,
     rn_src = 0x60000, rn_bytes = 0x100, rn_echo_dir = ''/repo/bench'', rn_dw_dir = ''/repo/bench'',
     rn_pre_dir = ''/work'', rn_go = True\<rparr>"

definition demo_capture :: capture where
  "demo_capture tr st = Some
     (if length tr = 1 then st_send st @ [CHR 0x0A] @ echo_text (honest_echo 0x60000 0x80A00400 0x100)
        @ '' '' @ CONFIRM @ []
      else if length tr = 2 then SUCCESS @ PROMPT else [])"

lemma occurs_append: "occurs p (a @ p @ b)"
  by (auto simp: occurs_iff)

lemma demo_facts:
  "refuse_args (prefix ''/repo'') demo_args = None" "rn_go demo_args"
  "demo_capture [] (plan_of demo_args ! 0) = Some []"
  "demo_capture [plan_of demo_args ! 0] (plan_of demo_args ! 1) = Some (st_send (plan_of demo_args ! 1) @
     [CHR 0x0A] @ echo_text (honest_echo (rn_src demo_args) (rn_dst demo_args) (rn_bytes demo_args))
     @ '' '' @ CONFIRM @ [])"
  "quiet [CHR 0x0A]" "quiet '' ''" "quiet []"
  "demo_capture [plan_of demo_args ! 0, plan_of demo_args ! 1] (plan_of demo_args ! 2) = Some (SUCCESS @ PROMPT)"
  "occurs SUCCESS (SUCCESS @ PROMPT)" "occurs PROMPT (SUCCESS @ PROMPT)"
  "demo_capture [plan_of demo_args ! 0, plan_of demo_args ! 1, plan_of demo_args ! 2] (plan_of demo_args ! 3) = Some []"
proof -
  show "refuse_args (prefix ''/repo'') demo_args = None"
    by (simp add: refuse_args_def demo_args_def check_ranges_def FLASH_SIZE_def RAM_LO_def RAM_HI_def
        preread_target_def readback_target_def overlaps_forbidden_arith plan_of_def build_plan_def path_join_def)
  show "occurs SUCCESS (SUCCESS @ PROMPT)" using occurs_append [of SUCCESS "[]" PROMPT] by simp
  show "occurs PROMPT (SUCCESS @ PROMPT)" using occurs_append [of PROMPT SUCCESS "[]"] by simp
qed (simp_all add: demo_capture_def demo_args_def quiet_def)

lemma demo_run: "cmd_run (prefix ''/repo'') demo_capture demo_args = Ran 0 (plan_of demo_args)"
  by (rule honest_run [OF demo_facts])

lemma refuse_args_accepts:
  assumes "refuse_args inside a = None" shows "cmd_run inside cap a \<noteq> Run_refused r"
proof -
  have "check_ranges (rn_src a) (rn_dst a) (rn_bytes a) = None"
    "preread_target inside (st_out (plan_of a ! 0)) = None"
    "readback_target inside (rn_src a) (rn_bytes a) (st_out (plan_of a ! 3)) = None"
    using assms by (auto simp: refuse_args_def split: option.splits)
  then show ?thesis
    by (simp only: cmd_run_def Let_def option.case)
      (simp split: sum.split prod.split verdict.split)
qed

lemma refuse_args_refuses:
  assumes "refuse_args inside a = Some r" shows "cmd_run inside cap a = Run_refused r"
proof (cases "check_ranges (rn_src a) (rn_dst a) (rn_bytes a)")
  case None
  with assms show ?thesis
    by (cases "preread_target inside (st_out (plan_of a ! 0))";
        cases "readback_target inside (rn_src a) (rn_bytes a) (st_out (plan_of a ! 3))")
      (simp_all only: cmd_run_def refuse_args_def Let_def option.case option.inject option.distinct)
next
  case (Some bad)
  with assms show ?thesis by (simp only: cmd_run_def refuse_args_def option.case option.inject)
qed

subsection \<open>Properties\<close>

text \<open>
  C5. \<open>Y\<close> is typed only to the right question: if a run ever sends \<open>Y\<close>, the two steps before it
  were the pre-read and the \<open>FLR\<close>, and the loader's answer to the \<open>FLR\<close> had not returned to the
  prompt and held one echo, which named exactly the source, destination and length of the command
  line, followed by the only confirm question.
\<close>

theorem yes_only_when_asked:
  assumes "cmd_run inside cap a = Ran rc tr" "st \<in> set tr" "st_send st = ''Y''"
  shows "take 3 tr = [plan_of a ! 0, plan_of a ! 1, st] \<and>
    (\<exists>reply. cap [plan_of a ! 0] (plan_of a ! 1) = Some reply \<and> \<not> occurs PROMPT reply \<and>
       asked (strip_sent reply (Some (st_send (plan_of a ! 1)))) (rn_src a) (rn_dst a) (rn_bytes a))"
proof -
  have only: "st = plan_of a ! 2" if "st \<in> {plan_of a ! 0, plan_of a ! 1, plan_of a ! 2, plan_of a ! 3, no_step a}"
    using that assms(3) plan_sends [of a] by auto
  note all = only set_plan [of a]
  from assms(1) show ?thesis
  proof (cases rule: run_cases)
    case (Yes reply)
    with all classify_proceed assms(2) show ?thesis by auto
  next
    case (Window reply r)
    with all classify_proceed assms(2) have "st = plan_of a ! 2" by auto
    moreover have "take 3 tr = [plan_of a ! 0, plan_of a ! 1, plan_of a ! 2]"
      unfolding Window by (subst plan_4) simp
    ultimately show ?thesis using Window classify_proceed by auto
  qed (use assms plan_sends [of a] in auto)
qed

theorem yes_only_when_asked_witness:
  "\<exists>reply. \<not> occurs PROMPT reply \<and>
     asked (strip_sent reply (Some (st_send (plan_of demo_args ! 1)))) 0x60000 0x80A00400 0x100"
proof -
  have "cmd_run (prefix ''/repo'') demo_capture demo_args = Ran 0 (plan_of demo_args)"
    by (rule demo_run)
  from yes_only_when_asked [OF this, of "plan_of demo_args ! 2"] show ?thesis
    using plan_4 [of demo_args] plan_sends [of demo_args]
    by (auto simp: demo_args_def plan_of_def build_plan_def)
qed

text \<open>
  What each exit code of a run says was put on the wire: 0 is the whole plan after a confirmed
  read, 3 is the pre-read and the \<open>FLR\<close> and nothing after them, 4 and 5 end with the \<open>N\<close>, 6 ends
  with the \<open>Y\<close>, and \<open>N\<close> and \<open>Y\<close> are never both sent.
\<close>

theorem run_exit_codes:
  assumes "cmd_run inside cap a = Ran rc tr"
  shows "rc \<in> {0, 2, 3, 4, 5, 6} \<and>
    (rc = 0 \<longrightarrow> tr = plan_of a \<and> (\<exists>r. cap (take 2 (plan_of a)) (plan_of a ! 2) = Some r \<and> classify_yes r = SUCCEEDED)) \<and>
    (rc = 3 \<longrightarrow> tr = take 2 (plan_of a)) \<and>
    (rc \<in> {4, 5} \<longrightarrow> tr = take 2 (plan_of a) @ [no_step a]) \<and>
    (rc = 6 \<longrightarrow> tr = take 3 (plan_of a)) \<and>
    \<not> {''Y'', ''N''} \<subseteq> st_send ` set tr"
proof -
  have t: "take 2 (plan_of a) = [plan_of a ! 0, plan_of a ! 1]"
    "take 3 (plan_of a) = [plan_of a ! 0, plan_of a ! 1, plan_of a ! 2]"
    "set (plan_of a) = {plan_of a ! 0, plan_of a ! 1, plan_of a ! 2, plan_of a ! 3}"
    by (subst plan_4, simp)+
  from assms show ?thesis
    by (cases rule: run_cases) (use plan_sends [of a] in \<open>auto simp: t\<close>)
qed

theorem run_exit_codes_witness:
  "cmd_run (prefix ''/repo'') demo_capture demo_args = Ran 0 (plan_of demo_args) \<and>
   \<not> {''Y'', ''N''} \<subseteq> st_send ` set (plan_of demo_args)"
  using run_exit_codes [OF demo_run] demo_run by blast

text \<open>
  Nothing of the forbidden range is written inside the repository: in every run the pre-read
  goes outside it, and when the window meets H601 every \<open>DW\<close> capture of the run goes outside it.
\<close>

theorem run_containment:
  assumes "cmd_run inside cap a = Ran rc tr" "st \<in> set tr" "prefix ''DW '' (st_send st)"
    and "st_label st = ''pre-read'' \<or> {rn_src a..<rn_src a + rn_bytes a} \<inter> H601 \<noteq> {}"
  shows "\<not> inside (st_out st)"
proof -
  have ref: "refuse_args inside a = None" using assms(1) by (rule refuse_args_Ran)
  then have pos: "0 < rn_bytes a"
    by (auto simp: refuse_args_def check_ranges_def split: option.splits if_splits)
  have tr: "st \<in> {plan_of a ! 0, plan_of a ! 1, plan_of a ! 2, plan_of a ! 3, no_step a}"
    using run_steps [OF assms(1)] assms(2) by blast
  have lab: "st_label (plan_of a ! 3) = ''read-back''" by (simp add: plan_of_def build_plan_def)
  from tr assms(3) plan_sends [of a] have "st = plan_of a ! 0 \<or> st = plan_of a ! 3" by auto
  then show ?thesis
    using ref assms(4) lab overlaps_forbidden_iff [OF pos, of "rn_src a"]
    by (auto simp: refuse_args_def preread_target_def readback_target_def
        split: option.splits if_splits)
qed

theorem run_containment_witness:
  "\<not> prefix ''/repo'' (st_out (plan_of demo_args ! 0)) \<and> st_label (plan_of demo_args ! 0) = ''pre-read''"
proof -
  have l: "st_label (plan_of demo_args ! 0) = ''pre-read''" by (simp add: plan_of_def build_plan_def)
  have "prefix ''DW '' (st_send (plan_of demo_args ! 0))" unfolding plan_sends by simp
  from run_containment [OF demo_run _ this] l show ?thesis by (simp add: set_plan)
qed

text \<open>
  The refusals that another tool asks for ahead of time are the run's own: \<open>refuse_args\<close>
  refuses with a reason exactly when \<open>cmd_run\<close> refuses with it, whatever the board answers, so
  nothing that passes is refused at the bench.
\<close>

theorem refuse_args_is_run:
  "refuse_args inside a = Some r \<longleftrightarrow> cmd_run inside cap a = Run_refused r"
proof (cases "refuse_args inside a")
  case None
  with refuse_args_accepts show ?thesis by simp
next
  case (Some r')
  with refuse_args_refuses [OF Some, of cap] show ?thesis by simp
qed

text \<open>
  C6. An honest board is served: if the arguments are accepted, the loader echoes the transfer it
  was asked for and asks, the read succeeds and no capture fails, then the run sends the whole
  plan and ends with status 0.
\<close>

theorem honest_run_succeeds:
  assumes "refuse_args inside a = None" "rn_go a"
    and "cap [] (plan_of a ! 0) = Some r0"
    and "cap [plan_of a ! 0] (plan_of a ! 1) = Some (st_send (plan_of a ! 1) @ pre @
           echo_text (honest_echo (rn_src a) (rn_dst a) (rn_bytes a)) @ mid @ CONFIRM @ post)"
    and "quiet pre" "quiet mid" "quiet post"
    and "cap [plan_of a ! 0, plan_of a ! 1] (plan_of a ! 2) = Some r2"
    and "occurs SUCCESS r2" "occurs PROMPT r2"
    and "cap [plan_of a ! 0, plan_of a ! 1, plan_of a ! 2] (plan_of a ! 3) = Some r3"
  shows "cmd_run inside cap a = Ran 0 (plan_of a)"
  using assms by (rule honest_run)

theorem honest_run_succeeds_witness:
  "cmd_run (prefix ''/repo'') demo_capture demo_args = Ran 0 (plan_of demo_args)"
  by (rule honest_run_succeeds [OF demo_facts])

end
