(* ===== verification/Sha2.thy ===== *)
theory Sha2
  imports "HOL-Library.Word" Prelude
begin

text \<open>
  The digests of \<open>hashlib\<close> that the sources use, \<open>sha256\<close> and \<open>sha512\<close> (FIPS 180-4), on octet
  strings.  One description of the hash function serves both: the word length, the rotation
  amounts, the round constants and the initial state are the fields of \<open>sha\<close>.
\<close>

unbundle bit_operations_syntax

record 'w sha =
  sh_bytes :: nat
  sh_init :: "'w list"
  sh_consts :: "'w list"
  sh_big0 :: "'w \<Rightarrow> 'w"
  sh_big1 :: "'w \<Rightarrow> 'w"
  sh_small0 :: "'w \<Rightarrow> 'w"
  sh_small1 :: "'w \<Rightarrow> 'w"

text \<open>
  The constants are the leading bits of the fractional parts of roots of primes: cube roots of the
  first 64 and 80 primes for the rounds, square roots of the first eight for the initial state.
  \<open>root_bits\<close> finds the integer root bit by bit.
\<close>

fun root_bits :: "nat \<Rightarrow> nat \<Rightarrow> nat \<Rightarrow> nat \<Rightarrow> nat" where
  "root_bits k n 0 r = r"
| "root_bits k n (Suc i) r = root_bits k n i (if (r + 2 ^ i) ^ k \<le> n then r + 2 ^ i else r)"

definition frac_root :: "nat \<Rightarrow> nat \<Rightarrow> nat \<Rightarrow> nat" where
  "frac_root k w p = root_bits k (p * 2 ^ (k * w)) (w + 4) 0 mod 2 ^ w"

definition small_primes :: "nat list" where
  "small_primes = filter (\<lambda>p. list_all (\<lambda>d. p mod d \<noteq> 0) [2..<p]) [2..<410]"

definition K256 :: "32 word list" where
  "K256 = map (\<lambda>p. of_nat (frac_root 3 32 p)) (take 64 small_primes)"

definition K512 :: "64 word list" where
  "K512 = map (\<lambda>p. of_nat (frac_root 3 64 p)) small_primes"

definition sha256_params :: "32 word sha" where
  "sha256_params =
    \<lparr>sh_bytes = 4,
     sh_init = map (\<lambda>p. of_nat (frac_root 2 32 p)) [2, 3, 5, 7, 11, 13, 17, 19],
     sh_consts = K256,
     sh_big0 = (\<lambda>x. word_rotr 2 x XOR word_rotr 13 x XOR word_rotr 22 x),
     sh_big1 = (\<lambda>x. word_rotr 6 x XOR word_rotr 11 x XOR word_rotr 25 x),
     sh_small0 = (\<lambda>x. word_rotr 7 x XOR word_rotr 18 x XOR drop_bit 3 x),
     sh_small1 = (\<lambda>x. word_rotr 17 x XOR word_rotr 19 x XOR drop_bit 10 x)\<rparr>"

definition sha512_params :: "64 word sha" where
  "sha512_params =
    \<lparr>sh_bytes = 8,
     sh_init = map (\<lambda>p. of_nat (frac_root 2 64 p)) [2, 3, 5, 7, 11, 13, 17, 19],
     sh_consts = K512,
     sh_big0 = (\<lambda>x. word_rotr 28 x XOR word_rotr 34 x XOR word_rotr 39 x),
     sh_big1 = (\<lambda>x. word_rotr 14 x XOR word_rotr 18 x XOR word_rotr 41 x),
     sh_small0 = (\<lambda>x. word_rotr 1 x XOR word_rotr 8 x XOR drop_bit 7 x),
     sh_small1 = (\<lambda>x. word_rotr 19 x XOR word_rotr 61 x XOR drop_bit 6 x)\<rparr>"

text \<open>Padding to a whole number of sixteen-word blocks; the length is in bits, over two words.\<close>

definition sha_pad :: "nat \<Rightarrow> bytes \<Rightarrow> bytes" where
  "sha_pad k m =
     (let block = 16 * k; used = (length m + 1 + 2 * k) mod block in
      m @ [char_of (128 :: nat)] @ replicate ((block - used) mod block) (char_of (0 :: nat))
        @ be_bytes (2 * k) (8 * length m))"

fun schedule :: "('a :: len word \<Rightarrow> 'a word) \<Rightarrow> ('a word \<Rightarrow> 'a word) \<Rightarrow> nat \<Rightarrow> 'a word list \<Rightarrow> 'a word list" where
  "schedule s0 s1 0 ws = ws"
| "schedule s0 s1 (Suc n) ws =
     (let t = length ws in
      schedule s0 s1 n (ws @ [s1 (ws ! (t - 2)) + ws ! (t - 7) + s0 (ws ! (t - 15)) + ws ! (t - 16)]))"

fun sha_round :: "'a :: len word sha \<Rightarrow> 'a word \<times> 'a word \<Rightarrow> 'a word list \<Rightarrow> 'a word list" where
  "sha_round p (k, w) [a, b, c, d, e, f, g, h] =
     (let t1 = h + sh_big1 p e + ((e AND f) XOR (NOT e AND g)) + k + w;
          t2 = sh_big0 p a + ((a AND b) XOR (a AND c) XOR (b AND c))
      in [t1 + t2, a, b, c, d + t1, e, f, g])"
| "sha_round p kw st = st"

definition block_words :: "'a :: len word sha \<Rightarrow> bytes \<Rightarrow> 'a word list" where
  "block_words p b = map (\<lambda>c. of_nat (be_val c)) (chunks (sh_bytes p - 1) b)"

definition compress :: "'a :: len word sha \<Rightarrow> bytes \<Rightarrow> 'a word list \<Rightarrow> 'a word list" where
  "compress p blk st =
     (let ws = schedule (sh_small0 p) (sh_small1 p) (length (sh_consts p) - 16) (block_words p blk)
      in map2 (+) st (fold (sha_round p) (zip (sh_consts p) ws) st))"

definition sha_digest :: "'a :: len word sha \<Rightarrow> bytes \<Rightarrow> bytes" where
  "sha_digest p m =
     concat (map (\<lambda>w. be_bytes (sh_bytes p) (unat w))
       (fold (compress p) (chunks (16 * sh_bytes p - 1) (sha_pad (sh_bytes p) m)) (sh_init p)))"

definition sha256 :: "bytes \<Rightarrow> bytes" where "sha256 = sha_digest sha256_params"
definition sha512 :: "bytes \<Rightarrow> bytes" where "sha512 = sha_digest sha512_params"

text \<open>\<open>hexdigest\<close>.\<close>

definition hex_of :: "bytes \<Rightarrow> string" where
  "hex_of b = concat (map (\<lambda>c. hexL 2 (of_char c)) b)"

subsection \<open>Lengths\<close>

lemma length_sha_round [simp]: "length (sha_round p kw st) = length st"
  by (induction p kw st rule: sha_round.induct) (auto simp: Let_def)

lemma length_sha_rounds [simp]: "length (fold (sha_round p) kws st) = length st"
  by (induction kws arbitrary: st) auto

lemma length_compress [simp]: "length (compress p blk st) = length st"
  by (simp add: compress_def Let_def)

lemma length_compress_fold [simp]: "length (fold (compress p) bs st) = length st"
  by (induction bs arbitrary: st) auto

lemma length_sha_digest: "length (sha_digest p m) = length (sh_init p) * sh_bytes p"
proof -
  have "length (concat (map (\<lambda>w. be_bytes k (unat w)) ws)) = length ws * k" for k and ws :: "'a word list"
    by (induction ws) auto
  then show ?thesis by (simp add: sha_digest_def)
qed

lemma length_sha256 [simp]: "length (sha256 m) = 32"
  by (simp add: sha256_def length_sha_digest sha256_params_def)

lemma length_sha512 [simp]: "length (sha512 m) = 64"
  by (simp add: sha512_def length_sha_digest sha512_params_def)

lemma hex_of_shape: "length (hex_of b) = 2 * length b" "list_all is_hex_lower (hex_of b)"
proof -
  have "(of_char c :: nat) < 16 ^ 2" for c by simp
  from length_hexL [OF this] show "length (hex_of b) = 2 * length b"
    by (induction b) (auto simp: hex_of_def)
  show "list_all is_hex_lower (hex_of b)"
    using hexL_hex by (auto simp: hex_of_def list_all_iff)
qed

end
