(* ===== verification/FlashMap.thy ===== *)
theory FlashMap
  imports Prelude PyText FlashWin Sha2
begin

text \<open>
  \<open>tools/flashmap.py\<close>: the digest map of the chip.  \<open>predict\<close> computes from a dump what the driver's map
  will print, \<open>compare\<close> judges a capture of it; the range of \<open>FlashWin\<close> is never hashed.  What
  \<open>main\<close>'s own controls find is a parameter.
\<close>

subsection \<open>The entries\<close>

definition SIZE :: int where "SIZE = 0x00400000"
definition CHUNK :: int where "CHUNK = 4096"
definition MAP_N :: nat where "MAP_N = 32"
definition GROUP :: int where "GROUP = SIZE div int MAP_N"
definition H601_LO :: int where "H601_LO = 0x6000"
definition H601_HI :: int where "H601_HI = 0x8000"
definition COMPLEMENT :: int where "COMPLEMENT = SIZE - (H601_HI - H601_LO)"

datatype map_refusal =
    No_dump string | Wrong_dump_size string nat | Bad_level | Overlap_digest int int string
  | Missing_field string | Map_not_completed string string | Device_hashed string | Truncated string | No_map_lines
  | Bad_group int
  | Int_traceback string

text \<open>The last is \<open>int()\<close>'s \<open>ValueError\<close>, which nothing catches.\<close>

definition load_dump :: "(string \<Rightarrow> bytes option) \<Rightarrow> string \<Rightarrow> map_refusal + bytes" where
  "load_dump files path =
     (case files path of None \<Rightarrow> Inl (No_dump path)
      | Some data \<Rightarrow> if int (length data) \<noteq> SIZE then Inl (Wrong_dump_size path (length data)) else Inr data)"

definition entry_ranges :: "int \<Rightarrow> int \<Rightarrow> int \<Rightarrow> map_refusal + int \<times> int \<times> (int \<times> int) list" where
  "entry_ranges level grp index =
     (let ranges = (\<lambda>u base.
        let start = base + index * u in
        (start, u, map (\<lambda>off. (off, CHUNK)) (filter (\<lambda>off. \<not> (H601_LO \<le> off \<and> off < H601_HI))
           (map (\<lambda>k. start + int k * CHUNK) [0..<nat (u div CHUNK)]))))
      in if level = 0 then Inr (ranges GROUP 0)
         else if level = 1 then Inr (ranges (GROUP div int MAP_N) (grp * GROUP))
         else Inl Bad_level)"

fun digest_loop :: "bytes \<Rightarrow> (int \<times> int) list \<Rightarrow> bytes \<Rightarrow> int \<Rightarrow> map_refusal + bytes \<times> int" where
  "digest_loop dump [] h n = Inr (h, n)"
| "digest_loop dump ((off, ln) # r) h n =
     (case overlaps_forbidden off ln of
        Some (lo, hi, why) \<Rightarrow> Inl (Overlap_digest off (off + ln) why)
      | None \<Rightarrow> digest_loop dump r (h @ py_slice dump off (off + ln)) (n + ln))"

type_synonym map_row = "int \<times> int \<times> string option"

definition entry_digest :: "bytes \<Rightarrow> int \<Rightarrow> int \<Rightarrow> int \<Rightarrow> map_refusal + map_row" where
  "entry_digest dump level grp index =
     sbind (entry_ranges level grp index) (\<lambda>(start, u, ranges).
     sbind (digest_loop dump ranges [] 0) (\<lambda>(h, n).
       Inr (start, n, if n \<noteq> 0 then Some (hex_of (sha256 h)) else None)))"

definition predict :: "bytes \<Rightarrow> int \<Rightarrow> int \<Rightarrow> map_refusal + map_row list" where
  "predict dump level grp = traverse (entry_digest dump level grp) (map int [0..<MAP_N])"

definition render_row :: "map_row \<Rightarrow> string" where
  "render_row r =
     (case r of (off, n, d) \<Rightarrow>
        fmtX 6 off @ '' 1 '' @ replicate (6 - length (fmtd n)) (CHR '' '') @ fmtd n @ '' ''
          @ (case d of None \<Rightarrow> ''SKIPPED'' | Some h \<Rightarrow> h))"

definition render :: "map_row list \<Rightarrow> string list" where
  "render rows = map render_row rows"

subsection \<open>The comparison\<close>

type_synonym map_entry = "int \<times> int \<times> int \<times> string"

definition capture_line ::
    "(string \<Rightarrow> string option) \<times> map_entry list \<Rightarrow> string \<Rightarrow> (string \<Rightarrow> string option) \<times> map_entry list" where
  "capture_line st raw =
     (case st of (flds, entries) \<Rightarrow>
        (case py_words raw of
           [k, v] \<Rightarrow> if alpha (hd k) then (flds(k \<mapsto> v), entries) else st
         | [a, b, c, d] \<Rightarrow>
             (if length a = 6 then
                (case (py_int 16 a, py_int 10 b, py_int 10 c) of
                   (Some off, Some eq, Some n) \<Rightarrow> (flds, entries @ [(off, eq, n, d)])
                 | _ \<Rightarrow> st)
              else st)
         | _ \<Rightarrow> st))"

definition parse_capture :: "string \<Rightarrow> (string \<Rightarrow> string option) \<times> map_entry list" where
  "parse_capture txt =
     foldl capture_line (\<lambda>k. None, []) (split_on (CHR 0x0A) (universal_newlines txt))"

datatype map_verdict = EXTRA | SCOPE int int | SKIPPED | SAME int | DIFFER string string

definition judge_entry :: "map_row list \<Rightarrow> map_entry \<Rightarrow> int \<times> map_verdict" where
  "judge_entry want e =
     (case e of (off, eq, n, d) \<Rightarrow>
        (off, case map_of (rev want) off of None \<Rightarrow> EXTRA
         | Some (wn, wd) \<Rightarrow>
             (if n \<noteq> wn then SCOPE n wn
              else case wd of None \<Rightarrow> SKIPPED
              | Some w \<Rightarrow> if d = w then SAME eq else DIFFER (take 16 d) (take 16 w))))"

record map_summary =
  ms_level :: int
  ms_group :: int
  ms_same :: nat
  ms_differ :: nat
  ms_scope :: nat
  ms_extra :: nat
  ms_missing :: "int list"
  ms_n :: nat

definition count_kind :: "(map_verdict \<Rightarrow> bool) \<Rightarrow> (int \<times> map_verdict) list \<Rightarrow> nat" where
  "count_kind p rows = length (filter (\<lambda>(off, v). p v) rows)"

definition summarise :: "int \<Rightarrow> int \<Rightarrow> map_row list \<Rightarrow> map_entry list \<Rightarrow> (int \<times> map_verdict) list \<times> map_summary" where
  "summarise level grp want entries =
     (let rows = map (judge_entry want) entries in
      (rows,
       \<lparr>ms_level = level, ms_group = grp,
        ms_same = count_kind (\<lambda>v. case v of SAME _ \<Rightarrow> True | SKIPPED \<Rightarrow> True | _ \<Rightarrow> False) rows,
        ms_differ = count_kind (\<lambda>v. case v of DIFFER _ _ \<Rightarrow> True | _ \<Rightarrow> False) rows,
        ms_scope = count_kind (\<lambda>v. case v of SCOPE _ _ \<Rightarrow> True | _ \<Rightarrow> False) rows,
        ms_extra = count_kind (\<lambda>v. v = EXTRA) rows,
        ms_missing = sort (remdups (filter (\<lambda>off. off \<notin> fst ` set entries) (map fst want))),
        ms_n = length entries\<rparr>))"

definition compare_map :: "bytes \<Rightarrow> string \<Rightarrow> map_refusal + (int \<times> map_verdict) list \<times> map_summary" where
  "compare_map dump txt =
     (let (flds, entries) = parse_capture txt; f = (\<lambda>k. the (flds k)) in
      case find (\<lambda>k. flds k = None) [''map_level'', ''map_ran'', ''map_rc'', ''map_h601_hashed''] of
        Some k \<Rightarrow> Inl (Missing_field k)
      | None \<Rightarrow>
         (if f ''map_ran'' \<noteq> ''1'' \<or> f ''map_rc'' \<noteq> ''0'' then Inl (Map_not_completed (f ''map_ran'') (f ''map_rc''))
          else if f ''map_h601_hashed'' \<noteq> ''0'' then Inl (Device_hashed (f ''map_h601_hashed''))
          else if flds ''map_truncated'' \<noteq> None \<and> flds ''map_truncated'' \<noteq> Some ''0''
          then Inl (Truncated (f ''map_truncated''))
          else sbind (or_err (Int_traceback (f ''map_level'')) (py_int 10 (f ''map_level''))) (\<lambda>level.
            let g = (case flds ''map_group'' of None \<Rightarrow> ''0'' | Some x \<Rightarrow> x) in
            sbind (or_err (Int_traceback g) (py_int 10 g)) (\<lambda>grp.
            if entries = [] then Inl No_map_lines
            else sbind (predict dump level grp) (\<lambda>want. Inr (summarise level grp want entries))))))"

subsection \<open>The command\<close>

datatype map_cmd = No_map_cmd | Controls_cmd | Predict_cmd int int | Compare_cmd string

definition map_refuse_args :: "map_cmd \<Rightarrow> map_refusal option" where
  "map_refuse_args c =
     (case c of Predict_cmd level grp \<Rightarrow>
        (if 0 \<le> grp \<and> grp < int MAP_N then None else Some (Bad_group grp))
      | _ \<Rightarrow> None)"

datatype map_out =
    Map_refused map_refusal | Map_help | Ran_controls | Controls_failed | Predicted "string list"
  | Compared "(int \<times> map_verdict) list" map_summary | No_capture string | Map_traceback string

definition log_path :: "(string \<Rightarrow> string option) \<Rightarrow> string \<Rightarrow> string" where
  "log_path captures path =
     (if \<not> suffix ''.log'' path \<and> captures (path @ ''.log'') \<noteq> None then path @ ''.log'' else path)"

definition map_refused :: "map_refusal \<Rightarrow> map_out \<times> int" where
  "map_refused e = (case e of Int_traceback s \<Rightarrow> (Map_traceback s, 1) | _ \<Rightarrow> (Map_refused e, 2))"

definition map_main ::
    "(string \<Rightarrow> bytes option) \<Rightarrow> (string \<Rightarrow> string option) \<Rightarrow> int \<Rightarrow> bool \<Rightarrow> bool \<Rightarrow> string \<Rightarrow> map_cmd \<Rightarrow> map_out \<times> int" where
  "map_main files captures controls_status controls_ok no_controls dump_path c =
     (case map_refuse_args c of Some e \<Rightarrow> (Map_refused e, 2)
      | None \<Rightarrow>
         (case c of No_map_cmd \<Rightarrow> (Map_help, 2)
          | Controls_cmd \<Rightarrow> (Ran_controls, controls_status)
          | _ \<Rightarrow>
             (if \<not> no_controls \<and> \<not> controls_ok then (Controls_failed, 2)
              else case load_dump files dump_path of Inl e \<Rightarrow> (Map_refused e, 2)
              | Inr dump \<Rightarrow>
                 (case c of
                    Predict_cmd level grp \<Rightarrow>
                      (case predict dump level grp of Inl e \<Rightarrow> map_refused e
                       | Inr rows \<Rightarrow> (Predicted (render rows), 0))
                  | Compare_cmd capture \<Rightarrow>
                      (let path = log_path captures capture in
                       case captures path of None \<Rightarrow> (No_capture path, 1)
                       | Some txt \<Rightarrow>
                          (case compare_map dump txt of Inl e \<Rightarrow> map_refused e
                           | Inr (rows, s) \<Rightarrow>
                              (Compared rows s,
                               if ms_differ s \<noteq> 0 \<or> ms_scope s \<noteq> 0 \<or> ms_extra s \<noteq> 0 \<or> ms_missing s \<noteq> [] then 1 else 0)))
                  | _ \<Rightarrow> (Map_help, 2)))))"

subsection \<open>What is hashed\<close>

lemmas map_numbers = SIZE_def CHUNK_def MAP_N_def GROUP_def H601_LO_def H601_HI_def

text \<open>The bytes of a range that are not in the forbidden range, byte by byte.\<close>

definition covered :: "bytes \<Rightarrow> int \<Rightarrow> int \<Rightarrow> bytes" where
  "covered dump a b = map (\<lambda>i. dump ! nat i) (filter (\<lambda>i. \<not> (H601_LO \<le> i \<and> i < H601_HI)) [a..b - 1])"

definition map_unit :: "int \<Rightarrow> int" where "map_unit level = (if level = 0 then 0x20000 else 0x1000)"
definition map_start :: "int \<Rightarrow> int \<Rightarrow> nat \<Rightarrow> int" where
  "map_start level grp i = (if level = 0 then int i * 0x20000 else grp * 0x20000 + int i * 0x1000)"

definition ref_row :: "bytes \<Rightarrow> int \<Rightarrow> int \<Rightarrow> map_row" where
  "ref_row dump a b =
     (let h = covered dump a b in (a, int (length h), if h = [] then None else Some (hex_of (sha256 h))))"

lemma digest_loop_clear:
  "(\<And>off ln. (off, ln) \<in> set rs \<Longrightarrow> overlaps_forbidden off ln = None) \<Longrightarrow>
     digest_loop dump rs h n =
       Inr (h @ concat (map (\<lambda>(off, ln). py_slice dump off (off + ln)) rs), n + sum_list (map snd rs))"
  by (induction rs arbitrary: h n) auto

lemma chunk_clear:
  "\<not> (H601_LO \<le> 4096 * m \<and> 4096 * m < H601_HI) \<Longrightarrow> overlaps_forbidden (4096 * m) CHUNK = None"
  by (simp add: overlaps_forbidden_arith map_numbers) presburger

lemma covered_append: "a \<le> b \<Longrightarrow> b \<le> c \<Longrightarrow> covered dump a c = covered dump a b @ covered dump b c"
  using upto_split1 [of a b "c - 1"] by (cases "b = c") (simp_all add: covered_def)

lemma covered_chunk:
  assumes "0 \<le> m" "4096 * m + 4096 \<le> int (length dump)"
  shows "covered dump (4096 * m) (4096 * m + 4096) =
    (if H601_LO \<le> 4096 * m \<and> 4096 * m < H601_HI then [] else py_slice dump (4096 * m) (4096 * m + 4096))"
proof (cases "H601_LO \<le> 4096 * m \<and> 4096 * m < H601_HI")
  case True
  then have "m = 6 \<or> m = 7" by (auto simp: map_numbers)
  then show ?thesis using True by (auto simp: covered_def filter_empty_conv map_numbers)
next
  case False
  then have "m < 6 \<or> 8 \<le> m" by (auto simp: map_numbers)
  then have f: "filter (\<lambda>i. \<not> (H601_LO \<le> i \<and> i < H601_HI)) [4096 * m..4096 * m + 4096 - 1] = [4096 * m..4096 * m + 4096 - 1]"
    by (auto intro!: filter_True simp: map_numbers)
  have "map (\<lambda>i. dump ! nat i) [int a..int a + int k - 1] = take k (drop a dump)" if "a + k \<le> length dump" for a k
    using that
  proof (induction k)
    case (Suc k)
    have "[int a..int a + int (Suc k) - 1] = [int a..int a + int k - 1] @ [int a + int k]"
      using upto_rec2 [of "int a" "int a + int k"] by simp
    then show ?case using Suc by (simp add: take_Suc_conv_app_nth nat_add_distrib)
  qed simp
  from this [of "nat (4096 * m)" 4096] have "covered dump (4096 * m) (4096 * m + 4096) = take 4096 (drop (nat (4096 * m)) dump)"
    using assms unfolding covered_def f by simp
  moreover have "py_slice dump (4096 * m) (4096 * m + 4096) = take 4096 (drop (nat (4096 * m)) dump)"
    using assms by (simp add: py_slice_nonneg Prelude.slice_def nat_add_distrib drop_take)
  ultimately show ?thesis by (simp only: False if_False)
qed

lemma covered_chunks:
  assumes "0 \<le> m" "4096 * m + int k * 4096 \<le> int (length dump)"
  defines "rs \<equiv> filter (\<lambda>off. \<not> (H601_LO \<le> off \<and> off < H601_HI)) (map (\<lambda>j. 4096 * m + int j * 4096) [0..<k])"
  shows "concat (map (\<lambda>off. py_slice dump off (off + 4096)) rs) = covered dump (4096 * m) (4096 * m + int k * 4096) \<and>
    int (length (covered dump (4096 * m) (4096 * m + int k * 4096))) = 4096 * int (length rs)"
  unfolding rs_def using assms(2)
proof (induction k)
  case 0
  then show ?case by (simp add: covered_def)
next
  case (Suc k)
  let ?x = "4096 * (m + int k)"
  have x: "4096 * m + int k * 4096 = ?x" by simp
  have c: "covered dump (4096 * m) (4096 * m + int (Suc k) * 4096) =
      covered dump (4096 * m) ?x @ covered dump ?x (?x + 4096)"
    using covered_append [of "4096 * m" ?x "?x + 4096" dump] by (simp add: algebra_simps)
  have k: "covered dump ?x (?x + 4096) = (if H601_LO \<le> ?x \<and> ?x < H601_HI then [] else py_slice dump ?x (?x + 4096))"
    using Suc.prems assms(1) by (intro covered_chunk) auto
  have l: "length (py_slice dump ?x (?x + 4096)) = 4096"
    using Suc.prems assms(1) by (simp add: py_slice_nonneg nat_add_distrib)
  have "4096 * m + int k * 4096 \<le> int (length dump)" using Suc.prems by simp
  note IH = Suc.IH [OF this, unfolded x]
  show ?case unfolding c k using IH l by (auto simp: x)
qed

lemma entry_exact:
  assumes "level = 0 \<or> level = 1" "0 \<le> grp" "grp < 32" "i < 32" "int (length dump) = SIZE"
  shows "entry_digest dump level grp (int i) =
    Inr (ref_row dump (map_start level grp i) (map_start level grp i + map_unit level))"
proof -
  define m where "m = (if level = 0 then int i * 32 else grp * 32 + int i)"
  define k where "k = (if level = 0 then 32 else 1 :: nat)"
  have s: "map_start level grp i = 4096 * m" "map_unit level = int k * 4096"
    by (simp_all add: map_start_def map_unit_def m_def k_def)
  have b: "0 \<le> m" "4096 * m + int k * 4096 \<le> int (length dump)"
    using assms by (auto simp: m_def k_def SIZE_def)
  define rs where "rs = filter (\<lambda>off. \<not> (H601_LO \<le> off \<and> off < H601_HI)) (map (\<lambda>j. 4096 * m + int j * 4096) [0..<k])"
  have e: "entry_ranges level grp (int i) = Inr (4096 * m, int k * 4096, map (\<lambda>off. (off, CHUNK)) rs)"
    using assms(1) by (auto simp: entry_ranges_def Let_def GROUP_def SIZE_def MAP_N_def CHUNK_def m_def k_def algebra_simps rs_def)
  have cl: "overlaps_forbidden off ln = None" if "(off, ln) \<in> set (map (\<lambda>off. (off, CHUNK)) rs)" for off ln
  proof -
    from that [unfolded rs_def] obtain j where o: "off = 4096 * m + int j * 4096" "ln = CHUNK" "\<not> (H601_LO \<le> off \<and> off < H601_HI)"
      by auto
    then have "off = 4096 * (m + int j)" by simp
    from chunk_clear [of "m + int j", folded this] o show ?thesis by simp
  qed
  have d: "digest_loop dump (map (\<lambda>off. (off, CHUNK)) rs) [] 0 =
      Inr (covered dump (4096 * m) (4096 * m + int k * 4096), int (length (covered dump (4096 * m) (4096 * m + int k * 4096))))"
  proof -
    have "map (\<lambda>(off, ln). py_slice dump off (off + ln)) (map (\<lambda>off. (off, CHUNK)) rs) = map (\<lambda>off. py_slice dump off (off + 4096)) rs"
      "sum_list (map snd (map (\<lambda>off. (off, CHUNK)) rs)) = 4096 * int (length rs)"
      by (simp_all add: CHUNK_def comp_def sum_list_triv)
    then show ?thesis
      using digest_loop_clear [of "map (\<lambda>off. (off, CHUNK)) rs" dump "[]" 0] cl covered_chunks [OF b, folded rs_def] by (simp only: append_Nil add_0)
  qed
  show ?thesis
    unfolding s entry_digest_def e sbind_simps prod.case d ref_row_def Let_def
    by (simp only: of_nat_eq_0_iff length_0_conv if_not_P split: if_split) blast
qed

lemma traverse_map: "(\<And>x. x \<in> set xs \<Longrightarrow> f (g x) = Inr (h x)) \<Longrightarrow> traverse f (map g xs) = Inr (map h xs)"
  by (induction xs) auto

lemma predict_exact:
  assumes "level = 0 \<or> level = 1" "0 \<le> grp" "grp < 32" "int (length dump) = SIZE"
  shows "predict dump level grp =
    Inr (map (\<lambda>i. ref_row dump (map_start level grp i) (map_start level grp i + map_unit level)) [0..<32])"
  unfolding predict_def MAP_N_def using entry_exact [OF assms(1-3) _ assms(4)] by (intro traverse_map) simp

subsection \<open>The text the driver prints\<close>

definition device_fields :: "int \<Rightarrow> int \<Rightarrow> string list" where
  "device_fields level grp =
     [''map_level '' @ dec (nat level), ''map_group '' @ dec (nat grp), ''map_ran 1'', ''map_rc 0'', ''map_h601_hashed 0'']"

definition device_map :: "bytes \<Rightarrow> int \<Rightarrow> int \<Rightarrow> string" where
  "device_map flash level grp =
     concat (map (\<lambda>l. l @ [CHR 0x0D, CHR 0x0A])
       (device_fields level grp @ render (map (\<lambda>i. ref_row flash (map_start level grp i) (map_start level grp i + map_unit level)) [0..<32])))"

definition entry_of :: "map_row \<Rightarrow> map_entry" where
  "entry_of r = (case r of (off, n, d) \<Rightarrow> (off, 1, n, case d of None \<Rightarrow> ''SKIPPED'' | Some h \<Rightarrow> h))"

lemma lines_crlf:
  "\<forall>l \<in> set ls. CHR 0x0D \<notin> set l \<and> CHR 0x0A \<notin> set l \<Longrightarrow>
     split_on (CHR 0x0A) (universal_newlines (concat (map (\<lambda>l. l @ [CHR 0x0D, CHR 0x0A]) ls))) = ls @ [[]]"
proof (induction ls)
  case (Cons l ls)
  then show ?case using split_on_piece [of "CHR 0x0A" l]
    by (simp add: universal_newlines_free split_on_piece)
qed simp

definition dark :: "string \<Rightarrow> bool" where "dark w \<longleftrightarrow> list_all (\<lambda>x. \<not> py_space x) w \<and> w \<noteq> []"

lemma dark_words: "dark w \<Longrightarrow> py_words (w @ CHR '' '' # r) = w # py_words r" "dark w \<Longrightarrow> py_words w = [w]"
  by (auto simp: dark_def py_words_Cons py_words_one py_space_def)

lemma dark_dec: "dark (dec n)"
  using dec_digit hex_no_space digits_hex(1) by (auto simp: dark_def list_all_iff)

lemma dark_hexU: "dark (hexU k n)"
  using hexU_hex hex_no_space by (auto simp: dark_def list_all_iff hexU_def pad0_def)

lemma dark_hex_of: "b \<noteq> [] \<Longrightarrow> dark (hex_of b)"
  using hex_of_shape [of b] hex_no_space digits_hex(2) by (auto simp: dark_def list_all_iff)

lemma dark_clean: "dark w \<Longrightarrow> CHR 0x0D \<notin> set w \<and> CHR 0x0A \<notin> set w"
  by (auto simp: dark_def list_all_iff py_space_def)

definition small_row :: "map_row \<Rightarrow> bool" where
  "small_row r = (case r of (off, n, d) \<Rightarrow> 0 \<le> off \<and> off < 16 ^ 6 \<and> 0 \<le> n \<and> (\<forall>h. d = Some h \<longrightarrow> dark h))"

lemma row_text:
  assumes "small_row r"
  obtains off n d k where "r = (int off, int n, d)" "off < 16 ^ 6"
    "render_row r = hexU 6 off @ '' 1 '' @ replicate k (CHR '' '') @ dec n @ '' '' @ (case d of None \<Rightarrow> ''SKIPPED'' | Some h \<Rightarrow> h)"
    "dark (case d of None \<Rightarrow> ''SKIPPED'' | Some h \<Rightarrow> h)"
proof -
  obtain o' n' d where r: "r = (o', n', d)" by (cases r) auto
  then obtain off n where on: "o' = int off" "n' = int n" using assms by (auto simp: small_row_def elim!: nonneg_int_cases)
  have "dark ''SKIPPED''" by (simp add: dark_def py_space_def)
  then have "dark (case d of None \<Rightarrow> ''SKIPPED'' | Some h \<Rightarrow> h)"
    using assms by (auto simp: small_row_def r split: option.split)
  moreover have "off < 16 ^ 6" using assms by (simp add: small_row_def r on)
  ultimately show ?thesis using that [of off n d "6 - length (fmtd (int n))"]
    by (simp add: r on render_row_def fmtX_def fmtd_def)
qed

lemma row_read:
  assumes "small_row r"
  shows "capture_line (f, es) (render_row r) = (f, es @ [entry_of r])"
    "CHR 0x0D \<notin> set (render_row r) \<and> CHR 0x0A \<notin> set (render_row r)"
proof -
  obtain off n d k where r: "r = (int off, int n, d)" "off < 16 ^ 6"
    and t: "render_row r = hexU 6 off @ '' 1 '' @ replicate k (CHR '' '') @ dec n @ '' '' @ (case d of None \<Rightarrow> ''SKIPPED'' | Some h \<Rightarrow> h)"
      "dark (case d of None \<Rightarrow> ''SKIPPED'' | Some h \<Rightarrow> h)"
    using row_text [OF assms] .
  let ?d = "case d of None \<Rightarrow> ''SKIPPED'' | Some h \<Rightarrow> h"
  have sp: "list_all py_space (replicate k (CHR '' ''))" by (simp add: list_all_iff py_space_def)
  have one: "dark ''1''" by (simp add: dark_def py_space_def)
  have "py_words (hexU 6 off @ CHR '' '' # ''1'' @ CHR '' '' # replicate k (CHR '' '') @ dec n @ CHR '' '' # ?d) =
      [hexU 6 off, ''1'', dec n, ?d]"
    by (simp only: dark_words(1) [OF dark_hexU] dark_words(1) [OF one] py_words_spaces [OF sp] dark_words(1) [OF dark_dec]
        dark_words(2) [OF t(2)])
  then have w: "py_words (render_row r) = [hexU 6 off, ''1'', dec n, ?d]" unfolding t(1) by simp
  have "length (hexU 6 off) = 6" using r(2) by (intro length_hexU) auto
  moreover have "py_int 10 ''1'' = Some 1" using py_int_dec [of 1] unfolding dec_bits by simp
  ultimately show "capture_line (f, es) (render_row r) = (f, es @ [entry_of r])"
    unfolding capture_line_def w by (simp add: py_int_hexU py_int_dec entry_of_def r(1))
  show "CHR 0x0D \<notin> set (render_row r) \<and> CHR 0x0A \<notin> set (render_row r)"
    unfolding t(1) using dark_clean [OF dark_hexU, of 6 off] dark_clean [OF dark_dec, of n] dark_clean [OF t(2)] by auto
qed

lemma rows_read:
  "\<forall>r \<in> set rows. small_row r \<Longrightarrow> foldl capture_line (f, es) (map render_row rows) = (f, es @ map entry_of rows)"
  by (induction rows arbitrary: es) (simp_all add: row_read(1))

lemma ref_row_small:
  assumes "level = 0 \<or> level = 1" "0 \<le> grp" "grp < 32" "i < 32"
  shows "small_row (ref_row flash (map_start level grp i) (map_start level grp i + map_unit level))"
proof -
  have "sha256 m \<noteq> []" for m using length_sha256 [of m] by (metis list.size(3) zero_neq_numeral)
  then show ?thesis
    using assms dark_hex_of by (auto simp: small_row_def ref_row_def Let_def map_start_def)
qed

lemma field_read:
  assumes "k = ''map_level'' \<or> k = ''map_group'' \<or> k = ''map_ran'' \<or> k = ''map_rc'' \<or> k = ''map_h601_hashed''"
  shows "capture_line (f, es) (k @ CHR '' '' # dec n) = (f(k \<mapsto> dec n), es)"
    "CHR 0x0D \<notin> set (k @ CHR '' '' # dec n) \<and> CHR 0x0A \<notin> set (k @ CHR '' '' # dec n)"
proof -
  have k: "dark k" "alpha (hd k)" using assms by (auto simp: dark_def py_space_def alpha_def)
  show "capture_line (f, es) (k @ CHR '' '' # dec n) = (f(k \<mapsto> dec n), es)"
    unfolding capture_line_def dark_words(1) [OF k(1)] dark_words(2) [OF dark_dec] using k(2) by simp
  show "CHR 0x0D \<notin> set (k @ CHR '' '' # dec n) \<and> CHR 0x0A \<notin> set (k @ CHR '' '' # dec n)"
    using dark_clean [OF k(1)] dark_clean [OF dark_dec, of n] by simp
qed

lemma device_parse:
  assumes "level = 0 \<or> level = 1" "0 \<le> grp" "grp < 32"
  shows "parse_capture (device_map flash level grp) =
    ([''map_level'' \<mapsto> dec (nat level), ''map_group'' \<mapsto> dec (nat grp), ''map_ran'' \<mapsto> ''1'', ''map_rc'' \<mapsto> ''0'',
      ''map_h601_hashed'' \<mapsto> ''0''],
     map entry_of (map (\<lambda>i. ref_row flash (map_start level grp i) (map_start level grp i + map_unit level)) [0..<32]))"
proof -
  let ?rows = "map (\<lambda>i. ref_row flash (map_start level grp i) (map_start level grp i + map_unit level)) [0..<32]"
  have s: "\<forall>r \<in> set ?rows. small_row r" using ref_row_small [OF assms] by auto
  have f: "device_fields level grp = [''map_level'' @ CHR '' '' # dec (nat level), ''map_group'' @ CHR '' '' # dec (nat grp),
      ''map_ran'' @ CHR '' '' # dec 1, ''map_rc'' @ CHR '' '' # dec 0, ''map_h601_hashed'' @ CHR '' '' # dec 0]"
    by (simp add: device_fields_def dec_bits [unfolded One_nat_def] dec_bits)
  have c: "\<forall>l \<in> set (device_fields level grp @ render ?rows). CHR 0x0D \<notin> set l \<and> CHR 0x0A \<notin> set l"
  proof -
    have "list_all (\<lambda>l. CHR 0x0D \<notin> set l \<and> CHR 0x0A \<notin> set l) (device_fields level grp)"
      unfolding f by (simp only: list.pred_inject field_read(2) simp_thms)
    moreover have "list_all (\<lambda>l. CHR 0x0D \<notin> set l \<and> CHR 0x0A \<notin> set l) (render ?rows)"
      using s row_read(2) by (simp add: render_def list_all_iff)
    ultimately show ?thesis by (simp only: set_append list_all_iff ball_Un)
  qed
  have e: "capture_line st [] = st" for st by (cases st) (simp add: capture_line_def)
  have g: "foldl capture_line (\<lambda>k. None, []) (device_fields level grp) =
      ([''map_level'' \<mapsto> dec (nat level), ''map_group'' \<mapsto> dec (nat grp), ''map_ran'' \<mapsto> dec 1, ''map_rc'' \<mapsto> dec 0,
        ''map_h601_hashed'' \<mapsto> dec 0], [])"
    unfolding f by (simp only: foldl_Cons foldl_Nil field_read(1) simp_thms)
  show ?thesis
    unfolding parse_capture_def device_map_def lines_crlf [OF c]
    unfolding render_def foldl_append g rows_read [OF s]
    by (simp only: foldl_Cons foldl_Nil e append_Nil dec_bits)
qed

lemma covered_length: "length (covered a lo hi) = length (covered b lo hi)"
  by (simp add: covered_def)

lemma want_lookup:
  assumes "level = 0 \<or> level = 1" "i < 32"
  shows "map_of (rev (map (\<lambda>j. ref_row dump (map_start level grp j) (map_start level grp j + map_unit level)) [0..<32]))
    (map_start level grp i) = Some (snd (ref_row dump (map_start level grp i) (map_start level grp i + map_unit level)))"
proof -
  let ?R = "\<lambda>j. ref_row dump (map_start level grp j) (map_start level grp j + map_unit level)"
  have f: "fst (?R j) = map_start level grp j" for j by (simp add: ref_row_def Let_def)
  have "inj_on (map_start level grp) {0..<32}" by (auto simp: inj_on_def map_start_def)
  then have "distinct (map fst (rev (map ?R [0..<32])))"
    unfolding rev_map [symmetric] distinct_rev map_map comp_def f by (simp add: distinct_map)
  moreover have "(map_start level grp i, snd (?R i)) \<in> set (rev (map ?R [0..<32]))"
  proof -
    have "?R i = (map_start level grp i, snd (?R i))" using f [of i] by (metis prod.collapse)
    then show ?thesis using assms(2) by (metis (no_types, lifting) atLeastLessThan_iff image_eqI list.set_map set_rev set_upt zero_le)
  qed
  ultimately show ?thesis by (rule map_of_is_SomeI)
qed

lemma judge_device:
  fixes grp :: int
  assumes "level = 0 \<or> level = 1" "i < 32"
  defines "R \<equiv> \<lambda>d j. ref_row d (map_start level grp j) (map_start level grp j + map_unit level)"
  shows "\<exists>v. judge_entry (map (R dump) [0..<32]) (entry_of (R flash i)) = (map_start level grp i, v) \<and>
    (if R flash i = R dump i then v = SKIPPED \<or> v = SAME 1 else \<exists>x y. v = DIFFER x y)"
proof -
  let ?a = "map_start level grp i" and ?b = "map_start level grp i + map_unit level"
  let ?D = "covered dump ?a ?b" and ?F = "covered flash ?a ?b"
  have l: "length ?F = length ?D" by (rule covered_length)
  then have e: "?F = [] \<longleftrightarrow> ?D = []" by (metis length_0_conv)
  note w = want_lookup [OF assms(1,2), of dump grp]
  have r: "R d i = (?a, int (length (covered d ?a ?b)), if covered d ?a ?b = [] then None else Some (hex_of (sha256 (covered d ?a ?b))))" for d
    by (simp add: R_def ref_row_def Let_def)
  have j: "judge_entry (map (R dump) [0..<32]) (?a, eq, n, d) =
      (?a, if n \<noteq> int (length ?D) then SCOPE n (int (length ?D))
           else if ?D = [] then SKIPPED
           else if d = hex_of (sha256 ?D) then SAME eq else DIFFER (take 16 d) (take 16 (hex_of (sha256 ?D))))" for eq n d
    unfolding judge_entry_def prod.case R_def w by (simp add: ref_row_def Let_def)
  show ?thesis unfolding r entry_of_def prod.case j using l e by (cases "?D = []") auto
qed

lemma summarise_device:
  fixes grp :: int
  assumes "level = 0 \<or> level = 1"
  defines "R \<equiv> \<lambda>d j. ref_row d (map_start level grp j) (map_start level grp j + map_unit level)"
  shows "\<exists>rows s. summarise level grp (map (R dump) [0..<32]) (map entry_of (map (R flash) [0..<32])) = (rows, s) \<and>
    ms_scope s = 0 \<and> ms_extra s = 0 \<and> ms_missing s = [] \<and> (ms_differ s = 0 \<longleftrightarrow> (\<forall>i<32. R dump i = R flash i))"
proof -
  let ?want = "map (R dump) [0..<32]" and ?es = "map entry_of (map (R flash) [0..<32])"
  let ?rows = "map (judge_entry ?want) ?es"
  have j: "\<exists>v. judge_entry ?want (entry_of (R flash i)) = (map_start level grp i, v) \<and>
    (if R flash i = R dump i then v = SKIPPED \<or> v = SAME 1 else \<exists>x y. v = DIFFER x y)" if "i < 32" for i
    unfolding R_def by (rule judge_device [OF assms(1) that])
  have k: "count_kind p ?rows = 0 \<longleftrightarrow> (\<forall>i<32. \<not> p (snd (judge_entry ?want (entry_of (R flash i)))))" for p
    by (auto simp: count_kind_def filter_empty_conv case_prod_beta simp del: upt_Suc)
  have m: "filter (\<lambda>off. off \<notin> fst ` set ?es) (map fst ?want) = []"
    by (auto simp: filter_empty_conv image_image entry_of_def R_def ref_row_def Let_def simp del: upt_Suc)
  have z: "count_kind (\<lambda>v. case v of SCOPE _ _ \<Rightarrow> True | _ \<Rightarrow> False) ?rows = 0" "count_kind (\<lambda>v. v = EXTRA) ?rows = 0"
    unfolding k using j by (fastforce split: if_splits)+
  have d: "count_kind (\<lambda>v. case v of DIFFER _ _ \<Rightarrow> True | _ \<Rightarrow> False) ?rows = 0 \<longleftrightarrow> (\<forall>i<32. R dump i = R flash i)"
    unfolding k
  proof (intro all_cong1 imp_cong refl)
    fix i :: nat assume "i < 32"
    from j [OF this] show "(\<not> (case snd (judge_entry ?want (entry_of (R flash i))) of DIFFER _ _ \<Rightarrow> True | _ \<Rightarrow> False)) =
        (R dump i = R flash i)"
      by (auto split: if_splits)
  qed
  show ?thesis unfolding summarise_def Let_def m using z d by simp
qed

lemma compare_device:
  assumes "level = 0 \<or> level = 1" "0 \<le> grp" "grp < 32" "int (length dump) = SIZE" "int (length flash) = SIZE"
  shows "\<exists>rows s. compare_map dump (device_map flash level grp) = Inr (rows, s) \<and>
    ms_level s = level \<and> ms_group s = grp \<and> ms_scope s = 0 \<and> ms_extra s = 0 \<and> ms_missing s = [] \<and>
    (ms_differ s = 0 \<longleftrightarrow> (\<forall>i<32. entry_digest dump level grp (int i) = entry_digest flash level grp (int i)))"
proof -
  let ?R = "\<lambda>d j. ref_row d (map_start level grp j) (map_start level grp j + map_unit level)"
  have n: "map entry_of (map (?R flash) [0..<32]) \<noteq> []" by simp
  have "0 \<le> level" using assms(1) by auto
  then have c: "compare_map dump (device_map flash level grp) =
      Inr (summarise level grp (map (?R dump) [0..<32]) (map entry_of (map (?R flash) [0..<32])))"
    unfolding compare_map_def device_parse [OF assms(1-3)] using n assms(2)
    by (simp add: py_int_dec predict_exact [OF assms(1-4)] del: upt_Suc)
  have "(\<forall>i<32. entry_digest dump level grp (int i) = entry_digest flash level grp (int i)) \<longleftrightarrow> (\<forall>i<32. ?R dump i = ?R flash i)"
    using entry_exact [OF assms(1-3) _ assms(4)] entry_exact [OF assms(1-3) _ assms(5)] by auto
  moreover obtain rows s where r: "summarise level grp (map (?R dump) [0..<32]) (map entry_of (map (?R flash) [0..<32])) = (rows, s)"
    "ms_scope s = 0" "ms_extra s = 0" "ms_missing s = []" "ms_differ s = 0 \<longleftrightarrow> (\<forall>i<32. ?R dump i = ?R flash i)"
    using summarise_device [OF assms(1), of grp dump flash] by (elim exE conjE)
  moreover have "ms_level s = level" "ms_group s = grp"
    using r(1) by (auto simp: summarise_def Let_def)
  ultimately show ?thesis unfolding c by (intro exI [of _ rows] exI [of _ s] conjI) (simp_all only:)
qed

text \<open>The defect of a capture that names a group beyond the chip: its entries are digests of no bytes.\<close>

lemma group_past_chip:
  "int (length dump) = SIZE \<Longrightarrow> entry_digest dump 1 32 0 = Inr (SIZE, 4096, Some (hex_of (sha256 [])))"
  by (simp add: entry_digest_def entry_ranges_def map_numbers Let_def overlaps_forbidden_arith py_slice_def py_index_def
      Prelude.slice_def)

subsection \<open>Properties\<close>

text \<open>C20.  What the map hashes, byte by byte: for every level and group of the chip the prediction never refuses
  and has 32 entries; entry \<open>i\<close> is the digest of exactly the bytes of its window that are not in the range
  that may not be published, with their number, and has no digest where none is left.\<close>

theorem map_hashes_no_forbidden_byte:
  assumes "level = 0 \<or> level = 1" "0 \<le> grp" "grp < 32" "int (length dump) = SIZE"
  shows "predict dump level grp =
    Inr (map (\<lambda>i. ref_row dump (map_start level grp i) (map_start level grp i + map_unit level)) [0..<32])"
  by (rule predict_exact [OF assms])

lemma map_hashes_no_forbidden_byte_witness:
  "\<exists>dump rows. int (length dump) = SIZE \<and> predict dump 1 0 = Inr rows \<and> length rows = 32"
proof -
  have l: "int (length (replicate (nat SIZE) (CHR 0x00))) = SIZE" by (simp add: SIZE_def)
  show ?thesis using map_hashes_no_forbidden_byte [OF _ _ _ l, of 1 0] l by (intro exI conjI) (assumption, auto)
qed

lemma compare_Inr:
  "compare_map dump txt = Inr (rows, s) \<Longrightarrow>
     \<exists>level grp want. predict dump level grp = Inr want \<and> (rows, s) = summarise level grp want (snd (parse_capture txt))"
  by (auto simp: compare_map_def Let_def sbind_Inr split: option.splits if_splits prod.splits) (metis snd_conv)+

lemma entry_agrees:
  assumes "judge_entry want (off, eq, n, d) = (o', v)" "v \<noteq> EXTRA" "\<nexists>x y. v = SCOPE x y" "\<nexists>x y. v = DIFFER x y"
  shows "\<exists>wd. (off, n, wd) \<in> set want \<and> (wd = None \<or> wd = Some d)"
proof -
  obtain wn wd where m: "map_of (rev want) off = Some (wn, wd)"
    using assms(1,2) by (auto simp: judge_entry_def split: option.splits)
  then have "(off, wn, wd) \<in> set want" using map_of_SomeD by fastforce
  moreover have "wn = n \<and> (wd = None \<or> wd = Some d)"
    using assms by (auto simp: judge_entry_def m split: option.splits if_splits)
  ultimately show ?thesis by blast
qed

text \<open>What status 0 of a comparison says of any capture: it names a level and group whose prediction it
  covers entirely, and each of its entries has the predicted number of bytes and, where anything was
  hashed, the predicted digest.\<close>

theorem zero_differences_mean:
  assumes "compare_map dump txt = Inr (rows, s)"
    and "ms_differ s = 0" "ms_scope s = 0" "ms_extra s = 0" "ms_missing s = []"
  shows "\<exists>want. predict dump (ms_level s) (ms_group s) = Inr want \<and>
    fst ` set want = fst ` set (snd (parse_capture txt)) \<and>
    (\<forall>(off, eq, n, d) \<in> set (snd (parse_capture txt)). \<exists>wd. (off, n, wd) \<in> set want \<and> (wd = None \<or> wd = Some d))"
proof -
  let ?es = "snd (parse_capture txt)"
  obtain level grp want where w: "predict dump level grp = Inr want" "(rows, s) = summarise level grp want ?es"
    using compare_Inr [OF assms(1)] by blast
  have "sort (remdups xs) = [] \<longleftrightarrow> xs = []" for xs :: "int list"
    by (metis remdups_eq_nil_iff sort_key_simps(1) length_sort length_0_conv)
  then have f: "ms_level s = level" "ms_group s = grp" "filter (\<lambda>off. off \<notin> fst ` set ?es) (map fst want) = []"
    using w(2) assms(5) by (auto simp only: summarise_def Let_def prod.inject map_summary.select_convs)
  have v: "\<exists>wd. (off, n, wd) \<in> set want \<and> (wd = None \<or> wd = Some d)" if e: "(off, eq, n, d) \<in> set ?es" for off eq n d
  proof -
    obtain o' v where j: "judge_entry want (off, eq, n, d) = (o', v)" by fastforce
    with e have "(o', v) \<in> set rows" using w(2) by (force simp: summarise_def Let_def)
    with w(2) assms(2-4) have "v \<noteq> EXTRA" "\<nexists>x y. v = SCOPE x y" "\<nexists>x y. v = DIFFER x y"
      by (auto simp: summarise_def Let_def count_kind_def filter_empty_conv split: map_verdict.splits)
    then show ?thesis by (rule entry_agrees [OF j])
  qed
  have "fst ` set want = fst ` set ?es" using f(3) v by (force simp: filter_empty_conv)
  with w(1) f(1,2) v show ?thesis by blast
qed

lemma zero_differences_mean_witness:
  "\<exists>dump txt want. int (length dump) = SIZE \<and> predict dump 0 0 = Inr want \<and> fst ` set want = fst ` set (snd (parse_capture txt))"
proof -
  let ?d = "replicate (nat SIZE) (CHR 0x00)"
  have l: "int (length ?d) = SIZE" by (simp add: SIZE_def)
  have "(0 :: int) = 0 \<or> (0 :: int) = 1" "(0 :: int) \<le> 0" "(0 :: int) < 32" by simp_all
  from compare_device [OF this l l] obtain rows s where
    c: "compare_map ?d (device_map ?d 0 0) = Inr (rows, s)" "ms_level s = 0" "ms_group s = 0" "ms_scope s = 0" "ms_extra s = 0"
      "ms_missing s = []"
    and d: "ms_differ s = 0 \<longleftrightarrow> (\<forall>i<32. entry_digest ?d 0 0 (int i) = entry_digest ?d 0 0 (int i))"
    by (elim exE conjE)
  have "ms_differ s = 0" unfolding d by blast
  from zero_differences_mean [OF c(1) this c(4-6)] show ?thesis unfolding c(2,3) using l by (elim exE conjE) (intro exI conjI)
qed

text \<open>Whole-chip comparison: a capture in the driver's format of a chip's own digest map is read back entry by
  entry, is never refused, and \<open>compare\<close> ends with status 0 exactly when the chip and the dump agree on
  every entry, with status 1 otherwise.\<close>

theorem device_map_judged:
  assumes "level = 0 \<or> level = 1" "0 \<le> grp" "grp < 32" "int (length dump) = SIZE" "int (length flash) = SIZE"
    and "files path = Some dump" "captures cap = Some (device_map flash level grp)" "suffix ''.log'' cap"
  shows "\<exists>rows s. map_main files captures st ok True path (Compare_cmd cap) =
    (Compared rows s,
     if \<forall>i<32. entry_digest dump level grp (int i) = entry_digest flash level grp (int i) then 0 else 1)"
  using compare_device [OF assms(1-5)] assms(4,6-8)
  by (auto simp: map_main_def map_refuse_args_def load_dump_def log_path_def Let_def)

lemma device_map_judged_witness:
  "\<exists>files captures rows s. map_main files captures 0 True True ''d'' (Compare_cmd ''c.log'') = (Compared rows s, 0)"
proof -
  let ?d = "replicate (nat SIZE) (CHR 0x00)"
  have l: "int (length ?d) = SIZE" by (simp add: SIZE_def)
  show ?thesis
    using device_map_judged [OF _ _ _ l l, of 0 0 "\<lambda>p. Some ?d" "''d''" "\<lambda>p. Some (device_map ?d 0 0)" "''c.log''" 0 True]
    by (auto simp: suffix_def)
qed

end
