(* ===== verification/RtkImage.thy ===== *)
theory RtkImage
  imports "HOL-Library.Word" Prelude
begin

text \<open>
  \<open>tools/rtkimage.py\<close> and the ceiling test of \<open>tools/mkinitramfs.py\<close>: reading the loader stub
  (\<open>memload-full\<close>, an ELF file) and the image built around it (\<open>nfjrom\<close>), the verdict of the tripwire
  that watched make, and the gates between make and the record a card may pin.  The LZMA decoder
  and the digest are parameters; a file is looked up in a map from paths to contents.
\<close>

unbundle bit_operations_syntax

subsection \<open>The tripwire's verdict\<close>

definition is_upper :: "char \<Rightarrow> bool" where
  "is_upper c \<longleftrightarrow> 65 \<le> (of_char c :: nat) \<and> (of_char c :: nat) \<le> 90"

definition is_blank :: "char \<Rightarrow> bool" where
  "is_blank c \<longleftrightarrow> c = CHR '' '' \<or> c = CHR 0x09"

text \<open>
  \<open>VERDICT_RX\<close> on one line: the word, and the number after \<open>cmd-rc=\<close> when there is one.  The pattern
  is anchored to whole lines, so \<open>finditer\<close> tries each line once.
\<close>

definition verdict_rx :: "string \<Rightarrow> (string \<times> string option) option" where
  "verdict_rx line =
     Option.bind (lit ''VENDOR-TRIPWIRE: '' line) (\<lambda>s.
       let w = takeWhile is_upper s; r = dropWhile is_upper s in
       if w = [] \<or> r \<noteq> [] \<and> word_char (hd r) then None
       else Some (w, let r' = dropWhile is_blank r in
         if r' = r then None
         else case lit ''cmd-rc='' r' of None \<Rightarrow> None
              | Some t \<Rightarrow> (let d = takeWhile is_digit t in if d = [] then None else Some d)))"

definition verdict_lines :: "string \<Rightarrow> string list" where
  "verdict_lines txt = filter (\<lambda>l. verdict_rx l \<noteq> None) (split_on (CHR 0x0A) txt)"

datatype trip_why =
    No_verdict int | Tripped | Touched | Already_dirty | Nothing_to_watch | Uncertified string
  | Disagree int string

datatype tripwire = Go nat string | Stop "string option" int trip_why

text \<open>The verdicts that refuse, in the order the code tests them.\<close>

definition trip_stop :: "int \<Rightarrow> string \<Rightarrow> string option \<Rightarrow> string \<Rightarrow> int \<times> trip_why" where
  "trip_stop rc word cmdrc line =
     (if rc = 2 \<and> word = ''TRIPPED'' then (2, Tripped)
      else if rc = 5 \<and> word = ''TOUCHED'' then (2, Touched)
      else if rc = 4 \<and> word = ''REFUSED'' \<and> cmdrc = None then (2, Already_dirty)
      else if rc = 3 \<and> word \<in> {''SKIPPED'', ''REFUSED''} \<and> cmdrc = None then (3, Nothing_to_watch)
      else if rc = 3 \<and> word = ''REFUSED'' \<and> cmdrc \<noteq> None then (2, Uncertified (the cmdrc))
      else (2, Disagree rc line))"

definition trip_judge :: "int \<Rightarrow> string \<Rightarrow> string option \<Rightarrow> string \<Rightarrow> tripwire" where
  "trip_judge rc word cmdrc line =
     (if rc = 0 \<and> word = ''CLEAN'' \<and> cmdrc = Some ''0'' then Go 0 line
      else if rc = 1 \<and> word = ''CLEAN'' \<and> cmdrc \<noteq> None \<and> dec_num (the cmdrc) \<noteq> 0
      then Go (dec_num (the cmdrc)) line
      else (case trip_stop rc word cmdrc line of (code, why) \<Rightarrow> Stop (Some line) code why))"

definition read_tripwire :: "int \<Rightarrow> string \<Rightarrow> tripwire" where
  "read_tripwire rc txt =
     (let found = verdict_lines txt in
      if found = [] then Stop None 2 (No_verdict rc)
      else case verdict_rx (last found) of None \<Rightarrow> Stop None 2 (No_verdict rc)
           | Some (word, cmdrc) \<Rightarrow> trip_judge rc word cmdrc (rstrip (last found)))"

subsection \<open>The record file and the checksum\<close>

definition splits_row :: "string \<times> string \<Rightarrow> bool" where
  "splits_row kv \<longleftrightarrow> (\<exists>c \<in> set (fst kv @ snd kv). c \<in> {CHR 0x09, CHR 0x0D, CHR 0x0A})"

text \<open>Refused with the first offending row, or the text that the file receives whole.\<close>

fun write_record :: "(string \<times> string) list \<Rightarrow> (string \<times> string) + string" where
  "write_record [] = Inr []"
| "write_record (kv # rows) =
     (if splits_row kv then Inl kv
      else sbind (write_record rows) (\<lambda>out. Inr (fst kv @ CHR 0x09 # snd kv @ CHR 0x0A # out)))"

fun sum16_from :: "16 word \<Rightarrow> bytes \<Rightarrow> 16 word" where
  "sum16_from s (a # b # r) = sum16_from (s + (push_bit 8 (of_nat (of_char a)) OR of_nat (of_char b))) r"
| "sum16_from s [a] = s"
| "sum16_from s [] = s"

definition sum16 :: "bytes \<Rightarrow> 16 word" where
  "sum16 b = sum16_from 0 (if length b mod 2 \<noteq> 0 then b @ [char_of (0 :: nat)] else b)"

subsection \<open>The symbol table of an ELF file\<close>

datatype elf_error = Struct_error | Index_error | No_nul

type_synonym symtab = "(string \<times> nat \<times> nat) list"

definition be32 :: "bytes \<Rightarrow> nat \<Rightarrow> elf_error + nat" where
  "be32 b i = or_err Struct_error (be_at 4 b i)"

definition be16 :: "bytes \<Rightarrow> nat \<Rightarrow> elf_error + nat" where
  "be16 b i = or_err Struct_error (be_at 2 b i)"

text \<open>
  The name of a symbol: the bytes from i to the first NUL at or after it (\<open>b.index(b'\0', i)\<close>,
  which raises where there is none), decoded with \<open>('ascii', 'replace')\<close>.
\<close>

definition cstring :: "bytes \<Rightarrow> nat \<Rightarrow> elf_error + string" where
  "cstring b i =
     (let t = drop i b; s = takeWhile (\<lambda>c. c \<noteq> char_of (0 :: nat)) t
      in if length s < length t then Inr (ascii_replace s) else Inl No_nul)"

definition sym_entry :: "bytes \<Rightarrow> nat \<Rightarrow> nat \<Rightarrow> elf_error + string \<times> nat \<times> nat" where
  "sym_entry b stroff e =
     sbind (be32 b e) (\<lambda>st_name. sbind (be32 b (e + 4)) (\<lambda>st_value. sbind (be32 b (e + 8)) (\<lambda>st_size.
     sbind (cstring b (stroff + st_name)) (\<lambda>nm. Inr (nm, st_value, st_size)))))"

definition section_syms :: "bytes \<Rightarrow> nat \<Rightarrow> nat \<Rightarrow> nat \<Rightarrow> elf_error + symtab" where
  "section_syms b shoff shentsize i =
     (let sh = shoff + i * shentsize in
      if \<not> sh + 40 \<le> length b then Inl Struct_error
      else sbind (be32 b (sh + 4)) (\<lambda>sh_type.
        if sh_type \<noteq> 2 then Inr []
        else sbind (be32 b (sh + 16)) (\<lambda>sh_off. sbind (be32 b (sh + 20)) (\<lambda>sh_size.
          sbind (be32 b (sh + 24)) (\<lambda>sh_link. sbind (be32 b (sh + 36)) (\<lambda>sh_entsize.
          sbind (be32 b (shoff + sh_link * shentsize + 16)) (\<lambda>stroff.
            let n = sh_size div (if sh_entsize = 0 then 16 else sh_entsize) in
            sbind (traverse (\<lambda>j. sym_entry b stroff (sh_off + j * sh_entsize)) [0..<n]) (\<lambda>es.
              Inr (filter (\<lambda>(nm, v). nm \<noteq> []) es)))))))))"

definition elf_magic :: bytes where
  "elf_magic = char_of (0x7F :: nat) # ''ELF''"

text \<open>None is "not such a file"; the pairs are in file order, a later one overrides an earlier.\<close>

definition elf_symbols :: "bytes \<Rightarrow> elf_error + symtab option" where
  "elf_symbols b =
     (if take 4 b \<noteq> elf_magic then Inr None
      else if length b \<le> 4 then Inl Index_error
      else if b ! 4 \<noteq> char_of (1 :: nat) then Inr None
      else if length b \<le> 5 then Inl Index_error
      else if b ! 5 \<noteq> char_of (2 :: nat) then Inr None
      else sbind (be32 b 0x20) (\<lambda>shoff. sbind (be16 b 0x2E) (\<lambda>shentsize.
        sbind (be16 b 0x30) (\<lambda>shnum. sbind (be16 b 0x32) (\<lambda>shstrndx.
        sbind (traverse (section_syms b shoff shentsize) [0..<shnum]) (\<lambda>ss.
          Inr (Some (concat ss))))))))"

definition sym_get :: "symtab \<Rightarrow> string \<Rightarrow> (nat \<times> nat) option" where
  "sym_get syms k = map_of (rev syms) k"

subsection \<open>The image\<close>

definition LOAD_START_ADDR :: int where "LOAD_START_ADDR = 0x80500000"
definition CEILING :: int where "CEILING = 5242880"

datatype lzma_result = Lzma_error string | Decoded bytes bool

datatype plain = Plain bytes | Truncated nat nat | Wrong_length nat nat | Bad_stream string

datatype image_error = Elf elf_error | No_vmlinux_start | No_vmlinux_end | Image_struct

record image =
  im_raw :: bytes
  im_vstart :: int
  im_vend :: int
  im_pending_len :: nat
  im_kernel_start :: nat
  im_stream :: bytes
  im_props :: bytes
  im_declared :: nat
  im_declared_hi :: nat
  im_plain :: plain

definition map_err :: "('e \<Rightarrow> 'f) \<Rightarrow> 'e + 'a \<Rightarrow> 'f + 'a" where
  "map_err f m = (case m of Inl e \<Rightarrow> Inl (f e) | Inr x \<Rightarrow> Inr x)"

definition decode_plain :: "(bytes \<Rightarrow> lzma_result) \<Rightarrow> bytes \<Rightarrow> nat \<Rightarrow> plain" where
  "decode_plain lzma stream declared =
     (case lzma stream of
        Lzma_error e \<Rightarrow> Bad_stream e
      | Decoded d eof \<Rightarrow>
          if \<not> eof then Truncated (length d) declared
          else if length d \<noteq> declared then Wrong_length (length d) declared
          else Plain d)"

definition read_image :: "(bytes \<Rightarrow> lzma_result) \<Rightarrow> bytes \<Rightarrow> bytes \<Rightarrow> image_error + image" where
  "read_image lzma raw memload =
     sbind (map_err Elf (elf_symbols memload)) (\<lambda>osyms.
       let syms = (case osyms of None \<Rightarrow> [] | Some s \<Rightarrow> s) in
       sbind (or_err No_vmlinux_start (sym_get syms ''__vmlinux_start'')) (\<lambda>vs.
       sbind (or_err No_vmlinux_end (sym_get syms ''__vmlinux_end'')) (\<lambda>ve.
         let vstart = int (fst vs) - LOAD_START_ADDR; vend = int (fst ve) - LOAD_START_ADDR;
             sec = py_slice raw vstart vend in
         sbind (or_err Image_struct (be_at 4 sec 0)) (\<lambda>pending_len.
         sbind (or_err Image_struct (be_at 4 sec 4)) (\<lambda>kernel_start.
           let stream = py_slice sec 8 (int (length sec) - int pending_len) in
           sbind (or_err Image_struct (le_at 4 stream 5)) (\<lambda>declared.
           sbind (or_err Image_struct (le_at 4 stream 9)) (\<lambda>declared_hi.
             Inr \<lparr>im_raw = raw, im_vstart = vstart, im_vend = vend, im_pending_len = pending_len,
                  im_kernel_start = kernel_start, im_stream = stream, im_props = take 5 stream,
                  im_declared = declared, im_declared_hi = declared_hi,
                  im_plain = decode_plain lzma stream declared\<rparr>)))))))"

record linuxbin =
  lb_raw :: bytes
  lb_signature :: bytes
  lb_start :: nat
  lb_flash_offset :: nat
  lb_length :: nat
  lb_payload :: bytes
  lb_sum16 :: "16 word"

definition parse_linuxbin :: "bytes \<Rightarrow> linuxbin option" where
  "parse_linuxbin b =
     Option.bind (be_at 4 b 4) (\<lambda>start. Option.bind (be_at 4 b 8) (\<lambda>off. Option.bind (be_at 4 b 12) (\<lambda>len.
       Some \<lparr>lb_raw = b, lb_signature = take 4 b, lb_start = start, lb_flash_offset = off,
            lb_length = len, lb_payload = drop 16 b, lb_sum16 = sum16 (drop 16 b)\<rparr>)))"

subsection \<open>\<open>check\<close>\<close>

text \<open>
  The paths of the drop's own artefacts and the numbers read off them; \<open>files\<close> holds the regular
  files.  A \<open>ValueError\<close> of the reader is a failed control; any other exception leaves the tool.
\<close>

record drop_paths =
  CTL_NFJROM :: string
  CTL_MEMLOAD :: string
  CTL_IMG :: string
  CTL_LINUXBIN :: string

definition EXPECT_pending :: nat where "EXPECT_pending = 1"
definition EXPECT_start :: nat where "EXPECT_start = 0x80003600"
definition EXPECT_decompressed :: nat where "EXPECT_decompressed = 2953660"
definition EXPECT_off :: int where "EXPECT_off = 0x2C00"

datatype check_fail = Img image_error | No_file string | Short_linuxbin | Index_fail | Usage_memload

definition flip_bit :: "bytes \<Rightarrow> int \<Rightarrow> bytes option" where
  "flip_bit b i =
     (let n = int (length b); j = (if i < 0 then i + n else i) in
      if 0 \<le> j \<and> j < n
      then Some (b[nat j := char_of ((of_char (b ! nat j) :: nat) XOR 1)]) else None)"

definition is_plain :: "plain \<Rightarrow> bytes \<Rightarrow> bool" where
  "is_plain p b \<longleftrightarrow> p = Plain b"

definition controls_for_check ::
    "drop_paths \<Rightarrow> (string \<Rightarrow> bytes option) \<Rightarrow> (bytes \<Rightarrow> lzma_result) \<Rightarrow>
       check_fail + (string \<times> bool) list" where
  "controls_for_check d files lzma =
     (case (files (CTL_NFJROM d), files (CTL_MEMLOAD d), files (CTL_IMG d)) of
        (Some nf, Some ml, Some ref) \<Rightarrow>
          (case read_image lzma nf ml of
             Inl e \<Rightarrow> if e \<in> {No_vmlinux_start, Elf No_nul} then Inr [(''R1'', False)] else Inl (Img e)
           | Inr v \<Rightarrow>
              (let r1 = (im_pending_len v = EXPECT_pending \<and> im_kernel_start v = EXPECT_start
                        \<and> im_vstart v = EXPECT_off
                        \<and> (case im_plain v of Plain b \<Rightarrow> length b = EXPECT_decompressed \<and> b = ref | _ \<Rightarrow> False));
                   r3 = (case im_plain v of Plain b \<Rightarrow> im_declared v = length b | _ \<Rightarrow> False) in
               case files (CTL_LINUXBIN d) of None \<Rightarrow> Inl (No_file (CTL_LINUXBIN d))
               | Some lbf \<Rightarrow>
                 (case parse_linuxbin lbf of None \<Rightarrow> Inl Short_linuxbin
                  | Some lb \<Rightarrow>
                    (case flip_bit (lb_payload lb) (int (length (lb_payload lb) div 2)) of None \<Rightarrow> Inl Index_fail
                     | Some bad \<Rightarrow>
                       (case flip_bit (im_raw v) (im_vstart v + 208) of None \<Rightarrow> Inl Index_fail
                        | Some badsec \<Rightarrow>
                          (let dec_ok = (case lzma (py_slice badsec (im_vstart v + 8)
                                                  (im_vend v - int (im_pending_len v))) of
                                           Lzma_error _ \<Rightarrow> False | Decoded out _ \<Rightarrow> out = ref)
                           in Inr [(''R1'', r1), (''R2'', sum16 bad \<noteq> 0 \<and> \<not> dec_ok), (''R3'', r3)]))))))
      | _ \<Rightarrow> Inr [(''R1'', False)])"

record check_args =
  ca_nfjrom :: string
  ca_memload :: string
  ca_linuxbin :: string
  ca_expect_img :: string

text \<open>An option that is not given is the empty string; the code tests the options for truth.\<close>

definition cmd_check ::
    "drop_paths \<Rightarrow> (string \<Rightarrow> bytes option) \<Rightarrow> (bytes \<Rightarrow> lzma_result) \<Rightarrow> check_args \<Rightarrow> check_fail + int" where
  "cmd_check d files lzma a =
     sbind (controls_for_check d files lzma) (\<lambda>ctl.
       if \<exists>c \<in> set ctl. \<not> snd c then Inr 2
       else if ca_memload a = [] then Inl Usage_memload
       else sbind (or_err (No_file (ca_nfjrom a)) (files (ca_nfjrom a))) (\<lambda>nf.
            sbind (or_err (No_file (ca_memload a)) (files (ca_memload a))) (\<lambda>ml.
            sbind (map_err Img (read_image lzma nf ml)) (\<lambda>img.
              let bad0 = (case im_plain img of Plain _ \<Rightarrow> False | _ \<Rightarrow> True) in
              sbind (if ca_linuxbin a = [] then Inr False
                     else sbind (or_err (No_file (ca_linuxbin a)) (files (ca_linuxbin a))) (\<lambda>lbf.
                          sbind (or_err Short_linuxbin (parse_linuxbin lbf)) (\<lambda>lb.
                            Inr (lb_signature lb \<noteq> ''cr6c'' \<or> lb_sum16 lb \<noteq> 0)))) (\<lambda>bad1.
              sbind (if ca_expect_img a = [] then Inr False
                     else sbind (or_err (No_file (ca_expect_img a)) (files (ca_expect_img a))) (\<lambda>ref.
                          Inr (\<not> is_plain (im_plain img) ref))) (\<lambda>bad2.
              let bad3 = (case im_plain img of Plain b \<Rightarrow> CEILING \<le> int (length b) | _ \<Rightarrow> False) in
              Inr (if bad0 \<or> bad1 \<or> bad2 \<or> bad3 then 1 else 0)))))))"

subsection \<open>The ceiling\<close>

text \<open>\<open>mkinitramfs.loaded_extent\<close>: a flat file, or the extent of the non-empty PT_LOAD segments.\<close>

datatype extent_how = Flat_file | Pt_load nat nat nat

datatype extent_error = Not_be32_elf | Short_header nat | Bad_phdr nat nat nat | No_load

text \<open>
  One program header; the bounds test before the loop makes the reads of the loop total, so the
  fields are read without an error case.
\<close>

definition ph_field :: "bytes \<Rightarrow> nat \<Rightarrow> nat \<Rightarrow> nat" where
  "ph_field b o' k = be_val (slice b (o' + 4 * k) (o' + 4 * k + 4))"

fun extent_step :: "bytes \<Rightarrow> nat \<Rightarrow> nat \<Rightarrow> (nat \<times> nat) option \<Rightarrow> nat \<Rightarrow> (nat \<times> nat) option" where
  "extent_step b phoff phentsize acc i =
     (let ph = phoff + i * phentsize; p_type = ph_field b ph 0; p_vaddr = ph_field b ph 2;
          p_filesz = ph_field b ph 4 in
      if p_type \<noteq> 1 \<or> p_filesz = 0 then acc
      else case acc of None \<Rightarrow> Some (p_vaddr, p_vaddr + p_filesz)
           | Some (lo, hi) \<Rightarrow> Some (min lo p_vaddr, max hi (p_vaddr + p_filesz)))"

definition loaded_extent :: "bytes \<Rightarrow> extent_error + nat \<times> extent_how" where
  "loaded_extent b =
     (if take 4 b \<noteq> elf_magic then Inr (length b, Flat_file)
      else if slice b 4 6 \<noteq> [char_of (1 :: nat), char_of (2 :: nat)] then Inl Not_be32_elf
      else if length b < 52 then Inl (Short_header (length b))
      else let phoff = be_val (slice b 28 32); phentsize = be_val (slice b 42 44);
               phnum = be_val (slice b 44 46) in
        if phentsize < 32 \<or> phoff + phnum * phentsize > length b then Inl (Bad_phdr phoff phnum phentsize)
        else case foldl (extent_step b phoff phentsize) None [0..<phnum] of
               None \<Rightarrow> Inl No_load
             | Some (lo, hi) \<Rightarrow> Inr (hi - lo, Pt_load phnum lo hi))"

definition over_ceiling :: "bytes \<Rightarrow> extent_error + bool \<times> nat \<times> extent_how \<times> int" where
  "over_ceiling b =
     sbind (loaded_extent b) (\<lambda>(n, how). let margin = CEILING - int n in Inr (margin < 0, n, how, margin))"

definition DECOMP_BASE :: nat where "DECOMP_BASE = 0x80000000"

definition CVIMG_END_RX :: "string \<Rightarrow> (string \<times> string) option" where
  "CVIMG_END_RX s =
     Option.bind (lit ''Image decompress end addr'' s) (\<lambda>s.
     Option.bind (lit '':'' (dropWhile py_space s)) (\<lambda>s.
     Option.bind (lit ''0x'' (dropWhile py_space s)) (\<lambda>s.
       let d = takeWhile is_hex s in if d = [] then None else Some (d, dropWhile is_hex s))))"

definition CVIMG_OVERRUN :: string where
  "CVIMG_OVERRUN = ''Kernel image decompress will overwirte load image''"

datatype ceiling_why =
    No_image | Refused_extent extent_error | Over_by int | Cvimg_disagrees | Cvimg_overrun

text \<open>The reasons for a refusal, and the measured size; no reason is "ok".\<close>

definition ceiling_verdict ::
    "bytes option \<Rightarrow> string \<Rightarrow> ceiling_why list \<times> nat option" where
  "ceiling_verdict img logtext =
     (case img of None \<Rightarrow> ([No_image], None)
      | Some b \<Rightarrow>
        (case over_ceiling b of Inl e \<Rightarrow> ([Refused_extent e], None)
         | Inr (over, n, how, margin) \<Rightarrow>
            (let ends = findall CVIMG_END_RX logtext;
                 why1 = (if over then [Over_by (- margin)] else []);
                 why2 = (if ends \<noteq> [] \<and> hex_num (last ends) \<noteq> DECOMP_BASE + n then [Cvimg_disagrees] else []);
                 why3 = (if occurs CVIMG_OVERRUN logtext \<and> \<not> over then [Cvimg_overrun] else [])
             in (why1 @ why2 @ why3, Some n))))"

subsection \<open>The boot handoff\<close>

definition HANDOFF_SYM :: string where "HANDOFF_SYM = ''rlxfw_rtk_handoff''"
definition HANDOFF_BYTES :: nat where "HANDOFF_BYTES = 16"
definition HANDOFF_WITNESS :: bytes where "HANDOFF_WITNESS = ''RLXFW-RTKH1''"

definition HANDOFF_ZERO_SEQ :: bytes where
  "HANDOFF_ZERO_SEQ = concat (map (be_bytes 4) [0x00804021, 0x24040000, 0x24050000, 0x24060000, 0x01000008])"

definition HANDOFF_ZERO_WINDOW :: nat where "HANDOFF_ZERO_WINDOW = 16 * 1024"

datatype read_error = There_is_no string | Bad_table string elf_error | Not_elf string

record handoff =
  ho_error :: "read_error option"
  ho_sym :: "(nat \<times> nat) option"
  ho_fdata :: "nat option"
  ho_vmlinux_start :: "nat option"
  ho_start :: "nat option"
  ho_zeroseq :: nat
  ho_witness :: nat

definition no_reading :: "read_error \<Rightarrow> handoff" where
  "no_reading e = \<lparr>ho_error = Some e, ho_sym = None, ho_fdata = None, ho_vmlinux_start = None,
                   ho_start = None, ho_zeroseq = 0, ho_witness = 0\<rparr>"

definition handoff_reading :: "(string \<Rightarrow> bytes option) \<Rightarrow> string \<Rightarrow> string \<Rightarrow> handoff" where
  "handoff_reading files memload nfjrom =
     (case files memload of None \<Rightarrow> no_reading (There_is_no memload)
      | Some ml \<Rightarrow>
     (case files nfjrom of None \<Rightarrow> no_reading (There_is_no nfjrom)
      | Some b \<Rightarrow>
     (case elf_symbols ml of
        Inl e \<Rightarrow> no_reading (Bad_table memload e)
      | Inr None \<Rightarrow> no_reading (Not_elf memload)
      | Inr (Some syms) \<Rightarrow>
         \<lparr>ho_error = None, ho_sym = sym_get syms HANDOFF_SYM,
          ho_fdata = map_option fst (sym_get syms ''_fdata''),
          ho_vmlinux_start = map_option fst (sym_get syms ''__vmlinux_start''),
          ho_start = map_option fst (sym_get syms ''__start''),
          ho_zeroseq = count_sub HANDOFF_ZERO_SEQ (take HANDOFF_ZERO_WINDOW b),
          ho_witness = count_sub HANDOFF_WITNESS b\<rparr>)))"

datatype handoff_why =
    Control_error read_error | Control_table | Control_has_sym | Control_zeroseq nat | Control_witness nat
  | Image_error read_error | No_sym | Wrong_size nat | Unaligned nat | No_bounds | Outside nat nat nat nat
  | Wrong_start "nat option" | Has_zeroseq nat | Witness_count nat

definition control_why :: "handoff \<Rightarrow> handoff_why list" where
  "control_why c =
     (case ho_error c of Some e \<Rightarrow> [Control_error e]
      | None \<Rightarrow>
         (if ho_fdata c = None \<or> ho_vmlinux_start c = None \<or> ho_start c = None then [Control_table] else [])
         @ (if ho_sym c \<noteq> None then [Control_has_sym] else [])
         @ (if ho_zeroseq c \<noteq> 1 then [Control_zeroseq (ho_zeroseq c)] else [])
         @ (if ho_witness c \<noteq> 0 then [Control_witness (ho_witness c)] else []))"

definition sym_why :: "handoff \<Rightarrow> nat \<Rightarrow> nat \<Rightarrow> handoff_why list" where
  "sym_why m v sz =
     (if sz \<noteq> HANDOFF_BYTES then [Wrong_size sz] else [])
     @ (if v mod 16 \<noteq> 0 then [Unaligned v] else [])
     @ (case (ho_fdata m, ho_vmlinux_start m) of
          (Some fd, Some vs) \<Rightarrow> if fd \<le> v \<and> v + sz \<le> vs then [] else [Outside v sz fd vs]
        | _ \<Rightarrow> [No_bounds])"

definition image_why :: "handoff \<Rightarrow> handoff_why list" where
  "image_why m =
     (case ho_error m of Some e \<Rightarrow> [Image_error e]
      | None \<Rightarrow>
         (case ho_sym m of None \<Rightarrow> [No_sym] | Some (v, sz) \<Rightarrow> sym_why m v sz)
         @ (if map_option int (ho_start m) \<noteq> Some LOAD_START_ADDR then [Wrong_start (ho_start m)] else [])
         @ (if ho_zeroseq m \<noteq> 0 then [Has_zeroseq (ho_zeroseq m)] else [])
         @ (if ho_witness m \<noteq> 1 then [Witness_count (ho_witness m)] else []))"

text \<open>The code and the reasons; the summary the record keeps is a function of the reading.\<close>

definition handoff_verdict ::
    "drop_paths \<Rightarrow> (string \<Rightarrow> bytes option) \<Rightarrow> string \<Rightarrow> string \<Rightarrow> int \<times> handoff_why list" where
  "handoff_verdict d files memload nfjrom =
     (let cwhy = control_why (handoff_reading files (CTL_MEMLOAD d) (CTL_NFJROM d)) in
      if cwhy \<noteq> [] then (2, cwhy)
      else let why = image_why (handoff_reading files memload nfjrom) in
        if why \<noteq> [] then (1, why) else (0, []))"

text \<open>\<open>_hx\<close>: an address as the gate prints it.\<close>

definition hx :: "nat option \<Rightarrow> string" where
  "hx v = (case v of None \<Rightarrow> ''-'' | Some a \<Rightarrow> ''0x'' @ hexU 8 a)"

definition handoff_summary :: "handoff \<Rightarrow> string" where
  "handoff_summary m =
     (case ho_sym m of None \<Rightarrow> []
      | Some (v, sz) \<Rightarrow>
          ''ok: '' @ HANDOFF_SYM @ '' '' @ hx (Some v) @ ''+'' @ dec sz @ '' in ['' @ hx (ho_fdata m) @ '', ''
          @ hx (ho_vmlinux_start m) @ ''), __start '' @ hx (ho_start m)
          @ '', zeroing sequence 0, '' @ HANDOFF_WITNESS @ '' 1; controls absent, 1, 0'')"

subsection \<open>From make's exit to the record\<close>

text \<open>
  What \<open>cmd_build\<close> has on its hands when make returns: the tripwire's status and the log, the files
  make left in rtkload/ (by name, through \<open>bd_files\<close>), the copy of the kernel make read, and the
  digest taken of the kernel before it was copied.
\<close>

record build_state =
  bd_rc :: int
  bd_log :: string
  bd_label :: string
  bd_cell :: string
  bd_vmlinux :: string
  bd_rtk :: string
  bd_rtk_src :: string
  bd_vm_used :: bytes
  bd_src_sha :: string
  bd_kconfig :: bytes
  bd_sdkconfig :: bytes

definition make_known :: "(string \<Rightarrow> bytes option) \<Rightarrow> string \<Rightarrow> string \<Rightarrow> bool" where
  "make_known files rtk logtext =
     (case (rfind_sub ''Generate image successfully'' logtext, rfind_sub ''Usage: cvimg <option>'' logtext) of
        (Some gen, Some use) \<Rightarrow> use > gen
          \<and> list_all (\<lambda>f. files (rtk @ ''/'' @ f) \<noteq> None) [''nfjrom'', ''linux.bin'', ''memload-full'']
      | _ \<Rightarrow> False)"

datatype build_out =
    Watch_refused trip_why | Make_failed nat | No_nfjrom nat | Vmlinux_changed | Over_ceiling "ceiling_why list"
  | No_handoff "handoff_why list" | Row_refused "string \<times> string" | Recorded string

definition record_rows ::
    "(bytes \<Rightarrow> string) \<Rightarrow> build_state \<Rightarrow> nat \<Rightarrow> string \<Rightarrow> bytes \<Rightarrow> string \<Rightarrow> (string \<times> string) list" where
  "record_rows sha b make_rc trip nf summary =
     [(''rlxfw-rtkimage-record'', ''2''), (''tool'', ''rtkimage 1.1''), (''label'', bd_label b),
      (''cell'', bd_cell b), (''vmlinux'', bd_vmlinux b),
      (''vmlinux_bytes'', dec (length (bd_vm_used b))), (''vmlinux_sha256'', bd_src_sha b),
      (''kconfig_sha256'', sha (bd_kconfig b)), (''sdkconfig_sha256'', sha (bd_sdkconfig b)),
      (''make_rc'', dec make_rc),
      (''make_tolerated'', if make_rc = 0 then ''-''
                           else ''cvimg flash_size_chk, which the drop's cvimg 1.1 lacks''),
      (''tripwire_verdict'', trip), (''nfjrom'', bd_rtk b @ ''/nfjrom''),
      (''nfjrom_bytes'', dec (length nf)), (''nfjrom_sha256'', sha nf),
      (''rtkload_source'', bd_rtk_src b), (''handoff_gate'', summary)]"

definition build_finish ::
    "drop_paths \<Rightarrow> (bytes \<Rightarrow> string) \<Rightarrow> (string \<Rightarrow> bytes option) \<Rightarrow> build_state \<Rightarrow> build_out \<times> int" where
  "build_finish d sha files b =
     (case read_tripwire (bd_rc b) (bd_log b) of
        Stop line code why \<Rightarrow> (Watch_refused why, code)
      | Go make_rc trip \<Rightarrow>
         (if make_rc \<noteq> 0 \<and> \<not> make_known files (bd_rtk b) (bd_log b) then (Make_failed make_rc, 1)
          else case files (bd_rtk b @ ''/nfjrom'') of None \<Rightarrow> (No_nfjrom make_rc, 1)
          | Some nf \<Rightarrow>
            (if sha (bd_vm_used b) \<noteq> bd_src_sha b then (Vmlinux_changed, 1)
             else let cw = fst (ceiling_verdict (files (bd_rtk b @ ''/vmlinux_img'')) (bd_log b)) in
               if cw \<noteq> [] then (Over_ceiling cw, 1)
               else let (hcode, hwhy) = handoff_verdict d files (bd_rtk b @ ''/memload-full'') (bd_rtk b @ ''/nfjrom'') in
                 if hcode \<noteq> 0 then (No_handoff hwhy, hcode)
                 else case write_record (record_rows sha b make_rc trip nf
                        (handoff_summary (handoff_reading files (bd_rtk b @ ''/memload-full'') (bd_rtk b @ ''/nfjrom'')))) of
                        Inl kv \<Rightarrow> (Row_refused kv, 3)
                      | Inr txt \<Rightarrow> (Recorded txt, 0))))"

subsection \<open>What the gates establish\<close>

lemma verdict_lines_append:
  "verdict_lines (a @ CHR 0x0A # b) = verdict_lines a @ verdict_lines b"
  by (simp add: verdict_lines_def split_on_append)

lemma verdict_lines_one: "CHR 0x0A \<notin> set l \<Longrightarrow> verdict_rx l \<noteq> None \<Longrightarrow> verdict_lines l = [l]"
  by (simp add: verdict_lines_def split_on_free)

lemma trip_judge_Go:
  "trip_judge rc word cmdrc line = Go r t \<longleftrightarrow>
    word = ''CLEAN'' \<and> t = line \<and>
    (rc = 0 \<and> cmdrc = Some ''0'' \<and> r = 0 \<or> rc = 1 \<and> r \<noteq> 0 \<and> (\<exists>d. cmdrc = Some d \<and> dec_num d = r))"
proof (cases "rc = 0 \<and> word = ''CLEAN'' \<and> cmdrc = Some ''0''")
  case True
  then show ?thesis by (auto simp: trip_judge_def)
next
  case False
  then show ?thesis
    by (cases "trip_stop rc word cmdrc line"; cases cmdrc) (auto simp: trip_judge_def)
qed

lemma read_tripwire_last:
  assumes "verdict_lines txt = ls @ [l]" "verdict_rx l = Some (word, cmdrc)"
  shows "read_tripwire rc txt = trip_judge rc word cmdrc (rstrip l)"
  using assms by (simp add: read_tripwire_def Let_def)

lemma read_tripwire_Go:
  assumes "read_tripwire rc txt = Go r t"
  shows "\<exists>ls l d. verdict_lines txt = ls @ [l] \<and> verdict_rx l = Some (''CLEAN'', Some d)
    \<and> (rc = 0 \<and> r = 0 \<or> rc = 1 \<and> r \<noteq> 0)"
proof -
  have "verdict_lines txt \<noteq> []" using assms by (auto simp: read_tripwire_def)
  then obtain ls l where l: "verdict_lines txt = ls @ [l]" by (cases "verdict_lines txt" rule: rev_cases) auto
  then have "l \<in> set (verdict_lines txt)" by simp
  then obtain word cmdrc where v: "verdict_rx l = Some (word, cmdrc)" by (auto simp: verdict_lines_def)
  with read_tripwire_last [OF l v, of rc] assms
  have "trip_judge rc word cmdrc (rstrip l) = Go r t" by simp
  then have "word = ''CLEAN''" "\<exists>d. cmdrc = Some d" "rc = 0 \<and> r = 0 \<or> rc = 1 \<and> r \<noteq> 0"
    by (auto simp: trip_judge_Go)
  with l v show ?thesis by blast
qed

text \<open>The extent covers every segment that is loaded.\<close>

definition segment :: "bytes \<Rightarrow> nat \<Rightarrow> nat \<Rightarrow> nat \<Rightarrow> (nat \<times> nat) option" where
  "segment b phoff phentsize i =
     (let ph = phoff + i * phentsize in
      if ph_field b ph 0 = 1 \<and> ph_field b ph 4 \<noteq> 0 then Some (ph_field b ph 2, ph_field b ph 4) else None)"

lemma extent_step_segment:
  "extent_step b phoff phentsize acc i =
     (case segment b phoff phentsize i of None \<Rightarrow> acc
      | Some (v, f) \<Rightarrow> (case acc of None \<Rightarrow> Some (v, v + f) | Some (lo, hi) \<Rightarrow> Some (min lo v, max hi (v + f))))"
  by (simp add: segment_def Let_def)

declare extent_step.simps [simp del]

lemma extent_fold:
  assumes "foldl (extent_step b phoff phentsize) acc js = Some (lo, hi)"
  shows "(\<forall>l h. acc = Some (l, h) \<longrightarrow> lo \<le> l \<and> h \<le> hi) \<and>
    (\<forall>i v f. i \<in> set js \<longrightarrow> segment b phoff phentsize i = Some (v, f) \<longrightarrow> lo \<le> v \<and> v + f \<le> hi)"
  using assms
proof (induction js arbitrary: acc)
  case (Cons i js)
  from Cons.prems have "foldl (extent_step b phoff phentsize) (extent_step b phoff phentsize acc i) js = Some (lo, hi)"
    by simp
  note IH = Cons.IH [OF this]
  show ?case
  proof (cases "segment b phoff phentsize i")
    case None
    with IH show ?thesis by (auto simp: extent_step_segment)
  next
    case (Some vf)
    obtain v f where vf: "vf = (v, f)" by (cases vf)
    show ?thesis
    proof (cases acc)
      case None
      with IH Some vf show ?thesis by (auto simp: extent_step_segment)
    next
      case (Some lh)
      obtain l h where "lh = (l, h)" by (cases lh)
      with IH Some \<open>segment b phoff phentsize i = Some vf\<close> vf show ?thesis
        by (auto simp: extent_step_segment)
    qed
  qed
qed simp

lemma loaded_extent_covers:
  assumes "loaded_extent b = Inr (n, Pt_load phnum lo hi)"
    and "i < phnum" "segment b (be_val (slice b 28 32)) (be_val (slice b 42 44)) i = Some (v, f)"
  shows "lo \<le> v \<and> v + f \<le> lo + n"
proof -
  let ?f = "foldl (extent_step b (be_val (slice b 28 32)) (be_val (slice b 42 44))) None [0..<phnum]"
  have "?f = Some (lo, hi)" "n = hi - lo"
    using assms(1) by (auto simp: loaded_extent_def Let_def split: if_splits option.splits)
  with extent_fold [OF \<open>?f = Some (lo, hi)\<close>] assms(2,3) show ?thesis by auto
qed

lemma ceiling_ok:
  assumes "ceiling_verdict img logtext = ([], r)"
  shows "\<exists>b n how. img = Some b \<and> r = Some n \<and> loaded_extent b = Inr (n, how) \<and> int n \<le> CEILING \<and>
    (findall CVIMG_END_RX logtext = [] \<or> hex_num (last (findall CVIMG_END_RX logtext)) = DECOMP_BASE + n)"
  using assms
  by (auto simp: ceiling_verdict_def over_ceiling_def Let_def sbind_def
      split: option.splits sum.splits if_splits)

lemma image_why_Nil:
  "image_why m = [] \<longleftrightarrow> ho_error m = None \<and>
     (\<exists>v fd vs. ho_sym m = Some (v, 16) \<and> ho_fdata m = Some fd \<and> ho_vmlinux_start m = Some vs \<and>
        v mod 16 = 0 \<and> fd \<le> v \<and> v + 16 \<le> vs) \<and>
     map_option int (ho_start m) = Some LOAD_START_ADDR \<and> ho_zeroseq m = 0 \<and> ho_witness m = 1"
  by (auto simp: image_why_def sym_why_def HANDOFF_BYTES_def split: option.splits if_splits)

lemma handoff_code_0:
  "fst (handoff_verdict d files m n) = 0 \<longleftrightarrow>
     control_why (handoff_reading files (CTL_MEMLOAD d) (CTL_NFJROM d)) = [] \<and>
     image_why (handoff_reading files m n) = []"
  by (auto simp: handoff_verdict_def Let_def)

lemma write_record_rows:
  "write_record rows = Inr txt \<Longrightarrow> txt = concat (map (\<lambda>(k, v). k @ CHR 0x09 # v @ [CHR 0x0A]) rows)
     \<and> list_all (\<lambda>r. \<not> splits_row r) rows"
  by (induction rows arbitrary: "txt") (auto simp: sbind_Inr split: if_splits)

lemma record_text_rows:
  assumes "list_all (\<lambda>r. \<not> splits_row r) rows"
  shows "map (split_on (CHR 0x09)) (split_on (CHR 0x0A) (concat (map (\<lambda>(k, v). k @ CHR 0x09 # v @ [CHR 0x0A]) rows)))
    = map (\<lambda>(k, v). [k, v]) rows @ [[[]]]"
  using assms
proof (induction rows)
  case (Cons kv rows)
  obtain k v where kv: "kv = (k, v)" by (cases kv)
  with Cons.prems have n: "CHR 0x09 \<notin> set k" "CHR 0x09 \<notin> set v" "CHR 0x0A \<notin> set (k @ CHR 0x09 # v)"
    by (auto simp: splits_row_def)
  let ?t = "concat (map (\<lambda>(k, v). k @ CHR 0x09 # v @ [CHR 0x0A]) rows)"
  have "split_on (CHR 0x0A) ((k @ CHR 0x09 # v) @ CHR 0x0A # ?t) = (k @ CHR 0x09 # v) # split_on (CHR 0x0A) ?t"
    using n(3) by (rule split_on_piece)
  moreover have "split_on (CHR 0x09) (k @ CHR 0x09 # v) = [k, v]"
    using n by (simp add: split_on_piece split_on_free)
  ultimately show ?case using Cons kv by simp
qed simp

subsection \<open>A table written and read back\<close>

text \<open>The smallest ELF file that holds a table: header, entries, two section headers, names.\<close>

abbreviation nul :: char where "nul \<equiv> char_of (0 :: nat)"

definition sym_names :: "symtab \<Rightarrow> bytes" where
  "sym_names syms = concat (map (\<lambda>(nm, v). nm @ [nul]) syms)"

definition sym_row :: "symtab \<Rightarrow> nat \<Rightarrow> bytes" where
  "sym_row syms j = be_bytes 4 (length (sym_names (take j syms))) @ be_bytes 4 (fst (snd (syms ! j)))
     @ be_bytes 4 (snd (snd (syms ! j))) @ be_bytes 4 0"

definition sym_rows :: "symtab \<Rightarrow> bytes" where
  "sym_rows syms = concat (map (sym_row syms) [0..<length syms])"

definition shdr :: "nat \<Rightarrow> nat \<Rightarrow> nat \<Rightarrow> nat \<Rightarrow> nat \<Rightarrow> bytes" where
  "shdr ty off sz link ent = be_bytes 4 0 @ be_bytes 4 ty @ be_bytes 4 0 @ be_bytes 4 0 @ be_bytes 4 off
     @ be_bytes 4 sz @ be_bytes 4 link @ be_bytes 4 0 @ be_bytes 4 0 @ be_bytes 4 ent"

definition elf_header :: "nat \<Rightarrow> bytes" where
  "elf_header shoff = elf_magic @ [char_of (1 :: nat), char_of (2 :: nat)] @ replicate 26 nul @ be_bytes 4 shoff
     @ replicate 10 nul @ be_bytes 2 40 @ be_bytes 2 2 @ be_bytes 2 0"

definition mk_elf :: "symtab \<Rightarrow> bytes" where
  "mk_elf syms = (let n = length syms in
     elf_header (52 + 16 * n) @ sym_rows syms @ shdr 2 52 (16 * n) 1 16
     @ shdr 3 (132 + 16 * n) (length (sym_names syms)) 0 0 @ sym_names syms)"

definition ok_syms :: "symtab \<Rightarrow> bool" where
  "ok_syms syms \<longleftrightarrow> (\<forall>(nm, v, sz) \<in> set syms. nm \<noteq> [] \<and> nul \<notin> set nm \<and> v < 2 ^ 32 \<and> sz < 2 ^ 32) \<and>
     132 + 16 * length syms + length (sym_names syms) < 2 ^ 32"

definition read_names :: "symtab \<Rightarrow> symtab" where
  "read_names syms = map (\<lambda>(nm, v). (ascii_replace nm, v)) syms"

definition ascii_names :: "symtab \<Rightarrow> bool" where
  "ascii_names syms = list_all (\<lambda>(nm, v). list_all ascii_char nm) syms"

lemma read_names_ascii: "ascii_names syms \<Longrightarrow> read_names syms = syms"
  by (induction syms) (auto simp: read_names_def ascii_names_def ascii_replace_id)

lemma elf_lengths [simp]:
  "length (elf_header n) = 52" "length (shdr a b c d e) = 40" "length (sym_row syms j) = 16"
  by (simp_all add: elf_header_def shdr_def sym_row_def elf_magic_def)

lemma length_sym_rows [simp]: "length (concat (map (sym_row syms) js)) = 16 * length js"
  by (induction js) auto

lemma length_sym_rows' [simp]: "length (sym_rows syms) = 16 * length syms"
  by (simp add: sym_rows_def)

lemma sym_names_split:
  "j < length syms \<Longrightarrow> sym_names syms =
     sym_names (take j syms) @ fst (syms ! j) @ nul # sym_names (drop (Suc j) syms)"
  by (subst id_take_nth_drop [of j syms]) (auto simp: sym_names_def split_beta)

lemma sym_names_less:
  "j < length syms \<Longrightarrow> length (sym_names (take j syms)) < length (sym_names syms)"
  by (subst (2) sym_names_split) auto

lemma sym_rows_split:
  assumes "j < length syms"
  shows "sym_rows syms = concat (map (sym_row syms) [0..<j]) @ sym_row syms j
    @ concat (map (sym_row syms) [Suc j..<length syms])"
proof -
  have "[0..<length syms] = [0..<j] @ j # [Suc j..<length syms]"
    using assms upt_add_eq_append [of 0 j "length syms - j"] upt_conv_Cons [of j "length syms"] by simp
  then show ?thesis by (simp add: sym_rows_def)
qed

lemma be_at_row:
  assumes "j < length syms" "ok_syms syms" "b = hd' @ sym_rows syms @ r" "length hd' = 52"
  shows "be_at 4 b (52 + j * 16) = Some (length (sym_names (take j syms)))"
    "be_at 4 b (52 + j * 16 + 4) = Some (fst (snd (syms ! j)))"
    "be_at 4 b (52 + j * 16 + 8) = Some (snd (snd (syms ! j)))"
proof -
  have v: "fst (snd (syms ! j)) < 2 ^ 32" "snd (snd (syms ! j)) < 2 ^ 32"
    using assms(1,2) nth_mem [of j syms] by (auto simp: ok_syms_def split_beta)
  have o': "length (sym_names (take j syms)) < 2 ^ 32"
    using assms(2) sym_names_less [OF assms(1)] by (simp add: ok_syms_def)
  let ?c = "concat (map (sym_row syms) [Suc j..<length syms]) @ r"
  have b: "b = (hd' @ concat (map (sym_row syms) [0..<j])) @ sym_row syms j @ ?c"
    using assms(3) sym_rows_split [OF assms(1)] by simp
  have l: "length (hd' @ concat (map (sym_row syms) [0..<j])) = 52 + j * 16" using assms(4) by simp
  have at: "be_at 4 b (52 + j * 16 + k) = be_at 4 (sym_row syms j @ ?c) k" for k
    unfolding b using be_at_skip [of "hd' @ concat (map (sym_row syms) [0..<j])" "52 + j * 16 + k"] l by simp
  show "be_at 4 b (52 + j * 16) = Some (length (sym_names (take j syms)))"
    using at [of 0] o' by (simp add: sym_row_def be_at_here)
  show "be_at 4 b (52 + j * 16 + 4) = Some (fst (snd (syms ! j)))"
    using at [of 4] v by (simp add: sym_row_def be_at_here be_at_skip)
  show "be_at 4 b (52 + j * 16 + 8) = Some (snd (snd (syms ! j)))"
    using at [of 8] v by (simp add: sym_row_def be_at_here be_at_skip)
qed

lemma takeWhile_nul: "nul \<notin> set nm \<Longrightarrow> takeWhile (\<lambda>c. c \<noteq> nul) (nm @ nul # r) = nm"
  by (induction nm) auto

lemma cstring_here: "nul \<notin> set nm \<Longrightarrow> cstring (a @ nm @ nul # r) (length a) = Inr (ascii_replace nm)"
  by (simp add: cstring_def Let_def takeWhile_nul)

lemma mk_elf_entry:
  assumes "ok_syms syms" "j < length syms"
  shows "sym_entry (mk_elf syms) (132 + 16 * length syms) (52 + j * 16) = Inr (read_names syms ! j)"
proof -
  let ?b = "mk_elf syms" and ?n = "length syms"
  let ?sh = "shdr 2 52 (16 * ?n) 1 16 @ shdr 3 (132 + 16 * ?n) (length (sym_names syms)) 0 0"
  have b: "?b = elf_header (52 + 16 * ?n) @ sym_rows syms @ ?sh @ sym_names syms"
    by (simp add: mk_elf_def Let_def)
  note rows = be_at_row [OF assms(2,1) b elf_lengths(1)]
  let ?a = "elf_header (52 + 16 * ?n) @ sym_rows syms @ ?sh @ sym_names (take j syms)"
  have "nul \<notin> set (fst (syms ! j))" using assms nth_mem [of j syms] by (auto simp: ok_syms_def split_beta)
  from cstring_here [OF this, of ?a "sym_names (drop (Suc j) syms)"]
  have "cstring ?b (132 + 16 * ?n + length (sym_names (take j syms))) = Inr (ascii_replace (fst (syms ! j)))"
    unfolding b by (subst (2) sym_names_split [OF assms(2)]) (simp add: algebra_simps)
  with rows assms(2) show ?thesis by (simp add: sym_entry_def be32_def read_names_def split_beta)
qed

lemma mk_elf_fields:
  assumes "ok_syms syms"
  shows "be_at 4 (mk_elf syms) 0x20 = Some (52 + 16 * length syms)"
    "be_at 2 (mk_elf syms) 0x2E = Some 40" "be_at 2 (mk_elf syms) 0x30 = Some 2"
    "be_at 2 (mk_elf syms) 0x32 = Some 0"
    "take 4 (mk_elf syms) = elf_magic" "mk_elf syms ! 4 = char_of (1 :: nat)"
    "mk_elf syms ! 5 = char_of (2 :: nat)" "5 < length (mk_elf syms)"
proof -
  have n: "52 + 16 * length syms < 2 ^ 32" using assms by (simp add: ok_syms_def)
  let ?r = "sym_rows syms @ shdr 2 52 (16 * length syms) 1 16
     @ shdr 3 (132 + 16 * length syms) (length (sym_names syms)) 0 0 @ sym_names syms"
  define P Q where "P = elf_magic @ [char_of (1 :: nat), char_of (2 :: nat)] @ replicate 26 nul"
    and "Q = replicate 10 nul"
  have l: "length P = 32" "length Q = 10" by (simp_all add: P_def Q_def elf_magic_def)
  have b: "mk_elf syms = P @ be_bytes 4 (52 + 16 * length syms) @ Q @ be_bytes 2 40 @ be_bytes 2 2 @ be_bytes 2 0 @ ?r"
    by (simp add: mk_elf_def elf_header_def Let_def P_def Q_def)
  show "be_at 4 (mk_elf syms) 0x20 = Some (52 + 16 * length syms)"
    unfolding b using n by (simp add: be_at_skip be_at_here l)
  show "be_at 2 (mk_elf syms) 0x2E = Some 40" "be_at 2 (mk_elf syms) 0x30 = Some 2"
    "be_at 2 (mk_elf syms) 0x32 = Some 0" unfolding b by (simp_all add: be_at_skip be_at_here l)
  show "take 4 (mk_elf syms) = elf_magic" unfolding b by (simp add: P_def elf_magic_def)
  show "mk_elf syms ! 4 = char_of (1 :: nat)" unfolding b by (simp add: P_def elf_magic_def)
  show "mk_elf syms ! 5 = char_of (2 :: nat)" unfolding b by (simp add: P_def elf_magic_def)
  show "5 < length (mk_elf syms)" unfolding b by (simp add: l)
qed

lemma mk_elf_sections:
  assumes "ok_syms syms"
  shows "section_syms (mk_elf syms) (52 + 16 * length syms) 40 0 = Inr (read_names syms)"
    "section_syms (mk_elf syms) (52 + 16 * length syms) 40 1 = Inr []"
proof -
  let ?n = "length syms" and ?b = "mk_elf syms"
  have lt: "132 + 16 * ?n + length (sym_names syms) < 2 ^ 32" using assms by (simp add: ok_syms_def)
  define H where "H = elf_header (52 + 16 * ?n) @ sym_rows syms"
  define S where "S = shdr 2 52 (16 * ?n) 1 16"
  define T where "T = shdr 3 (132 + 16 * ?n) (length (sym_names syms)) 0 0"
  have l: "length H = 52 + 16 * ?n" "length S = 40" "length T = 40" by (simp_all add: H_def S_def T_def)
  have b: "?b = H @ S @ T @ sym_names syms" by (simp add: mk_elf_def Let_def H_def S_def T_def)
  have s: "be_at 4 ?b (52 + 16 * ?n + 4) = Some 2" "be_at 4 ?b (52 + 16 * ?n + 16) = Some 52"
    "be_at 4 ?b (52 + 16 * ?n + 20) = Some (16 * ?n)" "be_at 4 ?b (52 + 16 * ?n + 24) = Some 1"
    "be_at 4 ?b (52 + 16 * ?n + 36) = Some 16" "be_at 4 ?b (52 + 16 * ?n + 40 + 4) = Some 3"
    "be_at 4 ?b (52 + 16 * ?n + 40 + 16) = Some (132 + 16 * ?n)"
    unfolding b using lt by (simp_all add: be_at_skip be_at_here l) (simp_all add: S_def T_def shdr_def be_at_skip be_at_here)
  have len: "52 + 16 * ?n + 80 \<le> length ?b" unfolding b by (simp add: l)
  have t: "traverse (\<lambda>j. sym_entry ?b (132 + 16 * ?n) (52 + j * 16)) [0..<?n] = Inr (read_names syms)"
    by (simp add: traverse_Inr list_all2_conv_all_nth mk_elf_entry [OF assms] read_names_def)
  have "filter (\<lambda>(nm, v). nm \<noteq> []) (read_names syms) = read_names syms"
    using assms by (auto simp: ok_syms_def read_names_def filter_id_conv)
  then show "section_syms ?b (52 + 16 * ?n) 40 0 = Inr (read_names syms)"
    using s len t by (simp add: section_syms_def be32_def Let_def)
  show "section_syms ?b (52 + 16 * ?n) 40 1 = Inr []"
    using s len by (simp add: section_syms_def be32_def Let_def)
qed

lemma upt_0_2: "[0..<2] = [0, 1 :: nat]"
  by (simp add: upt_conv_Cons)

lemma elf_symbols_mk_elf:
  assumes "ok_syms syms" shows "elf_symbols (mk_elf syms) = Inr (Some (read_names syms))"
  using mk_elf_fields [OF assms] mk_elf_sections [OF assms]
  by (simp add: elf_symbols_def be32_def be16_def upt_0_2)

lemma elf_symbols_ascii:
  assumes "ok_syms syms" "ascii_names syms" shows "elf_symbols (mk_elf syms) = Inr (Some syms)"
  using elf_symbols_mk_elf [OF assms(1)] read_names_ascii [OF assms(2)] by simp

subsection \<open>A build that passes\<close>

definition demo_drop :: drop_paths where
  "demo_drop = \<lparr>CTL_NFJROM = ''cn'', CTL_MEMLOAD = ''cm'', CTL_IMG = ''ci'', CTL_LINUXBIN = ''cl''\<rparr>"

definition demo_base :: symtab where
  "demo_base = [(''_fdata'', 0x80501000, 0), (''__vmlinux_start'', 0x80503000, 0), (''__start'', 0x80500000, 0)]"

definition demo_files :: "string \<Rightarrow> bytes option" where
  "demo_files = [''cn'' \<mapsto> HANDOFF_ZERO_SEQ, ''cm'' \<mapsto> mk_elf demo_base,
     ''r/memload-full'' \<mapsto> mk_elf ((HANDOFF_SYM, 0x80502000, 16) # demo_base),
     ''r/nfjrom'' \<mapsto> HANDOFF_WITNESS, ''r/vmlinux_img'' \<mapsto> ''kernel'']"

lemma demo_ok: "ok_syms demo_base" "ok_syms ((HANDOFF_SYM, 0x80502000, 16) # demo_base)"
  by (simp_all add: ok_syms_def demo_base_def sym_names_def HANDOFF_SYM_def char_of_nat_eq)

lemma demo_ascii: "ascii_names demo_base" "ascii_names ((HANDOFF_SYM, 0x80502000, 16) # demo_base)"
  by (simp_all add: ascii_names_def ascii_char_def demo_base_def HANDOFF_SYM_def)

lemma demo_counts:
  "count_sub HANDOFF_ZERO_SEQ (take HANDOFF_ZERO_WINDOW HANDOFF_ZERO_SEQ) = 1"
  "count_sub HANDOFF_WITNESS HANDOFF_ZERO_SEQ = 0"
  "count_sub HANDOFF_ZERO_SEQ (take HANDOFF_ZERO_WINDOW HANDOFF_WITNESS) = 0"
  "count_sub HANDOFF_WITNESS HANDOFF_WITNESS = 1"
proof -
  have l: "length HANDOFF_ZERO_SEQ = 20" "length HANDOFF_WITNESS = 11"
    by (simp_all add: HANDOFF_ZERO_SEQ_def HANDOFF_WITNESS_def)
  then have t: "take HANDOFF_ZERO_WINDOW HANDOFF_ZERO_SEQ = HANDOFF_ZERO_SEQ"
    "take HANDOFF_ZERO_WINDOW HANDOFF_WITNESS = HANDOFF_WITNESS"
    by (simp_all add: HANDOFF_ZERO_WINDOW_def)
  show "count_sub HANDOFF_ZERO_SEQ (take HANDOFF_ZERO_WINDOW HANDOFF_ZERO_SEQ) = 1"
    unfolding t by (rule count_sub_self) (use l in auto)
  show "count_sub HANDOFF_WITNESS HANDOFF_WITNESS = 1" by (rule count_sub_self) (use l in auto)
  have w: "CHR ''R'' \<notin> set HANDOFF_ZERO_SEQ"
    by (simp add: HANDOFF_ZERO_SEQ_def be_bytes_4 char_of_nat_eq)
  show "count_sub HANDOFF_WITNESS HANDOFF_ZERO_SEQ = 0"
    by (rule count_sub_no_hd) (use w in \<open>simp_all add: HANDOFF_WITNESS_def\<close>)
  have "hd HANDOFF_ZERO_SEQ = nul" by (simp add: HANDOFF_ZERO_SEQ_def be_bytes_4)
  then show "count_sub HANDOFF_ZERO_SEQ (take HANDOFF_ZERO_WINDOW HANDOFF_WITNESS) = 0"
    unfolding t by (intro count_sub_no_hd) (use l in \<open>auto simp: HANDOFF_WITNESS_def char_of_nat_eq\<close>)
qed

lemma demo_reading:
  "control_why (handoff_reading demo_files (CTL_MEMLOAD demo_drop) (CTL_NFJROM demo_drop)) = []"
  "image_why (handoff_reading demo_files ''r/memload-full'' ''r/nfjrom'') = []"
  using elf_symbols_ascii [OF demo_ok(1) demo_ascii(1)] elf_symbols_ascii [OF demo_ok(2) demo_ascii(2)] demo_counts
  by (simp_all add: handoff_reading_def demo_files_def demo_drop_def control_why_def image_why_Nil
      sym_get_def demo_base_def HANDOFF_SYM_def LOAD_START_ADDR_def)

definition demo_log :: string where "demo_log = ''VENDOR-TRIPWIRE: CLEAN cmd-rc=0''"

definition demo_build :: build_state where
  "demo_build = \<lparr>bd_rc = 0, bd_log = demo_log, bd_label = ''l'', bd_cell = ''/c'', bd_vmlinux = ''/v'',
     bd_rtk = ''r'', bd_rtk_src = ''/c/rtkload'', bd_vm_used = ''vm'', bd_src_sha = ''d'',
     bd_kconfig = [], bd_sdkconfig = []\<rparr>"

lemma demo_trip: "read_tripwire 0 demo_log = Go 0 demo_log"
  unfolding demo_log_def by code_simp

lemma demo_log_quiet: "findall CVIMG_END_RX demo_log = []" "\<not> occurs CVIMG_OVERRUN demo_log"
  unfolding demo_log_def by code_simp+

text \<open>A kernel of one segment.\<close>

definition demo_kernel :: bytes where
  "demo_kernel = (elf_magic @ [char_of (1 :: nat), char_of (2 :: nat)] @ replicate 22 nul) @ be_bytes 4 52
     @ replicate 10 nul @ be_bytes 2 32 @ be_bytes 2 1 @ replicate 6 nul
     @ be_bytes 4 1 @ be_bytes 4 0 @ be_bytes 4 0x80000000 @ be_bytes 4 0 @ be_bytes 4 16 @ replicate 12 nul"

lemma demo_kernel_fields:
  "be_val (slice demo_kernel 28 32) = 52" "be_val (slice demo_kernel 42 44) = 32"
  "be_val (slice demo_kernel 44 46) = 1" "ph_field demo_kernel 52 0 = 1"
  "ph_field demo_kernel 52 2 = 0x80000000" "ph_field demo_kernel 52 4 = 16"
  "length demo_kernel = 84" "take 4 demo_kernel = elf_magic"
  "slice demo_kernel 4 6 = [char_of (1 :: nat), char_of (2 :: nat)]"
proof -
  define P Q R where "P = elf_magic @ [char_of (1 :: nat), char_of (2 :: nat)] @ replicate 22 nul"
    and "Q = replicate 10 nul" and "R = replicate 6 nul"
  have l: "length P = 28" "length Q = 10" "length R = 6" by (simp_all add: P_def Q_def R_def elf_magic_def)
  have b: "demo_kernel = P @ be_bytes 4 52 @ Q @ be_bytes 2 32 @ be_bytes 2 1 @ R
     @ be_bytes 4 1 @ be_bytes 4 0 @ be_bytes 4 0x80000000 @ be_bytes 4 0 @ be_bytes 4 16 @ replicate 12 nul"
    by (simp only: demo_kernel_def P_def Q_def R_def)
  have "be_at 4 demo_kernel 28 = Some 52" "be_at 2 demo_kernel 42 = Some 32" "be_at 2 demo_kernel 44 = Some 1"
    "be_at 4 demo_kernel 52 = Some 1" "be_at 4 demo_kernel 60 = Some 0x80000000" "be_at 4 demo_kernel 68 = Some 16"
    unfolding b by (simp_all add: be_at_skip be_at_here l)
  note f = this [THEN be_at_val]
  show "be_val (slice demo_kernel 28 32) = 52" "be_val (slice demo_kernel 42 44) = 32"
    "be_val (slice demo_kernel 44 46) = 1" "ph_field demo_kernel 52 0 = 1"
    "ph_field demo_kernel 52 2 = 0x80000000" "ph_field demo_kernel 52 4 = 16"
    using f by (simp_all add: ph_field_def)
  show "length demo_kernel = 84" unfolding b by (simp add: l)
  show "take 4 demo_kernel = elf_magic" unfolding b by (simp add: P_def elf_magic_def)
  show "slice demo_kernel 4 6 = [char_of (1 :: nat), char_of (2 :: nat)]"
    unfolding b by (simp add: slice_def P_def elf_magic_def)
qed

lemma demo_segment:
  "segment demo_kernel (be_val (slice demo_kernel 28 32)) (be_val (slice demo_kernel 42 44)) 0
     = Some (0x80000000, 16)"
  by (simp add: segment_def demo_kernel_fields)

lemma demo_extent: "loaded_extent demo_kernel = Inr (16, Pt_load 1 0x80000000 0x80000010)"
  by (simp add: loaded_extent_def Let_def demo_kernel_fields extent_step_segment
      demo_segment [unfolded demo_kernel_fields])

lemma demo_ceiling: "ceiling_verdict (Some ''kernel'') demo_log = ([], Some 6)"
proof -
  have "loaded_extent ''kernel'' = Inr (6, Flat_file)"
    by (simp add: loaded_extent_def elf_magic_def char_of_nat_eq)
  then show ?thesis using demo_log_quiet by (simp add: ceiling_verdict_def over_ceiling_def CEILING_def)
qed

lemma write_record_ok: "list_all (\<lambda>r. \<not> splits_row r) rows \<Longrightarrow> \<exists>out. write_record rows = Inr out"
  by (induction rows) auto

lemma plain_chars:
  "is_hex c \<Longrightarrow> c \<notin> {CHR 0x09, CHR 0x0D, CHR 0x0A}"
  by (auto simp: is_hex_def is_hex_lower_def is_digit_def)

lemma hx_plain: "c \<in> set (hx v) \<Longrightarrow> c \<notin> {CHR 0x09, CHR 0x0D, CHR 0x0A}"
  using plain_chars hexU_hex by (fastforce simp: hx_def split: option.splits)

lemma dec_plain: "c \<in> set (dec n) \<Longrightarrow> c \<notin> {CHR 0x09, CHR 0x0D, CHR 0x0A}"
  using plain_chars dec_digit by (auto simp: is_hex_def is_hex_lower_def dest!: dec_digit)

lemma demo_record:
  "\<exists>out. build_finish demo_drop (\<lambda>b. ''d'') demo_files demo_build = (Recorded out, 0)"
proof -
  let ?m = "handoff_reading demo_files ''r/memload-full'' ''r/nfjrom''"
  have "c \<notin> {CHR 0x09, CHR 0x0D, CHR 0x0A}" if "c \<in> set (handoff_summary ?m)" for c
    using that hx_plain dec_plain
    by (fastforce simp: handoff_summary_def HANDOFF_SYM_def HANDOFF_WITNESS_def split: option.splits prod.splits)
  then have "list_all (\<lambda>r. \<not> splits_row r)
      (record_rows (\<lambda>b. ''d'') demo_build 0 demo_log HANDOFF_WITNESS (handoff_summary ?m))"
    using dec_plain
    by (auto simp: record_rows_def demo_build_def demo_log_def splits_row_def)
  from write_record_ok [OF this] obtain out where
    w: "write_record (record_rows (\<lambda>b. ''d'') demo_build 0 demo_log HANDOFF_WITNESS (handoff_summary ?m)) = Inr out"
    by blast
  have f: "demo_files ''r/nfjrom'' = Some HANDOFF_WITNESS" "demo_files ''r/vmlinux_img'' = Some ''kernel''"
    by (simp_all add: demo_files_def)
  have b: "bd_rc demo_build = 0" "bd_log demo_build = demo_log" "bd_rtk demo_build = ''r''"
    "bd_src_sha demo_build = ''d''" by (simp_all add: demo_build_def)
  have h: "handoff_verdict demo_drop demo_files ''r/memload-full'' ''r/nfjrom'' = (0, [])"
    by (simp add: handoff_verdict_def demo_reading)
  show ?thesis using w f h by (simp add: build_finish_def b demo_trip demo_ceiling)
qed

text \<open>A drop whose controls fire, checked against itself.\<close>

definition demo_ref :: bytes where "demo_ref = replicate 2953660 nul"

definition demo_stream :: bytes where
  "demo_stream = replicate 5 nul @ le_bytes 4 2953660 @ le_bytes 4 0 @ replicate 300 nul"

definition demo_sec :: bytes where
  "demo_sec = be_bytes 4 1 @ be_bytes 4 0x80003600 @ demo_stream @ [nul]"

definition demo_nf :: bytes where "demo_nf = replicate 0x2C00 nul @ demo_sec"

definition demo_lzma :: "bytes \<Rightarrow> lzma_result" where
  "demo_lzma s = (if s = demo_stream then Decoded demo_ref True else Lzma_error [])"

definition demo_vm :: symtab where
  "demo_vm = [(''__vmlinux_start'', 0x80502C00, 0), (''__vmlinux_end'', 0x80502D42, 0)]"

definition demo_img :: image where
  "demo_img = \<lparr>im_raw = demo_nf, im_vstart = 0x2C00, im_vend = 0x2D42, im_pending_len = 1,
     im_kernel_start = 0x80003600, im_stream = demo_stream, im_props = take 5 demo_stream,
     im_declared = 2953660, im_declared_hi = 0, im_plain = Plain demo_ref\<rparr>"

lemma demo_lengths:
  "length demo_stream = 313" "length demo_sec = 322" "length demo_nf = 11586" "length demo_ref = 2953660"
  by (simp_all add: demo_stream_def demo_sec_def demo_nf_def demo_ref_def)

lemma le_at_skip: "length a \<le> i \<Longrightarrow> le_at k (a @ r) i = le_at k r (i - length a)"
  by (auto simp: le_at_def slice_def)

lemma le_at_here: "le_at k (le_bytes k n @ r) 0 = Some (n mod 256 ^ k)"
  by (simp add: le_at_def le_val_le_bytes)

lemma demo_read: "read_image demo_lzma demo_nf (mk_elf demo_vm) = Inr demo_img"
proof -
  have ok: "ok_syms demo_vm"
    by (simp add: ok_syms_def demo_vm_def sym_names_def char_of_nat_eq)
  have asc: "ascii_names demo_vm" by (simp add: ascii_names_def ascii_char_def demo_vm_def)
  have sec: "py_slice demo_nf 0x2C00 0x2D42 = demo_sec"
    by (simp add: py_slice_nonneg slice_def demo_nf_def demo_lengths)
  have st: "py_slice demo_sec 8 321 = demo_stream"
    by (simp add: py_slice_nonneg slice_def demo_sec_def demo_lengths)
  have b: "be_at 4 demo_sec 0 = Some 1" "be_at 4 demo_sec 4 = Some 0x80003600"
    by (simp_all add: demo_sec_def be_at_here be_at_skip)
  have l: "le_at 4 demo_stream 5 = Some 2953660" "le_at 4 demo_stream 9 = Some 0"
    by (simp_all add: demo_stream_def le_at_here le_at_skip)
  have "decode_plain demo_lzma demo_stream 2953660 = Plain demo_ref"
    by (simp add: decode_plain_def demo_lzma_def demo_lengths)
  then show ?thesis
    using elf_symbols_ascii [OF ok asc] sec st b l
    by (simp add: read_image_def map_err_def sym_get_def demo_vm_def LOAD_START_ADDR_def Let_def
        demo_lengths demo_img_def)
qed

definition demo_check_files :: "string \<Rightarrow> bytes option" where
  "demo_check_files = [''cn'' \<mapsto> demo_nf, ''cm'' \<mapsto> mk_elf demo_vm, ''ci'' \<mapsto> demo_ref,
     ''cl'' \<mapsto> ''cr6c'' @ replicate 14 nul]"

definition demo_check :: check_args where
  "demo_check = \<lparr>ca_nfjrom = ''cn'', ca_memload = ''cm'', ca_linuxbin = ''cl'', ca_expect_img = ''ci''\<rparr>"

lemma demo_linuxbin:
  "parse_linuxbin (''cr6c'' @ replicate 14 nul) =
      Some \<lparr>lb_raw = ''cr6c'' @ replicate 14 nul, lb_signature = ''cr6c'', lb_start = 0, lb_flash_offset = 0,
        lb_length = 0, lb_payload = [nul, nul], lb_sum16 = 0\<rparr>"
  by code_simp

lemma demo_controls:
  "controls_for_check demo_drop demo_check_files demo_lzma = Inr [(''R1'', True), (''R2'', True), (''R3'', True)]"
proof -
  define bad where "bad = demo_nf[11472 := char_of (1 :: nat)]"
  have n: "demo_nf ! 11472 = nul"
    by (simp add: demo_nf_def demo_sec_def demo_stream_def nth_append)
  have f: "flip_bit demo_nf 11472 = Some bad"
    by (simp add: flip_bit_def Let_def demo_lengths n bad_def)
  have "py_slice bad 11272 11585 ! 200 = char_of (1 :: nat)"
    by (simp add: py_slice_nonneg slice_def bad_def demo_lengths)
  moreover have "demo_stream ! 200 = nul" by (simp add: demo_stream_def nth_append)
  ultimately have ne: "py_slice bad 11272 11585 \<noteq> demo_stream" by (auto simp: char_of_nat_eq)
  have s: "flip_bit [nul, nul] 1 = Some [nul, char_of (1 :: nat)]" "sum16 [nul, char_of (1 :: nat)] \<noteq> 0"
    by code_simp+
  show ?thesis
    using demo_read f ne demo_linuxbin s
    by (simp add: controls_for_check_def demo_drop_def demo_check_files_def demo_img_def Let_def demo_lengths
        EXPECT_pending_def EXPECT_start_def EXPECT_off_def EXPECT_decompressed_def demo_lzma_def)
qed

lemma demo_check_ok: "cmd_check demo_drop demo_check_files demo_lzma demo_check = Inr 0"
proof -
  have f: "demo_check_files ''cn'' = Some demo_nf" "demo_check_files ''cm'' = Some (mk_elf demo_vm)"
    "demo_check_files ''ci'' = Some demo_ref" "demo_check_files ''cl'' = Some (''cr6c'' @ replicate 14 nul)"
    by (simp_all add: demo_check_files_def)
  have a: "ca_nfjrom demo_check = ''cn''" "ca_memload demo_check = ''cm''" "ca_linuxbin demo_check = ''cl''"
    "ca_expect_img demo_check = ''ci''" by (simp_all add: demo_check_def)
  show ?thesis
    unfolding cmd_check_def demo_controls a f or_err_simps sbind_simps demo_linuxbin
    using demo_read by (simp add: map_err_def demo_img_def Let_def is_plain_def demo_lengths CEILING_def)
qed

subsection \<open>Properties\<close>

text \<open>
  C7. A record certifies its image: when \<open>cmd_build\<close> writes a record, the status is 0, the tripwire
  watched make and said CLEAN, the kernel make read is the one that was given, the decompressed
  image ends at or below the address the loader reads from, the loader stub carries the handoff,
  and the record's rows, read back, name the digests of this kernel and this nfjrom.
\<close>

theorem record_after_gates:
  assumes "build_finish d sha files b = (Recorded out, code)"
  shows "code = 0 \<and> sha (bd_vm_used b) = bd_src_sha b \<and>
    (\<exists>r t. read_tripwire (bd_rc b) (bd_log b) = Go r t) \<and>
    (\<exists>img n how. files (bd_rtk b @ ''/vmlinux_img'') = Some img \<and> loaded_extent img = Inr (n, how) \<and>
       int (DECOMP_BASE + n) \<le> LOAD_START_ADDR) \<and>
    image_why (handoff_reading files (bd_rtk b @ ''/memload-full'') (bd_rtk b @ ''/nfjrom'')) = [] \<and>
    (\<exists>nf. files (bd_rtk b @ ''/nfjrom'') = Some nf \<and>
       {[''nfjrom_sha256'', sha nf], [''vmlinux_sha256'', sha (bd_vm_used b)]}
         \<subseteq> set (map (split_on (CHR 0x09)) (split_on (CHR 0x0A) out)))"
proof -
  let ?m = "bd_rtk b @ ''/memload-full''" and ?n = "bd_rtk b @ ''/nfjrom''"
  obtain r t where go: "read_tripwire (bd_rc b) (bd_log b) = Go r t"
    using assms by (auto simp: build_finish_def split: tripwire.splits)
  obtain nf where nf: "files ?n = Some nf"
    using assms by (auto simp: build_finish_def go split: option.splits if_splits)
  have sha: "sha (bd_vm_used b) = bd_src_sha b"
    using assms by (auto simp: build_finish_def go nf split: if_splits)
  let ?c = "ceiling_verdict (files (bd_rtk b @ ''/vmlinux_img'')) (bd_log b)"
  have c: "fst ?c = []" and h: "fst (handoff_verdict d files ?m ?n) = 0"
    and w: "write_record (record_rows sha b r t nf (handoff_summary (handoff_reading files ?m ?n))) = Inr out"
      "code = 0"
    using assms by (auto simp: build_finish_def go nf sha Let_def split: if_splits prod.splits sum.splits)
  from c obtain img n how where img: "files (bd_rtk b @ ''/vmlinux_img'') = Some img"
      "loaded_extent img = Inr (n, how)" "int n \<le> CEILING"
    using ceiling_ok [of "files (bd_rtk b @ ''/vmlinux_img'')" "bd_log b" "snd ?c"] by (cases ?c) auto
  have "map (split_on (CHR 0x09)) (split_on (CHR 0x0A) out) =
      map (\<lambda>(k, v). [k, v]) (record_rows sha b r t nf (handoff_summary (handoff_reading files ?m ?n))) @ [[[]]]"
    using write_record_rows [OF w(1)] record_text_rows by metis
  then show ?thesis
    using go nf sha h w(2) img
    by (auto simp: handoff_code_0 record_rows_def CEILING_def DECOMP_BASE_def LOAD_START_ADDR_def)
qed

theorem record_after_gates_witness:
  "\<exists>out. build_finish demo_drop (\<lambda>b. ''d'') demo_files demo_build = (Recorded out, 0) \<and>
     {[''nfjrom_sha256'', ''d''], [''vmlinux_sha256'', ''d'']}
       \<subseteq> set (map (split_on (CHR 0x09)) (split_on (CHR 0x0A) out))"
proof -
  obtain out where "build_finish demo_drop (\<lambda>b. ''d'') demo_files demo_build = (Recorded out, 0)"
    using demo_record by blast
  with record_after_gates [OF this] show ?thesis by blast
qed

text \<open>
  Make's own output cannot speak for the tripwire: whatever the log holds before the last verdict
  line, and whatever follows it without being a verdict line, the build goes on exactly when that
  last line says CLEAN and agrees with the tripwire's exit status.
\<close>

theorem tripwire_last_line_decides:
  assumes "verdict_rx line = Some (word, cmdrc)" "CHR 0x0A \<notin> set line" "verdict_lines rest = []"
  shows "(\<exists>r t. read_tripwire rc (noise @ CHR 0x0A # line @ CHR 0x0A # rest) = Go r t) \<longleftrightarrow>
    word = ''CLEAN'' \<and> (rc = 0 \<and> cmdrc = Some ''0'' \<or> rc = 1 \<and> (\<exists>d. cmdrc = Some d \<and> dec_num d \<noteq> 0))"
proof -
  have "verdict_lines (noise @ CHR 0x0A # line @ CHR 0x0A # rest) = verdict_lines noise @ [line]"
    using assms by (simp add: verdict_lines_append verdict_lines_one)
  from read_tripwire_last [OF this assms(1)] show ?thesis by (auto simp: trip_judge_Go)
qed

theorem tripwire_last_line_decides_witness:
  "\<not> (\<exists>r t. read_tripwire 0
      (''VENDOR-TRIPWIRE: CLEAN cmd-rc=0'' @ CHR 0x0A # ''VENDOR-TRIPWIRE: TRIPPED'' @ CHR 0x0A # []) = Go r t)"
proof -
  have "verdict_rx ''VENDOR-TRIPWIRE: TRIPPED'' = Some (''TRIPPED'', None)" by code_simp
  moreover have "verdict_lines [] = []" by code_simp
  ultimately show ?thesis
    using tripwire_last_line_decides [of "''VENDOR-TRIPWIRE: TRIPPED''" "''TRIPPED''" None "[]" 0
        "''VENDOR-TRIPWIRE: CLEAN cmd-rc=0''"]
    by simp
qed

text \<open>
  The handoff gate tells its control from an image: a pair of files it accepts as an image is
  refused with status 2 when it stands as the control, and a pair that serves as the control is
  never accepted as an image.
\<close>

theorem handoff_discriminates:
  assumes "fst (handoff_verdict d files m n) = 0"
  shows "fst (handoff_verdict \<lparr>CTL_NFJROM = n, CTL_MEMLOAD = m, CTL_IMG = i, CTL_LINUXBIN = l\<rparr> files m' n') = 2
    \<and> fst (handoff_verdict d files (CTL_MEMLOAD d) (CTL_NFJROM d)) = 1"
proof -
  from assms have c: "control_why (handoff_reading files (CTL_MEMLOAD d) (CTL_NFJROM d)) = []"
    and im: "image_why (handoff_reading files m n) = []" by (simp_all add: handoff_code_0)
  from im have "control_why (handoff_reading files m n) \<noteq> []"
    by (auto simp: image_why_Nil control_why_def)
  then have "fst (handoff_verdict \<lparr>CTL_NFJROM = n, CTL_MEMLOAD = m, CTL_IMG = i, CTL_LINUXBIN = l\<rparr> files m' n') = 2"
    by (simp add: handoff_verdict_def)
  moreover from c have "image_why (handoff_reading files (CTL_MEMLOAD d) (CTL_NFJROM d)) \<noteq> []"
    by (auto simp: image_why_Nil control_why_def split: option.splits if_splits)
  with c have "fst (handoff_verdict d files (CTL_MEMLOAD d) (CTL_NFJROM d)) = 1"
    by (simp add: handoff_verdict_def)
  ultimately show ?thesis by blast
qed

theorem handoff_discriminates_witness:
  "fst (handoff_verdict demo_drop demo_files ''r/memload-full'' ''r/nfjrom'') = 0 \<and>
   fst (handoff_verdict demo_drop demo_files ''cm'' ''cn'') = 1"
proof -
  have "fst (handoff_verdict demo_drop demo_files ''r/memload-full'' ''r/nfjrom'') = 0"
    by (simp add: handoff_code_0 demo_reading)
  with handoff_discriminates [OF this] show ?thesis by (simp add: demo_drop_def)
qed

text \<open>
  C8. Below the ceiling nothing overwrites the loader's input: when the ceiling gate accepts an ELF
  image, every segment it loads, placed from the lowest one at the address the decompressor writes
  to, ends at or below the address it reads from.
\<close>

theorem ceiling_keeps_input:
  assumes "fst (ceiling_verdict (Some b) logtext) = []"
    and "loaded_extent b = Inr (n, Pt_load phnum lo hi)"
    and "i < phnum" "segment b (be_val (slice b 28 32)) (be_val (slice b 42 44)) i = Some (v, f)"
  shows "lo \<le> v \<and> int (DECOMP_BASE + (v - lo) + f) \<le> LOAD_START_ADDR"
proof -
  have "int n \<le> CEILING"
    using ceiling_ok [of "Some b" logtext "snd (ceiling_verdict (Some b) logtext)"] assms(1,2)
    by (cases "ceiling_verdict (Some b) logtext") auto
  with loaded_extent_covers [OF assms(2-4)] show ?thesis
    by (simp add: CEILING_def DECOMP_BASE_def LOAD_START_ADDR_def)
qed

theorem ceiling_keeps_input_witness:
  "fst (ceiling_verdict (Some demo_kernel) demo_log) = [] \<and>
   int (DECOMP_BASE + (0x80000000 - 0x80000000) + 16) \<le> LOAD_START_ADDR"
proof -
  have "fst (ceiling_verdict (Some demo_kernel) demo_log) = []"
    using demo_log_quiet by (simp add: ceiling_verdict_def over_ceiling_def CEILING_def demo_extent)
  with ceiling_keeps_input [OF this demo_extent _ demo_segment] show ?thesis by simp
qed

text \<open>
  C9. The symbol reader reads back every table written in the ELF layout it is for, entry for
  entry: the values as written, and each name as it decodes, an octet of 0x80 or above replaced.
  Where the names are ASCII the table comes back unchanged, and where they are distinct besides,
  looking a name up gives its own value.  (Names that differ in replaced octets only become one
  key, and the later of them wins.)
\<close>

theorem elf_table_roundtrip:
  assumes "ok_syms syms"
  shows "elf_symbols (mk_elf syms) = Inr (Some (read_names syms)) \<and>
    (ascii_names syms \<longrightarrow> elf_symbols (mk_elf syms) = Inr (Some syms) \<and>
      (distinct (map fst syms) \<longrightarrow> (\<forall>(nm, v) \<in> set syms. sym_get syms nm = Some v)))"
proof -
  have "sym_get syms nm = Some v" if "distinct (map fst syms)" "(nm, v) \<in> set syms" for nm v
    using that by (simp add: sym_get_def rev_map [symmetric])
  with elf_symbols_mk_elf [OF assms] elf_symbols_ascii [OF assms] show ?thesis by auto
qed

theorem elf_table_roundtrip_witness:
  "elf_symbols (mk_elf demo_base) = Inr (Some demo_base) \<and> sym_get demo_base ''__start'' = Some (0x80500000, 0)"
  using elf_table_roundtrip [OF demo_ok(1)] demo_ascii(1) read_names_ascii [OF demo_ascii(1)] by (simp add: demo_base_def)

text \<open>
  What a clean \<open>check\<close> says: status 0 means that every control fired, that the payload decoded
  to the end of its stream and to the length its header declares, that it is under the ceiling,
  and that the flash image offered with it carries the signature and sums to zero.
\<close>

theorem check_ok_means:
  assumes "cmd_check d files lzma a = Inr 0"
  shows "\<exists>nf ml img plain. files (ca_nfjrom a) = Some nf \<and> files (ca_memload a) = Some ml \<and>
    read_image lzma nf ml = Inr img \<and> lzma (im_stream img) = Decoded plain True \<and>
    length plain = im_declared img \<and> int (length plain) < CEILING \<and>
    (ca_linuxbin a \<noteq> [] \<longrightarrow> (\<exists>lbf lb. files (ca_linuxbin a) = Some lbf \<and> parse_linuxbin lbf = Some lb \<and>
       lb_signature lb = ''cr6c'' \<and> sum16 (drop 16 lbf) = 0)) \<and>
    (ca_expect_img a \<noteq> [] \<longrightarrow> files (ca_expect_img a) = Some plain) \<and>
    (\<exists>ctl. controls_for_check d files lzma = Inr ctl \<and> (\<forall>c \<in> set ctl. snd c))"
proof -
  let ?lb = "if ca_linuxbin a = [] then Inr False
     else sbind (or_err (No_file (ca_linuxbin a)) (files (ca_linuxbin a))) (\<lambda>lbf.
          sbind (or_err Short_linuxbin (parse_linuxbin lbf)) (\<lambda>lb.
            Inr (lb_signature lb \<noteq> ''cr6c'' \<or> lb_sum16 lb \<noteq> 0)))"
  let ?ex = "\<lambda>img. if ca_expect_img a = [] then Inr False
     else sbind (or_err (No_file (ca_expect_img a)) (files (ca_expect_img a))) (\<lambda>ref.
          Inr (\<not> is_plain (im_plain img) ref))"
  obtain ctl where ctl: "controls_for_check d files lzma = Inr ctl" "\<forall>c \<in> set ctl. snd c"
    using assms by (auto simp: cmd_check_def sbind_Inr split: if_splits)
  have m: "ca_memload a \<noteq> []" using assms ctl by (auto simp: cmd_check_def split: if_splits)
  obtain nf ml img bad1 bad2 where f: "files (ca_nfjrom a) = Some nf" "files (ca_memload a) = Some ml"
    and im: "read_image lzma nf ml = Inr img" and b: "?lb = Inr bad1" "?ex img = Inr bad2"
      "\<not> (case im_plain img of Plain _ \<Rightarrow> False | _ \<Rightarrow> True)" "\<not> bad1" "\<not> bad2"
      "\<not> (case im_plain img of Plain b \<Rightarrow> CEILING \<le> int (length b) | _ \<Rightarrow> False)"
    using assms ctl m
    by (auto simp: cmd_check_def sbind_Inr or_err_def map_err_def Let_def
        split: option.splits sum.splits if_splits simp del: sbind_simps)
  obtain p where p: "im_plain img = Plain p" "int (length p) < CEILING"
    using b(3,6) by (cases "im_plain img") auto
  have "im_plain img = decode_plain lzma (im_stream img) (im_declared img)"
    using im by (auto simp: read_image_def sbind_Inr Let_def)
  then have "lzma (im_stream img) = Decoded p True" "length p = im_declared img"
    using p(1) by (auto simp: decode_plain_def split: lzma_result.splits if_splits)
  moreover have "ca_linuxbin a \<noteq> [] \<longrightarrow> (\<exists>lbf lb. files (ca_linuxbin a) = Some lbf \<and> parse_linuxbin lbf = Some lb \<and>
       lb_signature lb = ''cr6c'' \<and> sum16 (drop 16 lbf) = 0)"
    using b(1,4) by (auto simp: sbind_Inr or_err_def parse_linuxbin_def bind_eq_Some_conv split: option.splits if_splits)
  moreover have "ca_expect_img a \<noteq> [] \<longrightarrow> files (ca_expect_img a) = Some p"
    using b(2,5) p(1) by (auto simp: sbind_Inr or_err_def is_plain_def split: option.splits if_splits)
  ultimately show ?thesis using f im p(2) ctl by blast
qed

theorem check_ok_means_witness:
  "cmd_check demo_drop demo_check_files demo_lzma demo_check = Inr 0 \<and>
   demo_check_files ''ci'' = Some demo_ref \<and> int (length demo_ref) < CEILING"
proof -
  from check_ok_means [OF demo_check_ok] obtain plain where
    "demo_check_files ''ci'' = Some plain" "int (length plain) < CEILING"
    by (auto simp: demo_check_def)
  then show ?thesis using demo_check_ok by (simp add: demo_check_files_def)
qed

end
