(* ===== verification/RlxSign.thy ===== *)
theory RlxSign
  imports Sha2
begin

text \<open>
  \<open>tools/rlxsign.py\<close>: Ed25519 (RFC 8032) over Python integers, the seed options and the two
  commands.  A point is the four extended coordinates; a rejected encoding is None; a refusal
  (exit 2) or a \<open>ValueError\<close> is the left of a sum.
\<close>

subsection \<open>The curve\<close>

definition ED_P :: int where "ED_P = 2 ^ 255 - 19"
definition ED_L :: int where "ED_L = 2 ^ 252 + 27742317777372353535851937790883648493"

text \<open>\<open>pow(a, e, m)\<close>.\<close>

fun powmod :: "int \<Rightarrow> nat \<Rightarrow> int \<Rightarrow> int" where
  "powmod a e m =
     (if e = 0 then 1 mod m
      else let h = powmod (a * a mod m) (e div 2) m in if odd e then a * h mod m else h)"

declare powmod.simps [simp del]

lemma powmod_eq: "powmod a e m = a ^ e mod m"
proof (induction a e m rule: powmod.induct)
  case (1 a e m)
  show ?case
  proof (cases "e = 0")
    case True
    then show ?thesis by (subst powmod.simps) simp
  next
    case False
    have sq: "(a * a) ^ (e div 2) = a ^ (2 * (e div 2))" by (simp add: power_mult power2_eq_square)
    from False 1 have h: "powmod (a * a mod m) (e div 2) m = a ^ (2 * (e div 2)) mod m"
      by (simp add: power_mod sq)
    show ?thesis
    proof (cases "odd e")
      case True
      then have "e = Suc (2 * (e div 2))" by simp
      then have "a * a ^ (2 * (e div 2)) = a ^ e" by (metis power_Suc)
      with True False h show ?thesis by (subst powmod.simps) (simp add: Let_def mod_mult_right_eq)
    next
      case even: False
      then have "2 * (e div 2) = e" by simp
      with even False h show ?thesis by (subst powmod.simps) (simp add: Let_def)
    qed
  qed
qed

definition ED_D :: int where
  "ED_D = (- 121665 * powmod 121666 (nat (ED_P - 2)) ED_P) mod ED_P"

definition SQRT_M1 :: int where
  "SQRT_M1 = powmod 2 (nat ((ED_P - 1) div 4)) ED_P"

definition ED_BY :: int where
  "ED_BY = 4 * powmod 5 (nat (ED_P - 2)) ED_P mod ED_P"

definition recover_x :: "int \<Rightarrow> int \<Rightarrow> int option" where
  "recover_x y sign =
     (if y \<ge> ED_P then None
      else let x2 = (y * y - 1) * powmod (ED_D * y * y + 1) (nat (ED_P - 2)) ED_P mod ED_P in
        if x2 = 0 then (if sign \<noteq> 0 then None else Some 0)
        else let x = powmod x2 (nat ((ED_P + 3) div 8)) ED_P;
                 x' = (if x * x mod ED_P \<noteq> x2 then x * SQRT_M1 mod ED_P else x) in
          if x' * x' mod ED_P \<noteq> x2 then None
          else Some (if x' AND 1 \<noteq> sign then ED_P - x' else x'))"

type_synonym point = "int \<times> int \<times> int \<times> int"

text \<open>The base point; an undecodable one would stop the module at import.\<close>

definition ED_B :: point where
  "ED_B = (let x = the (recover_x ED_BY 0) in (x, ED_BY, 1, x * ED_BY mod ED_P))"

definition ed_add :: "point \<Rightarrow> point \<Rightarrow> point" where
  "ed_add p1 p2 =
     (case p1 of (x1, y1, z1, t1) \<Rightarrow> case p2 of (x2, y2, z2, t2) \<Rightarrow>
       (let a = (y1 - x1) * (y2 - x2) mod ED_P;
            b = (y1 + x1) * (y2 + x2) mod ED_P;
            c = 2 * t1 * t2 * ED_D mod ED_P;
            dd = 2 * z1 * z2 mod ED_P;
            e = b - a; f = dd - c; g = dd + c; h = b + a
        in (e * f mod ED_P, g * h mod ED_P, f * g mod ED_P, e * h mod ED_P)))"

function mul_loop :: "nat \<Rightarrow> point \<Rightarrow> point \<Rightarrow> point" where
  "mul_loop s q pt =
     (if s > 0 then mul_loop (drop_bit 1 s) (if s AND 1 \<noteq> 0 then ed_add q pt else q) (ed_add pt pt)
      else q)"
  by pat_completeness auto
termination by (relation "measure fst") (auto simp: drop_bit_eq_div)

declare mul_loop.simps [simp del]

definition ed_mul :: "nat \<Rightarrow> point \<Rightarrow> point" where
  "ed_mul s pt = mul_loop s (0, 1, 1, 0) pt"

definition ed_eq :: "point \<Rightarrow> point \<Rightarrow> bool" where
  "ed_eq p1 p2 =
     (case p1 of (x1, y1, z1, _) \<Rightarrow> case p2 of (x2, y2, z2, _) \<Rightarrow>
       (x1 * z2 - x2 * z1) mod ED_P = 0 \<and> (y1 * z2 - y2 * z1) mod ED_P = 0)"

definition encode :: "point \<Rightarrow> bytes" where
  "encode pt =
     (case pt of (x, y, z, _) \<Rightarrow>
       (let zi = powmod z (nat (ED_P - 2)) ED_P; x = x * zi mod ED_P; y = y * zi mod ED_P
        in le_bytes 32 (nat (y OR push_bit 255 (x AND 1)))))"

definition decode :: "bytes \<Rightarrow> point option" where
  "decode b =
     (if length b \<noteq> 32 then None
      else let v = int (le_val b); sign = drop_bit 255 v; y = v AND (push_bit 255 1 - 1) in
        (case recover_x y sign of None \<Rightarrow> None | Some x \<Rightarrow> Some (x, y, 1, x * y mod ED_P)))"

subsection \<open>Keys and signatures\<close>

definition sha512_int :: "bytes \<Rightarrow> nat" where
  "sha512_int b = le_val (sha512 b)"

definition clamp :: "bytes \<Rightarrow> bytes" where
  "clamp h =
     (let h = h[0 := char_of ((of_char (h ! 0) :: nat) AND 248)];
          h = h[31 := char_of ((of_char (h ! 31) :: nat) AND 127)]
      in h[31 := char_of ((of_char (h ! 31) :: nat) OR 64)])"

definition secret_scalar :: "bytes \<Rightarrow> nat" where
  "secret_scalar seed = le_val (clamp (take 32 (sha512 seed)))"

datatype seed_error = Seed_length nat

definition secret_to_public :: "bytes \<Rightarrow> seed_error + bytes" where
  "secret_to_public seed =
     (if length seed \<noteq> 32 then Inl (Seed_length (length seed))
      else Inr (encode (ed_mul (secret_scalar seed) ED_B)))"

definition sign :: "bytes \<Rightarrow> bytes \<Rightarrow> seed_error + bytes" where
  "sign seed msg =
     (if length seed \<noteq> 32 then Inl (Seed_length (length seed))
      else let s = secret_scalar seed; pre = drop 32 (sha512 seed);
               pub = encode (ed_mul s ED_B);
               r = sha512_int (pre @ msg) mod nat ED_L;
               big_r = encode (ed_mul r ED_B);
               k = sha512_int (big_r @ pub @ msg) mod nat ED_L
           in Inr (big_r @ le_bytes 32 ((r + k * s) mod nat ED_L)))"

definition verify :: "bytes \<Rightarrow> bytes \<Rightarrow> bytes \<Rightarrow> bool" where
  "verify pub msg sig =
     (if length sig \<noteq> 64 \<or> length pub \<noteq> 32 then False
      else case decode (take 32 sig) of None \<Rightarrow> False
      | Some big_r \<Rightarrow>
        (case decode pub of None \<Rightarrow> False
         | Some big_a \<Rightarrow>
           (let s = le_val (drop 32 sig) in
            if int s \<ge> ED_L then False
            else let k = sha512_int (take 32 sig @ pub @ msg) mod nat ED_L
                 in ed_eq (ed_mul s ED_B) (ed_add big_r (ed_mul k big_a)))))"

subsection \<open>The seed options and the commands\<close>

definition DEV_SEED :: bytes where "DEV_SEED = replicate 32 (char_of (0x42 :: nat))"

text \<open>An option that is not given is the empty string; \<open>args.get\<close> tests it for truth.\<close>

record seed_args =
  sa_seed_hex :: string
  sa_seed_file :: string
  sa_dev_seed :: bool

datatype sign_refusal =
    Seed_options nat | Seed_not_hex | Seed_hex_length nat | No_seed_file string | Seed_file_not_hex string
  | Seed_file_length string nat | No_such_file string | Sig_not_hex string | Pubkey_not_hex | Pubkey_length nat
  | Seed_value seed_error

definition read_seed :: "(string \<Rightarrow> bytes option) \<Rightarrow> seed_args \<Rightarrow> sign_refusal + bytes" where
  "read_seed files a =
     (let named = (if sa_seed_hex a \<noteq> [] then 1 else 0) + (if sa_seed_file a \<noteq> [] then 1 else 0)
                  + (if sa_dev_seed a then 1 else (0 :: nat)) in
      if named \<noteq> 1 then Inl (Seed_options named)
      else if sa_dev_seed a then Inr DEV_SEED
      else if sa_seed_hex a \<noteq> [] then
        (case fromhex (strip (sa_seed_hex a)) of None \<Rightarrow> Inl Seed_not_hex
         | Some b \<Rightarrow> if length b \<noteq> 32 then Inl (Seed_hex_length (length b)) else Inr b)
      else (case files (sa_seed_file a) of None \<Rightarrow> Inl (No_seed_file (sa_seed_file a))
        | Some b0 \<Rightarrow>
          (let b1 = (if length b0 = 65 \<and> drop 64 b0 = [CHR 0x0A] then take 64 b0 else b0) in
           sbind (if length b1 = 64 then or_err (Seed_file_not_hex (sa_seed_file a)) (fromhex b1) else Inr b1)
             (\<lambda>b. if length b \<noteq> 32 then Inl (Seed_file_length (sa_seed_file a) (length b)) else Inr b))))"

definition cmd_pubkey :: "(string \<Rightarrow> bytes option) \<Rightarrow> seed_args \<Rightarrow> sign_refusal + string" where
  "cmd_pubkey files a =
     sbind (read_seed files a) (\<lambda>seed.
       case secret_to_public seed of Inl e \<Rightarrow> Inl (Seed_value e) | Inr pub \<Rightarrow> Inr (hex_of pub))"

text \<open>\<open>cmd_sign\<close>: what is written to \<open>--out\<close> is the signature; otherwise its digits are printed.\<close>

definition cmd_sign :: "(string \<Rightarrow> bytes option) \<Rightarrow> seed_args \<Rightarrow> string \<Rightarrow> sign_refusal + bytes" where
  "cmd_sign files a file =
     (case files file of None \<Rightarrow> Inl (No_such_file file)
      | Some msg \<Rightarrow> sbind (read_seed files a) (\<lambda>seed.
          case sign seed msg of Inl e \<Rightarrow> Inl (Seed_value e) | Inr s \<Rightarrow> Inr s))"

definition cmd_verify ::
    "(string \<Rightarrow> bytes option) \<Rightarrow> seed_args \<Rightarrow> string \<Rightarrow> string \<Rightarrow> string \<Rightarrow> sign_refusal + bool \<times> int" where
  "cmd_verify files a file sigfile pubkey_hex =
     (case files file of None \<Rightarrow> Inl (No_such_file file) | Some msg \<Rightarrow>
     (case files sigfile of None \<Rightarrow> Inl (No_such_file sigfile) | Some s0 \<Rightarrow>
       (let s1 = (if length s0 = 129 \<and> drop 128 s0 = [CHR 0x0A] then take 128 s0 else s0) in
        sbind (if length s1 = 128 then or_err (Sig_not_hex sigfile) (fromhex s1) else Inr s1) (\<lambda>sig.
        sbind (if pubkey_hex \<noteq> [] then or_err Pubkey_not_hex (fromhex (strip pubkey_hex))
               else sbind (read_seed files a) (\<lambda>seed.
                 case secret_to_public seed of Inl e \<Rightarrow> Inl (Seed_value e) | Inr pub \<Rightarrow> Inr pub)) (\<lambda>pub.
          if length pub \<noteq> 32 then Inl (Pubkey_length (length pub))
          else let good = verify pub msg sig in Inr (good, if good then 0 else 1))))))"

subsection \<open>Points on the curve\<close>

text \<open>
  The curve equation in extended coordinates: T Z = X Y and Y^2 - X^2 = Z^2 + d T^2, modulo p.
\<close>

fun on_curve :: "point \<Rightarrow> bool" where
  "on_curve (x, y, z, t) \<longleftrightarrow>
     ED_P dvd x * y - z * t \<and> ED_P dvd y * y - x * x - (z * z + ED_D * t * t)"

lemma dvd_mult_cong:
  fixes p :: int
  assumes "p dvd a - a'" "p dvd b - b'" shows "p dvd a * b - a' * b'"
proof -
  have "a * b - a' * b' = (a - a') * b + a' * (b - b')" by (simp add: algebra_simps)
  with assms show ?thesis by (metis dvd_add dvd_mult dvd_mult2)
qed

text \<open>The addition law on values not yet reduced, for any modulus and any d.\<close>

lemma add_law:
  fixes p d :: int
  assumes m1: "p dvd x1 * y1 - z1 * t1" and w1: "p dvd y1 * y1 - x1 * x1 - (z1 * z1 + d * t1 * t1)"
    and m2: "p dvd x2 * y2 - z2 * t2" and w2: "p dvd y2 * y2 - x2 * x2 - (z2 * z2 + d * t2 * t2)"
    and e: "e = x1 * y2 + y1 * x2" and h: "h = y1 * y2 + x1 * x2"
    and z: "z = z1 * z2" and c: "c = d * t1 * t2"
  shows "p dvd (z + c) * h * ((z + c) * h) - e * (z - c) * (e * (z - c))
     - ((z - c) * (z + c) * ((z - c) * (z + c)) + d * (e * h) * (e * h))"
proof -
  define W1 W2 where "W1 = z1 * z1 + d * t1 * t1" and "W2 = z2 * z2 + d * t2 * t2"
  define M1 M2 where "M1 = z1 * t1" and "M2 = z2 * t2"
  define v1 v2 where "v1 = y1 * y1 - x1 * x1" and "v2 = y2 * y2 - x2 * x2"
  define n1 n2 where "n1 = x1 * y1" and "n2 = x2 * y2"
  define s1 s2 where "s1 = x1 * x1 + y1 * y1" and "s2 = x2 * x2 + y2 * y2"
  have d1: "p dvd v1 - W1" "p dvd v2 - W2" "p dvd n1 - M1" "p dvd n2 - M2"
    using assms(1-4) by (simp_all add: v1_def v2_def n1_def n2_def W1_def W2_def M1_def M2_def)
  have hh: "h * h - e * e = v1 * v2" "h * h + e * e = s1 * s2 + 4 * (n1 * n2)" "e * h = n1 * s2 + n2 * s1"
    unfolding e h v1_def v2_def s1_def s2_def n1_def n2_def by algebra+
  have ss: "s1 * s1 = v1 * v1 + 4 * (n1 * n1)" "s2 * s2 = v2 * v2 + 4 * (n2 * n2)"
    unfolding s1_def s2_def v1_def v2_def n1_def n2_def by algebra+
  let ?N = "(z + c) * h * ((z + c) * h) - e * (z - c) * (e * (z - c))
     - ((z - c) * (z + c) * ((z - c) * (z + c)) + d * (e * h) * (e * h))"
  have zc: "z * c = d * (M1 * M2)" unfolding z c M1_def M2_def by algebra
  let ?q = "(z * z - c * c) * (z * z - c * c)"
  have sq: "(n1 * s2 + n2 * s1) * (n1 * s2 + n2 * s1) =
      n1 * n1 * (v2 * v2 + 4 * (n2 * n2)) + n2 * n2 * (v1 * v1 + 4 * (n1 * n1)) + 2 * (n1 * n2) * (s1 * s2)"
    unfolding ss [symmetric] by algebra
  have "?N = (z * z + c * c) * (h * h - e * e) + 2 * (z * c) * (h * h + e * e) - ?q - d * ((e * h) * (e * h))"
    by algebra
  also have "\<dots> = (z * z + c * c) * (v1 * v2) + 2 * (d * (M1 * M2)) * (s1 * s2 + 4 * (n1 * n2)) - ?q
     - d * (n1 * n1 * (v2 * v2 + 4 * (n2 * n2)) + n2 * n2 * (v1 * v1 + 4 * (n1 * n1)) + 2 * (n1 * n2) * (s1 * s2))"
    unfolding hh zc sq ..
  finally have "?N = (z * z + c * c) * (v1 * v2) + 2 * (d * (M1 * M2)) * (s1 * s2 + 4 * (n1 * n2)) - ?q
     - d * (n1 * n1 * (v2 * v2 + 4 * (n2 * n2)) + n2 * n2 * (v1 * v1 + 4 * (n1 * n1)) + 2 * (n1 * n2) * (s1 * s2))" .
  moreover have "\<dots> = (z * z + c * c) * (v1 * v2 - W1 * W2)
     + 2 * d * (s1 * s2 + 4 * (n1 * n2)) * (M1 * M2 - n1 * n2)
     - d * (n1 * n1 * (v2 * v2) - M1 * M1 * (W2 * W2)) - d * (n2 * n2 * (v1 * v1) - M2 * M2 * (W1 * W1))
     + ((z * z + c * c) * (W1 * W2) - (z * z - c * c) * (z * z - c * c)
        - d * (M1 * M1 * (W2 * W2)) - d * (M2 * M2 * (W1 * W1)))"
    by algebra
  moreover have "(z * z + c * c) * (W1 * W2) - (z * z - c * c) * (z * z - c * c)
        - d * (M1 * M1 * (W2 * W2)) - d * (M2 * M2 * (W1 * W1)) = 0"
    unfolding z c W1_def W2_def M1_def M2_def by algebra
  ultimately have N: "?N = (z * z + c * c) * (v1 * v2 - W1 * W2)
     + 2 * d * (s1 * s2 + 4 * (n1 * n2)) * (M1 * M2 - n1 * n2)
     - d * (n1 * n1 * (v2 * v2) - M1 * M1 * (W2 * W2)) - d * (n2 * n2 * (v1 * v1) - M2 * M2 * (W1 * W1))"
    by simp
  have a: "p dvd v1 * v2 - W1 * W2" and b: "p dvd n1 * n2 - M1 * M2"
    and c: "p dvd n1 * n1 * (v2 * v2) - M1 * M1 * (W2 * W2)"
    and d: "p dvd n2 * n2 * (v1 * v1) - M2 * M2 * (W1 * W1)"
    using d1 by (intro dvd_mult_cong; simp)+
  from b have b': "p dvd M1 * M2 - n1 * n2" by (metis dvd_minus_iff minus_diff_eq)
  show ?thesis
    unfolding N
    by (rule dvd_diff [OF dvd_diff [OF dvd_add [OF dvd_mult [OF a] dvd_mult [OF b']] dvd_mult [OF c]] dvd_mult [OF d]])
qed

lemma on_curve_cong:
  assumes "x mod ED_P = x' mod ED_P" "y mod ED_P = y' mod ED_P" "z mod ED_P = z' mod ED_P" "t mod ED_P = t' mod ED_P"
  shows "on_curve (x, y, z, t) \<longleftrightarrow> on_curve (x', y', z', t')"
proof -
  have "(x * y - z * t) mod ED_P = (x' * y' - z' * t') mod ED_P"
    using assms by (intro mod_diff_cong mod_mult_cong)
  moreover have "(y * y - x * x - (z * z + ED_D * t * t)) mod ED_P = (y' * y' - x' * x' - (z' * z' + ED_D * t' * t')) mod ED_P"
    using assms by (intro mod_diff_cong mod_add_cong mod_mult_cong refl)
  ultimately show ?thesis by (simp add: dvd_eq_mod_eq_0)
qed

lemma ed_add_on_curve:
  assumes "on_curve p1" "on_curve p2"
  shows "on_curve (ed_add p1 p2)"
proof -
  obtain x1 y1 z1 t1 x2 y2 z2 t2 where p: "p1 = (x1, y1, z1, t1)" "p2 = (x2, y2, z2, t2)"
    by (cases p1, cases p2) auto
  define A B C D where "A = (y1 - x1) * (y2 - x2)" and "B = (y1 + x1) * (y2 + x2)"
    and "C = 2 * t1 * t2 * ED_D" and "D = 2 * z1 * z2"
  define e h z c where "e = x1 * y2 + y1 * x2" and "h = y1 * y2 + x1 * x2" and "z = z1 * z2"
    and "c = ED_D * t1 * t2"
  have E: "B - A = 2 * e" "D - C = 2 * (z - c)" "D + C = 2 * (z + c)" "B + A = 2 * h"
    unfolding A_def B_def C_def D_def e_def h_def z_def c_def by algebra+
  let ?e = "B mod ED_P - A mod ED_P" and ?f = "D mod ED_P - C mod ED_P"
  let ?g = "D mod ED_P + C mod ED_P" and ?h = "B mod ED_P + A mod ED_P"
  have m: "?e mod ED_P = (2 * e) mod ED_P" "?f mod ED_P = (2 * (z - c)) mod ED_P"
    "?g mod ED_P = (2 * (z + c)) mod ED_P" "?h mod ED_P = (2 * h) mod ED_P"
    unfolding E [symmetric] by (simp_all add: mod_diff_eq mod_add_eq)
  have "ed_add p1 p2 = (?e * ?f mod ED_P, ?g * ?h mod ED_P, ?f * ?g mod ED_P, ?e * ?h mod ED_P)"
    by (simp add: ed_add_def p Let_def A_def B_def C_def D_def)
  moreover have "on_curve (?e * ?f mod ED_P, ?g * ?h mod ED_P, ?f * ?g mod ED_P, ?e * ?h mod ED_P) \<longleftrightarrow>
    on_curve (2 * e * (2 * (z - c)), 2 * (z + c) * (2 * h), 2 * (z - c) * (2 * (z + c)), 2 * e * (2 * h))"
    by (rule on_curve_cong) (simp_all only: mod_mod_trivial mod_mult_cong [OF m(1) m(2)]
        mod_mult_cong [OF m(3) m(4)] mod_mult_cong [OF m(2) m(3)] mod_mult_cong [OF m(1) m(4)])
  moreover have "on_curve (2 * e * (2 * (z - c)), 2 * (z + c) * (2 * h), 2 * (z - c) * (2 * (z + c)), 2 * e * (2 * h))"
  proof -
    let ?N = "(z + c) * h * ((z + c) * h) - e * (z - c) * (e * (z - c))
     - ((z - c) * (z + c) * ((z - c) * (z + c)) + ED_D * (e * h) * (e * h))"
    have "ED_P dvd ?N"
      by (rule add_law [where ?x1.0 = x1 and ?y1.0 = y1 and ?z1.0 = z1 and ?t1.0 = t1
            and ?x2.0 = x2 and ?y2.0 = y2 and ?z2.0 = z2 and ?t2.0 = t2])
        (use assms in \<open>simp_all add: p e_def h_def z_def c_def\<close>)
    then have "ED_P dvd 16 * ?N" by (rule dvd_mult)
    moreover have "2 * (z + c) * (2 * h) * (2 * (z + c) * (2 * h)) - 2 * e * (2 * (z - c)) * (2 * e * (2 * (z - c)))
      - (2 * (z - c) * (2 * (z + c)) * (2 * (z - c) * (2 * (z + c))) + ED_D * (2 * e * (2 * h)) * (2 * e * (2 * h))) = 16 * ?N"
      by algebra
    moreover have "2 * e * (2 * (z - c)) * (2 * (z + c) * (2 * h)) - 2 * (z - c) * (2 * (z + c)) * (2 * e * (2 * h)) = 0"
      by algebra
    ultimately show ?thesis by (simp only: on_curve.simps dvd_0_right)
  qed
  ultimately show ?thesis by simp
qed

lemma mul_loop_on_curve: "on_curve q \<Longrightarrow> on_curve pt \<Longrightarrow> on_curve (mul_loop s q pt)"
proof (induction s q pt rule: mul_loop.induct)
  case (1 s q pt)
  show ?case
  proof (cases "s > 0")
    case True
    with 1 show ?thesis by (subst mul_loop.simps) (simp add: ed_add_on_curve)
  next
    case False
    with 1 show ?thesis by (subst mul_loop.simps) simp
  qed
qed

lemma ed_mul_on_curve': "on_curve pt \<Longrightarrow> on_curve (ed_mul s pt)"
  by (simp add: ed_mul_def mul_loop_on_curve)

subsection \<open>Encodings\<close>

lemma ED_P_facts: "0 < ED_P" "1 < ED_P" "ED_P < 2 ^ 255" "ED_P mod 2 = 1" "0 < ED_L" "ED_L < 2 ^ 256"
  by (simp_all add: ED_P_def ED_L_def)

lemma powmod_range: "0 \<le> powmod a e ED_P" "powmod a e ED_P < ED_P"
  using ED_P_facts(1) by (simp_all add: powmod_eq)

lemma recover_x_props:
  assumes "recover_x y sg = Some x" "sg = 0 \<or> sg = 1"
  shows "y < ED_P \<and> 0 \<le> x \<and> x < ED_P \<and> x AND 1 = sg"
proof -
  define x2 where "x2 = (y * y - 1) * powmod (ED_D * y * y + 1) (nat (ED_P - 2)) ED_P mod ED_P"
  define x0 where "x0 = powmod x2 (nat ((ED_P + 3) div 8)) ED_P"
  define x' where "x' = (if x0 * x0 mod ED_P \<noteq> x2 then x0 * SQRT_M1 mod ED_P else x0)"
  have y: "y < ED_P" using assms(1) by (auto simp: recover_x_def split: if_splits)
  show ?thesis
  proof (cases "x2 = 0")
    case True
    with assms y show ?thesis using ED_P_facts(1)
      by (auto simp: recover_x_def x2_def [symmetric] split: if_splits)
  next
    case False
    have r: "0 \<le> x'" "x' < ED_P" using powmod_range ED_P_facts(1) by (auto simp: x'_def x0_def)
    have "recover_x y sg = (if x' * x' mod ED_P \<noteq> x2 then None else Some (if x' AND 1 \<noteq> sg then ED_P - x' else x'))"
      using False y unfolding recover_x_def x2_def [symmetric] Let_def x0_def [symmetric] x'_def [symmetric] by simp
    then have e: "(if x' * x' mod ED_P \<noteq> x2 then None else Some (if x' AND 1 \<noteq> sg then ED_P - x' else x')) = Some x"
      using assms(1) by simp
    then have sq: "x' * x' mod ED_P = x2" and x: "x = (if x' AND 1 \<noteq> sg then ED_P - x' else x')"
      by (auto split: if_splits)
    have "x' \<noteq> 0" using sq False by auto
    then have "0 \<le> x" "x < ED_P" using x r by auto
    moreover have "x AND 1 = sg"
    proof (cases "x' AND 1 = sg")
      case False
      have "(ED_P - x') mod 2 = (1 - x' mod 2) mod 2" using ED_P_facts(4) by (metis mod_diff_eq)
      with False x assms(2) show ?thesis by (auto simp: and_one_eq)
    qed (use x in simp)
    ultimately show ?thesis using y by blast
  qed
qed

lemma decode_props:
  assumes "decode b = Some pt"
  shows "\<exists>x y sg. pt = (x, y, 1, x * y mod ED_P) \<and> length b = 32 \<and> 0 \<le> x \<and> x < ED_P \<and> 0 \<le> y \<and> y < ED_P \<and>
    x AND 1 = sg \<and> int (le_val b) = y + push_bit 255 sg"
proof -
  let ?v = "int (le_val b)"
  have l: "length b = 32" using assms by (auto simp: decode_def split: if_splits)
  then have v: "?v < 2 ^ 256" using le_val_less [of b] by simp
  have m: "?v AND (push_bit 255 1 - 1) = ?v mod 2 ^ 255"
    using take_bit_eq_mask [of 255 ?v] by (simp add: mask_eq_exp_minus_1 take_bit_eq_mod push_bit_eq_mult)
  have d: "decode b = (case recover_x (?v mod 2 ^ 255) (?v div 2 ^ 255) of None \<Rightarrow> None
      | Some x \<Rightarrow> Some (x, ?v mod 2 ^ 255, 1, x * (?v mod 2 ^ 255) mod ED_P))"
    unfolding decode_def Let_def m drop_bit_eq_div using l by simp
  obtain x where x: "recover_x (?v mod 2 ^ 255) (?v div 2 ^ 255) = Some x"
    and pt: "pt = (x, ?v mod 2 ^ 255, 1, x * (?v mod 2 ^ 255) mod ED_P)"
    using assms d by (auto split: option.splits)
  have "?v div 2 ^ 255 = 0 \<or> ?v div 2 ^ 255 = 1" using v by auto
  from recover_x_props [OF x this] have p: "?v mod 2 ^ 255 < ED_P" "0 \<le> x" "x < ED_P" "x AND 1 = ?v div 2 ^ 255"
    by blast+
  have e: "?v = ?v mod 2 ^ 255 + push_bit 255 (?v div 2 ^ 255)"
    by (simp only: push_bit_eq_mult mod_div_mult_eq)
  have "0 \<le> ?v mod 2 ^ 255" by simp
  with p e l pt show ?thesis by blast
qed

lemma encode_decode:
  assumes "decode b = Some pt" shows "encode pt = b"
proof -
  from decode_props [OF assms] obtain x y sg where p: "pt = (x, y, 1, x * y mod ED_P)" "length b = 32"
    "0 \<le> x" "x < ED_P" "0 \<le> y" "y < ED_P" and sg: "x AND 1 = sg" "int (le_val b) = y + push_bit 255 sg" by blast
  have zi: "powmod 1 (nat (ED_P - 2)) ED_P = 1" using ED_P_facts(2) by (simp add: powmod_eq)
  have y: "take_bit 255 y = y" using p(5,6) ED_P_facts(3) by (simp add: take_bit_int_eq_self_iff)
  have "y OR push_bit 255 sg = concat_bit 255 y sg"
    by (simp add: concat_bit_def y)
  also have "\<dots> = y + push_bit 255 sg" by (simp add: concat_bit_eq y)
  finally have "nat (y OR push_bit 255 sg) = le_val b" using sg(2) by linarith
  moreover have "encode pt = le_bytes 32 (nat (y OR push_bit 255 sg))"
    using p(3,4,5,6) unfolding encode_def p(1) by (simp only: prod.case zi Let_def mult_1_right mod_pos_pos_trivial sg(1))
  ultimately show ?thesis using le_bytes_le_val [OF p(2)] by simp
qed

lemma length_encode [simp]: "length (encode pt) = 32"
  by (cases pt) (simp add: encode_def Let_def)

subsection \<open>The neutral key\<close>

definition neutral :: bytes where "neutral = le_bytes 32 1"

definition neutral_sig :: bytes where "neutral_sig = neutral @ le_bytes 32 0"

fun neutral_like :: "point \<Rightarrow> bool" where
  "neutral_like (x, y, z, t) \<longleftrightarrow> ED_P dvd x \<and> ED_P dvd t \<and> y mod ED_P = z mod ED_P"

lemma mod_shift:
  fixes m :: int
  assumes "x mod m = 0" shows "(y - x) mod m = y mod m" "(y + x) mod m = y mod m"
  using assms by (metis mod_diff_right_eq diff_zero, metis mod_add_right_eq add_0_right)

lemma neutral_like_add:
  assumes "neutral_like p" "neutral_like q" shows "neutral_like (ed_add p q)"
proof -
  obtain x1 y1 z1 t1 x2 y2 z2 t2 where p: "p = (x1, y1, z1, t1)" "q = (x2, y2, z2, t2)"
    by (cases p, cases q) auto
  have x: "x1 mod ED_P = 0" "x2 mod ED_P = 0" "t1 mod ED_P = 0" "t2 mod ED_P = 0"
    and y: "y1 mod ED_P = z1 mod ED_P" "y2 mod ED_P = z2 mod ED_P"
    using assms p by (auto simp: dvd_eq_mod_eq_0)
  define A B C D where "A = (y1 - x1) * (y2 - x2) mod ED_P" and "B = (y1 + x1) * (y2 + x2) mod ED_P"
    and "C = 2 * t1 * t2 * ED_D mod ED_P" and "D = 2 * z1 * z2 mod ED_P"
  have "(y1 - x1) mod ED_P = z1 mod ED_P" "(y2 - x2) mod ED_P = z2 mod ED_P"
    "(y1 + x1) mod ED_P = z1 mod ED_P" "(y2 + x2) mod ED_P = z2 mod ED_P"
    using mod_shift [OF x(1), of y1] mod_shift [OF x(2), of y2] y by simp_all
  then have AB: "A = z1 * z2 mod ED_P" "B = z1 * z2 mod ED_P"
    unfolding A_def B_def by (auto intro: mod_mult_cong)
  have "t1 * t2 * ED_D mod ED_P = 0" using x(3) by (simp add: dvd_eq_mod_eq_0 [symmetric])
  then have C: "C = 0" unfolding C_def by (simp add: dvd_eq_mod_eq_0 [symmetric] mult.assoc)
  have two: "(A + A) mod ED_P = 2 * (z1 * z2) mod ED_P" "D mod ED_P = 2 * (z1 * z2) mod ED_P" "B = A"
    unfolding AB D_def by (simp_all add: mod_add_eq mod_mult_right_eq mult.assoc)
  have "(D + C) * (B + A) mod ED_P = (2 * (z1 * z2)) * (2 * (z1 * z2)) mod ED_P"
    "(D - C) * (D + C) mod ED_P = (2 * (z1 * z2)) * (2 * (z1 * z2)) mod ED_P"
    unfolding C two(3) add_0_right diff_zero by (rule mod_mult_cong; rule two)+
  moreover have "ed_add p q = ((B - A) * (D - C) mod ED_P, (D + C) * (B + A) mod ED_P,
      (D - C) * (D + C) mod ED_P, (B - A) * (B + A) mod ED_P)"
    by (simp add: ed_add_def p A_def B_def C_def D_def Let_def)
  ultimately show ?thesis by (simp add: AB)
qed

lemma neutral_like_mul: "neutral_like q \<Longrightarrow> neutral_like pt \<Longrightarrow> neutral_like (mul_loop s q pt)"
proof (induction s q pt rule: mul_loop.induct)
  case (1 s q pt)
  then show ?case
    by (cases "s > 0"; subst mul_loop.simps) (simp_all add: neutral_like_add)
qed

lemma decode_neutral: "decode neutral = Some (0, 1, 1, 0)"
proof -
  have v: "le_val neutral = 1" by (simp add: neutral_def le_val_le_bytes)
  have "(1 :: int) AND (push_bit 255 1 - 1) = 1" by (simp add: push_bit_eq_mult)
  moreover have "drop_bit 255 (1 :: int) = 0" by (simp add: drop_bit_eq_div)
  moreover have "recover_x 1 0 = Some 0" using ED_P_facts(2) by (simp add: recover_x_def Let_def)
  moreover have "length neutral = 32" by (simp add: neutral_def)
  ultimately show ?thesis using ED_P_facts(1) by (simp add: decode_def v Let_def del: push_bit_of_1)
qed

lemma verify_neutral: "verify neutral msg neutral_sig"
proof -
  have l: "length neutral = 32" "take 32 neutral_sig = neutral" "drop 32 neutral_sig = le_bytes 32 0"
    "length neutral_sig = 64" by (simp_all add: neutral_def neutral_sig_def)
  have z: "le_val (le_bytes 32 0) = 0" by (simp add: le_val_le_bytes)
  have m: "ed_mul 0 ED_B = (0, 1, 1, 0)" by (simp add: ed_mul_def mul_loop.simps)
  have nl: "neutral_like (0, 1, 1, 0)" by simp
  then have "neutral_like (ed_add (0, 1, 1, 0) (ed_mul k (0, 1, 1, 0)))" for k
    by (intro neutral_like_add) (simp_all add: ed_mul_def neutral_like_mul)
  moreover have "ed_eq (0, 1, 1, 0) p" if "neutral_like p" for p
    using that by (cases p) (auto simp: ed_eq_def dvd_eq_mod_eq_0 [symmetric] mod_eq_dvd_iff dvd_minus_iff
        dvd_diff_commute)
  ultimately show ?thesis
    using ED_P_facts(5) by (simp add: verify_def l z decode_neutral Let_def m)
qed

subsection \<open>The secret scalar\<close>

lemma clamp_first: "8 dvd ((n :: nat) AND 248)"
proof -
  have "take_bit 3 (248 :: nat) = 0" by (simp add: take_bit_eq_mod)
  then have "take_bit 3 (n AND 248) = 0" by (simp add: take_bit_and)
  then show ?thesis by (simp add: take_bit_eq_mod mod_eq_0_iff_dvd)
qed

lemma clamp_last: "64 \<le> ((n :: nat) AND 127) OR 64" "((n :: nat) AND 127) OR 64 < 128"
proof -
  have k: "n AND 127 = take_bit 7 n" using take_bit_eq_mask [of 7 n] by (simp add: mask_eq_exp_minus_1)
  have "take_bit 7 (64 :: nat) = 64" by (simp add: take_bit_eq_mod)
  then have "take_bit 7 (take_bit 7 n OR 64) = take_bit 7 n OR 64" by (simp add: take_bit_or)
  then have "take_bit 7 n OR 64 < 2 ^ 7" by (metis take_bit_nat_less_exp)
  then show "((n :: nat) AND 127) OR 64 < 128" by (simp add: k)
  have "bit (take_bit 7 n OR 64) 6"
    by (simp add: bit_or_iff) (simp add: bit_iff_odd)
  then have "odd ((take_bit 7 n OR 64) div 64)" by (simp add: bit_iff_odd)
  then have "(take_bit 7 n OR 64) div 64 \<noteq> 0" by (metis even_zero)
  then show "64 \<le> ((n :: nat) AND 127) OR 64" by (simp add: k div_eq_0_iff)
qed

lemma le_val_Cons: "le_val (c # b) = of_char c + 256 * le_val b"
  by (simp add: le_val_def)

lemma le_val_append: "le_val (a @ b) = le_val a + 256 ^ length a * le_val b"
  by (induction a) (simp_all add: le_val_Cons le_val_def [of "[]"] algebra_simps)

lemma clamp_shape:
  assumes "length h = 32"
  shows "\<exists>(a :: nat) m (z :: nat). clamp h = char_of a # m @ [char_of z] \<and> 8 dvd a \<and> a < 256 \<and> 64 \<le> z \<and> z < 128 \<and> length m = 30"
proof -
  let ?a = "(of_char (h ! 0) :: nat) AND 248"
  let ?z = "((of_char (h ! 31) :: nat) AND 127) OR 64"
  obtain c t where h: "h = c # t" "length t = 31" using assms by (cases h) auto
  then obtain m d where t: "t = m @ [d]" "length m = 30" by (cases t rule: rev_cases) auto
  have "take_bit 8 ?a = ?a" by (simp add: take_bit_and take_bit_nat_eq_self)
  then have a: "?a < 256" using take_bit_nat_less_exp [of 8 ?a] by simp
  have z: "((of_char d :: nat) AND 127) mod 256 = (of_char d :: nat) AND 127"
  proof -
    have "(of_char d :: nat) AND 127 = take_bit 7 (of_char d)"
      using take_bit_eq_mask [of 7 "of_char d :: nat"] by (simp add: mask_eq_exp_minus_1)
    then have "(of_char d :: nat) AND 127 < 2 ^ 7" by (metis take_bit_nat_less_exp)
    then show ?thesis by simp
  qed
  have "clamp h = char_of ?a # m @ [char_of ?z]"
    using t(2) by (simp add: clamp_def h t nth_append list_update_append z Let_def)
  moreover have "?z < 128" "64 \<le> ?z" by (rule clamp_last)+
  ultimately show ?thesis using clamp_first a t(2) by blast
qed

lemma secret_scalar_range:
  "8 dvd secret_scalar seed \<and> 2 ^ 254 \<le> secret_scalar seed \<and> secret_scalar seed < 2 ^ 255"
proof -
  obtain a z :: nat and m where c: "clamp (take 32 (sha512 seed)) = char_of a # m @ [char_of z]"
    and p: "8 dvd a" "a < 256" "64 \<le> z" "z < 128" "length m = 30"
    using clamp_shape [of "take 32 (sha512 seed)"] by auto
  have s: "secret_scalar seed = a + 256 * le_val m + 256 ^ 31 * z"
    using p by (simp add: secret_scalar_def c le_val_Cons le_val_append le_val_def [of "[]"])
  have m: "le_val m < 256 ^ 30" using le_val_less [of m] p(5) by simp
  have "8 dvd (256 :: nat) * le_val m" "8 dvd (256 :: nat) ^ 31 * z" by (simp_all add: dvd_mult2)
  with p(1) s have "8 dvd secret_scalar seed" by (simp add: dvd_add)
  moreover have "(256 :: nat) ^ 31 * 64 \<le> 256 ^ 31 * z" "256 ^ 31 * z \<le> (256 :: nat) ^ 31 * 127"
    using p(3,4) by simp_all
  moreover have "a + 256 * le_val m < 256 ^ 31" using m p(2) by simp
  ultimately show ?thesis unfolding s by simp
qed

subsection \<open>Properties\<close>

text \<open>
  C10. An accepted signature is canonical: \<open>verify\<close> returns True only for a 64-byte signature and a
  32-byte key whose two points decode and encode back to the very bytes presented, and whose
  scalar is below the group order, so neither half of a signature can be written another way.
\<close>

theorem verify_canonical:
  assumes "verify pub msg sig"
  shows "length sig = 64 \<and> length pub = 32 \<and> int (le_val (drop 32 sig)) < ED_L \<and>
    (\<exists>R. decode (take 32 sig) = Some R \<and> encode R = take 32 sig) \<and>
    (\<exists>A. decode pub = Some A \<and> encode A = pub)"
  using assms encode_decode
  by (auto simp: verify_def Let_def split: if_splits option.splits)

theorem verify_canonical_witness:
  "verify neutral ''m'' neutral_sig \<and> int (le_val (drop 32 neutral_sig)) < ED_L"
  using verify_canonical [OF verify_neutral [of "''m''"]] verify_neutral by blast

text \<open>
  A point has one accepted encoding: every byte string that decodes is the encoding of the point
  it decodes to, so two different strings never decode to the same point.
\<close>

theorem decode_one_encoding:
  assumes "decode b = Some pt"
  shows "encode pt = b \<and> (\<forall>b'. decode b' = Some pt \<longrightarrow> b' = b)"
  using encode_decode assms by metis

theorem decode_one_encoding_witness: "encode (0, 1, 1, 0) = neutral"
  using decode_one_encoding [OF decode_neutral] by blast

text \<open>
  C11. The curve arithmetic stays on the curve: the sum of two points that satisfy the curve equation
  and the extended-coordinate relation satisfies both, for doubling and unequal points alike, and
  so does every multiple the double-and-add loop computes.
\<close>

theorem arithmetic_on_curve:
  assumes "on_curve p" "on_curve q"
  shows "on_curve (ed_add p q) \<and> on_curve (ed_mul s p)"
  using assms ed_add_on_curve ed_mul_on_curve' by blast

theorem arithmetic_on_curve_witness:
  "on_curve (ed_add (0, 1, 1, 0) (0, ED_P - 1, 1, 0)) \<and> on_curve (ed_mul 5 (0, 1, 1, 0))"
proof -
  have "on_curve (0, 1, 1, 0)" by simp
  moreover have "on_curve (0, ED_P - 1, 1, 0)"
  proof -
    have "(ED_P - 1) * (ED_P - 1) - 1 = ED_P * (ED_P - 2)" by (simp add: algebra_simps)
    then show ?thesis by simp
  qed
  ultimately show ?thesis by (rule arithmetic_on_curve)
qed

text \<open>
  The neutral key is accepted: with the 32-byte encoding of the curve's neutral element as the
  public key, one fixed signature passes \<open>verify\<close> for every message.  Nothing in the verifier
  refuses such a key; the key itself has to be trusted.
\<close>

theorem neutral_key_accepts_all:
  "verify neutral msg neutral_sig"
  by (rule verify_neutral)

text \<open>
  Signing returns for every 32-byte seed and refuses every other, and what it returns has the
  shape \<open>verify\<close> demands: 64 bytes and a scalar below the group order; the secret scalar it uses is
  clamped: a multiple of eight with bit 254 set and nothing above it.
\<close>

theorem sign_shape:
  "((\<exists>sig. sign seed msg = Inr sig) \<longleftrightarrow> length seed = 32) \<and>
   (case sign seed msg of Inl e \<Rightarrow> e = Seed_length (length seed)
    | Inr sig \<Rightarrow> length sig = 64 \<and> int (le_val (drop 32 sig)) < ED_L) \<and>
   8 dvd secret_scalar seed \<and> 2 ^ 254 \<le> secret_scalar seed \<and> secret_scalar seed < 2 ^ 255"
proof -
  have l: "x mod nat ED_L < nat ED_L" for x using ED_P_facts(5) by simp
  have b: "nat ED_L < 256 ^ 32" using ED_P_facts(6) by (simp add: nat_less_iff)
  have "x mod nat ED_L mod 256 ^ 32 = x mod nat ED_L" for x
    using less_trans [OF l b] by (rule mod_less)
  moreover have "int (x mod nat ED_L) < ED_L" for x using l [of x] by (simp only: zless_nat_conj)
  ultimately  show ?thesis
    using secret_scalar_range by (simp add: sign_def Let_def le_val_le_bytes)
qed

text \<open>
  A seed is named once and is 32 bytes: \<open>read_seed\<close> accepts only a command line with exactly one
  of the three options, and what it returns is always a seed that signing accepts.
\<close>

theorem read_seed_sound:
  assumes "read_seed files a = Inr seed"
  shows "length seed = 32 \<and>
    of_bool (sa_seed_hex a \<noteq> []) + of_bool (sa_seed_file a \<noteq> []) + of_bool (sa_dev_seed a) = (1 :: nat)"
  using assms
  by (auto simp: read_seed_def Let_def sbind_Inr DEV_SEED_def split: if_splits option.splits)

theorem read_seed_sound_witness:
  "\<exists>seed. read_seed (\<lambda>_. None) \<lparr>sa_seed_hex = [], sa_seed_file = [], sa_dev_seed = True\<rparr> = Inr seed \<and>
     length seed = 32"
proof -
  have "read_seed (\<lambda>_. None) \<lparr>sa_seed_hex = [], sa_seed_file = [], sa_dev_seed = True\<rparr> = Inr DEV_SEED"
    by (simp add: read_seed_def)
  with read_seed_sound [OF this] show ?thesis by blast
qed

end
