(* ===== verification/MkFw2.thy ===== *)
theory MkFw2
  imports RlxSign RtkImage FlashGuard
begin

text \<open>
  \<open>tools/mkfw2.py\<close>: the signed container of the update chain.  A 96-byte header, a 64-byte signature
  of the header alone, the payload.  \<open>checks\<close> is the verifier, its rows in the order of the
  specification up to the first failure; \<open>build\<close> makes a container and refuses to emit one that the
  verifier rejects or the stock loader would boot.  Header fields are Python integers.
\<close>

subsection \<open>The format\<close>

definition MAGIC :: int where "MAGIC = 0x524C5855"
definition FORMAT :: int where "FORMAT = 2"
definition HEADER_LEN :: nat where "HEADER_LEN = 96"
definition SIG_LEN :: nat where "SIG_LEN = 64"
definition BODY :: nat where "BODY = HEADER_LEN + SIG_LEN"
definition MAX_PAYLOAD :: int where "MAX_PAYLOAD = 0x00300000"
definition VERSION_MIN :: int where "VERSION_MIN = 1"
definition VERSION_MAX :: int where "VERSION_MAX = 0xFFFFFFFE"
definition KNOWN_FLAGS :: int where "KNOWN_FLAGS = 0"
definition FLASH_NONE :: int where "FLASH_NONE = 0xFFFFFFFF"
definition RESV_OFF :: nat where "RESV_OFF = 72"
definition RESV_LEN :: nat where "RESV_LEN = 24"
definition FORM_NONE :: int where "FORM_NONE = 0"
definition FORM_WHOLE :: int where "FORM_WHOLE = 0x57484F4C"
definition FORM_PAYLOAD :: int where "FORM_PAYLOAD = 0x5041594C"

definition SCAN_CANDIDATES :: "int list" where
  "SCAN_CANDIDATES = [0x010000, 0x020000, 0x030000, 0x040000, 0x050000, 0x060000]"

definition MEM_LO :: int where "MEM_LO = 0x80000000"
definition MEM_HI :: int where "MEM_HI = 0x82000000"
definition RLXBOOT_LO :: int where "RLXBOOT_LO = 0x81800000"
definition RLXBOOT_HI :: int where "RLXBOOT_HI = 0x81900000"
definition STAGE_LO :: int where "STAGE_LO = 0x81000000"

definition AUTOEXEC_NAMES :: "string list" where "AUTOEXEC_NAMES = [''nfjrom'', ''boot.img'']"
definition CHECK_IMAGE_SIGS :: "bytes list" where "CHECK_IMAGE_SIGS = [''cs6c'', ''cr6c'']"
definition BURN_SIGS :: "bytes list" where
  "BURN_SIGS = [''boot'', ''sqsh'', ''w6cp'', ''jw6c'', ''cwmp'', ''ksap'', ''ALL1'', ''ALL2'']"

datatype pack_error = Digest_length nat | Recipe_length nat | Out_of_range int

definition field :: "nat \<Rightarrow> int \<Rightarrow> pack_error + bytes" where
  "field k v = (if 0 \<le> v \<and> v < 256 ^ k then Inr (be_bytes k (nat v)) else Inl (Out_of_range v))"

fun pack_fields :: "(nat \<times> int) list \<Rightarrow> pack_error + bytes" where
  "pack_fields [] = Inr []"
| "pack_fields ((k, v) # r) = sbind (field k v) (\<lambda>a. sbind (pack_fields r) (\<lambda>b. Inr (a @ b)))"

text \<open>A field outside its width is a \<open>struct.error\<close>; the two lengths are a \<open>ValueError\<close>.\<close>

definition pack_header ::
    "int \<Rightarrow> int \<Rightarrow> int \<Rightarrow> int \<Rightarrow> int \<Rightarrow> bytes \<Rightarrow> bytes \<Rightarrow> int \<Rightarrow> int \<Rightarrow> pack_error + bytes" where
  "pack_header version payload_len load_addr entry_addr flags digest recipe_id flash_at flash_form =
     (if length digest \<noteq> 32 then Inl (Digest_length (length digest))
      else if length recipe_id \<noteq> 4 then Inl (Recipe_length (length recipe_id))
      else sbind (pack_fields [(4, MAGIC), (2, FORMAT), (2, int HEADER_LEN), (4, version), (4, payload_len),
                          (4, load_addr), (4, entry_addr), (4, flags)]) (\<lambda>a.
           sbind (pack_fields [(4, flash_at), (4, flash_form)]) (\<lambda>b.
             Inr (a @ digest @ recipe_id @ b @ replicate RESV_LEN (char_of (0 :: nat))))))"

record header =
  hd_magic :: int
  hd_format :: int
  hd_header_len :: int
  hd_version :: int
  hd_payload_len :: int
  hd_load_addr :: int
  hd_entry_addr :: int
  hd_flags :: int
  hd_digest :: bytes
  hd_recipe_id :: bytes
  hd_flash_at :: int
  hd_flash_form :: int
  hd_reserved :: bytes

definition num :: "bytes \<Rightarrow> nat \<Rightarrow> nat \<Rightarrow> int" where
  "num h i k = int (be_val (slice h i (i + k)))"

text \<open>Applied to 96 bytes; fewer than 72 would be a \<open>struct.error\<close>, which no caller reaches.\<close>

definition unpack_header :: "bytes \<Rightarrow> header" where
  "unpack_header h =
     \<lparr>hd_magic = num h 0 4, hd_format = num h 4 2, hd_header_len = num h 6 2, hd_version = num h 8 4,
      hd_payload_len = num h 12 4, hd_load_addr = num h 16 4, hd_entry_addr = num h 20 4,
      hd_flags = num h 24 4, hd_digest = slice h 28 60, hd_recipe_id = slice h 60 64,
      hd_flash_at = num h 64 4, hd_flash_form = num h 68 4, hd_reserved = slice h RESV_OFF HEADER_LEN\<rparr>"

definition landing_len :: "int \<Rightarrow> int \<Rightarrow> int \<Rightarrow> int option" where
  "landing_len flash_at form payload_len =
     (if flash_at = FLASH_NONE then (if form = FORM_NONE then Some 0 else None)
      else if form = FORM_WHOLE then Some (int BODY + payload_len)
      else if form = FORM_PAYLOAD then Some payload_len
      else None)"

definition landing :: "bytes \<Rightarrow> int option \<times> int option \<times> int \<times> bytes" where
  "landing blob =
     (let f = unpack_header (take HEADER_LEN blob);
          n = landing_len (hd_flash_at f) (hd_flash_form f) (hd_payload_len f) in
      if hd_flash_at f = FLASH_NONE \<or> n = None then (None, n, hd_flash_form f, [])
      else (Some (hd_flash_at f), n, hd_flash_form f,
            if hd_flash_form f = FORM_WHOLE then take 4 blob else slice blob BODY (BODY + 4)))"

text \<open>
  \<open>landing_lines\<close>: what is reported of a landing, its base and length, its first four bytes, whether
  the loader scans the base, and whether it recognises a header there.
\<close>

definition landing_lines :: "bytes \<Rightarrow> (int \<times> int option \<times> bytes \<times> bool \<times> bool) option" where
  "landing_lines blob =
     (case landing blob of (None, n, form, first) \<Rightarrow> None
      | (Some base, n, form, first) \<Rightarrow>
          Some (base, n, first, base \<in> set SCAN_CANDIDATES,
                first \<in> set CHECK_IMAGE_SIGS \<or> first \<in> set BURN_SIGS))"

subsection \<open>The verifier\<close>

type_synonym row = "nat \<times> string \<times> bool"

fun until_fail :: "row list \<Rightarrow> row list" where
  "until_fail [] = []"
| "until_fail ((n, name, ok) # r) = (n, name, ok) # (if ok then until_fail r else [])"

definition flash_dst_ok :: "header \<Rightarrow> bool" where
  "flash_dst_ok f =
     (hd_flash_at f = FLASH_NONE \<or>
      (case landing_len (hd_flash_at f) (hd_flash_form f) (hd_payload_len f) of
         None \<Rightarrow> False
       | Some n \<Rightarrow> check_unrecoverable (hd_flash_at f) n = Inr None))"

definition flash_match_ok :: "header \<Rightarrow> int option \<Rightarrow> int option \<Rightarrow> bool" where
  "flash_match_ok f write_at write_form =
     (case write_at of None \<Rightarrow> True
      | Some w \<Rightarrow> hd_flash_at f = w \<and>
                  hd_flash_form f = (case write_form of None \<Rightarrow> FORM_NONE | Some form \<Rightarrow> form))"

text \<open>
  The bounds of step 2, then the signature over the header bytes, then the digest of the payload,
  then the counter.
\<close>

definition steps2 :: "bytes \<Rightarrow> int option \<Rightarrow> int option \<Rightarrow> row list" where
  "steps2 blob write_at write_form =
     (let f = unpack_header (take HEADER_LEN blob); plen = hd_payload_len f;
          load = hd_load_addr f; end = load + plen; stage_end = STAGE_LO + int (length blob) in
      [(1, ''magic'', hd_magic f = MAGIC),
       (1, ''format'', hd_format f = FORMAT),
       (1, ''header_len'', hd_header_len f = int HEADER_LEN),
       (2, ''reserved'', hd_reserved f = replicate RESV_LEN (char_of (0 :: nat))),
       (2, ''flags'', hd_flags f AND NOT KNOWN_FLAGS = 0),
       (2, ''version'', VERSION_MIN \<le> hd_version f \<and> hd_version f \<le> VERSION_MAX),
       (2, ''payload_len'', 0 < plen \<and> plen \<le> MAX_PAYLOAD),
       (2, ''container_len'', int (length blob) = int BODY + plen),
       (2, ''flash_form'', landing_len (hd_flash_at f) (hd_flash_form f) plen \<noteq> None),
       (2, ''flash_dst'', flash_dst_ok f),
       (2, ''flash_match'', flash_match_ok f write_at write_form),
       (2, ''load_addr_in_ram'', MEM_LO \<le> load \<and> end \<le> MEM_HI),
       (2, ''no_overlap_rlxboot'', \<not> (load < RLXBOOT_HI \<and> end > RLXBOOT_LO)),
       (2, ''no_overlap_container'', \<not> (load < stage_end \<and> end > STAGE_LO)),
       (2, ''entry_in_payload'', load \<le> hd_entry_addr f \<and> hd_entry_addr f < end)])"

definition checks :: "bytes \<Rightarrow> bytes \<Rightarrow> int \<Rightarrow> int option \<Rightarrow> int option \<Rightarrow> row list" where
  "checks blob pubkey counter write_at write_form =
     (if length blob < BODY then [(1, ''length'', False)]
      else let h = take HEADER_LEN blob; f = unpack_header h in
        until_fail (steps2 blob write_at write_form @
          [(3, ''signature'', verify pubkey h (slice blob HEADER_LEN BODY)),
           (4, ''payload_digest'', sha256 (slice blob BODY (BODY + nat (hd_payload_len f))) = hd_digest f),
           (5, ''version_vs_counter'', hd_version f \<ge> counter)]))"

definition accepted :: "row list \<Rightarrow> bool" where
  "accepted rows = list_all (\<lambda>(n, name, ok). ok) rows"

subsection \<open>The stock loader\<close>

text \<open>
  The signature, then what \<open>check_image()\<close> would read: start, offset, length and the sum of the copy,
  None when the file is shorter than the copy.  A recognised signature with fewer than twelve bytes
  behind it is a \<open>struct.error\<close>.
\<close>

datatype stock = Not_an_image | Recognised nat nat nat "16 word option" | Short_stock_header

definition stock_loader_verdict :: "bytes \<Rightarrow> stock" where
  "stock_loader_verdict blob =
     (let sig = take 4 blob in
      if sig \<notin> set CHECK_IMAGE_SIGS \<and> sig \<notin> set BURN_SIGS then Not_an_image
      else case (be_at 4 blob 4, be_at 4 blob 8, be_at 4 blob 12) of
        (Some start, Some flashoff, Some len) \<Rightarrow>
          Recognised start flashoff len
            (if length blob \<ge> 16 + len then Some (sum16 (slice blob 16 (16 + len))) else None)
      | _ \<Rightarrow> Short_stock_header)"

subsection \<open>\<open>build\<close>\<close>

definition basename :: "string \<Rightarrow> string" where
  "basename path = last (split_on (CHR ''/'') path)"

definition lower :: "string \<Rightarrow> string" where
  "lower s = map (\<lambda>c. if is_upper c then char_of ((of_char c :: nat) + 32) else c) s"

text \<open>The two names are ASCII, so lowering the other letters of the name cannot matter.\<close>

definition guard_output_name :: "string \<Rightarrow> string option" where
  "guard_output_name path =
     (if lower (basename path) \<in> set AUTOEXEC_NAMES then Some (basename path) else None)"

datatype dest_refusal = Dest_input guard_error | Dest_refused int int refusal

text \<open>
  \<open>licence_grant\<close> raises only where \<open>check_licensed\<close> has raised before it, and that is the first case.
\<close>

definition guard_destination ::
    "int option \<Rightarrow> int \<Rightarrow> string option \<Rightarrow> string option \<Rightarrow> dest_refusal + (string \<times> string) option" where
  "guard_destination flash_at nbytes licence digest_hex =
     (case flash_at of None \<Rightarrow> Inr None
      | Some at \<Rightarrow>
         (case check_licensed at nbytes licence digest_hex of
            Inl e \<Rightarrow> Inl (Dest_input e)
          | Inr (Some r) \<Rightarrow> Inl (Dest_refused at nbytes r)
          | Inr None \<Rightarrow>
             (case digest_hex of None \<Rightarrow> Inr None
              | Some d \<Rightarrow> map_err Dest_input (licence_grant at nbytes licence d))))"

datatype build_error =
    Pack pack_error | Bad_seed seed_error | Own_verify nat string | Loader_would_boot | Stock_traceback

definition first_bad :: "row list \<Rightarrow> (nat \<times> string) option" where
  "first_bad rows = (case filter (\<lambda>(n, name, ok). \<not> ok) rows of
     [] \<Rightarrow> None | (n, name, ok) # r \<Rightarrow> Some (n, name))"

text \<open>
  \<open>build\<close> for any signer: \<open>signer\<close> and \<open>pub_of\<close> are \<open>rlxsign.sign\<close> and \<open>rlxsign.secret_to_public\<close>
  in the program.
\<close>

definition build_with ::
    "(bytes \<Rightarrow> bytes \<Rightarrow> seed_error + bytes) \<Rightarrow> (bytes \<Rightarrow> seed_error + bytes) \<Rightarrow>
     bytes \<Rightarrow> int \<Rightarrow> int \<Rightarrow> int \<Rightarrow> bytes \<Rightarrow> bytes \<Rightarrow> int \<Rightarrow> int \<Rightarrow> int \<Rightarrow> build_error + bytes" where
  "build_with signer pub_of payload version load_addr entry_addr recipe_id seed flash_at flash_form flags =
     sbind (map_err Pack (pack_header version (int (length payload)) load_addr entry_addr flags
              (sha256 payload) recipe_id flash_at flash_form)) (\<lambda>header.
     sbind (map_err Bad_seed (signer seed header)) (\<lambda>sig.
     sbind (map_err Bad_seed (pub_of seed)) (\<lambda>pub.
       let blob = header @ sig @ payload in
       case first_bad (checks blob pub 0 None None) of
         Some (n, name) \<Rightarrow> Inl (Own_verify n name)
       | None \<Rightarrow>
          (case stock_loader_verdict blob of
             Not_an_image \<Rightarrow> Inr blob
           | Recognised _ _ _ _ \<Rightarrow> Inl Loader_would_boot
           | Short_stock_header \<Rightarrow> Inl Stock_traceback))))"

definition build :: "bytes \<Rightarrow> int \<Rightarrow> int \<Rightarrow> int \<Rightarrow> bytes \<Rightarrow> bytes \<Rightarrow> int \<Rightarrow> int \<Rightarrow> int \<Rightarrow> build_error + bytes" where
  "build = build_with sign secret_to_public"

datatype recipe_error = Recipe_not_hex string | Recipe_bytes nat

definition parse_recipe :: "string \<Rightarrow> recipe_error + bytes" where
  "parse_recipe s =
     (let t = join [] (split_seq ''0x'' (lower (strip s))) in
      case fromhex t of None \<Rightarrow> Inl (Recipe_not_hex s)
      | Some b \<Rightarrow> if length b \<noteq> 4 then Inl (Recipe_bytes (length b)) else Inr b)"

subsection \<open>The commands\<close>

record build_args =
  ba_payload :: string
  ba_out :: string
  ba_version :: int
  ba_load_addr :: int
  ba_entry_addr :: int
  ba_recipe_id :: string
  ba_flags :: int
  ba_flash_at :: "int option"
  ba_flash_form :: "string option"
  ba_not_for_flash :: bool
  ba_owner_yes :: string
  ba_seed :: seed_args

datatype build_die =
    Not_exactly_one | Needs_form | Form_without_at | No_payload string | Autoexec_name string
  | Empty_payload string | Payload_too_long nat | No_licence_file string | Disagreeing int int
  | Destination dest_refusal | Recipe recipe_error | Seed_refused sign_refusal

text \<open>
  What \<open>cmd_build\<close> does: one line and a status, a \<open>ValueError\<close> of \<open>build\<close> reported with status 1, an
  exception that is not caught, or the container written to \<open>--out\<close>, the digest of its payload, the
  length that lands and the licence row used.
\<close>

datatype build_result =
    Die build_die int
  | Build_refused build_error
  | Uncaught build_error
  | Built string bytes string int "(string \<times> string) option"

definition form_word :: "string \<Rightarrow> int" where
  "form_word s = (if s = ''whole'' then FORM_WHOLE else if s = ''payload'' then FORM_PAYLOAD else FORM_NONE)"

definition is_value_error :: "build_error \<Rightarrow> bool" where
  "is_value_error e = (case e of Pack (Out_of_range v) \<Rightarrow> False | Stock_traceback \<Rightarrow> False | _ \<Rightarrow> True)"

definition landing_of :: "build_args \<Rightarrow> nat \<Rightarrow> int \<times> int \<times> int option" where
  "landing_of a plen =
     (let fa = (case ba_flash_at a of None \<Rightarrow> FLASH_NONE | Some x \<Rightarrow> x);
          fo = (case ba_flash_form a of None \<Rightarrow> FORM_NONE | Some w \<Rightarrow> form_word w)
      in (fa, fo, landing_len fa fo (int plen)))"

definition build_inputs ::
    "(string \<Rightarrow> bytes option) \<Rightarrow> build_args \<Rightarrow> build_die + bytes" where
  "build_inputs files a =
     (if (ba_flash_at a = None) = (\<not> ba_not_for_flash a) then Inl Not_exactly_one
      else if ba_flash_at a \<noteq> None \<and> (ba_flash_form a = None \<or> ba_flash_form a = Some []) then Inl Needs_form
      else if ba_flash_at a = None \<and> ba_flash_form a \<noteq> None \<and> ba_flash_form a \<noteq> Some [] then Inl Form_without_at
      else case files (ba_payload a) of None \<Rightarrow> Inl (No_payload (ba_payload a))
      | Some payload \<Rightarrow>
         (case guard_output_name (ba_out a) of Some n \<Rightarrow> Inl (Autoexec_name n)
          | None \<Rightarrow>
             (if payload = [] then Inl (Empty_payload (ba_payload a))
              else if int (length payload) > MAX_PAYLOAD then Inl (Payload_too_long (length payload))
              else Inr payload)))"

definition cmd_build_with ::
    "(bytes \<Rightarrow> bytes \<Rightarrow> seed_error + bytes) \<Rightarrow> (bytes \<Rightarrow> seed_error + bytes) \<Rightarrow> (bytes \<Rightarrow> string) \<Rightarrow>
     (string \<Rightarrow> bytes option) \<Rightarrow> build_args \<Rightarrow> build_result" where
  "cmd_build_with signer pub_of decode_text files a =
     (case build_inputs files a of Inl d \<Rightarrow> Die d 3
      | Inr payload \<Rightarrow>
        (let pay_sha = hex_of (sha256 payload) in
         if ba_owner_yes a \<noteq> [] \<and> files (ba_owner_yes a) = None then Die (No_licence_file (ba_owner_yes a)) 3
         else let lic = (if ba_owner_yes a = [] then None else map_option decode_text (files (ba_owner_yes a)));
                  (fa, fo, nl) = landing_of a (length payload) in
           case nl of None \<Rightarrow> Die (Disagreeing fa fo) 3
           | Some nland \<Rightarrow>
             (case guard_destination (ba_flash_at a) nland lic (Some pay_sha) of
                Inl d \<Rightarrow> Die (Destination d) 3
              | Inr grant \<Rightarrow>
                (case parse_recipe (ba_recipe_id a) of Inl e \<Rightarrow> Die (Recipe e) 3
                 | Inr recipe \<Rightarrow>
                   (case read_seed files (ba_seed a) of Inl e \<Rightarrow> Die (Seed_refused e) 2
                    | Inr seed \<Rightarrow>
                      (case build_with signer pub_of payload (ba_version a) (ba_load_addr a) (ba_entry_addr a)
                              recipe seed fa fo (ba_flags a) of
                         Inl e \<Rightarrow> if is_value_error e then Build_refused e else Uncaught e
                       | Inr blob \<Rightarrow> Built (ba_out a) blob pay_sha nland grant))))))"

definition cmd_build ::
    "(bytes \<Rightarrow> string) \<Rightarrow> (string \<Rightarrow> bytes option) \<Rightarrow> build_args \<Rightarrow> build_result" where
  "cmd_build = cmd_build_with sign secret_to_public"

record verify_args =
  va_container :: string
  va_pubkey_hex :: string
  va_counter :: int
  va_write_at :: "int option"
  va_write_form :: "string option"
  va_stock_loader :: bool
  va_seed :: seed_args

datatype verify_die =
    No_container string | Key_not_hex | Key_length nat | Key_seed sign_refusal | Form_without_write

text \<open>
  The rows printed, the stock loader's verdict when asked for, and the status; None in the place of
  the status is the \<open>struct.error\<close> of a short file with a recognised signature.
\<close>

definition fw_verify ::
    "(string \<Rightarrow> bytes option) \<Rightarrow> verify_args \<Rightarrow> verify_die + row list \<times> stock option \<times> int option" where
  "fw_verify files a =
     (case files (va_container a) of None \<Rightarrow> Inl (No_container (va_container a))
      | Some blob \<Rightarrow>
        sbind (if va_pubkey_hex a \<noteq> [] then
                 sbind (or_err Key_not_hex (fromhex (strip (va_pubkey_hex a)))) (\<lambda>pub.
                   if length pub \<noteq> 32 then Inl (Key_length (length pub)) else Inr pub)
               else sbind (map_err Key_seed (read_seed files (va_seed a))) (\<lambda>seed.
                   map_err (\<lambda>e. Key_seed (Seed_value e)) (secret_to_public seed))) (\<lambda>pub.
        if va_write_at a = None \<and> va_write_form a \<noteq> None \<and> va_write_form a \<noteq> Some []
        then Inl Form_without_write
        else let rows = checks blob pub (va_counter a) (va_write_at a) (map_option form_word (va_write_form a));
                 bad = \<not> accepted rows;
                 st = (if va_stock_loader a then Some (stock_loader_verdict blob) else None) in
          Inr (rows, st,
               (case st of None \<Rightarrow> Some (if bad then 1 else 0)
                | Some Not_an_image \<Rightarrow> Some (if bad then 1 else 0)
                | Some (Recognised _ _ _ _) \<Rightarrow> Some 1
                | Some Short_stock_header \<Rightarrow> None))))"

subsection \<open>Packing and unpacking\<close>

lemma field_Inr: "field k v = Inr b \<longleftrightarrow> 0 \<le> v \<and> v < 256 ^ k \<and> b = be_bytes k (nat v)"
  by (auto simp: field_def)

lemma fields_Inr:
  "pack_fields ((k, v) # r) = Inr b \<longleftrightarrow>
     (\<exists>b'. 0 \<le> v \<and> v < 256 ^ k \<and> pack_fields r = Inr b' \<and> b = be_bytes k (nat v) @ b')"
  by (auto simp: sbind_Inr field_Inr)

lemma be_at_field: "0 \<le> v \<Longrightarrow> v < 256 ^ k \<Longrightarrow> be_at k (be_bytes k (nat v) @ r) 0 = Some (nat v)"
  by (simp add: be_at_here nat_less_iff)

lemma num_at: "be_at k h i = Some (nat v) \<Longrightarrow> 0 \<le> v \<Longrightarrow> num h i k = v"
  by (simp add: num_def be_at_val)

lemma pack_unpack:
  assumes "pack_header version plen load entry flags digest recipe fa fo = Inr h"
  shows "length h = HEADER_LEN" "unpack_header h =
    \<lparr>hd_magic = MAGIC, hd_format = FORMAT, hd_header_len = int HEADER_LEN, hd_version = version,
     hd_payload_len = plen, hd_load_addr = load, hd_entry_addr = entry, hd_flags = flags,
     hd_digest = digest, hd_recipe_id = recipe, hd_flash_at = fa, hd_flash_form = fo,
     hd_reserved = replicate RESV_LEN (char_of (0 :: nat))\<rparr>"
proof -
  have d: "length digest = 32" and r: "length recipe = 4"
    using assms by (auto simp: pack_header_def split: if_splits)
  obtain a b where a: "pack_fields [(4, MAGIC), (2, FORMAT), (2, int HEADER_LEN), (4, version), (4, plen),
       (4, load), (4, entry), (4, flags)] = Inr a"
    and b: "pack_fields [(4, fa), (4, fo)] = Inr b"
    and h: "h = a @ digest @ recipe @ b @ replicate RESV_LEN (char_of (0 :: nat))"
    using assms d r by (auto simp: pack_header_def sbind_Inr simp del: pack_fields.simps)
  define Z where "Z = replicate RESV_LEN (char_of (0 :: nat))"
  have lz: "length Z = 24" by (simp add: Z_def RESV_LEN_def)
  define M F HL where "M = MAGIC" and "F = FORMAT" and "HL = int HEADER_LEN"
  have ab: "0 \<le> M \<and> M < 256 ^ 4" "0 \<le> F \<and> F < 256 ^ 2" "0 \<le> HL \<and> HL < 256 ^ 2" "0 \<le> version \<and> version < 256 ^ 4"
    "0 \<le> plen \<and> plen < 256 ^ 4" "0 \<le> load \<and> load < 256 ^ 4" "0 \<le> entry \<and> entry < 256 ^ 4" "0 \<le> flags \<and> flags < 256 ^ 4"
    "0 \<le> fa \<and> fa < 256 ^ 4" "0 \<le> fo \<and> fo < 256 ^ 4"
    and ha: "h = be_bytes 4 (nat M) @ be_bytes 2 (nat F) @ be_bytes 2 (nat HL) @ be_bytes 4 (nat version)
      @ be_bytes 4 (nat plen) @ be_bytes 4 (nat load) @ be_bytes 4 (nat entry) @ be_bytes 4 (nat flags)
      @ digest @ recipe @ be_bytes 4 (nat fa) @ be_bytes 4 (nat fo) @ Z"
    using a b h by (auto simp: fields_Inr Z_def M_def F_def HL_def simp del: pack_fields.simps(2))
  show "length h = HEADER_LEN" by (simp add: ha d r lz HEADER_LEN_def)
  have n: "num h 0 4 = M" "num h 4 2 = F" "num h 6 2 = HL" "num h 8 4 = version" "num h 12 4 = plen"
    "num h 16 4 = load" "num h 20 4 = entry" "num h 24 4 = flags" "num h 64 4 = fa" "num h 68 4 = fo"
    unfolding ha by (rule num_at; use ab d r in \<open>simp add: be_at_skip be_at_field\<close>)+
  have s: "slice h 28 60 = digest" "slice h 60 64 = recipe" "slice h 72 96 = Z"
    unfolding ha by (simp_all add: slice_skip slice_here d r) (simp add: slice_def lz)
  show "unpack_header h =
    \<lparr>hd_magic = MAGIC, hd_format = FORMAT, hd_header_len = int HEADER_LEN, hd_version = version,
     hd_payload_len = plen, hd_load_addr = load, hd_entry_addr = entry, hd_flags = flags,
     hd_digest = digest, hd_recipe_id = recipe, hd_flash_at = fa, hd_flash_form = fo,
     hd_reserved = replicate RESV_LEN (char_of (0 :: nat))\<rparr>"
    by (simp add: unpack_header_def n s RESV_OFF_def HEADER_LEN_def Z_def [symmetric] M_def [symmetric]
        F_def [symmetric]) (simp add: HL_def HEADER_LEN_def)
qed

lemma pack_header_Inr:
  assumes "length digest = 32" "length recipe = 4"
    and "list_all (\<lambda>v. 0 \<le> v \<and> v < 2 ^ 32) [version, plen, load, entry, flags, fa, fo]"
  shows "\<exists>h. pack_header version plen load entry flags digest recipe fa fo = Inr h"
proof -
  have "field 4 v = Inr (be_bytes 4 (nat v))" if "0 \<le> v \<and> v < 2 ^ 32" for v
    using that by (simp add: field_def)
  then show ?thesis
    using assms by (simp add: pack_header_def field_def MAGIC_def FORMAT_def HEADER_LEN_def)
qed

subsection \<open>What the verifier accepts\<close>

lemma until_fail_all: "accepted (until_fail rows) = list_all (\<lambda>(n, name, ok). ok) rows"
  by (induction rows rule: until_fail.induct) (auto simp: accepted_def)

lemma until_fail_append:
  "until_fail (xs @ ys) = (if accepted xs then xs @ until_fail ys else until_fail xs)"
  by (induction xs rule: until_fail.induct) (auto simp: accepted_def)

definition span :: "int \<Rightarrow> int \<Rightarrow> int set" where "span lo n = {lo..<lo + n}"

text \<open>The specification of an accepted container, over sets of addresses.\<close>

definition header_ok :: "bytes \<Rightarrow> header \<Rightarrow> bool" where
  "header_ok blob f \<longleftrightarrow>
     hd_magic f = MAGIC \<and> hd_format f = FORMAT \<and> hd_header_len f = int HEADER_LEN \<and>
     hd_reserved f = replicate RESV_LEN (char_of (0 :: nat)) \<and> hd_flags f = 0 \<and>
     hd_version f \<in> {VERSION_MIN..VERSION_MAX} \<and> hd_payload_len f \<in> {1..MAX_PAYLOAD} \<and>
     int (length blob) = int BODY + hd_payload_len f"

definition memory_safe :: "bytes \<Rightarrow> header \<Rightarrow> bool" where
  "memory_safe blob f \<longleftrightarrow>
     (let target = span (hd_load_addr f) (hd_payload_len f) in
      target \<subseteq> {MEM_LO..<MEM_HI} \<and> target \<inter> {RLXBOOT_LO..<RLXBOOT_HI} = {} \<and>
      target \<inter> span STAGE_LO (int (length blob)) = {} \<and> hd_entry_addr f \<in> target)"

definition flash_safe :: "header \<Rightarrow> bool" where
  "flash_safe f \<longleftrightarrow>
     (\<exists>n. landing_len (hd_flash_at f) (hd_flash_form f) (hd_payload_len f) = Some n \<and>
          (hd_flash_at f \<noteq> FLASH_NONE \<longrightarrow> 0 < n \<and> 0 \<le> hd_flash_at f \<and> span (hd_flash_at f) n \<inter> UNREC_SET = {}))"

definition authentic :: "bytes \<Rightarrow> bytes \<Rightarrow> header \<Rightarrow> bool" where
  "authentic blob pub f \<longleftrightarrow>
     verify pub (take HEADER_LEN blob) (slice blob HEADER_LEN BODY) \<and> sha256 (drop BODY blob) = hd_digest f"

lemma span_disjoint: "0 < n \<Longrightarrow> 0 < m \<Longrightarrow> span a n \<inter> span b m = {} \<longleftrightarrow> \<not> (a < b + m \<and> a + n > b)"
  by (auto simp: span_def int_disjoint)

lemma flash_dst_iff: "flash_dst_ok f \<and> landing_len (hd_flash_at f) (hd_flash_form f) (hd_payload_len f) \<noteq> None \<longleftrightarrow>
     flash_safe f"
  by (auto simp: flash_dst_ok_def flash_safe_def unrec.permits span_def split: option.splits)

lemma memory_iff:
  assumes "0 < hd_payload_len f" "blob \<noteq> []"
  shows "memory_safe blob f \<longleftrightarrow>
    (let load = hd_load_addr f; end = load + hd_payload_len f; stage_end = STAGE_LO + int (length blob) in
     (MEM_LO \<le> load \<and> end \<le> MEM_HI) \<and> \<not> (load < RLXBOOT_HI \<and> end > RLXBOOT_LO) \<and>
     \<not> (load < stage_end \<and> end > STAGE_LO) \<and> load \<le> hd_entry_addr f \<and> hd_entry_addr f < end)"
proof -
  have r: "{RLXBOOT_LO..<RLXBOOT_HI} = span RLXBOOT_LO 0x100000"
    by (simp add: span_def RLXBOOT_LO_def RLXBOOT_HI_def)
  have e: "RLXBOOT_LO + 0x100000 = RLXBOOT_HI" by (simp add: RLXBOOT_LO_def RLXBOOT_HI_def)
  have s: "span a n \<subseteq> {b..<c} \<longleftrightarrow> b \<le> a \<and> a + n \<le> c" if "0 < n" for a n b c :: int
    using that by (simp add: span_def ivl_subset)
  have m: "x \<in> span a n \<longleftrightarrow> a \<le> x \<and> x < a + n" for x a n by (simp add: span_def)
  have z: "0 < (0x100000 :: int)" by simp
  have l: "0 < int (length blob)" using assms(2) by simp
  show ?thesis
    by (simp only: memory_safe_def Let_def r span_disjoint [OF assms(1) l] s [OF assms(1)] m
        span_disjoint [OF assms(1) z] e)
qed

lemma checks_iff:
  "accepted (checks blob pub counter w form) \<longleftrightarrow>
     BODY \<le> length blob \<and> accepted (steps2 blob w form) \<and>
     (let f = unpack_header (take HEADER_LEN blob) in
      verify pub (take HEADER_LEN blob) (slice blob HEADER_LEN BODY) \<and>
      sha256 (slice blob BODY (BODY + nat (hd_payload_len f))) = hd_digest f \<and> hd_version f \<ge> counter)"
  by (cases "length blob < BODY")
    (simp_all add: checks_def Let_def until_fail_all, simp_all add: accepted_def)

lemma steps2_iff:
  assumes "BODY \<le> length blob"
  shows "accepted (steps2 blob w form) \<longleftrightarrow>
    (let f = unpack_header (take HEADER_LEN blob) in
     header_ok blob f \<and> flash_safe f \<and> flash_match_ok f w form \<and> memory_safe blob f)"
proof -
  define f where "f = unpack_header (take HEADER_LEN blob)"
  have ne: "blob \<noteq> []" using assms by (auto simp: BODY_def HEADER_LEN_def)
  show ?thesis
  proof (cases "0 < hd_payload_len f")
    case True
    show ?thesis
      unfolding Let_def f_def [symmetric] memory_iff [OF True ne, unfolded Let_def]
        flash_dst_iff [symmetric] header_ok_def
      by (simp add: steps2_def Let_def f_def [symmetric] accepted_def KNOWN_FLAGS_def
          int_one_le_iff_zero_less) blast
  next
    case False
    then show ?thesis
      by (auto simp: steps2_def Let_def f_def [symmetric] accepted_def header_ok_def)
  qed
qed

lemma checks_spec:
  "accepted (checks blob pub counter w form) \<longleftrightarrow>
     (let f = unpack_header (take HEADER_LEN blob) in
      header_ok blob f \<and> memory_safe blob f \<and> flash_safe f \<and> flash_match_ok f w form \<and>
      authentic blob pub f \<and> counter \<le> hd_version f)"
proof (cases "BODY \<le> length blob")
  case True
  have "slice blob BODY (BODY + nat p) = drop BODY blob" if "int (length blob) = int BODY + p" for p
    using that by (simp add: slice_def)
  then show ?thesis
    using True by (auto simp: checks_iff steps2_iff Let_def authentic_def header_ok_def)
next
  case False
  then show ?thesis by (auto simp: checks_iff Let_def header_ok_def)
qed

subsection \<open>What \<open>build\<close> emits\<close>

definition signed_header ::
    "bytes \<Rightarrow> int \<Rightarrow> int \<Rightarrow> int \<Rightarrow> bytes \<Rightarrow> int \<Rightarrow> int \<Rightarrow> int \<Rightarrow> header" where
  "signed_header payload version load entry recipe fa fo flags =
    \<lparr>hd_magic = MAGIC, hd_format = FORMAT, hd_header_len = int HEADER_LEN, hd_version = version,
     hd_payload_len = int (length payload), hd_load_addr = load, hd_entry_addr = entry, hd_flags = flags,
     hd_digest = sha256 payload, hd_recipe_id = recipe, hd_flash_at = fa, hd_flash_form = fo,
     hd_reserved = replicate RESV_LEN (char_of (0 :: nat))\<rparr>"

definition buildable ::
    "bytes \<Rightarrow> int \<Rightarrow> int \<Rightarrow> int \<Rightarrow> bytes \<Rightarrow> int \<Rightarrow> int \<Rightarrow> int \<Rightarrow> bool" where
  "buildable payload version load entry recipe fa fo flags \<longleftrightarrow>
     (let f = signed_header payload version load entry recipe fa fo flags;
          blob = replicate BODY (char_of (0 :: nat)) @ payload in
      header_ok blob f \<and> memory_safe blob f \<and> flash_safe f \<and> length recipe = 4)"

lemma build_with_Inr:
  "build_with signer pub_of payload version load entry recipe seed fa fo flags = Inr blob \<longleftrightarrow>
     (\<exists>h sig pub. pack_header version (int (length payload)) load entry flags (sha256 payload) recipe fa fo = Inr h \<and>
        signer seed h = Inr sig \<and> pub_of seed = Inr pub \<and> blob = h @ sig @ payload \<and>
        accepted (checks blob pub 0 None None) \<and> stock_loader_verdict blob = Not_an_image)"
proof -
  have b: "first_bad rows = None \<longleftrightarrow> accepted rows" for rows
    by (induction rows) (auto simp: first_bad_def accepted_def split: list.splits if_splits)
  have m: "map_err g x = Inr y \<longleftrightarrow> x = Inr y" for g :: "'a \<Rightarrow> build_error" and x :: "'a + bytes" and y
    by (cases x) (auto simp: map_err_def)
  have c: "(case o1 of None \<Rightarrow> (case s of Not_an_image \<Rightarrow> Inr y | Recognised _ _ _ _ \<Rightarrow> Inl Loader_would_boot
        | Short_stock_header \<Rightarrow> Inl Stock_traceback) | Some (n, name) \<Rightarrow> Inl (Own_verify n name)) = Inr z \<longleftrightarrow>
      o1 = None \<and> s = Not_an_image \<and> y = z" for o1 s and y z :: bytes
    by (auto split: option.splits stock.splits)
  show ?thesis
    unfolding build_with_def sbind_Inr m Let_def c b by auto
qed

lemma header_ok_length: "header_ok blob f = header_ok blob' f" if "length blob = length blob'"
  using that by (simp add: header_ok_def)

lemma memory_safe_length: "memory_safe blob f = memory_safe blob' f" if "length blob = length blob'"
  using that by (simp add: memory_safe_def)

lemma packed_accepted:
  assumes "pack_header version (int (length payload)) load entry flags (sha256 payload) recipe fa fo = Inr h"
    and "length sig = SIG_LEN"
  shows "accepted (checks (h @ sig @ payload) pub 0 None None) \<longleftrightarrow>
    buildable payload version load entry recipe fa fo flags \<and> verify pub h sig"
proof -
  note u = pack_unpack [OF assms(1)]
  have b: "BODY = length h + length sig" using u(1) assms(2) by (simp add: BODY_def)
  have t: "take HEADER_LEN (h @ sig @ payload) = h" "slice (h @ sig @ payload) HEADER_LEN BODY = sig"
    "drop BODY (h @ sig @ payload) = payload"
    using u(1) b by (simp_all add: slice_def)
  have l: "length (replicate BODY nul @ payload) = length (h @ sig @ payload)" using b by simp
  have f: "unpack_header h = signed_header payload version load entry recipe fa fo flags"
    using u(2) by (simp add: signed_header_def)
  have r: "length recipe = 4" using assms(1) by (auto simp: pack_header_def split: if_splits)
  let ?f = "signed_header payload version load entry recipe fa fo flags"
  have s: "hd_version ?f = version" "hd_digest ?f = sha256 payload" by (simp_all add: signed_header_def)
  have v: "0 \<le> version" if "header_ok b ?f" for b
    using that by (simp add: header_ok_def VERSION_MIN_def s)
  show ?thesis
    unfolding checks_spec Let_def t(1) f buildable_def authentic_def t(2,3) s
      header_ok_length [OF l] memory_safe_length [OF l]
    using r v by (auto simp: flash_match_ok_def)
qed

lemma buildable_packs:
  assumes "buildable payload version load entry recipe fa fo flags"
  shows "\<exists>h. pack_header version (int (length payload)) load entry flags (sha256 payload) recipe fa fo = Inr h"
proof -
  define f where "f = signed_header payload version load entry recipe fa fo flags"
  have a: "header_ok (replicate BODY nul @ payload) f" "memory_safe (replicate BODY nul @ payload) f" "flash_safe f"
    "length recipe = 4"
    using assms by (auto simp: buildable_def Let_def f_def)
  have fs: "hd_version f = version" "hd_payload_len f = int (length payload)" "hd_load_addr f = load"
    "hd_entry_addr f = entry" "hd_flags f = flags" "hd_flash_at f = fa" "hd_flash_form f = fo"
    by (simp_all add: f_def signed_header_def)
  have v: "1 \<le> version" "version < 2 ^ 32" "flags = 0" "0 < length payload" "int (length payload) < 2 ^ 32"
    using a(1) unfolding header_ok_def fs by (auto simp: VERSION_MIN_def VERSION_MAX_def MAX_PAYLOAD_def)
  have m: "0 \<le> load" "0 \<le> entry" "entry < 2 ^ 32" "load < 2 ^ 32"
    using a(2) v(4) unfolding memory_safe_def fs Let_def span_def
    by (auto simp: MEM_LO_def MEM_HI_def)
  have "0 \<le> fa \<and> fa < 2 ^ 32"
  proof (cases "fa = FLASH_NONE")
    case False
    then obtain n where "0 < n" "0 \<le> fa" "{fa..<fa + n} \<inter> UNREC_SET = {}"
      using a(3) by (auto simp: flash_safe_def fs span_def)
    then show ?thesis by (simp add: UNREC_arith)
  qed (simp add: FLASH_NONE_def)
  moreover have "0 \<le> fo \<and> fo < 2 ^ 32"
    using a(3) by (auto simp: flash_safe_def fs landing_len_def FORM_NONE_def FORM_WHOLE_def
        FORM_PAYLOAD_def split: if_splits)
  ultimately show ?thesis using v m a(4) by (intro pack_header_Inr) simp_all
qed

lemma build_with_sound:
  assumes "build_with signer pub_of payload version load entry recipe seed fa fo flags = Inr blob"
  shows "\<exists>h sig pub. signer seed h = Inr sig \<and> pub_of seed = Inr pub \<and> blob = h @ sig @ payload \<and>
    length h = HEADER_LEN \<and> length sig = SIG_LEN \<and>
    unpack_header h = signed_header payload version load entry recipe fa fo flags \<and>
    accepted (checks blob pub 0 None None) \<and> stock_loader_verdict blob = Not_an_image"
proof -
  obtain h sig pub where b: "pack_header version (int (length payload)) load entry flags (sha256 payload) recipe fa fo = Inr h"
    "signer seed h = Inr sig" "pub_of seed = Inr pub" "blob = h @ sig @ payload"
    "accepted (checks blob pub 0 None None)" "stock_loader_verdict blob = Not_an_image"
    using assms by (auto simp: build_with_Inr)
  note u = pack_unpack [OF b(1)]
  have t: "take HEADER_LEN blob = h" using b(4) u(1) by simp
  have "int (length blob) = int BODY + int (length payload)"
    using b(5) by (simp add: checks_spec Let_def t u(2) header_ok_def)
  then have "length sig = SIG_LEN" using b(4) u(1) by (simp add: BODY_def)
  then show ?thesis using b u by (auto simp: signed_header_def)
qed

lemma accepted_magic:
  assumes "accepted (checks blob pub counter w form)"
  shows "take 4 blob = ''RLXU''"
proof -
  define f where "f = unpack_header (take HEADER_LEN blob)"
  have h: "header_ok blob f" using assms by (simp add: checks_spec Let_def f_def)
  have l: "4 \<le> length blob" using h by (simp add: header_ok_def BODY_def HEADER_LEN_def)
  have "be_val (slice (take HEADER_LEN blob) 0 4) = 0x524C5855"
    using h by (simp add: header_ok_def f_def unpack_header_def num_def MAGIC_def)
  moreover have "slice (take HEADER_LEN blob) 0 4 = take 4 blob"
    by (simp add: slice_def HEADER_LEN_def)
  ultimately have "be_val (take 4 blob) = 0x524C5855" by simp
  moreover have "be_val ''RLXU'' = 0x524C5855" by (simp add: be_val_def of_base_def)
  ultimately show ?thesis using l by (intro be_val_inj) simp_all
qed

lemma magic_not_stock: "take 4 blob = ''RLXU'' \<Longrightarrow> stock_loader_verdict blob = Not_an_image"
  by (simp add: stock_loader_verdict_def Let_def CHECK_IMAGE_SIGS_def BURN_SIGS_def)

lemma neutral_sig_length: "length neutral_sig = SIG_LEN"
  by (simp add: neutral_sig_def neutral_def SIG_LEN_def)

lemma build_complete:
  assumes "buildable payload version load entry recipe fa fo flags"
    and "\<And>m. \<exists>sig. signer seed m = Inr sig \<and> length sig = SIG_LEN \<and> verify pub m sig"
    and "pub_of seed = Inr pub"
  shows "\<exists>blob. build_with signer pub_of payload version load entry recipe seed fa fo flags = Inr blob \<and>
    accepted (checks blob pub 0 None None)"
proof -
  obtain h where h: "pack_header version (int (length payload)) load entry flags (sha256 payload) recipe fa fo = Inr h"
    using buildable_packs [OF assms(1)] by blast
  obtain sig where s: "signer seed h = Inr sig" "length sig = SIG_LEN" "verify pub h sig"
    using assms(2) by blast
  have a: "accepted (checks (h @ sig @ payload) pub 0 None None)"
    using packed_accepted [OF h s(2)] assms(1) s(3) by blast
  with h s assms(3) magic_not_stock [OF accepted_magic [OF a]] show ?thesis
    unfolding build_with_Inr by blast
qed

abbreviation open_signer :: "bytes \<Rightarrow> bytes \<Rightarrow> seed_error + bytes" where
  "open_signer \<equiv> (\<lambda>seed msg. Inr neutral_sig)"

abbreviation open_key :: "bytes \<Rightarrow> seed_error + bytes" where
  "open_key \<equiv> (\<lambda>seed. Inr neutral)"

lemma open_build:
  assumes "buildable payload version load entry recipe fa fo flags"
  shows "\<exists>blob. build_with open_signer open_key payload version load entry recipe seed fa fo flags = Inr blob \<and>
    accepted (checks blob neutral 0 None None)"
  using assms by (rule build_complete) (simp_all add: neutral_sig_length verify_neutral)

lemma sample_buildable:
  assumes "0x8000 \<le> at" "at + 161 \<le> 0x400000"
  shows "buildable ''x'' 1 0x80100000 0x80100000 ''abcd'' at FORM_WHOLE 0"
  using UNREC_arith [of 161 at] assms
  by (simp add: buildable_def Let_def signed_header_def header_ok_def memory_safe_def flash_safe_def span_def
      landing_len_def BODY_def HEADER_LEN_def SIG_LEN_def VERSION_MIN_def VERSION_MAX_def MAX_PAYLOAD_def
      MEM_LO_def MEM_HI_def RLXBOOT_LO_def RLXBOOT_HI_def STAGE_LO_def FLASH_NONE_def)

lemma sample_container:
  assumes "0x8000 \<le> at" "at + 161 \<le> 0x400000"
  shows "\<exists>blob. accepted (checks blob neutral 0 (Some at) (Some FORM_WHOLE))"
proof -
  obtain blob where b: "build_with open_signer open_key ''x'' 1 0x80100000 0x80100000 ''abcd'' [] at FORM_WHOLE 0
      = Inr blob" "accepted (checks blob neutral 0 None None)"
    using open_build [OF sample_buildable [OF assms]] by blast
  then obtain h sig where h: "blob = h @ sig @ ''x''" "length h = HEADER_LEN"
    "unpack_header h = signed_header ''x'' 1 0x80100000 0x80100000 ''abcd'' at FORM_WHOLE 0"
    using build_with_sound [OF b(1)] by blast
  then have "unpack_header (take HEADER_LEN blob) = signed_header ''x'' 1 0x80100000 0x80100000 ''abcd'' at FORM_WHOLE 0"
    by simp
  with b(2) show ?thesis
    by (intro exI [of _ blob]) (simp add: checks_spec Let_def flash_match_ok_def signed_header_def)
qed

lemma sample_at:
  "buildable ''x'' 1 0x80100000 0x80100000 ''abcd'' 0x60000 FORM_WHOLE 0"
  "\<exists>blob. accepted (checks blob neutral 0 (Some 0x60000) (Some FORM_WHOLE))"
  using sample_buildable [of "0x60000"] sample_container [of "0x60000"] by simp_all

text \<open>
  A container that declares no destination passes against a write at the sentinel offset itself: the
  comparison of step 2 is of two words, and the sentinel is one.
\<close>

lemma undeclared_sentinel_write:
  "\<exists>blob. hd_flash_at (unpack_header (take HEADER_LEN blob)) = FLASH_NONE \<and>
     accepted (checks blob neutral 0 (Some FLASH_NONE) None)"
proof -
  have s: "buildable ''x'' 1 0x80100000 0x80100000 ''abcd'' FLASH_NONE FORM_NONE 0"
    by (simp add: buildable_def Let_def signed_header_def header_ok_def memory_safe_def flash_safe_def span_def
        landing_len_def BODY_def HEADER_LEN_def SIG_LEN_def VERSION_MIN_def VERSION_MAX_def MAX_PAYLOAD_def
        MEM_LO_def MEM_HI_def RLXBOOT_LO_def RLXBOOT_HI_def STAGE_LO_def FLASH_NONE_def)
  obtain blob where b: "build_with open_signer open_key ''x'' 1 0x80100000 0x80100000 ''abcd'' [] FLASH_NONE FORM_NONE 0
      = Inr blob" "accepted (checks blob neutral 0 None None)"
    using open_build [OF s] by blast
  obtain h sig where h: "blob = h @ sig @ ''x''" "length h = HEADER_LEN"
    "unpack_header h = signed_header ''x'' 1 0x80100000 0x80100000 ''abcd'' FLASH_NONE FORM_NONE 0"
    using build_with_sound [OF b(1)] by blast
  then have "unpack_header (take HEADER_LEN blob) = signed_header ''x'' 1 0x80100000 0x80100000 ''abcd'' FLASH_NONE FORM_NONE 0"
    by simp
  with b(2) show ?thesis
    by (intro exI [of _ blob]) (simp add: checks_spec Let_def flash_match_ok_def signed_header_def)
qed

subsection \<open>Properties\<close>

text \<open>
  C12. The verifier accepts exactly the specified containers: the header's constants and bounds hold,
  the payload's target lies in RAM, clear of the second stage and of the staged container, with
  the entry inside it; the landing range, if one is declared, meets no unrecoverable range and is
  the one the caller is about to write; the signature covers the header, the header's digest is
  the payload's, and the version is not below the counter.
\<close>

theorem checks_exact:
  "accepted (checks blob pub counter w form) \<longleftrightarrow>
     (let f = unpack_header (take HEADER_LEN blob) in
      header_ok blob f \<and> memory_safe blob f \<and> flash_safe f \<and> flash_match_ok f w form \<and>
      authentic blob pub f \<and> counter \<le> hd_version f)"
  by (rule checks_spec)

text \<open>
  Nothing of the payload is looked at before the signature passes: two files of one length that
  agree in their first 160 bytes, whose signature the key does not verify, get the same rows, none
  of them about the digest or the version.
\<close>

theorem unsigned_payload_unseen:
  assumes "take BODY blob = take BODY blob'" "length blob = length blob'"
    and "\<not> verify pub (take HEADER_LEN blob) (slice blob HEADER_LEN BODY)"
  shows "checks blob pub counter w form = checks blob' pub counter w form \<and>
    \<not> accepted (checks blob pub counter w form) \<and>
    (\<forall>(n, name, ok) \<in> set (checks blob pub counter w form). n \<le> 3)"
proof -
  have t: "take HEADER_LEN blob = take HEADER_LEN blob'"
    using arg_cong [OF assms(1), of "take HEADER_LEN"] by (simp add: BODY_def)
  have "slice b HEADER_LEN BODY = drop HEADER_LEN (take BODY b)" for b :: bytes
    by (simp add: slice_def drop_take)
  then have t2: "slice blob HEADER_LEN BODY = slice blob' HEADER_LEN BODY" using assms(1) by simp
  have s: "steps2 blob w form = steps2 blob' w form" using t assms(2) by (simp add: steps2_def)
  have u: "set (until_fail rows) \<subseteq> set rows" for rows
    by (induction rows rule: until_fail.induct) auto
  have "\<forall>x \<in> set (steps2 blob w form @ [(3, ''signature'', False)]). fst x \<le> 3"
    by (simp add: steps2_def Let_def)
  then have n: "\<forall>x \<in> set (until_fail (steps2 blob w form @ [(3, ''signature'', False)])). fst x \<le> 3"
    using u by blast
  have "checks blob pub counter w form =
    (if length blob < BODY then [(1, ''length'', False)]
     else until_fail (steps2 blob w form @ [(3, ''signature'', False)]))"
    using assms(3) by (simp add: checks_def Let_def until_fail_append)
  moreover from this have "checks blob' pub counter w form = checks blob pub counter w form"
    using assms(2,3) t t2 s by (simp add: checks_def Let_def until_fail_append)
  moreover have "\<not> accepted (checks blob pub counter w form)" using assms(3) by (simp add: checks_iff Let_def)
  moreover have "\<forall>(n, name, ok) \<in> set (checks blob pub counter w form). n \<le> 3"
    using n calculation(1) by (simp add: split_beta)
  ultimately show ?thesis by metis
qed

theorem unsigned_payload_unseen_witness:
  "checks (replicate 160 (char_of (0 :: nat)) @ ''a'') [] 0 None None =
   checks (replicate 160 (char_of (0 :: nat)) @ ''b'') [] 0 None None"
  using unsigned_payload_unseen [of "replicate 160 (char_of (0 :: nat)) @ ''a''"
      "replicate 160 (char_of (0 :: nat)) @ ''b''" "[]" 0 None None]
  by (simp add: BODY_def HEADER_LEN_def SIG_LEN_def verify_def)

text \<open>
  C13. What is written is what was signed: when a container passes against a write at \<open>w\<close> that is not
  the sentinel, its signed header declares \<open>w\<close> and the form, the range that lands is the whole file
  or the payload behind the prefix and meets no unrecoverable byte, and the first bytes reported
  for it are the ones that land.
\<close>

theorem write_lands_as_signed:
  assumes "accepted (checks blob pub counter (Some w) (Some form))" "w \<noteq> FLASH_NONE"
  shows "\<exists>n bytes. landing blob = (Some w, Some n, form, take 4 bytes) \<and> n = int (length bytes) \<and>
    (form = FORM_WHOLE \<and> bytes = blob \<or> form = FORM_PAYLOAD \<and> bytes = drop BODY blob) \<and>
    {w..<w + n} \<inter> UNREC_SET = {}"
proof -
  define f where "f = unpack_header (take HEADER_LEN blob)"
  have a: "header_ok blob f" "flash_safe f" "flash_match_ok f (Some w) (Some form)"
    using assms(1) by (simp_all add: checks_spec Let_def f_def)
  then have m: "hd_flash_at f = w" "hd_flash_form f = form" by (simp_all add: flash_match_ok_def)
  obtain n where n: "landing_len w form (hd_payload_len f) = Some n" "{w..<w + n} \<inter> UNREC_SET = {}"
    using a(2) assms(2) by (auto simp: flash_safe_def m span_def)
  have l: "int (length blob) = int BODY + hd_payload_len f" using a(1) by (simp add: header_ok_def)
  have "FORM_WHOLE \<noteq> FORM_PAYLOAD" by (simp add: FORM_WHOLE_def FORM_PAYLOAD_def)
  moreover have "int (length (drop BODY blob)) = hd_payload_len f"
    using l a(1) by (simp add: header_ok_def of_nat_diff)
  ultimately show ?thesis
    using n l assms(2) by (auto simp: landing_def Let_def f_def [symmetric] m landing_len_def slice_def take_drop
        simp del: length_drop split: if_splits)
qed

theorem write_lands_as_signed_witness:
  "\<exists>blob n bytes. landing blob = (Some 0x60000, Some n, FORM_WHOLE, take 4 bytes) \<and> n = int (length bytes)"
proof -
  obtain blob where a: "accepted (checks blob neutral 0 (Some 0x60000) (Some FORM_WHOLE))"
    using sample_at(2) by blast
  have "(0x60000 :: int) \<noteq> FLASH_NONE" by (simp add: FLASH_NONE_def)
  from write_lands_as_signed [OF a this] show ?thesis by blast
qed

text \<open>
  The stock loader boots no container: every accepted file begins with the four bytes \<open>RLXU\<close>, so
  \<open>check_image()\<close> does not recognise it, and when the whole container lands in flash the landing
  report says that nothing bootable lands there.
\<close>

theorem accepted_not_bootable:
  assumes "accepted (checks blob pub counter w form)"
  shows "take 4 blob = ''RLXU'' \<and> stock_loader_verdict blob = Not_an_image \<and>
    (\<forall>base n first scan rec. landing_lines blob = Some (base, n, first, scan, rec) \<and>
       hd_flash_form (unpack_header (take HEADER_LEN blob)) = FORM_WHOLE \<longrightarrow> \<not> rec)"
proof -
  have t: "take 4 blob = ''RLXU''" by (rule accepted_magic [OF assms])
  then have "take 4 blob \<notin> set CHECK_IMAGE_SIGS" "take 4 blob \<notin> set BURN_SIGS"
    by (simp_all add: CHECK_IMAGE_SIGS_def BURN_SIGS_def)
  with t magic_not_stock [OF t] show ?thesis
    by (auto simp: landing_lines_def landing_def Let_def split: if_splits)
qed

theorem accepted_not_bootable_witness: "\<exists>blob. stock_loader_verdict blob = Not_an_image \<and> take 4 blob = ''RLXU''"
  using sample_at(2) accepted_not_bootable by blast

text \<open>
  What \<open>build\<close> emits is accepted and is what was asked for: the container is a header, the
  signer's signature of exactly that header and the payload unchanged, the header's fields are the
  arguments and the digest is the payload's, the verifier accepts it under the signer's public key
  and the stock loader does not recognise it.
\<close>

theorem build_sound:
  assumes "build_with signer pub_of payload version load entry recipe seed fa fo flags = Inr blob"
  shows "\<exists>h sig pub. signer seed h = Inr sig \<and> pub_of seed = Inr pub \<and> blob = h @ sig @ payload \<and>
    length h = HEADER_LEN \<and> length sig = SIG_LEN \<and>
    unpack_header h = signed_header payload version load entry recipe fa fo flags \<and>
    accepted (checks blob pub 0 None None) \<and> stock_loader_verdict blob = Not_an_image"
  using assms by (rule build_with_sound)

theorem build_sound_witness:
  "\<exists>blob. drop BODY blob = ''x'' \<and> accepted (checks blob neutral 0 None None)"
proof -
  obtain blob where b: "build_with open_signer open_key ''x'' 1 0x80100000 0x80100000 ''abcd'' [] 0x60000 FORM_WHOLE 0
      = Inr blob"
    using open_build [OF sample_at(1)] by blast
  obtain h sig pub where "blob = h @ sig @ ''x''" "length h = HEADER_LEN" "length sig = SIG_LEN"
    "Inr pub = open_key []" "accepted (checks blob pub 0 None None)"
    using build_sound [OF b] by metis
  then show ?thesis by (intro exI [of _ blob]) (simp add: BODY_def)
qed

text \<open>
  \<open>build\<close> refuses nothing it should make: for fields that meet the container's specification and
  any signer whose signatures its public key verifies, it returns a container, and the verifier
  accepts it.
\<close>

theorem build_succeeds:
  assumes "buildable payload version load entry recipe fa fo flags"
    and "\<And>m. \<exists>sig. signer seed m = Inr sig \<and> length sig = SIG_LEN \<and> verify pub m sig"
    and "pub_of seed = Inr pub"
  shows "\<exists>blob. build_with signer pub_of payload version load entry recipe seed fa fo flags = Inr blob \<and>
    accepted (checks blob pub 0 None None)"
  using assms by (rule build_complete)

theorem build_succeeds_witness:
  "\<exists>blob. build_with open_signer open_key ''x'' 1 0x80100000 0x80100000 ''abcd'' [] 0x60000 FORM_WHOLE 0 = Inr blob"
proof -
  have s: "\<And>m. \<exists>sig. open_signer [] m = Inr sig \<and> length sig = SIG_LEN \<and> verify neutral m sig"
    by (simp add: neutral_sig_length verify_neutral)
  show ?thesis
    using build_succeeds [where signer = open_signer and seed = "[]" and pub = neutral and pub_of = open_key,
        OF sample_at(1) s] by auto
qed

text \<open>
  The command signs what was licensed: a container that \<open>cmd_build\<close> writes is accepted by the
  verifier, carries the payload file unchanged under its own digest and has the requested version
  and addresses; its name is none the loader executes; and either it was declared not for flash
  and lands nowhere, or its signed header declares the requested base and a form, and the guard has
  permitted exactly the range that lands, for exactly this payload's digest.
\<close>

theorem cmd_build_licensed:
  assumes "cmd_build_with signer pub_of dtext files a = Built out blob sha nland grant"
  shows "\<exists>payload f pub. files (ba_payload a) = Some payload \<and> drop BODY blob = payload \<and>
    sha = hex_of (sha256 payload) \<and> f = unpack_header (take HEADER_LEN blob) \<and>
    accepted (checks blob pub 0 None None) \<and> out = ba_out a \<and>
    lower (basename out) \<notin> set AUTOEXEC_NAMES \<and> hd_digest f = sha256 payload \<and>
    hd_version f = ba_version a \<and> hd_load_addr f = ba_load_addr a \<and> hd_entry_addr f = ba_entry_addr a \<and>
    (case ba_flash_at a of
       None \<Rightarrow> ba_not_for_flash a \<and> hd_flash_at f = FLASH_NONE \<and> nland = 0
     | Some at \<Rightarrow> hd_flash_at f = at \<and> at \<noteq> FLASH_NONE \<and>
         landing_len at (hd_flash_form f) (hd_payload_len f) = Some nland \<and>
         check_licensed at nland (if ba_owner_yes a = [] then None else map_option dtext (files (ba_owner_yes a)))
           (Some sha) = Inr None)"
proof -
  obtain payload where p: "build_inputs files a = Inr payload"
    using assms by (auto simp: cmd_build_with_def split: sum.splits)
  obtain fa fo n where l: "landing_of a (length payload) = (fa, fo, n)" by (cases "landing_of a (length payload)")
  let ?lic = "if ba_owner_yes a = [] then None else map_option dtext (files (ba_owner_yes a))"
  obtain recipe seed where c: "n = Some nland" "sha = hex_of (sha256 payload)" "out = ba_out a"
    "guard_destination (ba_flash_at a) nland ?lic (Some sha) = Inr grant"
    "build_with signer pub_of payload (ba_version a) (ba_load_addr a) (ba_entry_addr a) recipe seed fa fo (ba_flags a)
       = Inr blob"
    using assms
    by (auto simp: cmd_build_with_def p l Let_def split: if_splits option.splits sum.splits)
  have i: "files (ba_payload a) = Some payload" "guard_output_name (ba_out a) = None"
    "(ba_flash_at a = None) = ba_not_for_flash a"
    using p by (auto simp: build_inputs_def split: if_splits option.splits)
  obtain h sig pub where b: "blob = h @ sig @ payload" "length h = HEADER_LEN" "length sig = SIG_LEN"
    "unpack_header h = signed_header payload (ba_version a) (ba_load_addr a) (ba_entry_addr a) recipe fa fo (ba_flags a)"
    "accepted (checks blob pub 0 None None)"
    using build_with_sound [OF c(5)] by blast
  have d: "drop BODY blob = payload" "unpack_header (take HEADER_LEN blob) =
      signed_header payload (ba_version a) (ba_load_addr a) (ba_entry_addr a) recipe fa fo (ba_flags a)"
    using b by (simp_all add: BODY_def)
  have g: "ba_flash_at a = Some at \<Longrightarrow> check_licensed at nland ?lic (Some sha) = Inr None" for at
    using c(4) by (auto simp: guard_destination_def split: sum.splits option.splits)
  have z: "\<not> 0 < nland \<Longrightarrow> check_licensed at nland lic dg \<noteq> Inr None" for at lic dg
    by (simp add: check_licensed_iff check_arith)
  show ?thesis
    using i c(1-3) b(5) d g l z
    by (cases "ba_flash_at a") (auto simp: signed_header_def guard_output_name_def landing_of_def Let_def
        landing_len_def split: if_splits intro!: exI [of _ pub])
qed

theorem cmd_build_licensed_witness:
  "\<exists>blob sha grant.
     cmd_build_with open_signer open_key (\<lambda>b. b) (\<lambda>path. if path = ''p'' then Some ''x'' else None)
       \<lparr>ba_payload = ''p'', ba_out = ''o'', ba_version = 1, ba_load_addr = 0x80100000, ba_entry_addr = 0x80100000,
        ba_recipe_id = ''61626364'', ba_flags = 0, ba_flash_at = Some 0x60000, ba_flash_form = Some ''whole'',
        ba_not_for_flash = False, ba_owner_yes = [],
        ba_seed = \<lparr>sa_seed_hex = [], sa_seed_file = [], sa_dev_seed = True\<rparr>\<rparr> = Built ''o'' blob sha 161 grant \<and>
     check_licensed 0x60000 161 None (Some sha) = Inr None"
proof -
  let ?a = "\<lparr>ba_payload = ''p'', ba_out = ''o'', ba_version = 1, ba_load_addr = 0x80100000, ba_entry_addr = 0x80100000,
        ba_recipe_id = ''61626364'', ba_flags = 0, ba_flash_at = Some 0x60000, ba_flash_form = Some ''whole'',
        ba_not_for_flash = False, ba_owner_yes = [],
        ba_seed = \<lparr>sa_seed_hex = [], sa_seed_file = [], sa_dev_seed = True\<rparr>\<rparr>"
  let ?files = "\<lambda>path. if path = ''p'' then Some ''x'' else None"
  obtain blob where b: "build_with open_signer open_key ''x'' 1 0x80100000 0x80100000 ''abcd'' DEV_SEED 0x60000 FORM_WHOLE 0
      = Inr blob"
    using open_build [OF sample_at(1)] by blast
  have r: "parse_recipe ''61626364'' = Inr ''abcd''" by code_simp
  have o: "guard_output_name ''o'' = None" by code_simp
  have s: "read_seed ?files (ba_seed ?a) = Inr DEV_SEED" by (simp add: read_seed_def)
  have l: "landing_of ?a 1 = (0x60000, FORM_WHOLE, Some 161)"
    by (simp add: landing_of_def form_word_def landing_len_def FLASH_NONE_def BODY_def HEADER_LEN_def SIG_LEN_def)
  have c: "check 0x60000 161 = Inr None" by (simp add: check_arith)
  then have "check_licensed 0x60000 161 lic dg = Inr None" for lic dg by (simp add: check_licensed_iff)
  then have g: "\<exists>grant. guard_destination (Some 0x60000) 161 None (Some dg) = Inr grant" for dg
    using c by (simp add: guard_destination_def licence_grant_def map_err_def)
  have i: "build_inputs ?files ?a = Inr ''x''"
    using o by (simp add: build_inputs_def MAX_PAYLOAD_def)
  obtain grant where e: "cmd_build_with open_signer open_key (\<lambda>b. b) ?files ?a =
      Built ''o'' blob (hex_of (sha256 ''x'')) 161 grant"
    using g [of "hex_of (sha256 ''x'')"] i l r s b unfolding cmd_build_with_def by (auto simp: Let_def)
  show ?thesis using cmd_build_licensed [OF e] e by auto
qed

end
