(* ===== verification/MkCr6c.thy ===== *)
theory MkCr6c
  imports "HOL-Library.Word" MkFw2 PyText
begin

text \<open>
  \<open>tools/mkcr6c.py\<close>: the two images the stock loader must boot and the barrier it must not.  \<open>wrap\<close>
  makes a bootable image out of a binary, \<open>scan\<close> lays files out on an erased chip and asks what the
  loader does at each offset it tries.
\<close>

subsection \<open>The tables\<close>

definition HDR_LEN :: nat where "HDR_LEN = 16"
definition TAIL_LEN :: nat where "TAIL_LEN = 2"
definition CS6C :: bytes where "CS6C = ''cs6c''"
definition CR6C :: bytes where "CR6C = ''cr6c''"
definition FIXED_PROBES :: "int list" where "FIXED_PROBES = [0x010000, 0x020000, 0x030000]"
definition SWEEP_START :: int where "SWEEP_START = 0x030000"
definition SWEEP_END :: int where "SWEEP_END = 0x060000"
definition SWEEP_STEP :: int where "SWEEP_STEP = 0x010000"
definition ROOTFS_FIXED :: "int list" where "ROOTFS_FIXED = [0x0E0000, 0x0F0000, 0x130000]"
definition ROOTFS_START :: int where "ROOTFS_START = 0x100000"
definition ROOTFS_END :: int where "ROOTFS_END = 0x180000"
definition ROOTFS_STEP :: int where "ROOTFS_STEP = 0x010000"
definition MUST_BOOT :: "int list" where "MUST_BOOT = [0x010000, 0x020000]"
definition MUST_NOT_BOOT :: "int list" where "MUST_NOT_BOOT = [0x030000, 0x040000, 0x050000, 0x060000]"
definition REGION_BYTES :: int where "REGION_BYTES = 0x010000"
definition ERASED :: char where "ERASED = CHR 0xFF"

text \<open>The \<open>while\<close> loop of the sweep; None when it does not end.\<close>

partial_function (option) sweep ::
    "int list \<Rightarrow> int \<Rightarrow> int \<Rightarrow> int \<Rightarrow> int list \<Rightarrow> int list option" where
  "sweep fixed i end step out =
     (if i \<le> end then sweep fixed (i + step) end step (if i \<notin> set fixed then out @ [i] else out)
      else Some out)"

definition fixed_then_sweep :: "int list \<Rightarrow> int \<Rightarrow> int \<Rightarrow> int \<Rightarrow> int list option" where
  "fixed_then_sweep fixed start end step = sweep fixed start end step fixed"

definition scan_candidates :: "int list option" where
  "scan_candidates = fixed_then_sweep FIXED_PROBES SWEEP_START SWEEP_END SWEEP_STEP"

definition rootfs_candidates :: "int list option" where
  "rootfs_candidates = fixed_then_sweep ROOTFS_FIXED ROOTFS_START ROOTFS_END ROOTFS_STEP"

subsection \<open>What the loader does with a header\<close>

definition check_image_ret :: "bytes \<Rightarrow> nat \<Rightarrow> nat \<times> 16 word option" where
  "check_image_ret blob off =
     (if int (length blob) - int off < int HDR_LEN then (0, None)
      else let sg = slice blob off (off + 4) in
        if sg = CS6C \<or> sg = CR6C then
          let n = be_val (slice blob (off + 12) (off + 16));
              body = slice blob (off + HDR_LEN) (off + HDR_LEN + n);
              ret = (if sg = CS6C then 1 else 2)
          in if length body \<noteq> n then (ret, None) else (ret, Some (sum16 body))
        else (0, None))"

datatype boot_word = BOOTS | ROOTFS | NO

definition verdict :: "bytes \<Rightarrow> nat \<Rightarrow> int option \<Rightarrow> boot_word \<times> bool \<times> nat \<times> 16 word option" where
  "verdict blob off at =
     (let (ret, s16) = check_image_ret blob off;
          w = (if ret = 1 \<and> s16 = Some 0 then BOOTS else if ret = 2 \<and> s16 = Some 0 then ROOTFS else NO);
          a = (case at of None \<Rightarrow> int off | Some x \<Rightarrow> x)
      in (w, if a \<in> set MUST_BOOT then w = BOOTS else w = NO, ret, s16))"

definition bootable :: "bytes \<Rightarrow> nat \<Rightarrow> bool" where
  "bootable blob off = (case check_image_ret blob off of (ret, s16) \<Rightarrow> ret = 1 \<and> s16 = Some 0)"

definition may_boot :: "bytes \<Rightarrow> nat \<Rightarrow> bool" where
  "may_boot blob off = (case check_image_ret blob off of (ret, s16) \<Rightarrow> (ret = 1 \<or> ret = 2) \<and> s16 = Some 0)"

subsection \<open>\<open>wrap\<close>\<close>

datatype wrap_error =
    Empty_binary | Odd_binary nat | Start_out_of_range int | At_out_of_range int
  | Barrier_candidate int | Not_scanned int | Over_region nat int | Refused_cr6c | Refused_ret nat
  | Nonzero_sum "16 word" | Undetermined_sum | Second_source

definition build_image :: "bytes \<Rightarrow> int \<Rightarrow> int \<Rightarrow> wrap_error + bytes" where
  "build_image binary start_addr flash_at =
     (if length binary = 0 then Inl Empty_binary
      else if length binary mod 2 \<noteq> 0 then Inl (Odd_binary (length binary))
      else if \<not> (0 \<le> start_addr \<and> start_addr \<le> 0xFFFFFFFF) then Inl (Start_out_of_range start_addr)
      else if \<not> (0 \<le> flash_at \<and> flash_at \<le> 0xFFFFFFFF) then Inl (At_out_of_range flash_at)
      else let payload = binary @ be_bytes 2 (unat (- sum16 binary)) in
        Inr (CS6C @ be_bytes 4 (nat start_addr) @ be_bytes 4 (nat flash_at) @ be_bytes 4 (length payload)
             @ payload))"

text \<open>
  \<open>struct.pack\<close> of the length raises from 4 GiB on, which no file read here reaches; \<open>be_bytes\<close>
  truncates there.  A sum that is None is a \<open>TypeError\<close> in the message of the fifth refusal, and
  a recognised header shorter than sixteen bytes is a \<open>struct.error\<close>: neither is a \<open>ValueError\<close>.
\<close>

definition gate_image :: "bytes \<Rightarrow> int \<Rightarrow> int \<Rightarrow> wrap_error option" where
  "gate_image img flash_at region_bytes =
     (if flash_at \<notin> set MUST_BOOT then
        Some (if flash_at \<in> set MUST_NOT_BOOT then Barrier_candidate flash_at else Not_scanned flash_at)
      else if int (length img) > region_bytes then Some (Over_region (length img) region_bytes)
      else let (ret, s16) = check_image_ret img 0 in
        if ret = 2 then Some Refused_cr6c
        else if ret \<noteq> 1 then Some (Refused_ret ret)
        else case s16 of None \<Rightarrow> Some Undetermined_sum
        | Some s \<Rightarrow>
            if s \<noteq> 0 then Some (Nonzero_sum s)
            else (case stock_loader_verdict img of Recognised _ _ _ _ \<Rightarrow> None | _ \<Rightarrow> Some Second_source))"

record wrap_args =
  wa_in :: string
  wa_out :: string
  wa_start_addr :: int
  wa_flash_at :: int
  wa_region_bytes :: int

datatype wrap_result = No_binary string | Wrap_refused wrap_error | Wrapped string bytes bool

text \<open>\<open>cmd_wrap\<close>: the image written and whether flashguard would permit the destination, or the refusal.\<close>

definition cmd_wrap :: "(string \<Rightarrow> bytes option) \<Rightarrow> wrap_args \<Rightarrow> wrap_result" where
  "cmd_wrap files a =
     (case files (wa_in a) of None \<Rightarrow> No_binary (wa_in a)
      | Some binary \<Rightarrow>
         (case build_image binary (wa_start_addr a) (wa_flash_at a) of Inl e \<Rightarrow> Wrap_refused e
          | Inr img \<Rightarrow>
             (case gate_image img (wa_flash_at a) (wa_region_bytes a) of Some e \<Rightarrow> Wrap_refused e
              | None \<Rightarrow> Wrapped (wa_out a) img (check (wa_flash_at a) (int (length img)) = Inr None))))"

subsection \<open>\<open>scan\<close>\<close>

type_synonym placement = "int \<times> string \<times> bytes"

datatype scan_die =
    Not_a_spec string | Not_a_number string | No_such_file int string
  | Past_chip int string int int | Overlap int string int string

text \<open>\<open>m[off:end] = blob\<close>, with Python's reading of negative bounds.\<close>

definition py_assign :: "'a list \<Rightarrow> int \<Rightarrow> int \<Rightarrow> 'a list \<Rightarrow> 'a list" where
  "py_assign xs i j ys =
     (let a = py_index (length xs) i; b = py_index (length xs) j in take a xs @ ys @ drop (max a b) xs)"

fun place_loop :: "int \<Rightarrow> placement list \<Rightarrow> bytes \<Rightarrow> placement list \<Rightarrow> scan_die + bytes" where
  "place_loop chip [] m taken = Inr m"
| "place_loop chip ((off, path, blob) # r) m taken =
     (let end = off + int (length blob) in
      if end > chip then Inl (Past_chip off path end chip)
      else case find (\<lambda>(o2, p2, b2). off < o2 + int (length b2) \<and> end > o2) taken of
        Some (o2, p2, b2) \<Rightarrow> Inl (Overlap off path o2 p2)
      | None \<Rightarrow> place_loop chip r (py_assign m off end blob) (taken @ [(off, path, blob)]))"

definition place :: "int \<Rightarrow> placement list \<Rightarrow> scan_die + bytes" where
  "place chip_bytes placements = place_loop chip_bytes placements (replicate (nat chip_bytes) ERASED) []"

definition placement_of :: "(string \<Rightarrow> bytes option) \<Rightarrow> string \<Rightarrow> scan_die + placement" where
  "placement_of files spec =
     (if CHR ''='' \<notin> set spec then Inl (Not_a_spec spec)
      else let off_s = takeWhile (\<lambda>c. c \<noteq> CHR ''='') spec; path = tl (dropWhile (\<lambda>c. c \<noteq> CHR ''='') spec) in
        case int0 off_s of None \<Rightarrow> Inl (Not_a_number off_s)
        | Some off \<Rightarrow>
            (case files path of None \<Rightarrow> Inl (No_such_file off path) | Some blob \<Rightarrow> Inr (off, path, blob)))"

text \<open>
  What \<open>cmd_scan\<close> does: a one-line refusal, an exception that is not caught (flashguard's
  \<open>ValueError\<close> for an empty file or a negative offset, \<open>struct.error\<close> for a recognised header that is
  too short), or the rows and the status.  None when the candidates' loop does not end.
\<close>

datatype scan_result =
    Scan_die scan_die
  | Guard_traceback guard_error
  | Header_traceback int
  | Scanned "(int \<times> boot_word \<times> bool \<times> nat \<times> 16 word option) list" "(int \<times> string \<times> bool) list" nat

definition guard_raise :: "placement list \<Rightarrow> guard_error option" where
  "guard_raise ps =
     (case filter (\<lambda>(off, path, blob). \<exists>e. check off (int (length blob)) = Inl e) ps of
        [] \<Rightarrow> None
      | (off, path, blob) # _ \<Rightarrow>
          (case check off (int (length blob)) of Inl e \<Rightarrow> Some e | Inr _ \<Rightarrow> None))"

fun slot_rows :: "placement list \<Rightarrow> int + (int \<times> string \<times> bool) list" where
  "slot_rows [] = Inr []"
| "slot_rows ((off, path, blob) # r) =
     (case stock_loader_verdict (take HDR_LEN blob) of
        Short_stock_header \<Rightarrow> Inl off
      | v \<Rightarrow> sbind (slot_rows r) (\<lambda>rows. Inr ((off, path, v \<noteq> Not_an_image) # rows)))"

definition scan_map :: "int list \<Rightarrow> placement list \<Rightarrow> bytes \<Rightarrow> scan_result" where
  "scan_map cands placements m =
     (case guard_raise placements of Some e \<Rightarrow> Guard_traceback e
      | None \<Rightarrow>
         (let rows = map (\<lambda>c. (c, verdict m (nat c) None)) cands in
          case slot_rows (filter (\<lambda>(off, path, blob). off \<notin> set cands) placements) of
            Inl off \<Rightarrow> Header_traceback off
          | Inr slots \<Rightarrow>
              Scanned rows slots
                (if list_all (\<lambda>(c, w, ok, ret, s16). ok) rows \<and> list_all (\<lambda>(off, path, rec). \<not> rec) slots
                 then 0 else 1)))"

definition cmd_scan :: "(string \<Rightarrow> bytes option) \<Rightarrow> int \<Rightarrow> string list \<Rightarrow> scan_result option" where
  "cmd_scan files chip_bytes specs =
     (case traverse (placement_of files) specs of Inl d \<Rightarrow> Some (Scan_die d)
      | Inr placements \<Rightarrow>
         (case place chip_bytes placements of Inl d \<Rightarrow> Some (Scan_die d)
          | Inr m \<Rightarrow> map_option (\<lambda>cands. scan_map cands placements m) scan_candidates))"

subsection \<open>The scan tables\<close>

lemma sweep_run:
  assumes "end < i + int n * step" "\<And>k. k < n \<Longrightarrow> i + int k * step \<le> end"
  shows "sweep fixed i end step out =
    Some (out @ filter (\<lambda>x. x \<notin> set fixed) (map (\<lambda>k. i + int k * step) [0..<n]))"
  using assms
proof (induction n arbitrary: i out)
  case 0
  then show ?case by (subst sweep.simps) simp
next
  case (Suc n)
  have "i \<le> end" using Suc.prems(2) [of 0] by simp
  moreover have "end < i + step + int n * step" using Suc.prems(1) by (simp add: algebra_simps)
  moreover have "i + step + int k * step \<le> end" if "k < n" for k
    using Suc.prems(2) [of "Suc k"] that by (simp add: algebra_simps)
  moreover have "map (\<lambda>k. i + int k * step) [0..<Suc n] = i # map (\<lambda>k. i + step + int k * step) [0..<n]"
    by (simp add: upt_conv_Cons map_Suc_upt [symmetric] algebra_simps del: upt_Suc)
  ultimately show ?case using Suc.IH [of "i + step"] by (subst sweep.simps) simp
qed

lemma sweep_total:
  assumes "0 < step"
  shows "sweep fixed i end step out =
    Some (out @ filter (\<lambda>x. x \<notin> set fixed) (map (\<lambda>k. i + int k * step) [0..<nat ((end - i) div step + 1)]))"
proof (rule sweep_run)
  define q where "q = (end - i) div step"
  have d: "end - i = q * step + (end - i) mod step" "0 \<le> (end - i) mod step" "(end - i) mod step < step"
    using assms by (simp_all add: q_def)
  have a: "end < i + (q + 1) * step" using d by (simp add: algebra_simps)
  show "end < i + int (nat (q + 1)) * step"
  proof (cases "0 \<le> q + 1")
    case False
    then have "(q + 1) * step \<le> 0" using assms by (simp add: mult_nonpos_nonneg)
    with a False show ?thesis by simp
  qed (use a in simp)
  fix k assume "k < nat (q + 1)"
  then have "int k * step \<le> q * step" using assms by (intro mult_right_mono) auto
  with d show "i + int k * step \<le> end" by linarith
qed

lemma scan_candidates_eq: "scan_candidates = Some (MUST_BOOT @ MUST_NOT_BOOT)"
proof -
  have "sweep FIXED_PROBES SWEEP_START SWEEP_END SWEEP_STEP FIXED_PROBES =
    Some (FIXED_PROBES @ filter (\<lambda>x. x \<notin> set FIXED_PROBES) (map (\<lambda>k. SWEEP_START + int k * SWEEP_STEP) [0..<4]))"
    by (rule sweep_run) (auto simp: SWEEP_START_def SWEEP_END_def SWEEP_STEP_def)
  then show ?thesis
    by (simp add: scan_candidates_def fixed_then_sweep_def FIXED_PROBES_def SWEEP_START_def SWEEP_STEP_def
        MUST_BOOT_def MUST_NOT_BOOT_def upt_rec)
qed

subsection \<open>The image\<close>

lemma sum16_from_start: "sum16_from s b = s + sum16_from 0 b"
proof (induction b arbitrary: s rule: induct_list012)
  case (3 x y b)
  let ?z = "push_bit 8 (of_nat (of_char x)) OR of_nat (of_char y) :: 16 word"
  show ?case by (simp only: sum16_from.simps add_0 3(1) [of "s + ?z"] 3(1) [of ?z] add.assoc)
qed simp_all

lemma sum16_from_append:
  "even (length a) \<Longrightarrow> sum16_from s (a @ b) = sum16_from (sum16_from s a) b"
  by (induction s a rule: sum16_from.induct) auto

lemma half_word: "sum16_from 0 (be_bytes 2 (unat w)) = w"
proof -
  have two: "be_bytes 2 n = [char_of (n div 256 mod 256), char_of (n mod 256)]" for n
    by (simp add: numeral_2_eq_2)
  have "of_nat (unat w div 256 mod 256) = (of_nat (unat (take_bit 8 (drop_bit 8 w))) :: 16 word)"
    "of_nat (unat w mod 256) = (of_nat (unat (take_bit 8 w)) :: 16 word)"
    by (simp_all add: unsigned_take_bit_eq unat_drop_bit_eq take_bit_eq_mod [where 'a = nat]
        drop_bit_eq_div [where 'a = nat] del: of_nat_unat)
  moreover have "push_bit 8 (take_bit 8 (drop_bit 8 w)) OR take_bit 8 w = w"
    by (rule bit_word_eqI) (auto simp: bit_simps)
  ultimately show ?thesis by (simp add: two)
qed

definition image_of :: "bytes \<Rightarrow> int \<Rightarrow> int \<Rightarrow> bytes" where
  "image_of binary start_addr flash_at =
     (let payload = binary @ be_bytes 2 (unat (- sum16 binary)) in
      CS6C @ be_bytes 4 (nat start_addr) @ be_bytes 4 (nat flash_at) @ be_bytes 4 (length payload) @ payload)"

definition wrappable :: "bytes \<Rightarrow> int \<Rightarrow> int \<Rightarrow> bool" where
  "wrappable binary start_addr flash_at \<longleftrightarrow>
     binary \<noteq> [] \<and> even (length binary) \<and> start_addr \<in> {0..0xFFFFFFFF} \<and> flash_at \<in> {0..0xFFFFFFFF}"

lemma build_image_iff:
  "build_image binary start at = Inr img \<longleftrightarrow> wrappable binary start at \<and> img = image_of binary start at"
  by (auto simp: build_image_def wrappable_def image_of_def Let_def even_iff_mod_2_eq_zero)

lemma length_image_of: "length (image_of binary start at) = HDR_LEN + length binary + TAIL_LEN"
  by (simp add: image_of_def Let_def CS6C_def HDR_LEN_def TAIL_LEN_def)

lemma sum16_closed: "even (length b) \<Longrightarrow> sum16 (b @ be_bytes 2 (unat (- sum16 b))) = 0"
proof -
  assume e: "even (length b)"
  then have "even (length (b @ be_bytes 2 n))" for n by simp
  then have "sum16 (b @ be_bytes 2 n) = sum16 b + sum16_from 0 (be_bytes 2 n)" for n
    using e sum16_from_start [of "sum16_from 0 b"]
    by (simp add: sum16_def sum16_from_append even_iff_mod_2_eq_zero)
  then show ?thesis by (simp only: half_word) simp
qed

lemma check_image_ret_0:
  "check_image_ret (sg @ h @ be_bytes 4 n @ body @ rest) 0 =
     (if sg = CS6C then (1, Some (sum16 body)) else if sg = CR6C then (2, Some (sum16 body)) else (0, None))"
  if "length sg = 4" "length h = 8" "length body = n" "n < 256 ^ 4"
proof -
  define B where "B = sg @ h @ be_bytes 4 n @ body @ rest"
  have s: "take 4 B = sg" "slice B 12 16 = be_bytes 4 n" "slice B 16 (16 + n) = body" "16 \<le> length B"
    using that by (simp_all add: B_def slice_skip slice_here)
  have "be_val (be_bytes 4 n) = n" using that by (simp add: be_val_be_bytes)
  moreover have "CS6C \<noteq> CR6C" by (simp add: CS6C_def CR6C_def)
  ultimately show ?thesis
    using that s unfolding B_def [symmetric] by (auto simp: check_image_ret_def Let_def HDR_LEN_def simp del: length_slice)
qed

lemma check_image_ret_drop: "off \<le> length blob \<Longrightarrow> check_image_ret blob off = check_image_ret (drop off blob) 0"
proof -
  assume l: "off \<le> length blob"
  have s: "slice blob (off + a) (off + b) = slice (drop off blob) a b" for a b
    by (simp add: slice_def add.commute)
  show ?thesis
    using l s [of 0] s [of 12 16] s [of HDR_LEN]
    by (simp add: check_image_ret_def Let_def of_nat_diff add.assoc)
qed

lemma image_ret:
  assumes "wrappable binary start at" "length (image_of binary start at) \<le> 0xFFFFFFFF"
  shows "check_image_ret (image_of binary start at @ rest) 0 = (1, Some 0)"
proof -
  let ?p = "binary @ be_bytes 2 (unat (- sum16 binary))"
  have "length ?p < 256 ^ 4" using assms(2) by (simp add: length_image_of HDR_LEN_def TAIL_LEN_def)
  then show ?thesis
    using check_image_ret_0 [of CS6C "be_bytes 4 (nat start) @ be_bytes 4 (nat at)" ?p "length ?p" rest]
      sum16_closed [of binary] assms(1)
    by (simp add: image_of_def Let_def CS6C_def wrappable_def)
qed

lemma gate_image_iff:
  "gate_image img at region = None \<longleftrightarrow>
     at \<in> set MUST_BOOT \<and> int (length img) \<le> region \<and> check_image_ret img 0 = (1, Some 0)"
proof -
  have "\<exists>a b c d. stock_loader_verdict img = Recognised a b c d" if "check_image_ret img 0 = (1, Some 0)"
  proof -
    have l: "16 \<le> length img" and t: "take 4 img = CS6C"
      using that by (auto simp: check_image_ret_def Let_def HDR_LEN_def slice_def split: if_splits)
    then show ?thesis
      by (auto simp: stock_loader_verdict_def Let_def CS6C_def CHECK_IMAGE_SIGS_def be_at_def)
  qed
  then show ?thesis
    by (auto simp: gate_image_def split: prod.splits option.splits if_splits stock.splits)
qed

lemma erased_ret: "take 4 (drop off blob) = replicate 4 ERASED \<Longrightarrow> check_image_ret blob off = (0, None)"
  by (simp add: check_image_ret_def Let_def slice_def CS6C_def CR6C_def ERASED_def numeral_eq_Suc)

lemma must_boot_at: "at \<in> set MUST_BOOT \<Longrightarrow> at = 0x10000 \<or> at = 0x20000"
  by (simp add: MUST_BOOT_def)

lemma cmd_wrap_iff:
  assumes "wa_region_bytes a \<le> 0xFFFFFFFF"
  shows "cmd_wrap files a = Wrapped out img ok \<longleftrightarrow>
    (\<exists>binary. files (wa_in a) = Some binary \<and> wrappable binary (wa_start_addr a) (wa_flash_at a) \<and>
       wa_flash_at a \<in> set MUST_BOOT \<and> int (length binary) + 18 \<le> wa_region_bytes a \<and>
       img = image_of binary (wa_start_addr a) (wa_flash_at a) \<and> out = wa_out a \<and>
       ok = (check (wa_flash_at a) (int (length img)) = Inr None))"
proof -
  have g: "gate_image (image_of b (wa_start_addr a) (wa_flash_at a)) (wa_flash_at a) (wa_region_bytes a) = None \<longleftrightarrow>
      wa_flash_at a \<in> set MUST_BOOT \<and> int (length b) + 18 \<le> wa_region_bytes a"
    if "wrappable b (wa_start_addr a) (wa_flash_at a)" for b
    using image_ret [OF that, of "[]"] assms
    by (auto simp: gate_image_iff length_image_of HDR_LEN_def TAIL_LEN_def)
  have "cmd_wrap files a = Wrapped out img ok \<longleftrightarrow>
    (\<exists>binary. files (wa_in a) = Some binary \<and> build_image binary (wa_start_addr a) (wa_flash_at a) = Inr img \<and>
       gate_image img (wa_flash_at a) (wa_region_bytes a) = None \<and> out = wa_out a \<and>
       ok = (check (wa_flash_at a) (int (length img)) = Inr None))"
    by (auto simp: cmd_wrap_def split: option.splits sum.splits)
  then show ?thesis using g by (auto simp: build_image_iff)
qed

subsection \<open>The chip\<close>

definition clear_of :: "placement \<Rightarrow> placement \<Rightarrow> bool" where
  "clear_of p q = (case (p, q) of ((o2, p2, b2), (off, path, blob)) \<Rightarrow>
     \<not> (off < o2 + int (length b2) \<and> off + int (length blob) > o2))"

definition fits :: "int \<Rightarrow> placement list \<Rightarrow> bool" where
  "fits chip ps \<longleftrightarrow> (\<forall>(off, path, blob) \<in> set ps. off + int (length blob) \<le> chip) \<and> sorted_wrt clear_of ps"

text \<open>
  The chip a list of placements describes: every file stands at its offset, and every byte no file
  covers is erased.
\<close>

definition describes :: "int \<Rightarrow> placement list \<Rightarrow> bytes \<Rightarrow> bool" where
  "describes chip ps m \<longleftrightarrow>
     length m = nat chip \<and>
     (\<forall>(off, path, blob) \<in> set ps. off + int (length blob) \<le> chip \<and>
        (\<forall>k < length blob. m ! (nat off + k) = blob ! k)) \<and>
     (\<forall>i < length m. (\<forall>(off, path, blob) \<in> set ps. \<not> (off \<le> int i \<and> int i < off + int (length blob))) \<longrightarrow>
        m ! i = ERASED)"

lemma py_assign_nonneg:
  assumes "0 \<le> off" "off + int (length b) \<le> int (length m)"
  shows "py_assign m off (off + int (length b)) b = take (nat off) m @ b @ drop (nat off + length b) m"
proof -
  have "nat (off + int (length b)) = nat off + length b" using assms(1) by simp
  moreover have "nat off + length b \<le> length m" using assms by linarith
  ultimately show ?thesis using assms by (simp add: py_assign_def py_index_def Let_def)
qed

lemma place_loop_fits:
  "(\<exists>m'. place_loop chip ps m taken = Inr m') \<longleftrightarrow>
     (\<forall>(off, path, blob) \<in> set ps. off + int (length blob) \<le> chip) \<and> sorted_wrt clear_of ps \<and>
     (\<forall>q \<in> set taken. \<forall>p \<in> set ps. clear_of q p)"
proof (induction ps arbitrary: m taken)
  case (Cons p ps)
  obtain off path blob where p: "p = (off, path, blob)" by (cases p)
  have f: "find (\<lambda>(o2, p2, b2). off < o2 + int (length b2) \<and> off + int (length blob) > o2) taken = None \<longleftrightarrow>
      (\<forall>q \<in> set taken. clear_of q p)"
    by (auto simp: find_None_iff clear_of_def p split: prod.splits)
  show ?case
  proof (cases "off + int (length blob) \<le> chip \<and> (\<forall>q \<in> set taken. clear_of q p)")
    case True
    then show ?thesis using f Cons.IH [of _ "taken @ [p]"] by (auto simp: p Let_def)
  next
    case False
    then show ?thesis using f by (auto simp: p Let_def split: option.splits)
  qed
qed auto

lemma place_loop_describes:
  assumes "place_loop chip ps m taken = Inr m'" "describes chip taken m"
    and "\<forall>(off, path, blob) \<in> set (taken @ ps). 0 \<le> off"
  shows "describes chip (taken @ ps) m'"
  using assms
proof (induction ps arbitrary: m taken)
  case (Cons p ps)
  obtain off path blob where p: "p = (off, path, blob)" by (cases p)
  let ?m = "py_assign m off (off + int (length blob)) blob"
  have e: "off + int (length blob) \<le> chip" and c: "\<forall>q \<in> set taken. clear_of q p" and
    r: "place_loop chip ps ?m (taken @ [p]) = Inr m'"
    using Cons.prems(1)
    by (auto simp: p Let_def clear_of_def find_None_iff split: if_splits option.splits)
  have l: "length m = nat chip" and o: "0 \<le> off" using Cons.prems(2,3) by (auto simp: describes_def p)
  have le: "nat off + length blob \<le> length m" using e l o by linarith
  have a: "?m = take (nat off) m @ blob @ drop (nat off + length blob) m"
    using e l o by (intro py_assign_nonneg) simp_all
  have n: "?m ! i = (if nat off \<le> i \<and> i < nat off + length blob then blob ! (i - nat off) else m ! i)"
    if "i < length m" for i
    unfolding a using le that by (auto simp: nth_append)
  have "describes chip (taken @ [p]) ?m"
    unfolding describes_def
  proof (intro conjI)
    show "length ?m = nat chip" using a le l by simp
    show "\<forall>(o2, p2, b2) \<in> set (taken @ [p]). o2 + int (length b2) \<le> chip \<and>
        (\<forall>k < length b2. ?m ! (nat o2 + k) = b2 ! k)"
    proof (clarify, intro conjI allI impI)
      fix o2 p2 b2 assume "(o2, p2, b2) \<in> set (taken @ [p])"
      then show "o2 + int (length b2) \<le> chip" using Cons.prems(2) e by (auto simp: describes_def p)
    next
      fix o2 p2 b2 k assume q: "(o2, p2, b2) \<in> set (taken @ [p])" and k: "k < length b2"
      show "?m ! (nat o2 + k) = b2 ! k"
      proof (cases "(o2, p2, b2) = p")
        case True
        then show ?thesis using n [of "nat o2 + k"] k le by (simp add: p)
      next
        case False
        then have t: "(o2, p2, b2) \<in> set taken" using q by simp
        then have "0 \<le> o2" using Cons.prems(3) by auto
        moreover have "clear_of (o2, p2, b2) p" using c t by blast
        moreover have "m ! (nat o2 + k) = b2 ! k" using Cons.prems(2) t k by (auto simp: describes_def)
        moreover have "nat o2 + k < length m"
          using Cons.prems(2) t k l \<open>0 \<le> o2\<close> by (fastforce simp: describes_def)
        ultimately show ?thesis using n [of "nat o2 + k"] k o by (auto simp: clear_of_def p)
      qed
    qed
    show "\<forall>i<length ?m. (\<forall>(o2, p2, b2) \<in> set (taken @ [p]). \<not> (o2 \<le> int i \<and> int i < o2 + int (length b2))) \<longrightarrow>
        ?m ! i = ERASED"
    proof (intro allI impI)
      fix i assume i: "i < length ?m"
        and u: "\<forall>(o2, p2, b2) \<in> set (taken @ [p]). \<not> (o2 \<le> int i \<and> int i < o2 + int (length b2))"
      have im: "i < length m" using i a le by simp
      moreover have "\<not> (nat off \<le> i \<and> i < nat off + length blob)" using u o by (auto simp: p)
      ultimately show "?m ! i = ERASED" using n [of i] u Cons.prems(2) by (auto simp: describes_def)
    qed
  qed
  then show ?case using Cons.IH [OF r] Cons.prems(3) by (simp add: p)
qed simp

lemma describes_drop:
  assumes "describes chip ps m" "(off, path, blob) \<in> set ps" "0 \<le> off"
  shows "\<exists>rest. drop (nat off) m = blob @ rest"
proof -
  have l: "off + int (length blob) \<le> chip" "length m = nat chip" "\<forall>k < length blob. m ! (nat off + k) = blob ! k"
    using assms by (auto simp: describes_def)
  then have n: "nat off + length blob \<le> length m" using assms(3) by linarith
  then have "take (length blob) (drop (nat off) m) = blob"
    using l(3) by (intro nth_equalityI) auto
  then show ?thesis by (metis append_take_drop_id)
qed

lemma describes_erased:
  assumes "describes chip ps m" "int off + 4 \<le> chip"
    and "\<forall>(o2, path, blob) \<in> set ps. o2 + int (length blob) \<le> int off \<or> int off + 4 \<le> o2"
  shows "check_image_ret m off = (0, None)"
proof (rule erased_ret)
  have l: "length m = nat chip" using assms(1) by (simp add: describes_def)
  have e: "m ! (off + k) = ERASED" if "k < 4" for k
  proof -
    have "off + k < length m" using l assms(2) that by linarith
    moreover have "\<forall>(o2, path, blob) \<in> set ps. \<not> (o2 \<le> int (off + k) \<and> int (off + k) < o2 + int (length blob))"
      using assms(3) that by fastforce
    ultimately show ?thesis using assms(1) unfolding describes_def by blast
  qed
  have "off + 4 \<le> length m" using l assms(2) by linarith
  then show "take 4 (drop off m) = replicate 4 ERASED"
    using e by (intro nth_equalityI) auto
qed

lemma place_describes:
  assumes "place chip ps = Inr m" "\<forall>(off, path, blob) \<in> set ps. 0 \<le> off"
  shows "describes chip ps m"
  using place_loop_describes [OF assms(1) [unfolded place_def]] assms(2) by (simp add: describes_def)

lemma guard_raise_None:
  "guard_raise ps = None \<longleftrightarrow> (\<forall>(off, path, blob) \<in> set ps. 0 \<le> off \<and> blob \<noteq> [])"
proof -
  have r: "(\<exists>e. check off (int n) = Inl e) \<longleftrightarrow> n = 0 \<or> off < 0" for off n
    using blanket.refuses [of off "int n"] by simp
  have "guard_raise ps = None \<longleftrightarrow> filter (\<lambda>(off, path, blob). \<exists>e. check off (int (length blob)) = Inl e) ps = []"
  proof (cases "filter (\<lambda>(off, path, blob). \<exists>e. check off (int (length blob)) = Inl e) ps")
    case (Cons q r)
    then have "q \<in> set (filter (\<lambda>(off, path, blob). \<exists>e. check off (int (length blob)) = Inl e) ps)" by simp
    then obtain off path blob e where "q = (off, path, blob)" "check off (int (length blob)) = Inl e" by auto
    with Cons show ?thesis by (simp add: guard_raise_def)
  qed (simp add: guard_raise_def)
  then show ?thesis by (force simp: filter_empty_conv r)
qed

lemma verdict_word:
  "verdict m c None = (w, ok, ret, s16) \<Longrightarrow>
     ok = (if int c \<in> set MUST_BOOT then bootable m c else \<not> may_boot m c)"
  by (auto simp: verdict_def bootable_def may_boot_def Let_def split: prod.splits if_splits)

lemma slot_rows_ok:
  "slot_rows ps = Inr rows \<Longrightarrow> list_all (\<lambda>(off, path, rec). \<not> rec) rows \<longleftrightarrow>
     (\<forall>(off, path, blob) \<in> set ps. stock_loader_verdict (take HDR_LEN blob) = Not_an_image)"
  by (induction ps arbitrary: rows rule: slot_rows.induct) (auto simp: sbind_Inr split: stock.splits)

lemma slot_rows_total:
  "(\<forall>(off, path, blob) \<in> set ps. stock_loader_verdict (take HDR_LEN blob) = Not_an_image) \<Longrightarrow>
     \<exists>rows. slot_rows ps = Inr rows"
  by (induction ps rule: slot_rows.induct) auto

definition policy_holds :: "placement list \<Rightarrow> bytes \<Rightarrow> bool" where
  "policy_holds ps m \<longleftrightarrow>
     (\<forall>c \<in> set MUST_BOOT. bootable m (nat c)) \<and> (\<forall>c \<in> set MUST_NOT_BOOT. \<not> may_boot m (nat c)) \<and>
     (\<forall>(off, path, blob) \<in> set ps. off \<notin> set (MUST_BOOT @ MUST_NOT_BOOT) \<longrightarrow>
        stock_loader_verdict (take HDR_LEN blob) = Not_an_image)"

lemma scan_map_ok:
  "(\<exists>rows slots. scan_map (MUST_BOOT @ MUST_NOT_BOOT) ps m = Scanned rows slots 0) \<longleftrightarrow>
     (\<forall>(off, path, blob) \<in> set ps. 0 \<le> off \<and> blob \<noteq> []) \<and> policy_holds ps m"
proof (cases "guard_raise ps")
  case None
  let ?c = "MUST_BOOT @ MUST_NOT_BOOT"
  let ?out = "filter (\<lambda>(off, path, blob). off \<notin> set ?c) ps"
  have v: "fst (snd (verdict m n None)) \<longleftrightarrow>
      (if int n \<in> set MUST_BOOT then bootable m n else \<not> may_boot m n)" for n
    using verdict_word [of m n] by (cases "verdict m n None") auto
  have rows: "list_all (\<lambda>(c, w, ok, ret, s16). ok) (map (\<lambda>c. (c, verdict m (nat c) None)) ?c) \<longleftrightarrow>
      (\<forall>c \<in> set MUST_BOOT. bootable m (nat c)) \<and> (\<forall>c \<in> set MUST_NOT_BOOT. \<not> may_boot m (nat c))"
    by (simp add: MUST_BOOT_def MUST_NOT_BOOT_def split_beta v)
  have out: "(\<forall>(off, path, blob) \<in> set ?out. stock_loader_verdict (take HDR_LEN blob) = Not_an_image) \<longleftrightarrow>
      (\<forall>(off, path, blob) \<in> set ps. off \<notin> set ?c \<longrightarrow> stock_loader_verdict (take HDR_LEN blob) = Not_an_image)"
    by fastforce
  show ?thesis
  proof (cases "slot_rows ?out")
    case (Inl off)
    then have "\<not> (\<forall>(off, path, blob) \<in> set ?out. stock_loader_verdict (take HDR_LEN blob) = Not_an_image)"
      using slot_rows_total [of ?out] by auto
    then show ?thesis using None Inl unfolding out by (auto simp: scan_map_def Let_def policy_holds_def)
  next
    case (Inr slots)
    let ?rows = "map (\<lambda>c. (c, verdict m (nat c) None)) ?c"
    have "scan_map ?c ps m = Scanned ?rows slots (if list_all (\<lambda>(c, w, ok, ret, s16). ok) ?rows \<and>
        list_all (\<lambda>(off, path, rec). \<not> rec) slots then 0 else 1)"
      by (simp only: scan_map_def None Inr Let_def option.case sum.case)
    then have "(\<exists>rows slots. scan_map ?c ps m = Scanned rows slots 0) \<longleftrightarrow>
        list_all (\<lambda>(c, w, ok, ret, s16). ok) ?rows \<and> list_all (\<lambda>(off, path, rec). \<not> rec) slots"
      by simp
    then show ?thesis
      using None guard_raise_None [of ps] unfolding policy_holds_def rows slot_rows_ok [OF Inr] out by blast
  qed
next
  case (Some e)
  then show ?thesis using guard_raise_None [of ps] by (auto simp: scan_map_def)
qed

lemma image_layout:
  "slice (image_of binary start at) HDR_LEN (HDR_LEN + length binary) = binary"
proof -
  have "length CS6C = 4" by (simp add: CS6C_def)
  then show ?thesis by (simp add: image_of_def Let_def slice_skip slice_here HDR_LEN_def)
qed

subsection \<open>Properties\<close>

text \<open>
  C16. \<open>wrap\<close> makes exactly the images the loader boots unconditionally: it writes one for, and only
  for, a non-empty even binary, addresses of 32 bits, one of the two offsets that must boot and a
  result of at most one region, and what it writes carries the binary unchanged behind the header
  and makes \<open>check_image()\<close> return 1 with a zero sum.
\<close>

theorem wrap_exact:
  assumes "wa_region_bytes a \<le> 0xFFFFFFFF"
  shows "cmd_wrap files a = Wrapped out img ok \<longleftrightarrow>
    (\<exists>binary. files (wa_in a) = Some binary \<and> wrappable binary (wa_start_addr a) (wa_flash_at a) \<and>
       wa_flash_at a \<in> set MUST_BOOT \<and> int (length binary) + 18 \<le> wa_region_bytes a \<and>
       img = image_of binary (wa_start_addr a) (wa_flash_at a) \<and> out = wa_out a \<and> bootable img 0 \<and>
       slice img HDR_LEN (HDR_LEN + length binary) = binary \<and>
       ok = (check (wa_flash_at a) (int (length img)) = Inr None))"
proof -
  have "bootable (image_of b (wa_start_addr a) (wa_flash_at a)) 0"
    if "wrappable b (wa_start_addr a) (wa_flash_at a)" "int (length b) + 18 \<le> wa_region_bytes a" for b
    using image_ret [OF that(1), of "[]"] that(2) assms
    by (simp add: bootable_def length_image_of HDR_LEN_def TAIL_LEN_def)
  then show ?thesis unfolding cmd_wrap_iff [OF assms] using image_layout by blast
qed

theorem wrap_exact_witness:
  "cmd_wrap (\<lambda>p. if p = ''b'' then Some ''ab'' else None)
     \<lparr>wa_in = ''b'', wa_out = ''o'', wa_start_addr = 0x80100000, wa_flash_at = 0x10000,
      wa_region_bytes = REGION_BYTES\<rparr> = Wrapped ''o'' (image_of ''ab'' 0x80100000 0x10000) True"
proof -
  let ?a = "\<lparr>wa_in = ''b'', wa_out = ''o'', wa_start_addr = 0x80100000, wa_flash_at = 0x10000,
      wa_region_bytes = REGION_BYTES\<rparr>"
  let ?i = "image_of ''ab'' 0x80100000 0x10000"
  have l: "length ?i = 20" by (simp add: length_image_of HDR_LEN_def TAIL_LEN_def)
  have w: "wrappable ''ab'' 0x80100000 0x10000" by (simp add: wrappable_def)
  have "bootable ?i 0" using image_ret [OF w, of "[]"] l by (simp add: bootable_def)
  moreover have "check 0x10000 20 = Inr None" by (simp add: check_arith)
  moreover have "wa_region_bytes ?a \<le> 0xFFFFFFFF" by (simp add: REGION_BYTES_def)
  ultimately show ?thesis
    using wrap_exact [of ?a "\<lambda>p. if p = ''b'' then Some ''ab'' else None" "''o''" ?i True] l w image_layout [where binary = "''ab''"]
    by (simp add: MUST_BOOT_def REGION_BYTES_def)
qed

text \<open>
  C17. The map of the chip refines its description: \<open>place\<close> returns one exactly for files that end on
  the chip and do not run into each other, and then, for offsets that are not negative, the map has
  the chip's size, every file stands unchanged at its offset whatever was placed after it, and
  every byte that no file covers is erased.
\<close>

theorem place_refines:
  "((\<exists>m. place chip ps = Inr m) \<longleftrightarrow> fits chip ps) \<and>
   (\<forall>m. place chip ps = Inr m \<and> (\<forall>(off, path, blob) \<in> set ps. 0 \<le> off) \<longrightarrow> describes chip ps m)"
  using place_describes [of chip ps] place_loop_fits [of chip ps _ "[]"]
  by (auto simp: place_def fits_def)

theorem place_refines_witness: "\<exists>m. place 8 [(1, ''p'', ''ab'')] = Inr m \<and> describes 8 [(1, ''p'', ''ab'')] m"
proof -
  have f: "fits 8 [(1, ''p'', ''ab'')]" by (simp add: fits_def)
  then obtain m where m: "place 8 [(1, ''p'', ''ab'')] = Inr m" using place_refines by blast
  have "describes 8 [(1, ''p'', ''ab'')] m"
    using place_refines [of 8 "[(1, ''p'', ''ab'')]"] m by simp
  with m show ?thesis by blast
qed

text \<open>
  C18. The sweep ends: for every positive step the loop that derives the scan table returns, and what
  it returns is the fixed probes followed by every other stop of the sweep, in order; the loader's
  kernel table is the four-and-two split of the policy, and its rootfs table has eleven entries.
\<close>

theorem candidates_total:
  assumes "0 < step"
  shows "fixed_then_sweep fixed start end step =
      Some (fixed @ filter (\<lambda>x. x \<notin> set fixed)
        (map (\<lambda>k. start + int k * step) [0..<nat ((end - start) div step + 1)])) \<and>
    scan_candidates = Some (MUST_BOOT @ MUST_NOT_BOOT) \<and>
    map_option length rootfs_candidates = Some 11"
proof -
  have r: "rootfs_candidates = Some (ROOTFS_FIXED @ filter (\<lambda>x. x \<notin> set ROOTFS_FIXED)
      (map (\<lambda>k. ROOTFS_START + int k * ROOTFS_STEP) [0..<9]))"
    unfolding rootfs_candidates_def fixed_then_sweep_def
    by (rule sweep_run) (auto simp: ROOTFS_START_def ROOTFS_END_def ROOTFS_STEP_def)
  have "map_option length rootfs_candidates = Some 11"
    unfolding r by (simp add: ROOTFS_FIXED_def ROOTFS_START_def ROOTFS_STEP_def upt_rec)
  then show ?thesis using assms by (simp add: scan_candidates_eq fixed_then_sweep_def sweep_total)
qed

theorem candidates_total_witness: "fixed_then_sweep [2, 5] 0 5 2 = Some [2, 5, 0, 4]"
  using candidates_total [of 2 "[2, 5]" 0 5] by (simp add: upt_rec)

lemma scan_passes:
  assumes "traverse (placement_of files) specs = Inr ps" "place chip ps = Inr m"
    "\<forall>(off, path, blob) \<in> set ps. 0 \<le> off \<and> blob \<noteq> []" "policy_holds ps m"
  shows "\<exists>rows slots. cmd_scan files chip specs = Some (Scanned rows slots 0)"
  using assms scan_map_ok by (simp add: cmd_scan_def scan_candidates_eq)

text \<open>
  Status 0 of \<open>scan\<close> is the policy: the scan always ends, and it reports status 0 exactly when the
  options name files that lie on the chip apart from each other, none is empty, both offsets that
  must boot hold an image the loader boots unconditionally, no barrier offset holds one it could
  boot, and no file placed off the table begins with a signature the loader knows; the map that is
  judged is the described one.
\<close>

theorem scan_exact:
  "cmd_scan files chip specs \<noteq> None \<and>
   ((\<exists>rows slots. cmd_scan files chip specs = Some (Scanned rows slots 0)) \<longleftrightarrow>
    (\<exists>ps m. traverse (placement_of files) specs = Inr ps \<and> place chip ps = Inr m \<and> describes chip ps m \<and>
       (\<forall>(off, path, blob) \<in> set ps. 0 \<le> off \<and> blob \<noteq> []) \<and> policy_holds ps m))"
proof -
  have n: "cmd_scan files chip specs \<noteq> None"
    by (auto simp: cmd_scan_def scan_candidates_eq split: sum.splits)
  have e: "(\<exists>rows slots. cmd_scan files chip specs = Some (Scanned rows slots 0)) \<longleftrightarrow>
    (\<exists>ps m. traverse (placement_of files) specs = Inr ps \<and> place chip ps = Inr m \<and>
       (\<exists>rows slots. scan_map (MUST_BOOT @ MUST_NOT_BOOT) ps m = Scanned rows slots 0))"
    by (auto simp: cmd_scan_def scan_candidates_eq split: sum.splits)
  have d: "describes chip ps m" if "place chip ps = Inr m" "\<forall>(off, path, blob) \<in> set ps. 0 \<le> off \<and> blob \<noteq> []" for ps m
    using that by (auto intro: place_describes)
  show ?thesis unfolding e scan_map_ok using n d by blast
qed

text \<open>A chip that holds one file in the first slot and no image: the scan ends, and not with status 0.\<close>

theorem scan_exact_witness:
  "cmd_scan [''p'' \<mapsto> ''ab''] 0x80000 [''0x070000=p''] \<noteq> None \<and>
   \<not> (\<exists>rows slots. cmd_scan [''p'' \<mapsto> ''ab''] 0x80000 [''0x070000=p''] = Some (Scanned rows slots 0))"
proof -
  have "int0 ''0x070000'' = Some 0x70000"
    by (simp add: int0_def unsigned0_def prefixed_def base_num_def strip_def lstrip_def rstrip_def py_space_def
        of_base_def is_hex_def is_hex_lower_def is_digit_def hex_val_def)
  then have t: "traverse (placement_of [''p'' \<mapsto> ''ab'']) [''0x070000=p''] = Inr [(0x70000, ''p'', ''ab'')]"
    by (simp add: placement_of_def)
  have "\<not> policy_holds [(0x70000, ''p'', ''ab'')] m" if "describes 0x80000 [(0x70000, ''p'', ''ab'')] m" for m
  proof -
    have "check_image_ret m 0x10000 = (0, None)" by (rule describes_erased [OF that]) auto
    then show ?thesis by (simp add: policy_holds_def MUST_BOOT_def bootable_def)
  qed
  then show ?thesis using scan_exact [of "[''p'' \<mapsto> ''ab'']" "0x80000" "[''0x070000=p'']"] unfolding t by auto
qed

end
