(* ===== verification/BootSlot.thy ===== *)
theory BootSlot
  imports "HOL-Library.Monad_Syntax" Prelude PyText
begin

text \<open>
  \<open>tools/bootslot.py\<close>: which slot a serial capture shows rlxboot booting, judged against an
  expectation.  \<open>parse\<close> reads the capture's lines, \<open>judge\<close> checks them against each other and against
  what was wanted; a \<open>Refused\<close> is a value of \<open>slot_refusal\<close>.  The matchers return the groups of the
  program's patterns; a decimal group is read at any length.
\<close>

subsection \<open>Lines\<close>

datatype slot = SlotA | SlotB
datatype choice = Chose slot | Halted
datatype seen = Ok_ver nat | Bad string

definition REASONS :: "string list" where
  "REASONS = [''ok'', ''short'', ''magic'', ''format'', ''header_len'', ''version'', ''payload_len'', ''flags'',
     ''reserved'', ''load_addr'', ''entry_addr'', ''dst_self'', ''dst_buf'', ''dst_loader'', ''truncated'', ''sig'',
     ''digest'', ''rollback'', ''flash_dst'', ''flash_match'', ''flash_form'']"

definition OUT_OF_RANGE :: string where "OUT_OF_RANGE = ''bad_reason''"

fun SLOTS :: "slot \<Rightarrow> nat \<times> nat" where
  "SLOTS SlotA = (0x00070000, 0x81000000)"
| "SLOTS SlotB = (0x00190000, 0x81200000)"

definition TICK :: nat where "TICK = 0x10000"

definition slot_char :: "slot \<Rightarrow> char" where
  "slot_char s = (case s of SlotA \<Rightarrow> CHR ''A'' | SlotB \<Rightarrow> CHR ''B'')"

definition exact :: "nat \<Rightarrow> (char \<Rightarrow> bool) \<Rightarrow> string \<Rightarrow> (string \<times> string) option" where
  "exact n p s = (if n \<le> length s \<and> list_all p (take n s) then Some (take n s, drop n s) else None)"

definition some1 :: "(char \<Rightarrow> bool) \<Rightarrow> string \<Rightarrow> (string \<times> string) option" where
  "some1 p s = (if s = [] \<or> \<not> p (hd s) then None else Some (takeWhile p s, dropWhile p s))"

definition slot_at :: "string \<Rightarrow> (slot \<times> string) option" where
  "slot_at s = (if take 1 s = ''A'' then Some (SlotA, tl s)
                else if take 1 s = ''B'' then Some (SlotB, tl s) else None)"

definition at_end :: "'a \<Rightarrow> string \<Rightarrow> 'a option" where
  "at_end x s = (if s = [] then Some x else None)"

definition is_word :: "char \<Rightarrow> bool" where
  "is_word c \<longleftrightarrow> 97 \<le> (of_char c :: nat) \<and> (of_char c :: nat) \<le> 122 \<or> c = CHR ''_''"

text \<open>\<open>search\<close>: the first place a pattern matches.\<close>

fun search :: "(string \<Rightarrow> 'a option) \<Rightarrow> string \<Rightarrow> 'a option" where
  "search m [] = m []"
| "search m (c # s) = (case m (c # s) of Some x \<Rightarrow> Some x | None \<Rightarrow> search m s)"

definition BANNER_RE :: "string \<Rightarrow> string option" where
  "BANNER_RE = search (\<lambda>s. do { s \<leftarrow> lit ''RLXBOOT-V1 build='' s; (h, s) \<leftarrow> exact 8 is_hex_lower s; Some h })"

definition ID0_RX :: "string \<Rightarrow> string option" where
  "ID0_RX = search (\<lambda>s. do { s \<leftarrow> lit ''RLXFW-ID0='' s; (h, s) \<leftarrow> exact 8 is_hex s; Some h })"

definition FROM_RE :: "string \<Rightarrow> string option" where
  "FROM_RE s = do { s \<leftarrow> lit ''RLXBOOT-FROM '' s; (h, s) \<leftarrow> exact 8 is_hex_lower s; at_end h s }"

definition KEY_RE :: "string \<Rightarrow> (string \<times> string) option" where
  "KEY_RE s = do {
     s \<leftarrow> lit ''RLXBOOT-KEY '' s;
     (k, s) \<leftarrow> (if prefix ''prod '' s then Some (''prod'', drop 5 s)
                else if prefix ''dev '' s then Some (''dev'', drop 4 s) else None);
     (h, s) \<leftarrow> exact 64 is_hex_lower s;
     at_end (k, h) s }"

definition CTR_RE :: "string \<Rightarrow> string option" where
  "CTR_RE s = do { s \<leftarrow> lit ''RLXBOOT-CTRSRC '' s; if s = ''flash'' \<or> s = ''ram'' then Some s else None }"

text \<open>Flash offset, buffer, length, dots, and whether a blank follows the length.\<close>

type_synonym read_line = "nat \<times> nat \<times> nat \<times> nat \<times> bool"

definition READ_RE :: "string \<Rightarrow> (slot \<times> read_line) option" where
  "READ_RE s = do {
     s \<leftarrow> lit ''RLXBOOT-READ '' s;
     (w, s) \<leftarrow> slot_at s;
     s \<leftarrow> lit '' flash='' s;
     (f, s) \<leftarrow> exact 8 is_hex_lower s;
     s \<leftarrow> lit '' buf='' s;
     (b, s) \<leftarrow> exact 8 is_hex_lower s;
     s \<leftarrow> lit '' n='' s;
     (n, s) \<leftarrow> some1 is_digit s;
     if s = [] then Some (w, hex_num f, hex_num b, dec_num n, 0, False)
     else if hd s = CHR '' '' \<and> list_all (\<lambda>c. c = CHR ''.'') (tl s)
     then Some (w, hex_num f, hex_num b, dec_num n, length (tl s), True)
     else None }"

definition VERDICT_RE :: "string \<Rightarrow> (slot \<times> seen) option" where
  "VERDICT_RE s = do {
     s \<leftarrow> lit ''RLXBOOT-VERDICT '' s;
     (w, s) \<leftarrow> slot_at s;
     s \<leftarrow> lit '' '' s;
     if prefix ''ok ver='' s
     then do { (d, s) \<leftarrow> some1 is_digit (drop 7 s); at_end (w, Ok_ver (dec_num d)) s }
     else do { s \<leftarrow> lit ''bad='' s; (r, s) \<leftarrow> some1 is_word s; at_end (w, Bad r) s } }"

definition STAGE_OK :: "string list" where
  "STAGE_OK = [''RLXBOOT-HDR ok'', ''RLXBOOT-SIG ok'', ''RLXBOOT-DIGEST ok'']"

text \<open>The running version and whether the line ends in \<open>ok\<close>.\<close>

definition VER_RE :: "string \<Rightarrow> (nat \<times> bool) option" where
  "VER_RE s = do {
     s \<leftarrow> lit ''RLXBOOT-VER cur='' s;
     (c, s) \<leftarrow> some1 is_digit s;
     s \<leftarrow> lit '' ctr='' s;
     (k, s) \<leftarrow> some1 is_digit s;
     if s = '' ok'' then Some (dec_num c, True) else if s = '' bad'' then Some (dec_num c, False) else None }"

definition SLOT_RE :: "string \<Rightarrow> slot option" where
  "SLOT_RE s = do { s \<leftarrow> lit ''RLXBOOT-SLOT '' s; (w, s) \<leftarrow> slot_at s; at_end w s }"

definition HALT_RE :: "string \<Rightarrow> (string \<times> string) option" where
  "HALT_RE s = do {
     s \<leftarrow> lit ''RLXBOOT-HALT A='' s; (a, s) \<leftarrow> some1 is_word s;
     s \<leftarrow> lit '' B='' s; (b, s) \<leftarrow> some1 is_word s; at_end (a, b) s }"

definition BOOT_RE :: "string \<Rightarrow> (string \<times> string) option" where
  "BOOT_RE s = do {
     s \<leftarrow> lit ''RLXBOOT-BOOT load='' s; (a, s) \<leftarrow> exact 8 is_hex_lower s;
     s \<leftarrow> lit '' entry='' s; (b, s) \<leftarrow> exact 8 is_hex_lower s; at_end (a, b) s }"

subsection \<open>\<open>parse\<close>\<close>

definition lines_of :: "string \<Rightarrow> string list" where
  "lines_of txt = split_on (CHR 0x0A) (filter (\<lambda>c. c \<noteq> CHR 0x0D) txt)"

record slot_facts =
  sf_read :: "read_line option"
  sf_stages :: "string list"
  sf_verdict :: "seen option"

definition no_facts :: slot_facts where
  "no_facts = \<lparr>sf_read = None, sf_stages = [], sf_verdict = None\<rparr>"

datatype event =
    Read_ev nat slot | Verdict_ev nat slot | Slot_ev nat slot | Halt_ev nat "string \<times> string"
  | Boot_ev nat "string \<times> string"

datatype slot_refusal =
    No_banner | Banners "nat list" | No_key | Keys nat | Froms nat | Ctrs nat | Ctr_ram
  | Many_slots nat | Many_halts nat | Many_boots nat | Ends_early | No_id slot bool bool | Ids nat
  | Bad_expect string string | Expect_no_number string string | Expect_no_reason string string
  | Bad_slot_arg string | Bad_from_arg string | Halt_with_manifest | Slot_without_manifest
  | No_from string | Manifest_unreadable string | Not_a_manifest string | Recipe_rows string nat
  | No_subcommand | Capture_unreadable string

record facts =
  ft_build :: string
  ft_banner_line :: nat
  ft_key :: "string \<times> string"
  ft_from :: "string option"
  ft_slots :: "slot \<Rightarrow> slot_facts"
  ft_order :: "event list"
  ft_choice :: choice
  ft_halt :: "(string \<times> string) option"
  ft_boot :: "(string \<times> string) option"
  ft_id0 :: "string option"
  ft_id0_before :: "string list"

definition numbered :: "string list \<Rightarrow> (nat \<times> string) list" where
  "numbered ln = zip [0..<length ln] ln"

text \<open>The slot of the last READ so far, and one line of the loop.\<close>

fun last_read :: "event list \<Rightarrow> slot option" where
  "last_read [] = None"
| "last_read (e # r) = (case last_read r of Some w \<Rightarrow> Some w
                        | None \<Rightarrow> (case e of Read_ev i w \<Rightarrow> Some w | _ \<Rightarrow> None))"

definition scan_line ::
    "(slot \<Rightarrow> slot_facts) \<times> event list \<Rightarrow> nat \<times> string \<Rightarrow> (slot \<Rightarrow> slot_facts) \<times> event list" where
  "scan_line st l =
     (let (slots, order) = st; (i, s) = l in
      case READ_RE s of
        Some (w, rd) \<Rightarrow> (slots(w := (slots w)\<lparr>sf_read := Some rd, sf_stages := []\<rparr>), order @ [Read_ev i w])
      | None \<Rightarrow> (case VERDICT_RE s of
        Some (w, v) \<Rightarrow> (slots(w := (slots w)\<lparr>sf_verdict := Some v\<rparr>), order @ [Verdict_ev i w])
      | None \<Rightarrow> (case SLOT_RE s of
        Some w \<Rightarrow> (slots, order @ [Slot_ev i w])
      | None \<Rightarrow> (case HALT_RE s of
        Some h \<Rightarrow> (slots, order @ [Halt_ev i h])
      | None \<Rightarrow> (case BOOT_RE s of
        Some b \<Rightarrow> (slots, order @ [Boot_ev i b])
      | None \<Rightarrow>
          (if s \<in> set STAGE_OK \<or> VER_RE s \<noteq> None then
             (case last_read order of
                Some w \<Rightarrow> (slots(w := (slots w)\<lparr>sf_stages := sf_stages (slots w) @ [s]\<rparr>), order)
              | None \<Rightarrow> (slots, order))
           else (slots, order)))))))"

definition is_slot_ev :: "event \<Rightarrow> bool" where "is_slot_ev e = (case e of Slot_ev i w \<Rightarrow> True | _ \<Rightarrow> False)"
definition is_halt_ev :: "event \<Rightarrow> bool" where "is_halt_ev e = (case e of Halt_ev i h \<Rightarrow> True | _ \<Rightarrow> False)"
definition is_boot_ev :: "event \<Rightarrow> bool" where "is_boot_ev e = (case e of Boot_ev i b \<Rightarrow> True | _ \<Rightarrow> False)"

record chosen =
  ch_choice :: "choice option"
  ch_halt :: "(string \<times> string) option"
  ch_choice_line :: nat
  ch_boot :: "(string \<times> string) option"
  ch_boot_line :: "nat option"

fun note_event :: "chosen \<Rightarrow> event \<Rightarrow> chosen" where
  "note_event c (Slot_ev i w) = c\<lparr>ch_choice := Some (Chose w), ch_choice_line := i\<rparr>"
| "note_event c (Halt_ev i h) = c\<lparr>ch_choice := Some Halted, ch_halt := Some h, ch_choice_line := i\<rparr>"
| "note_event c (Boot_ev i b) = c\<lparr>ch_boot := Some b, ch_boot_line := Some i\<rparr>"
| "note_event c e = c"

definition matches :: "(string \<Rightarrow> 'a option) \<Rightarrow> string list \<Rightarrow> 'a list" where
  "matches m ln = concat (map (\<lambda>s. case m s of None \<Rightarrow> [] | Some x \<Rightarrow> [x]) ln)"

definition count_refusal :: "event list \<Rightarrow> slot_refusal option" where
  "count_refusal order =
     (let n = (\<lambda>p. length (filter p order)) in
      if n is_slot_ev > 1 then Some (Many_slots (n is_slot_ev))
      else if n is_halt_ev > 1 then Some (Many_halts (n is_halt_ev))
      else if n is_boot_ev > 1 then Some (Many_boots (n is_boot_ev))
      else if n is_slot_ev = 0 \<and> n is_halt_ev = 0 then Some Ends_early
      else None)"

definition chosen_of :: "event list \<Rightarrow> chosen" where
  "chosen_of order = foldl note_event
     \<lparr>ch_choice = None, ch_halt = None, ch_choice_line = 0, ch_boot = None, ch_boot_line = None\<rparr> order"

definition id_after :: "(nat \<times> string) list \<Rightarrow> chosen \<Rightarrow> bool \<Rightarrow> slot_refusal + string option" where
  "id_after seg c earlier =
     (case ch_choice c of Some (Chose w) \<Rightarrow>
        (let start = (case ch_boot_line c of Some i \<Rightarrow> i | None \<Rightarrow> ch_choice_line c);
             ids = matches ID0_RX (map snd (filter (\<lambda>(i, s). i > start) seg))
         in case ids of [] \<Rightarrow> Inl (No_id w (ch_boot c \<noteq> None) earlier)
            | [h] \<Rightarrow> Inr (Some h)
            | _ \<Rightarrow> Inl (Ids (length ids)))
      | _ \<Rightarrow> Inr None)"

definition parse_run ::
    "string \<Rightarrow> nat \<Rightarrow> string list \<Rightarrow> (nat \<times> string) list \<Rightarrow> slot_refusal + facts" where
  "parse_run build b0 id0_before seg =
     (let ls = map snd seg; keys = matches KEY_RE ls; froms = matches FROM_RE ls; ctrs = matches CTR_RE ls in
      if keys = [] then Inl No_key
      else if length keys > 1 then Inl (Keys (length keys))
      else if length froms > 1 then Inl (Froms (length froms))
      else if length ctrs \<noteq> 1 then Inl (Ctrs (length ctrs))
      else if hd ctrs \<noteq> ''flash'' then Inl Ctr_ram
      else let (slots, order) = foldl scan_line (\<lambda>w. no_facts, []) seg in
        case count_refusal order of Some e \<Rightarrow> Inl e
        | None \<Rightarrow>
           (let c = chosen_of order in
            sbind (id_after seg c (id0_before \<noteq> [])) (\<lambda>id0.
              Inr \<lparr>ft_build = build, ft_banner_line = b0 + 1, ft_key = hd keys,
                   ft_from = (if froms = [] then None else Some (hd froms)), ft_slots = slots, ft_order = order,
                   ft_choice = the (ch_choice c), ft_halt = ch_halt c, ft_boot = ch_boot c, ft_id0 = id0,
                   ft_id0_before = id0_before\<rparr>)))"

text \<open>Without a refusal there is a SLOT or a HALT event, so the choice is there to take.\<close>

definition parse :: "string \<Rightarrow> slot_refusal + facts" where
  "parse txt =
     (let ln = lines_of txt; banners = filter (\<lambda>(i, s). BANNER_RE s \<noteq> None) (numbered ln) in
      case banners of
        [] \<Rightarrow> Inl No_banner
      | [(b0, s)] \<Rightarrow>
          parse_run (the (BANNER_RE s)) b0 (matches ID0_RX (take b0 ln))
            (filter (\<lambda>(i, s). i > b0) (numbered ln))
      | _ \<Rightarrow> Inl (Banners (map (\<lambda>(i, s). i + 1) banners)))"

subsection \<open>The expectation\<close>

text \<open>\<open>$\<close> also matches before one trailing newline of an argument.\<close>

definition chomp :: "string \<Rightarrow> string" where
  "chomp s = (if s \<noteq> [] \<and> last s = CHR 0x0A then butlast s else s)"

datatype expect = Want_ok "nat option" | Want_bad "string option"

definition parse_expect :: "string option \<Rightarrow> string \<Rightarrow> slot_refusal + expect" where
  "parse_expect spec what =
     (let raw = (case spec of None \<Rightarrow> [] | Some s \<Rightarrow> s); s = chomp raw;
          bad = Inl (Bad_expect what raw) in
      if prefix ''ok'' s then
        (let r = drop 2 s in
         if r = [] then Inr (Want_ok None)
         else if hd r = CHR '':'' \<and> tl r \<noteq> [] \<and> (list_all is_digit (tl r) \<or> list_all is_word (tl r))
         then (if list_all is_digit (tl r) then Inr (Want_ok (Some (dec_num (tl r))))
               else Inl (Expect_no_number what raw))
         else bad)
      else if prefix ''bad'' s then
        (let r = drop 3 s in
         if r = [] then Inr (Want_bad None)
         else if hd r = CHR '':'' \<and> tl r \<noteq> [] \<and> (list_all is_digit (tl r) \<or> list_all is_word (tl r))
         then (if list_all is_digit (tl r) \<or> tl r = ''ok'' \<or> tl r \<notin> set (REASONS @ [OUT_OF_RANGE])
               then Inl (Expect_no_reason what raw) else Inr (Want_bad (Some (tl r))))
         else bad)
      else bad)"

definition from_word :: "string \<Rightarrow> slot_refusal + string" where
  "from_word s =
     (let t = chomp s;
          u = (if prefix ''0x'' t \<and> length t > 2 then drop 2 t else t) in
      if 1 \<le> length u \<and> length u \<le> 8 \<and> list_all is_hex u then Inr (hexL 8 (hex_num u)) else Inl (Bad_from_arg s))"

definition unicode_digit :: "char \<Rightarrow> bool" where
  "unicode_digit c \<longleftrightarrow> is_digit c \<or> of_char c \<in> {0xB2, 0xB3, 0xB9 :: nat}"

text \<open>\<open>str.isdigit\<close> is also true of three superscripts; \<open>files\<close> is the decoded text of a path.\<close>

definition read_manifest :: "(string \<Rightarrow> string option) \<Rightarrow> string \<Rightarrow> slot_refusal + string" where
  "read_manifest files path =
     (case files path of None \<Rightarrow> Inl (Manifest_unreadable path)
      | Some txt \<Rightarrow>
         (let rows = lines_of (universal_newlines txt); head = split_on (CHR 0x09) (hd rows);
              ids = map (drop 10) (filter (prefix (''recipe_id'' @ [CHR 0x09])) rows) in
          if length head \<noteq> 2 \<or> head ! 0 \<noteq> ''rlxfw-build-manifest'' \<or> head ! 1 = []
             \<or> \<not> list_all unicode_digit (head ! 1)
          then Inl (Not_a_manifest path)
          else if length ids \<noteq> 1 \<or> \<not> (length (hd ids) = 8 \<and> list_all is_hex_lower (hd ids))
          then Inl (Recipe_rows path (length ids))
          else Inr (hd ids)))"

definition d4 :: "(slot \<Rightarrow> slot_facts) \<Rightarrow> choice" where
  "d4 slots =
     (case (sf_verdict (slots SlotA), sf_verdict (slots SlotB)) of
        (Some (Ok_ver a), Some (Ok_ver b)) \<Rightarrow> Chose (if b > a then SlotB else SlotA)
      | (Some (Ok_ver a), _) \<Rightarrow> Chose SlotA
      | (_, Some (Ok_ver b)) \<Rightarrow> Chose SlotB
      | _ \<Rightarrow> Halted)"

subsection \<open>\<open>judge\<close>\<close>

record judge_args =
  ja_expect_slot :: string
  ja_expect_a :: "string option"
  ja_expect_b :: "string option"
  ja_manifest :: "string option"
  ja_allow_dev :: bool
  ja_from :: "string option"

definition given :: "string option \<Rightarrow> bool" where
  "given x \<longleftrightarrow> x \<noteq> None \<and> x \<noteq> Some []"

definition want_choice :: "string \<Rightarrow> choice option" where
  "want_choice s = (if s = ''A'' then Some (Chose SlotA) else if s = ''B'' then Some (Chose SlotB)
                    else if s = ''HALT'' then Some Halted else None)"

text \<open>What \<open>judge\<close> reads of its arguments before the capture: slot, the two verdicts, word and id.\<close>

definition judge_wants ::
    "(string \<Rightarrow> string option) \<Rightarrow> judge_args \<Rightarrow>
     slot_refusal + choice \<times> expect \<times> expect \<times> string option \<times> string option" where
  "judge_wants files a =
     (case want_choice (ja_expect_slot a) of None \<Rightarrow> Inl (Bad_slot_arg (ja_expect_slot a))
      | Some w \<Rightarrow>
         sbind (parse_expect (ja_expect_a a) ''--expect-a'') (\<lambda>ea.
         sbind (parse_expect (ja_expect_b a) ''--expect-b'') (\<lambda>eb.
         sbind (case ja_from a of None \<Rightarrow> Inr None
                | Some f \<Rightarrow> sbind (from_word f) (\<lambda>x. Inr (Some x))) (\<lambda>fw.
           if w = Halted \<and> given (ja_manifest a) then Inl Halt_with_manifest
           else if w \<noteq> Halted \<and> \<not> given (ja_manifest a) then Inl Slot_without_manifest
           else sbind (if given (ja_manifest a)
                       then sbind (read_manifest files (the (ja_manifest a))) (\<lambda>i. Inr (Some i))
                       else Inr None) (\<lambda>id.
             Inr (w, ea, eb, fw, id))))))"

definition seen_hit :: "expect \<Rightarrow> seen option \<Rightarrow> bool" where
  "seen_hit e v =
     (case (e, v) of
        (Want_ok None, Some (Ok_ver n)) \<Rightarrow> True
      | (Want_ok (Some k), Some (Ok_ver n)) \<Rightarrow> n = k
      | (Want_bad None, Some (Bad r)) \<Rightarrow> True
      | (Want_bad (Some q), Some (Bad r)) \<Rightarrow> r = q
      | _ \<Rightarrow> False)"

text \<open>The reason a verdict names, where it names one.\<close>

definition seen_reason :: "seen option \<Rightarrow> string option" where
  "seen_reason v = (case v of Some (Bad r) \<Rightarrow> Some r | None \<Rightarrow> Some [] | _ \<Rightarrow> None)"

definition stages_ok :: "string list \<Rightarrow> nat \<Rightarrow> bool" where
  "stages_ok st n =
     (list_all (\<lambda>x. x \<in> set st) STAGE_OK \<and> matches VER_RE st = [(n, True)])"

definition slot_checks :: "string \<Rightarrow> slot \<Rightarrow> slot_facts \<Rightarrow> expect \<Rightarrow> (bool \<times> string) list" where
  "slot_checks name w info e =
     (case sf_read info of None \<Rightarrow> []
      | Some (flash, buf, n, dots, spaced) \<Rightarrow>
          [((flash, buf) = SLOTS w, ''read '' @ name),
           (dots = n div TICK \<and> spaced = (n \<ge> TICK), ''copy '' @ name)]) @
     (case sf_verdict info of
        Some (Ok_ver n) \<Rightarrow> [(stages_ok (sf_stages info) n, ''stages '' @ name)]
      | _ \<Rightarrow> []) @
     [(seen_hit e (sf_verdict info), ''verdict '' @ name)]"

definition order_ok :: "event list \<Rightarrow> bool" where
  "order_ok order =
     (concat (map (\<lambda>e. case e of Read_ev i w \<Rightarrow> [(True, w)] | Verdict_ev i w \<Rightarrow> [(False, w)] | _ \<Rightarrow> []) order)
      = [(True, SlotA), (False, SlotA), (True, SlotB), (False, SlotB)])"

definition ascii_lower :: "string \<Rightarrow> string" where
  "ascii_lower s = map (\<lambda>c. if 65 \<le> (of_char c :: nat) \<and> (of_char c :: nat) \<le> 90
                            then char_of ((of_char c :: nat) + 32) else c) s"

definition judge_checks ::
    "bool \<Rightarrow> choice \<times> expect \<times> expect \<times> string option \<times> string option \<Rightarrow> facts \<Rightarrow> (bool \<times> string) list" where
  "judge_checks allow_dev wants f =
     (let (w, ea, eb, fw, id) = wants; s = ft_slots f in
      (case fw of None \<Rightarrow> [] | Some x \<Rightarrow> [(ft_from f = Some x, ''from'')]) @
      [(fst (ft_key f) = ''prod'' \<or> allow_dev, ''key''), (order_ok (ft_order f), ''order'')] @
      slot_checks ''A'' SlotA (s SlotA) ea @ slot_checks ''B'' SlotB (s SlotB) eb @
      [(ft_choice f = d4 s, ''D4'')] @
      (case ft_halt f of None \<Rightarrow> []
       | Some (a, b) \<Rightarrow> [(Some a = seen_reason (sf_verdict (s SlotA)) \<and> Some b = seen_reason (sf_verdict (s SlotB)),
                          ''halt'')]) @
      (case ft_choice f of Halted \<Rightarrow> []
       | Chose _ \<Rightarrow> [(ft_boot f \<noteq> None, ''boot''),
                     (map_option ascii_lower (ft_id0 f) = id \<and> id \<noteq> None, ''id'')]) @
      [(ft_choice f = w, ''slot'')])"

definition judge ::
    "(string \<Rightarrow> string option) \<Rightarrow> string \<Rightarrow> judge_args \<Rightarrow> slot_refusal + bool \<times> (bool \<times> string) list \<times> facts" where
  "judge files txt a =
     sbind (judge_wants files a) (\<lambda>wants.
     sbind (parse txt) (\<lambda>f.
       case (fst (snd (snd (snd wants))), ft_from f) of
         (Some x, None) \<Rightarrow> Inl (No_from x)
       | _ \<Rightarrow> (let res = judge_checks (ja_allow_dev a) wants f in Inr (list_all fst res, res, f))))"

subsection \<open>The command\<close>

datatype command = No_cmd | Show_cmd | Judge_cmd judge_args

definition refuse_args :: "command \<Rightarrow> slot_refusal option" where
  "refuse_args c =
     (case c of No_cmd \<Rightarrow> Some No_subcommand
      | Show_cmd \<Rightarrow> None
      | Judge_cmd a \<Rightarrow>
         (if want_choice (ja_expect_slot a) = None then Some (Bad_slot_arg (ja_expect_slot a))
          else case parse_expect (ja_expect_a a) ''--expect-a'' of Inl e \<Rightarrow> Some e
          | Inr _ \<Rightarrow> (case parse_expect (ja_expect_b a) ''--expect-b'' of Inl e \<Rightarrow> Some e
          | Inr _ \<Rightarrow> (case (case ja_from a of None \<Rightarrow> Inr [] | Some f \<Rightarrow> from_word f) of Inl e \<Rightarrow> Some e
          | Inr _ \<Rightarrow>
              (if want_choice (ja_expect_slot a) = Some Halted \<and> given (ja_manifest a) then Some Halt_with_manifest
               else if want_choice (ja_expect_slot a) \<noteq> Some Halted \<and> \<not> given (ja_manifest a)
               then Some Slot_without_manifest else None)))))"

datatype slot_out = Refused_out slot_refusal | Shown facts | Judged bool "(bool \<times> string) list"

definition slot_main :: "(string \<Rightarrow> string option) \<Rightarrow> command \<Rightarrow> string \<Rightarrow> slot_out \<times> nat" where
  "slot_main files c capture =
     (case refuse_args c of Some e \<Rightarrow> (Refused_out e, 3)
      | None \<Rightarrow>
         (case files capture of None \<Rightarrow> (Refused_out (Capture_unreadable capture), 3)
          | Some txt \<Rightarrow>
             (case c of
                Judge_cmd a \<Rightarrow>
                  (case judge files (universal_newlines txt) a of Inl e \<Rightarrow> (Refused_out e, 3)
                   | Inr (ok, res, f) \<Rightarrow> (Judged ok res, if ok then 0 else 1))
              | _ \<Rightarrow> (case parse (universal_newlines txt) of Inl e \<Rightarrow> (Refused_out e, 3)
                      | Inr f \<Rightarrow> (Shown f, 0)))))"

subsection \<open>Arguments\<close>

lemma refuse_args_judge:
  "refuse_args (Judge_cmd a) = Some e \<Longrightarrow> judge_wants files a = Inl e"
  by (auto simp: refuse_args_def judge_wants_def want_choice_def split: if_splits option.splits sum.splits)

lemma judge_wants_Inl:
  "judge_wants files a = Inl e \<Longrightarrow> refuse_args (Judge_cmd a) = Some e \<or>
     (refuse_args (Judge_cmd a) = None \<and> (\<exists>path. ja_manifest a = Some path \<and> read_manifest files path = Inl e))"
  by (auto simp: refuse_args_def judge_wants_def given_def sbind_def split: if_splits option.splits sum.splits)

lemma judge_wants_Inr:
  "judge_wants files a = Inr (w, ea, eb, fw, want) \<Longrightarrow>
     want_choice (ja_expect_slot a) = Some w \<and> parse_expect (ja_expect_a a) ''--expect-a'' = Inr ea \<and>
     parse_expect (ja_expect_b a) ''--expect-b'' = Inr eb \<and>
     (w = Halted \<longrightarrow> want = None) \<and>
     (w \<noteq> Halted \<longrightarrow> (\<exists>path rid. ja_manifest a = Some path \<and> read_manifest files path = Inr rid \<and> want = Some rid))"
  by (auto simp: judge_wants_def given_def sbind_Inr split: if_splits option.splits)

subsection \<open>What a pass says\<close>

lemma parse_Inr:
  "parse txt = Inr f \<Longrightarrow> \<exists>b0 s. filter (\<lambda>(i, s). BANNER_RE s \<noteq> None) (numbered (lines_of txt)) = [(b0, s)] \<and>
     parse_run (the (BANNER_RE s)) b0 (matches ID0_RX (take b0 (lines_of txt)))
       (filter (\<lambda>(i, s). i > b0) (numbered (lines_of txt))) = Inr f"
  by (auto simp: parse_def Let_def split: list.splits)

lemma id_after_Inr:
  "id_after seg c earlier = Inr id0 \<Longrightarrow>
     (case ch_choice c of
        Some (Chose w) \<Rightarrow> (\<exists>h. id0 = Some h \<and>
          matches ID0_RX (map snd (filter (\<lambda>(i, s). i > (case ch_boot_line c of Some i \<Rightarrow> i | None \<Rightarrow> ch_choice_line c))
            seg)) = [h])
      | _ \<Rightarrow> id0 = None)"
  by (auto simp: id_after_def Let_def split: option.splits choice.splits list.splits)

definition one_run :: "(nat \<times> string) list \<Rightarrow> facts \<Rightarrow> bool" where
  "one_run seg f \<longleftrightarrow>
     matches KEY_RE (map snd seg) = [ft_key f] \<and> matches CTR_RE (map snd seg) = [''flash''] \<and>
     matches FROM_RE (map snd seg) = (case ft_from f of None \<Rightarrow> [] | Some x \<Rightarrow> [x]) \<and>
     (ft_slots f, ft_order f) = foldl scan_line (\<lambda>w. no_facts, []) seg \<and>
     (\<exists>c. c = chosen_of (ft_order f) \<and> ft_choice f = the (ch_choice c) \<and>
        id_after seg c (ft_id0_before f \<noteq> []) = Inr (ft_id0 f) \<and> ft_boot f = ch_boot c \<and> ft_halt f = ch_halt c)"

lemma length_1: "xs \<noteq> [] \<Longrightarrow> \<not> Suc 0 < length xs \<Longrightarrow> xs = [hd xs]"
  by (cases xs) auto

lemma single: "length xs = Suc 0 \<Longrightarrow> hd xs = y \<Longrightarrow> xs = [y]"
  by (cases xs) auto

lemma parse_run_Inr:
  assumes "parse_run build b0 ids seg = Inr f"
  shows "one_run seg f \<and> ft_build f = build \<and> ft_banner_line f = b0 + 1 \<and> ft_id0_before f = ids \<and>
    count_refusal (ft_order f) = None"
proof -
  obtain slots order where o: "foldl scan_line (\<lambda>w. no_facts, []) seg = (slots, order)"
    by (cases "foldl scan_line (\<lambda>w. no_facts, []) seg")
  have k: "matches KEY_RE (map snd seg) = [hd (matches KEY_RE (map snd seg))]"
    and c: "matches CTR_RE (map snd seg) = [''flash'']"
    and fr: "matches FROM_RE (map snd seg) = [] \<or> matches FROM_RE (map snd seg) = [hd (matches FROM_RE (map snd seg))]"
    using assms length_1 [of "matches KEY_RE (map snd seg)"] length_1 [of "matches FROM_RE (map snd seg)"]
    by (auto simp: parse_run_def Let_def intro!: single split: if_splits)
  have "count_refusal order = None"
    using assms by (auto simp: parse_run_def Let_def o split: if_splits option.splits)
  moreover obtain id0 where "id_after seg (chosen_of order) (ids \<noteq> []) = Inr id0"
    and "f = \<lparr>ft_build = build, ft_banner_line = b0 + 1, ft_key = hd (matches KEY_RE (map snd seg)),
      ft_from = (if matches FROM_RE (map snd seg) = [] then None else Some (hd (matches FROM_RE (map snd seg)))),
      ft_slots = slots, ft_order = order, ft_choice = the (ch_choice (chosen_of order)),
      ft_halt = ch_halt (chosen_of order), ft_boot = ch_boot (chosen_of order), ft_id0 = id0, ft_id0_before = ids\<rparr>"
    using assms by (auto simp: parse_run_def Let_def o sbind_Inr split: if_splits option.splits)
  ultimately show ?thesis using k c fr o by (auto simp: one_run_def)
qed

definition slot_consistent :: "slot \<Rightarrow> slot_facts \<Rightarrow> expect \<Rightarrow> bool" where
  "slot_consistent w info e \<longleftrightarrow>
     seen_hit e (sf_verdict info) \<and> (\<forall>n. sf_verdict info = Some (Ok_ver n) \<longrightarrow> stages_ok (sf_stages info) n) \<and>
     (\<forall>flash buf n dots sp. sf_read info = Some (flash, buf, n, dots, sp) \<longrightarrow>
        (flash, buf) = SLOTS w \<and> dots = n div TICK)"

definition pass_facts :: "choice \<Rightarrow> expect \<Rightarrow> expect \<Rightarrow> string option \<Rightarrow> bool \<Rightarrow> facts \<Rightarrow> bool" where
  "pass_facts w ea eb rid dev f \<longleftrightarrow>
     ft_choice f = w \<and> d4 (ft_slots f) = w \<and> (fst (ft_key f) = ''prod'' \<or> dev) \<and> order_ok (ft_order f) \<and>
     slot_consistent SlotA (ft_slots f SlotA) ea \<and> slot_consistent SlotB (ft_slots f SlotB) eb \<and>
     (w \<noteq> Halted \<longrightarrow> ft_boot f \<noteq> None \<and> rid \<noteq> None \<and> map_option ascii_lower (ft_id0 f) = rid)"

lemma slot_checks_pass: "list_all fst (slot_checks name w info e) \<Longrightarrow> slot_consistent w info e"
  by (auto simp: slot_checks_def slot_consistent_def split: option.splits seen.splits)

lemma judge_checks_pass:
  assumes "list_all fst (judge_checks dev (w, ea, eb, fw, rid) f)"
  shows "pass_facts w ea eb rid dev f"
proof -
  have "slot_consistent SlotA (ft_slots f SlotA) ea" "slot_consistent SlotB (ft_slots f SlotB) eb"
    using assms by (auto simp: judge_checks_def Let_def intro!: slot_checks_pass)
  then show ?thesis using assms by (auto simp: pass_facts_def judge_checks_def Let_def split: choice.splits)
qed

lemma judge_Inr:
  assumes "judge files txt a = Inr (ok, res, f)"
  shows "\<exists>w ea eb fw rid. judge_wants files a = Inr (w, ea, eb, fw, rid) \<and> parse txt = Inr f \<and>
    res = judge_checks (ja_allow_dev a) (w, ea, eb, fw, rid) f \<and> ok = list_all fst res"
proof -
  obtain wants where j: "judge_wants files a = Inr wants" using assms by (auto simp: judge_def sbind_Inr)
  obtain w ea eb fw rid where "wants = (w, ea, eb, fw, rid)" by (cases wants) auto
  with j have "sbind (parse txt) (\<lambda>f. case (fw, ft_from f) of (Some x, None) \<Rightarrow> Inl (No_from x)
      | _ \<Rightarrow> (let res = judge_checks (ja_allow_dev a) (w, ea, eb, fw, rid) f in Inr (list_all fst res, res, f))) =
      Inr (ok, res, f)"
    using assms by (simp add: judge_def)
  then have "parse txt = Inr f \<and> res = judge_checks (ja_allow_dev a) (w, ea, eb, fw, rid) f \<and> ok = list_all fst res"
    by (cases fw) (auto simp: sbind_Inr Let_def split: option.splits)
  with j \<open>wants = _\<close> show ?thesis by blast
qed

lemma all_slots: "(\<forall>w. P w) \<longleftrightarrow> P SlotA \<and> P SlotB"
  using slot.induct [of P] by blast

lemma d4_Chose:
  "d4 slots = Chose v \<Longrightarrow> \<exists>n. sf_verdict (slots v) = Some (Ok_ver n) \<and>
     (\<forall>u m. sf_verdict (slots u) = Some (Ok_ver m) \<longrightarrow> m \<le> n)"
  unfolding all_slots
  by (cases v; cases "sf_verdict (slots SlotA)"; cases "sf_verdict (slots SlotB)")
    (auto simp: d4_def split: seen.splits if_splits)

subsection \<open>Line numbers and earlier lines\<close>

fun shift_ev :: "nat \<Rightarrow> event \<Rightarrow> event" where
  "shift_ev k (Read_ev i w) = Read_ev (i + k) w"
| "shift_ev k (Verdict_ev i w) = Verdict_ev (i + k) w"
| "shift_ev k (Slot_ev i w) = Slot_ev (i + k) w"
| "shift_ev k (Halt_ev i h) = Halt_ev (i + k) h"
| "shift_ev k (Boot_ev i b) = Boot_ev (i + k) b"

abbreviation shift_line :: "nat \<Rightarrow> nat \<times> string \<Rightarrow> nat \<times> string" where
  "shift_line k \<equiv> (\<lambda>(i, s). (i + k, s))"

definition core :: "slot_refusal + facts \<Rightarrow>
    ((string \<times> string) \<times> string option \<times> (slot \<Rightarrow> slot_facts) \<times> bool \<times> choice \<times> (string \<times> string) option \<times>
     (string \<times> string) option \<times> string option) option" where
  "core r = (case r of Inl e \<Rightarrow> None
     | Inr f \<Rightarrow> Some (ft_key f, ft_from f, ft_slots f, order_ok (ft_order f), ft_choice f, ft_halt f, ft_boot f, ft_id0 f))"

lemma last_read_shift [simp]: "last_read (map (shift_ev k) order) = last_read order"
  by (induction order) (auto split: option.splits event.splits)

lemma scan_line_shift:
  "scan_line (sl, map (shift_ev k) order) (i + k, s) =
     (case scan_line (sl, order) (i, s) of (sl', order') \<Rightarrow> (sl', map (shift_ev k) order'))"
  by (auto simp: scan_line_def split: option.split prod.split)

lemma fold_scan_shift:
  "foldl scan_line (sl, map (shift_ev k) order) (map (shift_line k) seg) =
     (case foldl scan_line (sl, order) seg of (sl', order') \<Rightarrow> (sl', map (shift_ev k) order'))"
proof (induction seg arbitrary: sl order)
  case (Cons l seg)
  obtain i s where l: "l = (i, s)" by (cases l)
  show ?case
    by (cases "scan_line (sl, order) (i, s)") (simp add: l scan_line_shift Cons)
qed simp

lemma kind_shift [simp]:
  "is_slot_ev (shift_ev k e) = is_slot_ev e" "is_halt_ev (shift_ev k e) = is_halt_ev e"
  "is_boot_ev (shift_ev k e) = is_boot_ev e"
  by (cases e; simp add: is_slot_ev_def is_halt_ev_def is_boot_ev_def)+

lemma kind_shift_comp:
  "is_slot_ev \<circ> shift_ev k = is_slot_ev" "is_halt_ev \<circ> shift_ev k = is_halt_ev"
  "is_boot_ev \<circ> shift_ev k = is_boot_ev"
  by (simp_all add: fun_eq_iff)

lemma count_refusal_shift [simp]: "count_refusal (map (shift_ev k) order) = count_refusal order"
  by (simp only: count_refusal_def Let_def filter_map length_map kind_shift_comp)

lemma order_ok_shift [simp]: "order_ok (map (shift_ev k) order) = order_ok order"
proof -
  have "concat (map (\<lambda>e. case e of Read_ev i w \<Rightarrow> [(True, w)] | Verdict_ev i w \<Rightarrow> [(False, w)] | _ \<Rightarrow> [])
      (map (shift_ev k) order)) =
    concat (map (\<lambda>e. case e of Read_ev i w \<Rightarrow> [(True, w)] | Verdict_ev i w \<Rightarrow> [(False, w)] | _ \<Rightarrow> []) order)"
    by (induction order) (auto split: event.split)
  then show ?thesis by (simp add: order_ok_def)
qed

definition shift_chosen :: "nat \<Rightarrow> chosen \<Rightarrow> chosen" where
  "shift_chosen k c = c\<lparr>ch_choice_line := ch_choice_line c + (if ch_choice c = None then 0 else k),
                       ch_boot_line := map_option (\<lambda>i. i + k) (ch_boot_line c)\<rparr>"

lemma note_event_shift: "note_event (shift_chosen k c) (shift_ev k e) = shift_chosen k (note_event c e)"
  by (cases e) (simp_all add: shift_chosen_def)

lemma chosen_of_shift: "chosen_of (map (shift_ev k) order) = shift_chosen k (chosen_of order)"
proof -
  have f: "foldl note_event (shift_chosen k c) (map (shift_ev k) order) = shift_chosen k (foldl note_event c order)" for c
    by (induction order arbitrary: c) (simp_all add: note_event_shift)
  show ?thesis
    unfolding chosen_of_def f [symmetric] by (simp add: shift_chosen_def)
qed

lemma id_after_shift:
  "(case id_after (map (shift_line k) seg) (shift_chosen k c) e1 of Inl e \<Rightarrow> None | Inr x \<Rightarrow> Some x) =
   (case id_after seg c e2 of Inl e \<Rightarrow> None | Inr x \<Rightarrow> Some x)"
proof -
  have "map snd (filter (\<lambda>(i, s). n + k < i) (map (shift_line k) seg)) = map snd (filter (\<lambda>(i, s). n < i) seg)" for n
    by (induction seg) auto
  then show ?thesis
    by (auto simp: id_after_def Let_def shift_chosen_def split: option.splits choice.splits list.splits)
qed

lemma core_parse_run:
  "core (parse_run b n ids seg) =
     (let ls = map snd seg; keys = matches KEY_RE ls; froms = matches FROM_RE ls; ctrs = matches CTR_RE ls;
          (slots, order) = foldl scan_line (\<lambda>w. no_facts, []) seg; c = chosen_of order in
      if length keys = 1 \<and> length froms \<le> 1 \<and> ctrs = [''flash''] \<and> count_refusal order = None then
        map_option (\<lambda>id0. (hd keys, if froms = [] then None else Some (hd froms), slots, order_ok order,
            the (ch_choice c), ch_halt c, ch_boot c, id0))
          (case id_after seg c (ids \<noteq> []) of Inl e \<Rightarrow> None | Inr x \<Rightarrow> Some x)
      else None)"
proof -
  obtain sl order where o: "foldl scan_line (\<lambda>w. no_facts, []) seg = (sl, order)"
    by (cases "foldl scan_line (\<lambda>w. no_facts, []) seg")
  have k: "length xs = 1 \<longleftrightarrow> xs \<noteq> [] \<and> \<not> length xs > 1" for xs :: "'x list" by (cases xs) auto
  have c: "xs = [y] \<longleftrightarrow> length xs = 1 \<and> hd xs = y" for xs and y :: "'x" by (cases xs) auto
  show ?thesis
    unfolding parse_run_def Let_def o prod.case c k [of "matches KEY_RE (map snd seg)"]
    by (cases "count_refusal order"; cases "id_after seg (chosen_of order) (ids \<noteq> [])") (simp_all add: core_def)
qed

lemma parse_run_shift:
  "core (parse_run b1 n1 ids1 (map (shift_line k) seg)) = core (parse_run b2 n2 ids2 seg)"
proof -
  have m: "map snd (map (shift_line k) seg) = map snd seg" by (induction seg) auto
  obtain sl order where o: "foldl scan_line (\<lambda>w. no_facts, []) seg = (sl, order)"
    by (cases "foldl scan_line (\<lambda>w. no_facts, []) seg")
  have o': "foldl scan_line (\<lambda>w. no_facts, []) (map (shift_line k) seg) = (sl, map (shift_ev k) order)"
    using fold_scan_shift [of _ k "[]" seg] o by simp
  have c: "ch_choice (shift_chosen k c) = ch_choice c" "ch_halt (shift_chosen k c) = ch_halt c"
    "ch_boot (shift_chosen k c) = ch_boot c" for c
    by (simp_all add: shift_chosen_def)
  show ?thesis
    unfolding core_parse_run Let_def m o o' prod.case chosen_of_shift c order_ok_shift count_refusal_shift
      id_after_shift [of k seg "chosen_of order" "ids1 \<noteq> []" "ids2 \<noteq> []"] ..
qed

lemma numbered_append: "numbered (a @ b) = numbered a @ map (shift_line (length a)) (numbered b)"
proof -
  have "[0..<length a + length b] = [0..<length a] @ map (\<lambda>i. i + length a) [0..<length b]"
    using upt_add_eq_append [of 0 "length a" "length b"] map_add_upt [of "length a" "length b"]
    by (simp add: add.commute)
  then show ?thesis
    by (simp only: numbered_def length_append zip_append length_upt diff_zero zip_map1)
qed

lemma parse_prefix:
  assumes "\<forall>s \<in> set (lines_of pre). BANNER_RE s = None"
  shows "core (parse (pre @ CHR 0x0A # run)) = core (parse run)"
proof -
  define A B where "A = lines_of pre" and "B = lines_of run"
  have l: "lines_of (pre @ CHR 0x0A # run) = A @ B"
    by (simp add: lines_of_def split_on_append A_def B_def)
  let ?k = "length A"
  let ?p = "\<lambda>(i, s). BANNER_RE s \<noteq> None"
  have fa: "filter ?p (numbered A) = []"
    using assms by (auto simp: filter_empty_conv numbered_def A_def dest: set_zip_rightD)
  have fb: "filter ?p (map (shift_line ?k) xs) = map (shift_line ?k) (filter ?p xs)" for xs
    by (induction xs) auto
  have seg: "filter (\<lambda>(i, s). n + ?k < i) (numbered (A @ B)) =
      map (shift_line ?k) (filter (\<lambda>(i, s). n < i) (numbered B))" for n
  proof -
    have "filter (\<lambda>(i, s). n + ?k < i) (numbered A) = []"
      by (auto simp: filter_empty_conv numbered_def dest: set_zip_leftD)
    moreover have "filter (\<lambda>(i, s). n + ?k < i) (map (shift_line ?k) xs) =
        map (shift_line ?k) (filter (\<lambda>(i, s). n < i) xs)" for xs
      by (induction xs) auto
    ultimately show ?thesis by (simp add: numbered_append)
  qed
  have bn: "filter ?p (numbered (A @ B)) = map (shift_line ?k) (filter ?p (numbered B))"
    by (simp only: numbered_append filter_append fa fb append_Nil)
  consider "filter ?p (numbered B) = []" | b0 s where "filter ?p (numbered B) = [(b0, s)]"
    | x y r where "filter ?p (numbered B) = x # y # r"
    by (metis list.exhaust surj_pair)
  then show ?thesis
  proof cases
    case 1
    then show ?thesis unfolding parse_def Let_def l bn B_def [symmetric] 1 by (simp add: core_def)
  next
    case (2 b0 s)
    show ?thesis unfolding parse_def Let_def l bn B_def [symmetric] 2 by (simp add: seg parse_run_shift)
  next
    case (3 x y r)
    show ?thesis unfolding parse_def Let_def l bn B_def [symmetric] 3
      by (cases x; cases y) (simp add: core_def)
  qed
qed

end
