(* ===== verification/BootCapture.thy ===== *)
theory BootCapture
  imports "HOL-Library.Monad_Syntax" Prelude BootSlot
begin

text \<open>
  The fixture of \<open>tools/bootslot.py\<close> (\<open>fx_slot\<close>, \<open>fx_capture\<close>): a boot capture as rlxboot prints it.
  The lemmas follow every line of it through the patterns of \<open>parse\<close>, first alone (which pattern reads
  it, and that no other does), then over the body of one slot, the header and the tail; the properties say
  that \<open>parse\<close> reads back what the loader did and that \<open>judge\<close> passes it exactly when it is what was expected.
\<close>

subsection \<open>A capture as rlxboot prints it\<close>

definition KEY_FX :: string where "KEY_FX = concat (replicate 32 ''5a'')"

definition fx_read :: "slot \<Rightarrow> nat \<Rightarrow> nat option \<Rightarrow> string" where
  "fx_read w n dots =
     ''RLXBOOT-READ '' @ [slot_char w] @ '' flash='' @ hexL 8 (fst (SLOTS w)) @ '' buf='' @ hexL 8 (snd (SLOTS w))
       @ '' n='' @ dec n
       @ (if n \<ge> TICK then CHR '' '' # replicate (case dots of None \<Rightarrow> n div TICK | Some d \<Rightarrow> d) (CHR ''.'') else [])"

definition fx_slot :: "slot \<Rightarrow> seen \<Rightarrow> nat option \<Rightarrow> nat option \<Rightarrow> nat \<Rightarrow> nat option \<Rightarrow> string list" where
  "fx_slot w v n dots ctr ver_cur =
     (let len = (case n of Some x \<Rightarrow> x | None \<Rightarrow> (case v of Ok_ver _ \<Rightarrow> 1109152 | Bad _ \<Rightarrow> 160)) in
      fx_read w len dots #
      (case v of
         Ok_ver k \<Rightarrow>
           [''RLXBOOT-HDR ok'', ''RLXBOOT-SIG ok'', ''RLXBOOT-DIGEST ok'',
            ''RLXBOOT-VER cur='' @ dec (case ver_cur of None \<Rightarrow> k | Some c \<Rightarrow> c) @ '' ctr='' @ dec ctr @ '' ok'',
            ''RLXBOOT-VERDICT '' @ [slot_char w] @ '' ok ver='' @ dec k]
       | Bad r \<Rightarrow>
           (if r = ''magic'' then [''RLXBOOT-HDR bad=magic'']
            else if r = ''sig'' then [''RLXBOOT-HDR ok'', ''RLXBOOT-SIG bad'']
            else if r = ''digest'' then [''RLXBOOT-HDR ok'', ''RLXBOOT-SIG ok'', ''RLXBOOT-DIGEST bad'']
            else [''RLXBOOT-HDR bad='' @ r]) @
           [''RLXBOOT-VERDICT '' @ [slot_char w] @ '' bad='' @ r]))"

record fixture =
  fx_choice :: choice
  fx_key :: string
  fx_ctr :: string
  fx_id0 :: string
  fx_eol :: string
  fx_boot :: bool
  fx_ids_after :: nat
  fx_pre :: "string list"
  fx_banners :: nat
  fx_keyline :: bool
  fx_cut :: bool
  fx_froms :: "string list"

definition fx_head :: "fixture \<Rightarrow> string list" where
  "fx_head x =
     [''Reboot Result from Watchdog Timeout!'', ''Booting...''] @ fx_pre x"

definition fx_tail :: "fixture \<Rightarrow> string list \<Rightarrow> string list \<Rightarrow> string list" where
  "fx_tail x a b =
     (if fx_cut x then []
      else if fx_choice x = Halted then
        [''RLXBOOT-HALT A='' @ last (split_on (CHR ''='') (last a)) @ '' B='' @ last (split_on (CHR ''='') (last b)),
         ''refuse-action halt'']
      else [''RLXBOOT-SLOT '' @ (case fx_choice x of Chose w \<Rightarrow> [slot_char w] | Halted \<Rightarrow> [])]
           @ (if fx_boot x then [''RLXBOOT-BOOT load=80500000 entry=80500000''] else [])
           @ [''Linux version 2.6.30.9 (fixture)'']
           @ replicate (fx_ids_after x) (''RLXFW-ID0='' @ fx_id0 x)
           @ [''rlxfw: init running, RLXFW-R3-RUNG1-OK'', ''/ # ''])"

definition fx_capture :: "string list \<Rightarrow> string list \<Rightarrow> fixture \<Rightarrow> string" where
  "fx_capture a b x =
     join (fx_eol x)
       (fx_head x @ replicate (fx_banners x) ''RLXBOOT-V1 build=6b1dc4fd''
        @ map (\<lambda>w. ''RLXBOOT-FROM '' @ w) (fx_froms x)
        @ (if fx_keyline x then [''RLXBOOT-KEY '' @ fx_key x @ '' '' @ KEY_FX] else [])
        @ [''RLXBOOT-CTRSRC '' @ fx_ctr x] @ a @ b @ fx_tail x a b)
     @ fx_eol x"

definition good_seen :: "seen \<Rightarrow> bool" where
  "good_seen v = (case v of Ok_ver n \<Rightarrow> True | Bad r \<Rightarrow> r \<noteq> [] \<and> list_all is_word r)"

lemma takeWhile_word: "list_all p w \<Longrightarrow> r = [] \<or> \<not> p (hd r) \<Longrightarrow> takeWhile p (w @ r) = w \<and> dropWhile p (w @ r) = r"
  by (induction w) (cases r; auto)+

lemma some1_word: "list_all p w \<Longrightarrow> w \<noteq> [] \<Longrightarrow> r = [] \<or> \<not> p (hd r) \<Longrightarrow> some1 p (w @ r) = Some (w, r)"
  using takeWhile_word [of p w r] by (cases w) (auto simp: some1_def)

lemma some1_dec: "r = [] \<or> \<not> is_digit (hd r) \<Longrightarrow> some1 is_digit (dec n @ r) = Some (dec n, r)"
  using dec_digit by (intro some1_word) (auto simp: list_all_iff)

lemma exact_hex8: "n < 16 ^ 8 \<Longrightarrow> exact 8 is_hex_lower (hexL 8 n @ r) = Some (hexL 8 n, r)"
  using hexL_hex length_hexL [of n 8] by (auto simp: exact_def list_all_iff)

lemma slots_small: "fst (SLOTS w) < 16 ^ 8" "snd (SLOTS w) < 16 ^ 8"
  by (cases w; simp)+

lemma slot_at_char: "slot_at (slot_char w # r) = Some (w, r)"
  by (cases w) (simp_all add: slot_at_def slot_char_def)

lemma READ_fx:
  "READ_RE (fx_read w n None) = Some (w, fst (SLOTS w), snd (SLOTS w), n, n div TICK, n \<ge> TICK)"
proof -
  have d: "\<not> is_digit (CHR '' '')" by (simp add: is_digit_def)
  have l: "list_all (\<lambda>c. c = x) (replicate k x)" for k and x :: char by (induction k) auto
  have z: "\<not> n \<ge> TICK \<Longrightarrow> n div TICK = 0" by simp
  show ?thesis
    using z by (simp add: READ_RE_def fx_read_def lit_def slot_at_char exact_hex8 [OF slots_small(1)]
        exact_hex8 [OF slots_small(2)] some1_dec some1_dec [of "[]", simplified] d l
        hex_num_hexL dec_num_dec)
qed

definition verdict_text :: "slot \<Rightarrow> seen \<Rightarrow> string" where
  "verdict_text w v = ''RLXBOOT-VERDICT '' @ [slot_char w] @
     (case v of Ok_ver k \<Rightarrow> '' ok ver='' @ dec k | Bad r \<Rightarrow> '' bad='' @ r)"

definition ver_text :: "nat \<Rightarrow> nat \<Rightarrow> string" where
  "ver_text k ctr = ''RLXBOOT-VER cur='' @ dec k @ '' ctr='' @ dec ctr @ '' ok''"

definition stage_lines :: "seen \<Rightarrow> nat \<Rightarrow> string list" where
  "stage_lines v ctr =
     (case v of Ok_ver k \<Rightarrow> STAGE_OK @ [ver_text k ctr]
      | Bad r \<Rightarrow> if r = ''magic'' then [''RLXBOOT-HDR bad=magic'']
          else if r = ''sig'' then [''RLXBOOT-HDR ok'', ''RLXBOOT-SIG bad'']
          else if r = ''digest'' then [''RLXBOOT-HDR ok'', ''RLXBOOT-SIG ok'', ''RLXBOOT-DIGEST bad'']
          else [''RLXBOOT-HDR bad='' @ r])"

lemma fx_slot_lines:
  "fx_slot w v None None ctr None =
     fx_read w (case v of Ok_ver _ \<Rightarrow> 1109152 | Bad _ \<Rightarrow> 160) None # stage_lines v ctr @ [verdict_text w v]"
  by (cases v) (simp_all add: fx_slot_def stage_lines_def verdict_text_def ver_text_def STAGE_OK_def)

lemma VERDICT_text: "good_seen v \<Longrightarrow> VERDICT_RE (verdict_text w v) = Some (w, v)"
  by (cases v)
    (auto simp: VERDICT_RE_def verdict_text_def good_seen_def lit_def slot_at_char some1_dec [of "[]", simplified]
      dec_num_dec at_end_def some1_word [of _ _ "[]", simplified])

lemma VER_text: "VER_RE (ver_text k ctr) = Some (k, True)"
  by (simp add: VER_RE_def ver_text_def lit_def some1_dec is_digit_def dec_num_dec)

text \<open>Lines that are no event, and that none of the other patterns matches.\<close>

definition no_event :: "string \<Rightarrow> bool" where
  "no_event s \<longleftrightarrow> READ_RE s = None \<and> VERDICT_RE s = None \<and> SLOT_RE s = None \<and> HALT_RE s = None \<and> BOOT_RE s = None"

definition no_header :: "string \<Rightarrow> bool" where
  "no_header s \<longleftrightarrow> KEY_RE s = None \<and> FROM_RE s = None \<and> CTR_RE s = None"

lemmas patterns = READ_RE_def VERDICT_RE_def SLOT_RE_def HALT_RE_def BOOT_RE_def KEY_RE_def FROM_RE_def CTR_RE_def
  VER_RE_def lit_def

lemma stage_plain:
  "no_event ''RLXBOOT-HDR ok''" "no_event ''RLXBOOT-SIG ok''" "no_event ''RLXBOOT-DIGEST ok''"
  "no_event ''RLXBOOT-SIG bad''" "no_event ''RLXBOOT-DIGEST bad''" "no_event (''RLXBOOT-HDR bad='' @ r)"
  "no_event (ver_text k ctr)" "no_event (''RLXBOOT-KEY '' @ k')" "no_event (''RLXBOOT-FROM '' @ w)"
  "no_event (''RLXBOOT-CTRSRC '' @ c)" "no_event ''Linux version 2.6.30.9 (fixture)''"
  "no_event (''RLXFW-ID0='' @ h)" "no_event ''rlxfw: init running, RLXFW-R3-RUNG1-OK''" "no_event ''/ # ''"
  "no_event []" "no_event ''refuse-action halt''"
  by (simp_all add: no_event_def patterns ver_text_def)

lemma header_plain:
  "no_header ''RLXBOOT-HDR ok''" "no_header ''RLXBOOT-SIG ok''" "no_header ''RLXBOOT-DIGEST ok''"
  "no_header ''RLXBOOT-SIG bad''" "no_header ''RLXBOOT-DIGEST bad''" "no_header (''RLXBOOT-HDR bad='' @ r)"
  "no_header (ver_text k ctr)" "no_header (fx_read w n d)" "no_header (verdict_text w v)"
  "no_header ''Linux version 2.6.30.9 (fixture)''"
  "no_header (''RLXFW-ID0='' @ h)" "no_header ''rlxfw: init running, RLXFW-R3-RUNG1-OK''" "no_header ''/ # ''"
  "no_header []" "no_header ''refuse-action halt''" "no_header (''RLXBOOT-SLOT '' @ t)"
  "no_header (''RLXBOOT-HALT A='' @ t)" "no_header (''RLXBOOT-BOOT load='' @ t)"
  by (simp_all add: no_header_def patterns ver_text_def fx_read_def verdict_text_def)

lemma not_read: "READ_RE (''RLXBOOT-VERDICT '' @ t) = None" "READ_RE (''RLXBOOT-SLOT '' @ t) = None"
  "VERDICT_RE (''RLXBOOT-SLOT '' @ t) = None" "READ_RE (''RLXBOOT-HALT A='' @ t) = None"
  "VERDICT_RE (''RLXBOOT-HALT A='' @ t) = None" "SLOT_RE (''RLXBOOT-HALT A='' @ t) = None"
  "READ_RE (''RLXBOOT-BOOT load='' @ t) = None" "VERDICT_RE (''RLXBOOT-BOOT load='' @ t) = None"
  "SLOT_RE (''RLXBOOT-BOOT load='' @ t) = None" "HALT_RE (''RLXBOOT-BOOT load='' @ t) = None"
  by (simp_all add: patterns)

fun scan_from :: "nat \<Rightarrow> (slot \<Rightarrow> slot_facts) \<times> event list \<Rightarrow> string list \<Rightarrow> (slot \<Rightarrow> slot_facts) \<times> event list" where
  "scan_from i st [] = st"
| "scan_from i st (s # ls) = scan_from (Suc i) (scan_line st (i, s)) ls"

lemma scan_from_append: "scan_from i st (a @ b) = scan_from (i + length a) (scan_from i st a) b"
  by (induction a arbitrary: i st) auto

lemma scan_from_fold: "foldl scan_line st (zip [i..<i + length ls] ls) = scan_from i st ls"
proof (induction ls arbitrary: i st)
  case (Cons s ls)
  have "zip [i..<i + length (s # ls)] (s # ls) = (i, s) # zip [Suc i..<Suc i + length ls] ls"
    by (simp add: upt_conv_Cons del: upt_Suc)
  then show ?case unfolding scan_from.simps by (simp only: foldl.simps Cons)
qed simp

lemma last_read_snoc [simp]: "last_read (ord @ [e]) = (case e of Read_ev i w \<Rightarrow> Some w | _ \<Rightarrow> last_read ord)"
  by (induction ord) (auto split: event.splits option.splits)

lemma scan_quiet: "no_event s \<Longrightarrow> s \<notin> set STAGE_OK \<Longrightarrow> VER_RE s = None \<Longrightarrow> scan_line st (i, s) = st"
  by (cases st) (simp add: scan_line_def no_event_def)

lemma scan_stage:
  "no_event s \<Longrightarrow> s \<in> set STAGE_OK \<or> VER_RE s \<noteq> None \<Longrightarrow> last_read ord = Some w \<Longrightarrow>
     scan_line (sl, ord) (i, s) = (sl(w := (sl w)\<lparr>sf_stages := sf_stages (sl w) @ [s]\<rparr>), ord)"
  by (auto simp add: scan_line_def no_event_def)

definition stages_of :: "seen \<Rightarrow> nat \<Rightarrow> string list" where
  "stages_of v ctr =
     (case v of Ok_ver k \<Rightarrow> STAGE_OK @ [ver_text k ctr]
      | Bad r \<Rightarrow> if r = ''sig'' then [''RLXBOOT-HDR ok'']
          else if r = ''digest'' then [''RLXBOOT-HDR ok'', ''RLXBOOT-SIG ok''] else [])"

lemma not_stage: "''RLXBOOT-SIG bad'' \<notin> set STAGE_OK" "''RLXBOOT-DIGEST bad'' \<notin> set STAGE_OK"
  "''RLXBOOT-HDR bad='' @ r \<notin> set STAGE_OK" "VER_RE ''RLXBOOT-SIG bad'' = None"
  "VER_RE ''RLXBOOT-DIGEST bad'' = None" "VER_RE (''RLXBOOT-HDR bad='' @ r) = None"
  by (simp_all add: STAGE_OK_def patterns)

lemma scan_stages:
  assumes "last_read ord = Some w"
  shows "scan_from i (sl, ord) (stage_lines v ctr) =
    (sl(w := (sl w)\<lparr>sf_stages := sf_stages (sl w) @ stages_of v ctr\<rparr>), ord)"
proof -
  have q: "scan_line (sl', ord) (j, ''RLXBOOT-SIG bad'') = (sl', ord)"
    "scan_line (sl', ord) (j, ''RLXBOOT-DIGEST bad'') = (sl', ord)"
    "scan_line (sl', ord) (j, ''RLXBOOT-HDR bad='' @ r) = (sl', ord)" for sl' j r
    by (intro scan_quiet stage_plain not_stage)+
  have t: "scan_line (sl', ord) (j, ''RLXBOOT-HDR ok'') = (sl'(w := (sl' w)\<lparr>sf_stages := sf_stages (sl' w) @ [''RLXBOOT-HDR ok'']\<rparr>), ord)"
    "scan_line (sl', ord) (j, ''RLXBOOT-SIG ok'') = (sl'(w := (sl' w)\<lparr>sf_stages := sf_stages (sl' w) @ [''RLXBOOT-SIG ok'']\<rparr>), ord)"
    "scan_line (sl', ord) (j, ''RLXBOOT-DIGEST ok'') = (sl'(w := (sl' w)\<lparr>sf_stages := sf_stages (sl' w) @ [''RLXBOOT-DIGEST ok'']\<rparr>), ord)"
    "scan_line (sl', ord) (j, ver_text k ctr) = (sl'(w := (sl' w)\<lparr>sf_stages := sf_stages (sl' w) @ [ver_text k ctr]\<rparr>), ord)"
    for sl' j k
    by (intro scan_stage stage_plain assms; simp add: STAGE_OK_def VER_text)+
  have q3: "scan_line (sl', ord) (j, CHR ''R'' # ''LXBOOT-HDR bad='' @ r) = (sl', ord)" for sl' j r
    using q(3) by simp
  show ?thesis
    by (cases v) (simp_all add: stage_lines_def stages_of_def STAGE_OK_def t q q(3) [where r = "''magic''", simplified]
        q(3) [simplified] fun_upd_idem)
qed

definition facts_of :: "slot \<Rightarrow> seen \<Rightarrow> nat \<Rightarrow> slot_facts" where
  "facts_of w v ctr =
     (let n = (case v of Ok_ver _ \<Rightarrow> 1109152 | Bad _ \<Rightarrow> 160) in
      \<lparr>sf_read = Some (fst (SLOTS w), snd (SLOTS w), n, n div TICK, n \<ge> TICK), sf_stages = stages_of v ctr,
       sf_verdict = Some v\<rparr>)"

lemma scan_slot:
  assumes "good_seen v"
  shows "\<exists>j. scan_from i (sl, ord) (fx_slot w v None None ctr None) =
    (sl(w := facts_of w v ctr), ord @ [Read_ev i w, Verdict_ev j w])"
proof -
  let ?n = "case v of Ok_ver _ \<Rightarrow> 1109152 | Bad _ \<Rightarrow> 160"
  let ?rd = "(fst (SLOTS w), snd (SLOTS w), ?n, ?n div TICK, ?n \<ge> TICK)"
  let ?sl = "sl(w := (sl w)\<lparr>sf_read := Some ?rd, sf_stages := []\<rparr>)"
  have r: "scan_line (sl, ord) (i, fx_read w ?n None) = (?sl, ord @ [Read_ev i w])"
    unfolding scan_line_def Let_def prod.case READ_fx by simp
  have v: "scan_line (sl', ord') (j, verdict_text w v) =
      (sl'(w := (sl' w)\<lparr>sf_verdict := Some v\<rparr>), ord' @ [Verdict_ev j w])" for sl' ord' j
    unfolding scan_line_def Let_def prod.case
    using not_read(1) VERDICT_text [OF assms] by (simp add: verdict_text_def)
  have l: "last_read (ord @ [Read_ev i w]) = Some w" by simp
  show ?thesis
    unfolding fx_slot_lines scan_from.simps(2) r scan_from_append scan_stages [OF l] v
    by (auto simp: facts_of_def Let_def fun_eq_iff)
qed

lemma scan_quiet_list:
  "(\<And>s. s \<in> set ls \<Longrightarrow> no_event s \<and> s \<notin> set STAGE_OK \<and> VER_RE s = None) \<Longrightarrow> scan_from i st ls = st"
  by (induction ls arbitrary: i) (auto simp: scan_quiet)

lemma matches_append [simp]: "matches m (a @ b) = matches m a @ matches m b"
  by (simp add: matches_def)

lemma matches_none: "(\<And>s. s \<in> set ls \<Longrightarrow> m s = None) \<Longrightarrow> matches m ls = []"
  by (auto simp: matches_def)

lemma search_free:
  "(\<And>t. t = [] \<or> hd t \<noteq> c \<Longrightarrow> m t = None) \<Longrightarrow> c \<notin> set s \<Longrightarrow> search m s = None"
  by (induction s) auto

definition no_mark :: "string \<Rightarrow> bool" where
  "no_mark s \<longleftrightarrow> BANNER_RE s = None \<and> ID0_RX s = None"

lemma lit_hd: "t = [] \<or> hd t \<noteq> c \<Longrightarrow> lit (c # p) t = None"
  by (auto simp: lit_def prefix_def)

lemma no_mark_free: "CHR ''R'' \<notin> set s \<Longrightarrow> no_mark s"
  unfolding no_mark_def BANNER_RE_def ID0_RX_def
  by (intro conjI search_free [of "CHR ''R''"]) (simp_all add: lit_hd)

lemma no_mark_step:
  "no_mark s \<Longrightarrow> \<not> prefix ''RLXBOOT-V1 build='' (c # s) \<Longrightarrow> \<not> prefix ''RLXFW-ID0='' (c # s) \<Longrightarrow> no_mark (c # s)"
  by (simp add: no_mark_def BANNER_RE_def ID0_RX_def lit_None)

lemma free_texts:
  "CHR ''R'' \<notin> set (dec n)" "CHR ''R'' \<notin> set (hexL k n)" "list_all is_word r \<Longrightarrow> CHR ''R'' \<notin> set r"
  "CHR ''R'' \<noteq> slot_char w" "list_all is_hex_lower h \<Longrightarrow> CHR ''R'' \<notin> set h"
proof -
  show "CHR ''R'' \<notin> set (dec n)" "CHR ''R'' \<notin> set (hexL k n)"
    using dec_digit [of "CHR ''R''"] hexL_hex [of "CHR ''R''"] by (auto simp: is_digit_def is_hex_lower_def)
  show "list_all is_word r \<Longrightarrow> CHR ''R'' \<notin> set r" by (auto simp: list_all_iff is_word_def)
  show "CHR ''R'' \<noteq> slot_char w" by (cases w) (simp_all add: slot_char_def)
  show "list_all is_hex_lower h \<Longrightarrow> CHR ''R'' \<notin> set h" by (auto simp: list_all_iff is_hex_lower_def is_digit_def)
qed

lemma marks_none:
  "no_mark ''RLXBOOT-HDR ok''" "no_mark ''RLXBOOT-SIG ok''" "no_mark ''RLXBOOT-DIGEST ok''"
  "no_mark ''RLXBOOT-SIG bad''" "no_mark ''RLXBOOT-DIGEST bad''"
  "no_mark ''RLXBOOT-HDR bad=magic''" "list_all is_word r \<Longrightarrow> no_mark (''RLXBOOT-HDR bad='' @ r)"
  "no_mark (ver_text k ctr)" "no_mark (fx_read w n None)" "good_seen v \<Longrightarrow> no_mark (verdict_text w v)"
  "no_mark ''Linux version 2.6.30.9 (fixture)''" "no_mark ''rlxfw: init running, RLXFW-R3-RUNG1-OK''"
  "no_mark ''/ # ''" "no_mark []" "no_mark ''refuse-action halt''" "no_mark (''RLXBOOT-SLOT '' @ [slot_char w])"
  "list_all is_word r \<Longrightarrow> list_all is_word q \<Longrightarrow> no_mark (''RLXBOOT-HALT A='' @ r @ '' B='' @ q)"
  "no_mark ''RLXBOOT-BOOT load=80500000 entry=80500000''" "list_all is_hex_lower h \<Longrightarrow> no_mark (''RLXBOOT-FROM '' @ h)"
  "list_all is_hex_lower h \<Longrightarrow> no_mark (''RLXBOOT-KEY prod '' @ h)"
  "list_all is_hex_lower h \<Longrightarrow> no_mark (''RLXBOOT-KEY dev '' @ h)"
  "no_mark ''RLXBOOT-CTRSRC flash''" "no_mark ''Reboot Result from Watchdog Timeout!''" "no_mark ''Booting...''"
  by (cases v; simp add: ver_text_def fx_read_def verdict_text_def good_seen_def no_mark_step no_mark_free free_texts)+

lemma parse_split:
  assumes "lines_of txt = P @ bl # R" "BANNER_RE bl = Some build" "\<forall>s \<in> set (P @ R). BANNER_RE s = None"
  shows "parse txt = parse_run build (length P) (matches ID0_RX P) (zip [Suc (length P)..<Suc (length P) + length R] R)"
proof -
  let ?k = "length P"
  have n: "numbered (P @ bl # R) = numbered P @ (?k, bl) # zip [Suc ?k..<Suc ?k + length R] R"
  proof -
    have "[0..<?k + Suc (length R)] = [0..<?k] @ ?k # [Suc ?k..<Suc ?k + length R]"
      using upt_add_eq_append [of 0 ?k "Suc (length R)"] by (simp add: upt_conv_Cons del: upt_Suc)
    then show ?thesis by (simp add: numbered_def del: upt_Suc)
  qed
  have pr: "filter (\<lambda>(i, s). BANNER_RE s \<noteq> None) xs = []" if "set (map snd xs) \<subseteq> set (P @ R)" for xs
    using that assms(3) by (fastforce simp: filter_empty_conv)
  have "filter (\<lambda>(i, s). BANNER_RE s \<noteq> None) (numbered P) = []"
    by (rule pr) (simp add: numbered_def)
  moreover have "filter (\<lambda>(i, s). BANNER_RE s \<noteq> None) (zip [Suc ?k..<Suc ?k + length R] R) = []"
    by (rule pr) (auto dest: set_zip_rightD)
  ultimately have b: "filter (\<lambda>(i, s). BANNER_RE s \<noteq> None) (numbered (P @ bl # R)) = [(?k, bl)]"
    using assms(2) by (simp add: n del: not_None_eq)
  have "filter (\<lambda>(i, s). i > ?k) (numbered P) = []"
    by (auto simp: filter_empty_conv numbered_def dest: set_zip_leftD)
  moreover have "filter (\<lambda>(i, s). i > ?k) (zip [Suc ?k..<Suc ?k + length R] R) = zip [Suc ?k..<Suc ?k + length R] R"
    by (rule filter_True) (auto simp del: upt_Suc dest: set_zip_leftD)
  ultimately have "filter (\<lambda>(i, s). i > ?k) (numbered (P @ bl # R)) = zip [Suc ?k..<Suc ?k + length R] R"
    by (simp add: n)
  then show ?thesis unfolding parse_def Let_def assms(1) b by (simp add: assms(2))
qed

definition clean :: "string \<Rightarrow> bool" where
  "clean s \<longleftrightarrow> CHR 0x0A \<notin> set s \<and> CHR 0x0D \<notin> set s"

lemma lines_of_join:
  assumes "filter (\<lambda>c. c \<noteq> CHR 0x0D) eol = [CHR 0x0A]" "\<forall>s \<in> set ls. clean s" "ls \<noteq> []"
  shows "lines_of (join eol ls @ eol) = ls @ [[]]"
proof -
  have k: "filter (\<lambda>c. c \<noteq> CHR 0x0D) s = s" if "clean s" for s
    using that by (auto simp: clean_def intro: filter_True)
  have "filter (\<lambda>c. c \<noteq> CHR 0x0D) (join eol ls) = join [CHR 0x0A] ls"
    using assms(2,3)
  proof (induction ls)
    case (Cons l ls)
    then show ?case using assms(1) by (cases "ls = []") (simp_all add: k join_Cons)
  qed simp
  moreover have "split_on (CHR 0x0A) (join [CHR 0x0A] ls @ [CHR 0x0A]) = ls @ [[]]"
    using assms(2,3)
  proof (induction ls)
    case (Cons l ls)
    have l: "CHR 0x0A \<notin> set l" using Cons.prems by (simp add: clean_def)
    show ?case
    proof (cases "ls = []")
      case True
      then show ?thesis using l split_on_piece [of "CHR 0x0A" l "[]"] by (simp add: split_on_free)
    next
      case False
      then show ?thesis using Cons l split_on_piece [OF l, of "join [CHR 0x0A] ls @ [CHR 0x0A]"] by (simp add: join_Cons)
    qed
  qed simp
  ultimately show ?thesis using assms(1) by (simp add: lines_of_def)
qed

lemma clean_texts:
  "clean (dec n)" "clean (hexL k n)" "list_all is_word r \<Longrightarrow> clean r" "list_all is_hex h \<Longrightarrow> clean h"
  "list_all is_hex_lower h \<Longrightarrow> clean h" "clean (replicate k (CHR ''.''))"
proof -
  show "clean (dec n)" "clean (hexL k n)"
    using dec_digit [of "CHR 0x0A"] dec_digit [of "CHR 0x0D"] hexL_hex [of "CHR 0x0A"] hexL_hex [of "CHR 0x0D"]
    by (auto simp: clean_def is_digit_def is_hex_lower_def)
  show "list_all is_word r \<Longrightarrow> clean r" by (auto simp: clean_def list_all_iff is_word_def)
  show "list_all is_hex h \<Longrightarrow> clean h" "list_all is_hex_lower h \<Longrightarrow> clean h"
    by (auto simp: clean_def list_all_iff is_hex_def is_hex_lower_def is_digit_def)
qed (auto simp: clean_def)

lemma clean_append: "clean (a @ b) \<longleftrightarrow> clean a \<and> clean b" "clean (c # s) \<longleftrightarrow> c \<noteq> CHR 0x0A \<and> c \<noteq> CHR 0x0D \<and> clean s"
  "clean []"
  by (auto simp: clean_def)

lemma fx_slot_clean:
  assumes "good_seen v" "s \<in> set (fx_slot w v None None ctr None)"
  shows "clean s"
proof -
  have c: "slot_char w \<noteq> CHR 0x0A" "slot_char w \<noteq> CHR 0x0D" by (cases w; simp add: slot_char_def)+
  have "clean (fx_read w n None)" for n
    by (simp add: fx_read_def clean_append clean_texts c)
  then show ?thesis
    using assms c
    by (auto simp: fx_slot_lines stage_lines_def verdict_text_def ver_text_def STAGE_OK_def good_seen_def clean_append
        clean_texts split: seen.splits if_splits)
qed

definition honest :: "seen \<Rightarrow> seen \<Rightarrow> fixture \<Rightarrow> bool" where
  "honest va vb x \<longleftrightarrow>
     good_seen va \<and> good_seen vb \<and> (fx_key x = ''prod'' \<or> fx_key x = ''dev'') \<and> fx_ctr x = ''flash'' \<and>
     length (fx_id0 x) = 8 \<and> list_all is_hex (fx_id0 x) \<and>
     filter (\<lambda>c. c \<noteq> CHR 0x0D) (fx_eol x) = [CHR 0x0A] \<and> fx_boot x \<and> fx_ids_after x = 1 \<and> fx_banners x = 1 \<and>
     fx_keyline x \<and> \<not> fx_cut x \<and>
     (fx_froms x = [] \<or> (\<exists>h. fx_froms x = [h] \<and> length h = 8 \<and> list_all is_hex_lower h)) \<and>
     (\<forall>s \<in> set (fx_pre x). clean s \<and> BANNER_RE s = None) \<and>
     (fx_choice x = Halted \<longrightarrow> (\<exists>r q. va = Bad r \<and> vb = Bad q))"

definition body_of :: "seen \<Rightarrow> seen \<Rightarrow> nat \<Rightarrow> nat \<Rightarrow> fixture \<Rightarrow> string list" where
  "body_of va vb ca cb x =
     map (\<lambda>w. ''RLXBOOT-FROM '' @ w) (fx_froms x) @ [''RLXBOOT-KEY '' @ fx_key x @ '' '' @ KEY_FX]
     @ [''RLXBOOT-CTRSRC '' @ fx_ctr x] @ fx_slot SlotA va None None ca None @ fx_slot SlotB vb None None cb None"

definition halt_text :: "string \<Rightarrow> string \<Rightarrow> string" where
  "halt_text r q = ''RLXBOOT-HALT A='' @ r @ '' B='' @ q"

lemma last_reason: "list_all is_word r \<Longrightarrow> last (split_on (CHR ''='') (verdict_text w (Bad r))) = r"
proof -
  assume r: "list_all is_word r"
  then have f: "CHR ''='' \<notin> set r" by (auto simp: list_all_iff is_word_def)
  have "split_on (CHR ''='') ((''RLXBOOT-VERDICT '' @ [slot_char w] @ '' bad'') @ CHR ''='' # r) =
      split_on (CHR ''='') (''RLXBOOT-VERDICT '' @ [slot_char w] @ '' bad'') @ [r]"
    by (simp only: split_on_append split_on_free [OF f])
  then show ?thesis by (simp add: verdict_text_def)
qed

lemma tail_lines:
  assumes "honest va vb x"
  shows "fx_tail x (fx_slot SlotA va None None ca None) (fx_slot SlotB vb None None cb None) =
    (case fx_choice x of
       Halted \<Rightarrow> (case (va, vb) of (Bad r, Bad q) \<Rightarrow> [halt_text r q, ''refuse-action halt''] | _ \<Rightarrow> [])
     | Chose w \<Rightarrow> [''RLXBOOT-SLOT '' @ [slot_char w], ''RLXBOOT-BOOT load=80500000 entry=80500000'',
         ''Linux version 2.6.30.9 (fixture)'', ''RLXFW-ID0='' @ fx_id0 x,
         ''rlxfw: init running, RLXFW-R3-RUNG1-OK'', ''/ # ''])"
  using assms
  by (cases "fx_choice x") (auto simp: fx_tail_def honest_def fx_slot_lines last_reason good_seen_def halt_text_def)

lemma ID0_line: "length h = 8 \<Longrightarrow> list_all is_hex h \<Longrightarrow> ID0_RX (''RLXFW-ID0='' @ h) = Some h"
  by (simp add: ID0_RX_def lit_def exact_def)

lemma ID0_line_plain: "list_all is_hex h \<Longrightarrow> BANNER_RE (''RLXFW-ID0='' @ h) = None"
proof -
  assume "list_all is_hex h"
  then have "CHR ''R'' \<notin> set h" by (auto simp: list_all_iff is_hex_def is_hex_lower_def is_digit_def)
  then have "BANNER_RE h = None" using no_mark_free by (simp add: no_mark_def)
  then show ?thesis by (simp add: BANNER_RE_def lit_None)
qed

lemma banner_line: "BANNER_RE ''RLXBOOT-V1 build=6b1dc4fd'' = Some ''6b1dc4fd''"
  by (simp add: BANNER_RE_def lit_def exact_def is_hex_lower_def is_digit_def)

lemma KEY_FX_hex: "length KEY_FX = 64" "list_all is_hex_lower KEY_FX"
  by (simp_all add: KEY_FX_def numeral_eq_Suc is_hex_lower_def is_digit_def)

lemma KEY_line: "k = ''prod'' \<or> k = ''dev'' \<Longrightarrow> KEY_RE (''RLXBOOT-KEY '' @ k @ '' '' @ KEY_FX) = Some (k, KEY_FX)"
  using KEY_FX_hex by (auto simp: KEY_RE_def lit_def exact_def at_end_def)

lemma FROM_line: "length h = 8 \<Longrightarrow> list_all is_hex_lower h \<Longrightarrow> FROM_RE (''RLXBOOT-FROM '' @ h) = Some h"
  by (simp add: FROM_RE_def lit_def exact_def at_end_def)

lemma CTR_line: "CTR_RE (''RLXBOOT-CTRSRC '' @ ''flash'') = Some ''flash''"
  by (simp add: CTR_RE_def lit_def)

lemma header_lines:
  "FROM_RE (''RLXBOOT-KEY '' @ t) = None" "CTR_RE (''RLXBOOT-KEY '' @ t) = None"
  "KEY_RE (''RLXBOOT-FROM '' @ t) = None" "CTR_RE (''RLXBOOT-FROM '' @ t) = None"
  "KEY_RE (''RLXBOOT-CTRSRC '' @ t) = None" "FROM_RE (''RLXBOOT-CTRSRC '' @ t) = None"
  by (simp_all add: patterns)

lemma fx_slot_quiet:
  assumes "good_seen v" "s \<in> set (fx_slot w v None None ctr None)"
  shows "no_mark s" "no_header s"
  using assms
  by (auto simp: fx_slot_lines stage_lines_def STAGE_OK_def good_seen_def marks_none marks_none(7) [simplified] header_plain
      header_plain(6) [simplified] header_plain(6) [where r = "''magic''", simplified]
      split: seen.splits if_splits)

lemma body_marks:
  assumes "honest va vb x"
  shows "\<forall>s \<in> set (body_of va vb ca cb x). no_mark s"
proof -
  have "no_mark (''RLXBOOT-KEY '' @ fx_key x @ '' '' @ KEY_FX)"
    using assms marks_none(20,21) [OF KEY_FX_hex(2)] by (auto simp: honest_def)
  then show ?thesis
    using assms fx_slot_quiet(1) marks_none by (auto simp: body_of_def honest_def)
qed

lemma body_headers:
  assumes "honest va vb x"
  shows "matches KEY_RE (body_of va vb ca cb x) = [(fx_key x, KEY_FX)]"
    "matches FROM_RE (body_of va vb ca cb x) = fx_froms x" "matches CTR_RE (body_of va vb ca cb x) = [''flash'']"
proof -
  have q: "matches KEY_RE (fx_slot w v None None c None) = []" "matches FROM_RE (fx_slot w v None None c None) = []"
    "matches CTR_RE (fx_slot w v None None c None) = []" if "good_seen v" for w v c
    using fx_slot_quiet(2) [OF that] by (auto intro!: matches_none simp: no_header_def)
  have h: "good_seen va" "good_seen vb" "fx_ctr x = ''flash''" "fx_key x = ''prod'' \<or> fx_key x = ''dev''"
    using assms by (auto simp: honest_def)
  have k: "matches m [s] = (case m s of None \<Rightarrow> [] | Some y \<Rightarrow> [y])" for m :: "string \<Rightarrow> 'x option" and s
    by (simp add: matches_def)
  have c: "matches CTR_RE [''RLXBOOT-CTRSRC '' @ fx_ctr x] = [''flash'']"
    "matches KEY_RE [''RLXBOOT-CTRSRC '' @ fx_ctr x] = []" "matches FROM_RE [''RLXBOOT-CTRSRC '' @ fx_ctr x] = []"
    by (simp_all only: k h(3) CTR_line header_lines option.case)
  have y: "matches KEY_RE [''RLXBOOT-KEY '' @ fx_key x @ '' '' @ KEY_FX] = [(fx_key x, KEY_FX)]"
    "matches FROM_RE [''RLXBOOT-KEY '' @ fx_key x @ '' '' @ KEY_FX] = []"
    "matches CTR_RE [''RLXBOOT-KEY '' @ fx_key x @ '' '' @ KEY_FX] = []"
    by (simp_all only: k KEY_line [OF h(4)] header_lines option.case)
  have f: "matches KEY_RE (map (\<lambda>w. ''RLXBOOT-FROM '' @ w) fs) = []"
    "matches CTR_RE (map (\<lambda>w. ''RLXBOOT-FROM '' @ w) fs) = []" for fs
    using header_lines(3,4) by (auto intro!: matches_none)
  have fr: "matches FROM_RE (map (\<lambda>w. ''RLXBOOT-FROM '' @ w) (fx_froms x)) = fx_froms x"
    using assms FROM_line by (auto simp: honest_def matches_def)
  show "matches KEY_RE (body_of va vb ca cb x) = [(fx_key x, KEY_FX)]"
    unfolding body_of_def matches_append f q(1) [OF h(1)] q(1) [OF h(2)] c y by simp
  show "matches FROM_RE (body_of va vb ca cb x) = fx_froms x"
    unfolding body_of_def matches_append fr q(2) [OF h(1)] q(2) [OF h(2)] c y by simp
  show "matches CTR_RE (body_of va vb ca cb x) = [''flash'']"
    unfolding body_of_def matches_append f q(3) [OF h(1)] q(3) [OF h(2)] c y by simp
qed

definition both_slots :: "seen \<Rightarrow> seen \<Rightarrow> nat \<Rightarrow> nat \<Rightarrow> slot \<Rightarrow> slot_facts" where
  "both_slots va vb ca cb w = (case w of SlotA \<Rightarrow> facts_of SlotA va ca | SlotB \<Rightarrow> facts_of SlotB vb cb)"

lemma body_scan:
  assumes "honest va vb x"
  shows "\<exists>i j k l. scan_from n (\<lambda>w. no_facts, []) (body_of va vb ca cb x) =
    (both_slots va vb ca cb, [Read_ev i SlotA, Verdict_ev j SlotA, Read_ev k SlotB, Verdict_ev l SlotB])"
proof -
  let ?h = "map (\<lambda>w. ''RLXBOOT-FROM '' @ w) (fx_froms x) @ [''RLXBOOT-KEY '' @ fx_key x @ '' '' @ KEY_FX]
     @ [''RLXBOOT-CTRSRC '' @ fx_ctr x]"
  have g: "good_seen va" "good_seen vb" using assms by (auto simp: honest_def)
  have "no_event s \<and> s \<notin> set STAGE_OK \<and> VER_RE s = None" if "s \<in> set ?h" for s
    using that stage_plain(8-10) by (auto simp: STAGE_OK_def VER_RE_def lit_def)
  then have h: "scan_from i st ?h = st" for i st by (rule scan_quiet_list)
  have b: "body_of va vb ca cb x = ?h @ fx_slot SlotA va None None ca None @ fx_slot SlotB vb None None cb None"
    by (simp add: body_of_def)
  obtain j where a: "scan_from (n + length ?h) (\<lambda>w. no_facts, []) (fx_slot SlotA va None None ca None) =
      ((\<lambda>w. no_facts)(SlotA := facts_of SlotA va ca), [] @ [Read_ev (n + length ?h) SlotA, Verdict_ev j SlotA])"
    using scan_slot [OF g(1)] by blast
  obtain l where c: "scan_from (n + length ?h + length (fx_slot SlotA va None None ca None))
      ((\<lambda>w. no_facts)(SlotA := facts_of SlotA va ca), [Read_ev (n + length ?h) SlotA, Verdict_ev j SlotA])
      (fx_slot SlotB vb None None cb None) =
      ((\<lambda>w. no_facts)(SlotA := facts_of SlotA va ca, SlotB := facts_of SlotB vb cb),
       [Read_ev (n + length ?h) SlotA, Verdict_ev j SlotA] @
       [Read_ev (n + length ?h + length (fx_slot SlotA va None None ca None)) SlotB, Verdict_ev l SlotB])"
    using scan_slot [OF g(2)] by blast
  have "(\<lambda>w. no_facts)(SlotA := facts_of SlotA va ca, SlotB := facts_of SlotB vb cb) = both_slots va vb ca cb"
    by (rule ext) (simp add: both_slots_def split: slot.split)
  moreover have "scan_from n (\<lambda>w. no_facts, []) (body_of va vb ca cb x) =
      scan_from (n + length ?h + length (fx_slot SlotA va None None ca None))
        (scan_from (n + length ?h) (\<lambda>w. no_facts, []) (fx_slot SlotA va None None ca None))
        (fx_slot SlotB vb None None cb None)"
    unfolding b scan_from_append [of n _ ?h] h scan_from_append [of _ _ "fx_slot SlotA va None None ca None"] ..
  ultimately show ?thesis unfolding a append_Nil c by auto
qed

lemma tail_scan:
  assumes "honest va vb x"
  shows "scan_from n (sl, [Read_ev a SlotA, Verdict_ev b SlotA, Read_ev c SlotB, Verdict_ev d SlotB])
      (fx_tail x (fx_slot SlotA va None None ca None) (fx_slot SlotB vb None None cb None) @ [[]]) =
    (sl, [Read_ev a SlotA, Verdict_ev b SlotA, Read_ev c SlotB, Verdict_ev d SlotB] @
       (case fx_choice x of Chose w \<Rightarrow> [Slot_ev n w, Boot_ev (Suc n) (''80500000'', ''80500000'')]
        | Halted \<Rightarrow> (case (va, vb) of (Bad r, Bad q) \<Rightarrow> [Halt_ev n (r, q)] | _ \<Rightarrow> [])))"
proof -
  have z: "scan_line st (i, []) = st" "scan_line st (i, ''/ # '') = st" "scan_line st (i, ''refuse-action halt'') = st"
    "scan_line st (i, ''Linux version 2.6.30.9 (fixture)'') = st"
    "scan_line st (i, ''rlxfw: init running, RLXFW-R3-RUNG1-OK'') = st"
    "scan_line st (i, ''RLXFW-ID0='' @ h) = st" for st i h
    by (rule scan_quiet; simp add: stage_plain stage_plain(12) [simplified] STAGE_OK_def VER_RE_def lit_def)+
  show ?thesis
  proof (cases "fx_choice x")
    case (Chose w)
    have s: "scan_line (sl, ord) (i, ''RLXBOOT-SLOT '' @ [slot_char w]) = (sl, ord @ [Slot_ev i w])" for ord i
      unfolding scan_line_def Let_def prod.case not_read(2,3)
      by (simp add: SLOT_RE_def lit_def slot_at_char at_end_def)
    have b: "scan_line (sl, ord) (i, ''RLXBOOT-BOOT load=80500000 entry=80500000'') =
        (sl, ord @ [Boot_ev i (''80500000'', ''80500000'')])" for ord i
    proof -
      have "BOOT_RE ''RLXBOOT-BOOT load=80500000 entry=80500000'' = Some (''80500000'', ''80500000'')"
        by (simp add: BOOT_RE_def lit_def exact_def at_end_def is_hex_lower_def is_digit_def)
      then show ?thesis
        using not_read(7-10) [of "''80500000 entry=80500000''"] by (simp add: scan_line_def)
    qed
    show ?thesis
      unfolding tail_lines [OF assms] Chose choice.case by (simp only: append.simps scan_from.simps s [simplified append.simps] b
          z [simplified append.simps])
  next
    case Halted
    then obtain r q where v: "va = Bad r" "vb = Bad q" using assms by (auto simp: honest_def)
    have w: "list_all is_word r" "r \<noteq> []" "list_all is_word q" "q \<noteq> []"
      using assms by (auto simp: honest_def v good_seen_def)
    have "\<not> is_word (CHR '' '')" by (simp add: is_word_def)
    then have "HALT_RE (halt_text r q) = Some (r, q)"
      using w by (simp add: HALT_RE_def halt_text_def lit_def some1_word some1_word [of _ _ "[]", simplified] at_end_def)
    then have h: "scan_line (sl, ord) (i, halt_text r q) = (sl, ord @ [Halt_ev i (r, q)])" for ord i
      unfolding scan_line_def Let_def prod.case halt_text_def not_read(4-6) by (simp add: halt_text_def)
    show ?thesis
      using tail_lines [OF assms] unfolding Halted v choice.case prod.case seen.case
      by (simp only: append.simps scan_from.simps h z)
  qed
qed

lemma tail_headers:
  assumes "honest va vb x" "s \<in> set (fx_tail x (fx_slot SlotA va None None ca None) (fx_slot SlotB vb None None cb None) @ [[]])"
  shows "no_header s" "BANNER_RE s = None" "clean s"
proof -
  have i: "BANNER_RE (''RLXFW-ID0='' @ fx_id0 x) = None" "clean (''RLXFW-ID0='' @ fx_id0 x)"
    using assms(1) ID0_line_plain clean_texts(4) by (auto simp: honest_def clean_append)
  have c: "slot_char w \<noteq> CHR 0x0A" "slot_char w \<noteq> CHR 0x0D" for w by (cases w; simp add: slot_char_def)+
  have b: "no_header ''RLXBOOT-BOOT load=80500000 entry=80500000''"
    using header_plain(18) [of "''80500000 entry=80500000''"] by simp
  have w: "list_all is_word r" "list_all is_word q" if "va = Bad r" "vb = Bad q" for r q
    using assms(1) that by (auto simp: honest_def good_seen_def)
  have m: "BANNER_RE s = None" if "no_mark s" for s using that by (simp add: no_mark_def)
  have t: "(\<exists>w. fx_choice x = Chose w \<and> s \<in> {''RLXBOOT-SLOT '' @ [slot_char w],
        ''RLXBOOT-BOOT load=80500000 entry=80500000'', ''Linux version 2.6.30.9 (fixture)'',
        ''RLXFW-ID0='' @ fx_id0 x, ''rlxfw: init running, RLXFW-R3-RUNG1-OK'', ''/ # '', []}) \<or>
      (\<exists>r q. va = Bad r \<and> vb = Bad q \<and> s \<in> {halt_text r q, ''refuse-action halt'', []})"
    using assms unfolding tail_lines [OF assms(1)]
    by (cases "fx_choice x") (auto simp: honest_def)
  show "no_header s" "BANNER_RE s = None" "clean s"
    using t w i m [OF marks_none(17)] marks_none(11-16,18) m b header_plain(16) header_plain(17) header_plain(10-15)
    by (auto simp: halt_text_def clean_append clean_texts c)
qed

definition run_facts :: "seen \<Rightarrow> seen \<Rightarrow> nat \<Rightarrow> nat \<Rightarrow> fixture \<Rightarrow> facts \<Rightarrow> bool" where
  "run_facts va vb ca cb x f \<longleftrightarrow>
     ft_key f = (fx_key x, KEY_FX) \<and> ft_from f = (if fx_froms x = [] then None else Some (hd (fx_froms x))) \<and>
     ft_slots f = both_slots va vb ca cb \<and> order_ok (ft_order f) \<and> ft_choice f = fx_choice x \<and>
     (case fx_choice x of
        Chose w \<Rightarrow> ft_halt f = None \<and> ft_boot f = Some (''80500000'', ''80500000'') \<and> ft_id0 f = Some (fx_id0 x)
      | Halted \<Rightarrow> ft_boot f = None \<and> ft_id0 f = None \<and>
          (\<exists>r q. va = Bad r \<and> vb = Bad q \<and> ft_halt f = Some (r, q)))"

lemma ids_chosen:
  assumes "honest va vb x" "fx_choice x = Chose w" "Suc m \<le> n" "n = length (body_of va vb ca cb x) + Suc m"
  shows "matches ID0_RX (map snd (filter (\<lambda>(i, s). i > Suc n)
      (zip [Suc m..<Suc m + length (body_of va vb ca cb x @ L)] (body_of va vb ca cb x @ L)))) =
    matches ID0_RX (drop 2 L)"
proof -
  let ?B = "body_of va vb ca cb x"
  have z: "zip [a..<a + length (P @ Q)] (P @ Q) = zip [a..<a + length P] P @ zip [a + length P..<a + length P + length Q] Q"
    for a and P Q :: "string list"
  proof -
    have "[a..<a + length (P @ Q)] = [a..<a + length P] @ [a + length P..<a + length P + length Q]"
      using upt_add_eq_append [of a "a + length P" "length Q"] by (simp add: add.assoc)
    then show ?thesis by simp
  qed
  have f2: "filter (\<lambda>(i, s). i > Suc n) (zip [n..<n + length L] L) = zip [Suc (Suc n)..<n + length L] (drop 2 L)"
  proof (cases L)
    case (Cons p L')
    show ?thesis
    proof (cases L')
      case (Cons q L'')
      have "filter (\<lambda>(i, s). i > Suc n) (zip [Suc (Suc n)..<n + length L] L'') = zip [Suc (Suc n)..<n + length L] L''"
        by (rule filter_True) (auto simp del: upt_Suc dest!: set_zip_leftD)
      moreover have "[n..<n + length L] = n # Suc n # [Suc (Suc n)..<n + length L]"
        using \<open>L = p # L'\<close> Cons by (simp add: upt_conv_Cons del: upt_Suc)
      ultimately show ?thesis using \<open>L = p # L'\<close> Cons by (simp del: upt_Suc)
    qed (use Cons in simp)
  qed simp
  have e: "Suc m + length ?B = n" using assms(4) by simp
  have f1: "filter (\<lambda>(i, s). i > Suc n) (zip [Suc m..<n] ?B) = []"
    by (auto simp: filter_empty_conv simp del: upt_Suc dest!: set_zip_leftD)
  have "map snd (zip [Suc (Suc n)..<n + length L] (drop 2 L)) = drop 2 L"
    by (simp add: map_snd_zip_take min_def)
  then show ?thesis unfolding z e filter_append f1 append_Nil f2 by (simp only:)
qed

lemma capture_parse:
  assumes "honest va vb x"
  shows "\<exists>f. parse (fx_capture (fx_slot SlotA va None None ca None) (fx_slot SlotB vb None None cb None) x) = Inr f \<and>
    run_facts va vb ca cb x f"
proof -
  let ?A = "fx_slot SlotA va None None ca None" and ?Bs = "fx_slot SlotB vb None None cb None"
  let ?P = "fx_head x" and ?bl = "''RLXBOOT-V1 build=6b1dc4fd''"
  define B T where "B = body_of va vb ca cb x" and "T = fx_tail x ?A ?Bs @ [[]]"
  have h: "filter (\<lambda>c. c \<noteq> CHR 0x0D) (fx_eol x) = [CHR 0x0A]" "fx_banners x = 1" "fx_keyline x"
    "good_seen va" "good_seen vb" "fx_ctr x = ''flash''" "fx_key x = ''prod'' \<or> fx_key x = ''dev''"
    "\<forall>s \<in> set (fx_pre x). clean s \<and> BANNER_RE s = None"
    using assms by (auto simp: honest_def)
  have cap: "fx_capture ?A ?Bs x = join (fx_eol x) (?P @ ?bl # B @ fx_tail x ?A ?Bs) @ fx_eol x"
    using h(2,3) by (simp add: fx_capture_def B_def body_of_def)
  have k: "clean KEY_FX" using KEY_FX_hex(2) by (rule clean_texts(5))
  have cB: "clean s" if "s \<in> set B" for s
    using that assms h fx_slot_clean k clean_texts(5)
    by (auto simp: B_def body_of_def honest_def clean_append)
  have cl: "\<forall>s \<in> set (?P @ ?bl # B @ fx_tail x ?A ?Bs). clean s"
    using h(8) cB tail_headers(3) [OF assms, where ca = ca and cb = cb] by (auto simp: fx_head_def clean_append)
  have lines: "lines_of (fx_capture ?A ?Bs x) = ?P @ ?bl # (B @ T)"
    unfolding cap lines_of_join [OF h(1) cl, simplified] by (simp add: T_def)
  have nb: "\<forall>s \<in> set (?P @ B @ T). BANNER_RE s = None"
    using h(8) body_marks [OF assms] tail_headers(2) [OF assms, where ca = ca and cb = cb] marks_none(23,24)
    by (auto simp: fx_head_def no_mark_def B_def T_def)
  let ?m = "length ?P"
  have p: "parse (fx_capture ?A ?Bs x) = parse_run ''6b1dc4fd'' ?m (matches ID0_RX ?P)
      (zip [Suc ?m..<Suc ?m + length (B @ T)] (B @ T))"
    by (rule parse_split [OF lines banner_line nb])
  let ?seg = "zip [Suc ?m..<Suc ?m + length (B @ T)] (B @ T)"
  have ls: "map snd ?seg = B @ T" by (simp add: map_snd_zip_take del: upt_Suc)
  have tn: "matches KEY_RE T = []" "matches FROM_RE T = []" "matches CTR_RE T = []"
    using tail_headers(1) [OF assms] by (auto intro!: matches_none simp: T_def no_header_def)
  have hd: "matches KEY_RE (B @ T) = [(fx_key x, KEY_FX)]" "matches FROM_RE (B @ T) = fx_froms x"
    "matches CTR_RE (B @ T) = [''flash'']"
    using body_headers [OF assms] tn by (simp_all add: B_def)
  obtain a b c d where sb: "scan_from (Suc ?m) (\<lambda>w. no_facts, []) B =
      (both_slots va vb ca cb, [Read_ev a SlotA, Verdict_ev b SlotA, Read_ev c SlotB, Verdict_ev d SlotB])"
    using body_scan [OF assms, of "Suc ?m" ca cb] unfolding B_def by blast
  let ?n = "Suc ?m + length B"
  have sc: "foldl scan_line (\<lambda>w. no_facts, []) ?seg =
      (both_slots va vb ca cb, [Read_ev a SlotA, Verdict_ev b SlotA, Read_ev c SlotB, Verdict_ev d SlotB] @
         (case fx_choice x of Chose w \<Rightarrow> [Slot_ev ?n w, Boot_ev (Suc ?n) (''80500000'', ''80500000'')]
          | Halted \<Rightarrow> (case (va, vb) of (Bad r, Bad q) \<Rightarrow> [Halt_ev ?n (r, q)] | _ \<Rightarrow> [])))"
    unfolding scan_from_fold scan_from_append [of _ _ B] sb T_def by (rule tail_scan [OF assms])
  have fr: "length (fx_froms x) \<le> 1" using assms by (auto simp: honest_def)
  show ?thesis
  proof (cases "fx_choice x")
    case (Chose w)
    have "drop 2 T = [''Linux version 2.6.30.9 (fixture)'', ''RLXFW-ID0='' @ fx_id0 x,
         ''rlxfw: init running, RLXFW-R3-RUNG1-OK'', ''/ # '', []]"
      unfolding T_def tail_lines [OF assms] Chose by simp
    moreover have "ID0_RX (''RLXFW-ID0='' @ fx_id0 x) = Some (fx_id0 x)"
      using assms by (intro ID0_line) (auto simp: honest_def)
    ultimately have i: "matches ID0_RX (drop 2 T) = [fx_id0 x]"
      using marks_none(11-14) by (simp only: matches_def list.map concat.simps no_mark_def option.case append_Nil append_Nil2)
    have ids: "matches ID0_RX (map snd (filter (\<lambda>(i, s). i > Suc ?n) ?seg)) = [fx_id0 x]"
      using ids_chosen [OF assms Chose, of ?m ?n ca cb T] i by (simp add: B_def del: upt_Suc)
    show ?thesis
      unfolding p parse_run_def Let_def ls hd sc Chose
      using fr ids
      by (auto simp: count_refusal_def is_slot_ev_def is_halt_ev_def is_boot_ev_def chosen_of_def id_after_def run_facts_def
          order_ok_def Chose simp del: upt_Suc)
  next
    case Halted
    then obtain r q where v: "va = Bad r" "vb = Bad q" using assms by (auto simp: honest_def)
    show ?thesis
      unfolding p parse_run_def Let_def ls hd sc Halted
      using fr v
      by (auto simp: count_refusal_def is_slot_ev_def is_halt_ev_def is_boot_ev_def chosen_of_def id_after_def run_facts_def
          order_ok_def Halted v simp del: upt_Suc)
  qed
qed

end
