(* ===== verification/BootJudge.thy ===== *)
theory BootJudge
  imports "HOL-Library.Monad_Syntax" Prelude BootSlot BootCapture
begin

text \<open>
  What \<open>tools/bootslot.py\<close> answers on a whole capture: what a pass says of the run, that lines before the
  banner have no say, that \<open>refuse_args\<close> and \<open>judge\<close> agree on the arguments, and that a capture as
  rlxboot prints it passes exactly when it is the run that was expected.
\<close>

lemma stages_read: "matches VER_RE (STAGE_OK @ [ver_text k ctr]) = [(k, True)]"
proof -
  have "matches VER_RE STAGE_OK = []" by (simp add: matches_def STAGE_OK_def VER_RE_def lit_def)
  then show ?thesis by (simp add: matches_def VER_text)
qed

lemma slot_checks_honest: "list_all fst (slot_checks nm w (facts_of w v ctr) e) \<longleftrightarrow> seen_hit e (Some v)"
  using stages_read by (cases v) (auto simp: slot_checks_def facts_of_def Let_def stages_of_def stages_ok_def list_all_iff)

subsection \<open>The verdict on a capture\<close>

definition as_wanted ::
    "seen \<Rightarrow> seen \<Rightarrow> nat \<Rightarrow> nat \<Rightarrow> fixture \<Rightarrow> bool \<Rightarrow> choice \<times> expect \<times> expect \<times> string option \<times> string option \<Rightarrow> bool" where
  "as_wanted va vb ca cb x dev wants =
     (case wants of (w, ea, eb, fw, rid) \<Rightarrow>
        fx_choice x = w \<and> d4 (both_slots va vb ca cb) = w \<and> seen_hit ea (Some va) \<and> seen_hit eb (Some vb) \<and>
        (fx_key x = ''prod'' \<or> dev) \<and> (fw = None \<or> fx_froms x = [the fw]) \<and>
        (w = Halted \<or> rid = Some (ascii_lower (fx_id0 x))))"

lemma checks_honest:
  assumes "honest va vb x" "run_facts va vb ca cb x f"
  shows "list_all fst (judge_checks dev wants f) = as_wanted va vb ca cb x dev wants"
proof -
  obtain w ea eb fw rid where w: "wants = (w, ea, eb, fw, rid)" by (cases wants) auto
  have r: "ft_key f = (fx_key x, KEY_FX)" "ft_from f = (if fx_froms x = [] then None else Some (hd (fx_froms x)))"
      "order_ok (ft_order f)" "ft_choice f = fx_choice x" "ft_slots f = both_slots va vb ca cb"
    using assms(2) by (auto simp: run_facts_def)
  have bs: "both_slots u v m n SlotA = facts_of SlotA u m" "both_slots u v m n SlotB = facts_of SlotB v n" for u v m n
    by (simp_all add: both_slots_def)
  have fr: "fx_froms x = [] \<or> (\<exists>h. fx_froms x = [h])" using assms(1) by (auto simp: honest_def)
  show ?thesis
  proof (cases "fx_choice x")
    case (Chose v)
    then have "ft_halt f = None" "ft_boot f \<noteq> None" "ft_id0 f = Some (fx_id0 x)"
      using assms(2) by (auto simp: run_facts_def)
    with Chose show ?thesis using fr
      by (auto simp: w judge_checks_def Let_def r bs as_wanted_def slot_checks_honest
          split: option.splits if_splits)
  next
    case Halted
    then obtain p q where "va = Bad p" "vb = Bad q" "ft_halt f = Some (p, q)"
      using assms(2) by (auto simp: run_facts_def)
    moreover from this have "sf_verdict (both_slots va vb ca cb SlotA) = Some (Bad p)"
      "sf_verdict (both_slots va vb ca cb SlotB) = Some (Bad q)"
      by (simp_all add: both_slots_def facts_of_def Let_def)
    ultimately show ?thesis using fr Halted
      by (auto simp: w judge_checks_def Let_def r bs as_wanted_def slot_checks_honest seen_reason_def
          split: option.splits if_splits)
  qed
qed

lemma judge_honest:
  assumes "honest va vb x" "judge_wants files a = Inr (w, ea, eb, fw, rid)" "fw = None \<or> fx_froms x \<noteq> []"
  shows "\<exists>f. run_facts va vb ca cb x f \<and>
    judge files (fx_capture (fx_slot SlotA va None None ca None) (fx_slot SlotB vb None None cb None) x) a =
      (let res = judge_checks (ja_allow_dev a) (w, ea, eb, fw, rid) f in
        Inr (as_wanted va vb ca cb x (ja_allow_dev a) (w, ea, eb, fw, rid), res, f))"
proof -
  obtain f where f: "parse (fx_capture (fx_slot SlotA va None None ca None) (fx_slot SlotB vb None None cb None) x) = Inr f"
    and r: "run_facts va vb ca cb x f"
    using capture_parse [OF assms(1)] by blast
  have "fw = None \<or> ft_from f \<noteq> None" using assms(3) r by (auto simp: run_facts_def)
  then show ?thesis
    using r checks_honest [OF assms(1) r, of "ja_allow_dev a" "(w, ea, eb, fw, rid)"]
    by (intro exI [of _ f]) (auto simp: judge_def assms(2) f Let_def split: option.splits)
qed

definition ruling :: "(string \<Rightarrow> string option) \<Rightarrow> string \<Rightarrow> judge_args \<Rightarrow> (bool \<times> (bool \<times> string) list) option" where
  "ruling files txt a = (case judge files txt a of Inl e \<Rightarrow> None | Inr (ok, res, f) \<Rightarrow> Some (ok, res))"

lemma order_ok_core: "core (Inr f) = core (Inr g) \<Longrightarrow> judge_checks dev wants f = judge_checks dev wants g"
  by (cases wants) (auto simp: core_def judge_checks_def Let_def split: option.split choice.split)

lemma ruling_core:
  assumes "core (parse t) = core (parse u)"
  shows "ruling files t a = ruling files u a"
proof (cases "judge_wants files a")
  case (Inl e)
  then show ?thesis by (simp add: ruling_def judge_def)
next
  case (Inr wants)
  show ?thesis
  proof (cases "parse t"; cases "parse u")
    fix f g assume p: "parse t = Inr f" "parse u = Inr g"
    with assms have c: "core (Inr f) = core (Inr g)" by simp
    then have "ft_from f = ft_from g" by (simp add: core_def)
    with order_ok_core [OF c] show ?thesis by (simp add: ruling_def judge_def p Inr Let_def split: option.split)
  qed (use assms in \<open>auto simp: ruling_def judge_def Inr core_def\<close>)
qed


text \<open>A manifest and a run that agree: slot A holds version 2, slot B no container.\<close>

definition demo_files :: "string \<Rightarrow> string option" where
  "demo_files p = (if p = ''m'' then
     Some (''rlxfw-build-manifest'' @ [CHR 0x09] @ ''1'' @ [CHR 0x0A] @ ''recipe_id'' @ [CHR 0x09] @ ''1a2b3c4d'' @ [CHR 0x0A])
     else None)"

definition demo_args :: judge_args where
  "demo_args = \<lparr>ja_expect_slot = ''A'', ja_expect_a = Some ''ok:2'', ja_expect_b = Some ''bad'',
     ja_manifest = Some ''m'', ja_allow_dev = False, ja_from = None\<rparr>"

definition demo :: fixture where
  "demo = \<lparr>fx_choice = Chose SlotA, fx_key = ''prod'', fx_ctr = ''flash'', fx_id0 = ''1A2B3C4D'', fx_eol = [CHR 0x0A],
     fx_boot = True, fx_ids_after = 1, fx_pre = [], fx_banners = 1, fx_keyline = True, fx_cut = False, fx_froms = []\<rparr>"

definition demo_capture :: string where
  "demo_capture = fx_capture (fx_slot SlotA (Ok_ver 2) None None 2 None) (fx_slot SlotB (Bad ''magic'') None None 0 None) demo"

lemma demo_wants: "judge_wants demo_files demo_args = Inr (Chose SlotA, Want_ok (Some 2), Want_bad None, None, Some ''1a2b3c4d'')"
  by code_simp

lemma demo_honest: "honest (Ok_ver 2) (Bad ''magic'') demo"
  by (simp add: honest_def demo_def good_seen_def is_word_def is_hex_def is_hex_lower_def is_digit_def)

lemma demo_as_wanted:
  "as_wanted (Ok_ver 2) (Bad ''magic'') 2 0 demo False (Chose SlotA, Want_ok (Some 2), Want_bad None, None, Some ''1a2b3c4d'')"
proof -
  have "ascii_lower ''1A2B3C4D'' = ''1a2b3c4d''" by code_simp
  then show ?thesis by (simp add: as_wanted_def demo_def d4_def both_slots_def facts_of_def Let_def seen_hit_def)
qed

lemma demo_judged: "\<exists>res f. judge demo_files demo_capture demo_args = Inr (True, res, f)"
  using judge_honest [OF demo_honest demo_wants, of 2 0] demo_as_wanted
  by (auto simp: Let_def demo_capture_def demo_args_def)

text \<open>Every argument that \<open>refuse_args\<close> turns down before anything is opened is turned down by \<open>judge\<close>
  with the same refusal, whatever the capture and the manifest hold, and nothing else is.\<close>

lemma refused_before_reading:
  "(refuse_args (Judge_cmd a) = Some e) = (\<forall>files txt. judge files txt a = Inl e)"
proof
  assume "refuse_args (Judge_cmd a) = Some e"
  then show "\<forall>files txt. judge files txt a = Inl e"
    using refuse_args_judge by (simp add: judge_def)
next
  assume j: "\<forall>files txt. judge files txt a = Inl e"
  let ?files = "\<lambda>p. demo_files ''m''"
  have m: "read_manifest ?files p = Inr ''1a2b3c4d''" for p by code_simp
  have "case parse [] of Inl d \<Rightarrow> d = No_banner | Inr f \<Rightarrow> False"
    "case parse ''RLXBOOT-V1 build=6b1dc4fd'' of Inl d \<Rightarrow> d = No_key | Inr f \<Rightarrow> False" by code_simp+
  then have t: "parse [] = Inl No_banner" "parse ''RLXBOOT-V1 build=6b1dc4fd'' = Inl No_key"
    by (simp_all split: sum.splits)
  show "refuse_args (Judge_cmd a) = Some e"
  proof (cases "judge_wants ?files a")
    case (Inl d)
    then have "judge ?files [] a = Inl d" by (simp add: judge_def)
    moreover have "judge ?files [] a = Inl e" using j by blast
    ultimately have "d = e" by simp
    then show ?thesis using judge_wants_Inl [OF Inl] m by auto
  next
    case (Inr wants)
    then have "judge ?files [] a = Inl No_banner" "judge ?files ''RLXBOOT-V1 build=6b1dc4fd'' a = Inl No_key"
      by (simp_all add: judge_def t)
    then show ?thesis using j by (metis slot_refusal.distinct sum.inject(1))
  qed
qed

text \<open>C14.  A pass is worth what it says: the capture holds one banner, and after it one run; both slots were
  read whole from where the layout has them, in order, and say what was expected of them with every stage they
  need; the slot that booted is the one expected and holds the highest version that any slot proved, and the
  kernel it booted printed the id of the build manifest.\<close>

theorem pass_means:
  assumes "judge files txt a = Inr (True, res, f)"
  shows "\<exists>w ea eb fw rid b0 s. judge_wants files a = Inr (w, ea, eb, fw, rid) \<and>
    filter (\<lambda>(i, s). BANNER_RE s \<noteq> None) (numbered (lines_of txt)) = [(b0, s)] \<and>
    one_run (filter (\<lambda>(i, s). i > b0) (numbered (lines_of txt))) f \<and>
    pass_facts w ea eb rid (ja_allow_dev a) f \<and>
    (\<forall>v. w = Chose v \<longrightarrow> (\<exists>n. sf_verdict (ft_slots f v) = Some (Ok_ver n) \<and>
        (\<forall>u m. sf_verdict (ft_slots f u) = Some (Ok_ver m) \<longrightarrow> m \<le> n)))"
proof -
  obtain w ea eb fw rid where j: "judge_wants files a = Inr (w, ea, eb, fw, rid)" "parse txt = Inr f"
      "list_all fst (judge_checks (ja_allow_dev a) (w, ea, eb, fw, rid) f)"
    using judge_Inr [OF assms] by auto
  then have p: "pass_facts w ea eb rid (ja_allow_dev a) f" using judge_checks_pass by blast
  then have d: "d4 (ft_slots f) = w" by (simp add: pass_facts_def)
  obtain b0 s where "filter (\<lambda>(i, s). BANNER_RE s \<noteq> None) (numbered (lines_of txt)) = [(b0, s)]"
      "one_run (filter (\<lambda>(i, s). i > b0) (numbered (lines_of txt))) f"
    using parse_Inr [OF j(2)] parse_run_Inr by blast
  then show ?thesis using j(1) p d d4_Chose by blast
qed

lemma pass_means_witness:
  "\<exists>res f b0 s. judge demo_files demo_capture demo_args = Inr (True, res, f) \<and>
    one_run (filter (\<lambda>(i, s). i > b0) (numbered (lines_of demo_capture))) f \<and>
    pass_facts (Chose SlotA) (Want_ok (Some 2)) (Want_bad None) (Some ''1a2b3c4d'') False f"
proof -
  obtain res f where j: "judge demo_files demo_capture demo_args = Inr (True, res, f)" using demo_judged by blast
  have "\<not> ja_allow_dev demo_args" by (simp add: demo_args_def)
  then show ?thesis using pass_means [OF j] j unfolding demo_wants by auto
qed

text \<open>What a capture holds before rlxboot's banner has no say in the verdict: a power-on, an older run's
  markers or another program's lines there change neither what is judged nor one check of it.\<close>

theorem earlier_lines_have_no_say:
  assumes "\<forall>s \<in> set (lines_of pre). BANNER_RE s = None"
  shows "ruling files (pre @ CHR 0x0A # run) a = ruling files run a"
  by (rule ruling_core [OF parse_prefix [OF assms]])

lemma earlier_lines_have_no_say_witness:
  "ruling demo_files (''RLXBOOT-KEY dev'' @ CHR 0x0A # demo_capture) demo_args = ruling demo_files demo_capture demo_args"
  by (rule earlier_lines_have_no_say) code_simp

text \<open>C15.  A capture as rlxboot prints it is read back as it happened and judged by that alone: the key, the
  word, both verdicts, the choice, the halt and the id come back, and the verdict is a pass exactly when the
  slots' own versions imply the choice and all of it is what was expected.\<close>

theorem honest_capture_judged:
  assumes "honest va vb x" "judge_wants files a = Inr (w, ea, eb, fw, rid)" "fw = None \<or> fx_froms x \<noteq> []"
  shows "\<exists>f. run_facts va vb ca cb x f \<and>
    judge files (fx_capture (fx_slot SlotA va None None ca None) (fx_slot SlotB vb None None cb None) x) a =
      (let res = judge_checks (ja_allow_dev a) (w, ea, eb, fw, rid) f in
        Inr (as_wanted va vb ca cb x (ja_allow_dev a) (w, ea, eb, fw, rid), res, f))"
  by (rule judge_honest [OF assms])

lemma honest_capture_judged_witness:
  "\<exists>res f. run_facts (Ok_ver 2) (Bad ''magic'') 2 0 demo f \<and> judge demo_files demo_capture demo_args = Inr (True, res, f)"
  using honest_capture_judged [OF demo_honest demo_wants, of 2 0] demo_as_wanted
  by (auto simp: Let_def demo_capture_def demo_args_def)

end
