(* ===== verification/IsaModel.thy ===== *)
theory IsaModel
  imports "HOL-Library.Word" Prelude PyText
begin

unbundle bit_operations_syntax

text \<open>
  \<open>tools/isapay.py\<close>, the model: what each probed MIPS instruction computes, on Python's integers, with the
  masks and the refusals of the code.  The reference semantics below is on 32-bit words; the lemmas show
  that the integer arithmetic with its masks is the machine's, instruction by instruction.
\<close>

subsection \<open>Integers as words\<close>

datatype model_error =
    Mem_outside int | Unaligned_word int | Add_overflow | Sub_overflow | Ins_outside int int | Ext_outside int int
  | Produces string string | Signature_mismatch
  | Index_traceback | Type_traceback

text \<open>The last two are exceptions that nothing catches.\<close>

definition u32 :: "int \<Rightarrow> int" where "u32 x = x AND 0xFFFFFFFF"

definition s32 :: "int \<Rightarrow> int" where
  "s32 x = (let x = x AND 0xFFFFFFFF in if x AND 0x80000000 \<noteq> 0 then x - push_bit 32 1 else x)"

definition bytes_be :: "int \<Rightarrow> int list" where
  "bytes_be w = [drop_bit 24 w AND 0xFF, drop_bit 16 w AND 0xFF, drop_bit 8 w AND 0xFF, w AND 0xFF]"

text \<open>Indexing of a four-element list, from the end where the index is negative.\<close>

definition list_at :: "int list \<Rightarrow> int \<Rightarrow> model_error + int" where
  "list_at xs i =
     (if 0 \<le> i \<and> i < int (length xs) then Inr (xs ! nat i)
      else if i < 0 \<and> - int (length xs) \<le> i then Inr (xs ! nat (int (length xs) + i))
      else Inl Index_traceback)"

definition mem_byte :: "int \<Rightarrow> int \<Rightarrow> int \<Rightarrow> model_error + int" where
  "mem_byte m0 m1 off =
     (if off < 4 then list_at (bytes_be m0) off
      else if off < 8 then list_at (bytes_be m1) (off - 4)
      else Inl (Mem_outside off))"

definition mem_word :: "int \<Rightarrow> int \<Rightarrow> int \<Rightarrow> model_error + int" where
  "mem_word m0 m1 off = (if off = 0 then Inr m0 else if off = 4 then Inr m1 else Inl (Unaligned_word off))"

subsection \<open>The instructions\<close>

definition m_add :: "int \<Rightarrow> int \<Rightarrow> model_error + int" where
  "m_add a b =
     (let s = s32 a + s32 b in
      if s < - push_bit 31 1 \<or> s > push_bit 31 1 - 1 then Inl Add_overflow else Inr (u32 s))"

definition m_addu :: "int \<Rightarrow> int \<Rightarrow> int" where "m_addu a b = u32 (a + b)"

definition m_sub :: "int \<Rightarrow> int \<Rightarrow> model_error + int" where
  "m_sub a b =
     (let s = s32 a - s32 b in
      if s < - push_bit 31 1 \<or> s > push_bit 31 1 - 1 then Inl Sub_overflow else Inr (u32 s))"

definition m_and :: "int \<Rightarrow> int \<Rightarrow> int" where "m_and a b = u32 (a AND b)"
definition m_or :: "int \<Rightarrow> int \<Rightarrow> int" where "m_or a b = u32 (a OR b)"
definition m_xor :: "int \<Rightarrow> int \<Rightarrow> int" where "m_xor a b = u32 (a XOR b)"
definition m_sll :: "int \<Rightarrow> nat \<Rightarrow> int" where "m_sll b sh = u32 (push_bit sh b)"
definition m_srl :: "int \<Rightarrow> nat \<Rightarrow> int" where "m_srl b sh = u32 (drop_bit sh b)"
definition m_sra :: "int \<Rightarrow> nat \<Rightarrow> int" where "m_sra b sh = u32 (drop_bit sh (s32 b))"
definition m_slt :: "int \<Rightarrow> int \<Rightarrow> int" where "m_slt a b = (if s32 a < s32 b then 1 else 0)"
definition m_sltu :: "int \<Rightarrow> int \<Rightarrow> int" where "m_sltu a b = (if u32 a < u32 b then 1 else 0)"
definition m_lw :: "int \<Rightarrow> int \<Rightarrow> int \<Rightarrow> model_error + int" where "m_lw m0 m1 imm = mem_word m0 m1 imm"
definition m_sw :: "int \<Rightarrow> int" where "m_sw b = u32 b"

definition m_lb :: "int \<Rightarrow> int \<Rightarrow> int \<Rightarrow> model_error + int" where
  "m_lb m0 m1 imm = sbind (mem_byte m0 m1 imm) (\<lambda>v. Inr (u32 (if v AND 0x80 \<noteq> 0 then v - 256 else v)))"

definition m_lbu :: "int \<Rightarrow> int \<Rightarrow> int \<Rightarrow> model_error + int" where "m_lbu m0 m1 imm = mem_byte m0 m1 imm"

definition m_lwl :: "int \<Rightarrow> int \<Rightarrow> int \<Rightarrow> int \<Rightarrow> model_error + int" where
  "m_lwl m0 m1 imm seed =
     (let byte = nat (imm AND 3) in
      sbind (mem_word m0 m1 (imm AND NOT 3)) (\<lambda>w.
        let keep = push_bit (8 * byte) 1 - 1 in Inr (u32 (push_bit (8 * byte) w OR (seed AND keep)))))"

definition m_lwr :: "int \<Rightarrow> int \<Rightarrow> int \<Rightarrow> int \<Rightarrow> model_error + int" where
  "m_lwr m0 m1 imm seed =
     (let byte = nat (imm AND 3) in
      sbind (mem_word m0 m1 (imm AND NOT 3)) (\<lambda>w.
        let shift = 8 * (3 - byte); nkeep = 8 * (3 - byte);
            keep = (if nkeep \<noteq> 0 then u32 (NOT (push_bit (32 - nkeep) 1 - 1)) else 0)
        in Inr (u32 (drop_bit shift w OR (seed AND keep)))))"

definition join_be :: "int list \<Rightarrow> int" where
  "join_be m = u32 (push_bit 24 (m ! 0) OR push_bit 16 (m ! 1) OR push_bit 8 (m ! 2) OR m ! 3)"

definition m_swl :: "int \<Rightarrow> int \<Rightarrow> int \<Rightarrow> int \<Rightarrow> model_error + int" where
  "m_swl b m0 m1 imm =
     (let byte = nat (imm AND 3) in
      sbind (mem_word m0 m1 (imm AND NOT 3)) (\<lambda>w.
        let n = 4 - byte; src = bytes_be b
        in Inr (join_be (foldl (\<lambda>mem i. mem[byte + i := src ! i]) (bytes_be w) [0..<n]))))"

definition m_swr :: "int \<Rightarrow> int \<Rightarrow> int \<Rightarrow> int \<Rightarrow> model_error + int" where
  "m_swr b m0 m1 imm =
     (let byte = nat (imm AND 3) in
      sbind (mem_word m0 m1 (imm AND NOT 3)) (\<lambda>w.
        let n = byte + 1; src = bytes_be b
        in Inr (join_be (foldl (\<lambda>mem i. mem[byte - i := src ! (3 - i)]) (bytes_be w) [0..<n]))))"

definition m_mult_lo :: "int \<Rightarrow> int \<Rightarrow> int" where "m_mult_lo a b = u32 (s32 a * s32 b)"
definition m_mult_hi :: "int \<Rightarrow> int \<Rightarrow> int" where "m_mult_hi a b = u32 (drop_bit 32 (s32 a * s32 b))"
definition m_multu_lo :: "int \<Rightarrow> int \<Rightarrow> int" where "m_multu_lo a b = u32 (u32 a * u32 b)"
definition m_multu_hi :: "int \<Rightarrow> int \<Rightarrow> int" where "m_multu_hi a b = u32 (drop_bit 32 (u32 a * u32 b))"

text \<open>The loops of \<open>clz\<close> and \<open>clo\<close>: \<open>one\<close> is whether a set top bit goes on.\<close>

function lead_loop :: "bool \<Rightarrow> nat \<Rightarrow> int \<Rightarrow> nat" where
  "lead_loop one n v =
     (if n < 32 \<and> (v AND 0x80000000 \<noteq> 0) = one then lead_loop one (Suc n) (u32 (push_bit 1 v)) else n)"
  by pat_completeness auto
termination by (relation "measure (\<lambda>(one, n, v). 32 - n)") auto

declare lead_loop.simps [simp del]

definition m_clz :: "int \<Rightarrow> int" where "m_clz a = int (lead_loop False 0 (u32 a))"
definition m_clo :: "int \<Rightarrow> int" where "m_clo a = int (lead_loop True 0 (u32 a))"
definition m_mul :: "int \<Rightarrow> int \<Rightarrow> int" where "m_mul a b = u32 (s32 a * s32 b)"
definition m_movz :: "int \<Rightarrow> int \<Rightarrow> int \<Rightarrow> int" where "m_movz a b seed = (if u32 b = 0 then u32 a else u32 seed)"
definition m_movn :: "int \<Rightarrow> int \<Rightarrow> int \<Rightarrow> int" where "m_movn a b seed = (if u32 b \<noteq> 0 then u32 a else u32 seed)"
definition m_ext :: "int \<Rightarrow> nat \<Rightarrow> nat \<Rightarrow> int" where "m_ext a sh sz = u32 (drop_bit sh a AND (push_bit sz 1 - 1))"

definition m_seb :: "int \<Rightarrow> int" where
  "m_seb b = (let v = b AND 0xFF in u32 (if v AND 0x80 \<noteq> 0 then v - 256 else v))"

definition m_seh :: "int \<Rightarrow> int" where
  "m_seh b = (let v = b AND 0xFFFF in u32 (if v AND 0x8000 \<noteq> 0 then v - 65536 else v))"

definition m_wsbh :: "int \<Rightarrow> int" where
  "m_wsbh b = u32 (push_bit 8 (b AND 0x00FF0000) OR drop_bit 8 (b AND 0xFF000000)
     OR push_bit 8 (b AND 0x000000FF) OR drop_bit 8 (b AND 0x0000FF00))"

definition m_rotr :: "int \<Rightarrow> nat \<Rightarrow> int" where
  "m_rotr b sh =
     (let s = sh mod 32 in if s = 0 then u32 b else u32 (drop_bit s b OR push_bit (32 - s) b))"

definition MAC_HI_PRIME :: int where "MAC_HI_PRIME = 0x0BAD0000"
definition MAC_LO_PRIME :: int where "MAC_LO_PRIME = 0xF00D0000"

definition madd_acc :: "int \<Rightarrow> int \<Rightarrow> int" where
  "madd_acc a b = ((push_bit 32 MAC_HI_PRIME OR MAC_LO_PRIME) + s32 a * s32 b) AND (push_bit 64 1 - 1)"

definition m_madd :: "int \<Rightarrow> int \<Rightarrow> int" where "m_madd a b = u32 (madd_acc a b)"
definition m_madd_hi :: "int \<Rightarrow> int \<Rightarrow> int" where "m_madd_hi a b = u32 (drop_bit 32 (madd_acc a b))"

definition m_ins :: "int \<Rightarrow> int \<Rightarrow> nat \<Rightarrow> nat \<Rightarrow> model_error + int" where
  "m_ins a seed sh rd =
     (let size = int rd - int sh + 1 in
      if size < 1 \<or> int sh + size > 32 then Inl (Ins_outside (int sh) size)
      else let mask = push_bit sh (push_bit (nat size) 1 - 1) in
        Inr (u32 ((seed AND NOT mask) OR push_bit sh (a AND (push_bit (nat size) 1 - 1)))))"

definition m_ext2 :: "int \<Rightarrow> nat \<Rightarrow> nat \<Rightarrow> model_error + int" where
  "m_ext2 a sh rd =
     (let size = rd + 1 in
      if sh + size > 32 then Inl (Ext_outside (int sh) (int size))
      else Inr (u32 (drop_bit sh a AND (push_bit size 1 - 1))))"

definition TAKEN :: int where "TAKEN = 0x0600"
definition NOTTAKEN :: int where "NOTTAKEN = 0x0BAD"

definition m_beq :: "int \<Rightarrow> int \<Rightarrow> int" where "m_beq a b = (if u32 a = u32 b then TAKEN else NOTTAKEN)"
definition m_bne :: "int \<Rightarrow> int \<Rightarrow> int" where "m_bne a b = (if u32 a \<noteq> u32 b then TAKEN else NOTTAKEN)"
definition m_blez :: "int \<Rightarrow> int" where "m_blez a = (if s32 a \<le> 0 then TAKEN else NOTTAKEN)"
definition m_bgtz :: "int \<Rightarrow> int" where "m_bgtz a = (if s32 a > 0 then TAKEN else NOTTAKEN)"
definition m_jr :: int where "m_jr = TAKEN"

subsection \<open>The table of models\<close>

text \<open>The keyword arguments; a shift or size field of the table may be missing (\<open>None\<close>).\<close>

record margs =
  g_a :: int
  g_b :: int
  g_m0 :: int
  g_m1 :: int
  g_seed :: int
  g_sh :: "int option"
  g_rd :: "int option"
  g_imm :: int

text \<open>A \<open>None\<close> in arithmetic is the \<open>TypeError\<close> that \<open>model_row\<close> turns into a refusal.\<close>

definition with_sh :: "(nat \<Rightarrow> margs \<Rightarrow> model_error + int) \<Rightarrow> margs \<Rightarrow> model_error + int" where
  "with_sh f k = (case g_sh k of None \<Rightarrow> Inl Signature_mismatch | Some s \<Rightarrow> f (nat s) k)"

definition with_rd :: "(nat \<Rightarrow> margs \<Rightarrow> model_error + int) \<Rightarrow> margs \<Rightarrow> model_error + int" where
  "with_rd f k = (case g_rd k of None \<Rightarrow> Inl Signature_mismatch | Some s \<Rightarrow> f (nat s) k)"

definition MODELS :: "(string \<times> (margs \<Rightarrow> model_error + int) \<times> string) list" where
  "MODELS =
    [(''add'', \<lambda>k. m_add (g_a k) (g_b k), ''gpr''), (''addu'', \<lambda>k. Inr (m_addu (g_a k) (g_b k)), ''gpr''),
     (''sub'', \<lambda>k. m_sub (g_a k) (g_b k), ''gpr''), (''and'', \<lambda>k. Inr (m_and (g_a k) (g_b k)), ''gpr''),
     (''or'', \<lambda>k. Inr (m_or (g_a k) (g_b k)), ''gpr''), (''xor'', \<lambda>k. Inr (m_xor (g_a k) (g_b k)), ''gpr''),
     (''sll'', with_sh (\<lambda>s k. Inr (m_sll (g_b k) s)), ''gpr''), (''srl'', with_sh (\<lambda>s k. Inr (m_srl (g_b k) s)), ''gpr''),
     (''sra'', with_sh (\<lambda>s k. Inr (m_sra (g_b k) s)), ''gpr''), (''slt'', \<lambda>k. Inr (m_slt (g_a k) (g_b k)), ''gpr''),
     (''sltu'', \<lambda>k. Inr (m_sltu (g_a k) (g_b k)), ''gpr''),
     (''lw'', \<lambda>k. m_lw (g_m0 k) (g_m1 k) (g_imm k), ''gpr''), (''lb'', \<lambda>k. m_lb (g_m0 k) (g_m1 k) (g_imm k), ''gpr''),
     (''lbu'', \<lambda>k. m_lbu (g_m0 k) (g_m1 k) (g_imm k), ''gpr''), (''sw'', \<lambda>k. Inr (m_sw (g_b k)), ''m0''),
     (''lwl'', \<lambda>k. m_lwl (g_m0 k) (g_m1 k) (g_imm k) (g_seed k), ''gpr''),
     (''lwr'', \<lambda>k. m_lwr (g_m0 k) (g_m1 k) (g_imm k) (g_seed k), ''gpr''),
     (''swl'', \<lambda>k. m_swl (g_b k) (g_m0 k) (g_m1 k) (g_imm k), ''m0''),
     (''swr'', \<lambda>k. m_swr (g_b k) (g_m0 k) (g_m1 k) (g_imm k), ''m0''),
     (''mult'', \<lambda>k. Inr (m_mult_lo (g_a k) (g_b k)), ''gpr''), (''multu'', \<lambda>k. Inr (m_multu_lo (g_a k) (g_b k)), ''gpr''),
     (''mult_hi'', \<lambda>k. Inr (m_mult_hi (g_a k) (g_b k)), ''aux''),
     (''madd'', \<lambda>k. Inr (m_madd (g_a k) (g_b k)), ''gpr''), (''madd_hi'', \<lambda>k. Inr (m_madd_hi (g_a k) (g_b k)), ''aux''),
     (''clz'', \<lambda>k. Inr (m_clz (g_a k)), ''gpr''), (''clo'', \<lambda>k. Inr (m_clo (g_a k)), ''gpr''),
     (''mul'', \<lambda>k. Inr (m_mul (g_a k) (g_b k)), ''gpr''),
     (''movz'', \<lambda>k. Inr (m_movz (g_a k) (g_b k) (g_seed k)), ''gpr''),
     (''movn'', \<lambda>k. Inr (m_movn (g_a k) (g_b k) (g_seed k)), ''gpr''),
     (''seb'', \<lambda>k. Inr (m_seb (g_b k)), ''gpr''), (''seh'', \<lambda>k. Inr (m_seh (g_b k)), ''gpr''),
     (''wsbh'', \<lambda>k. Inr (m_wsbh (g_b k)), ''gpr''), (''rotr'', with_sh (\<lambda>s k. Inr (m_rotr (g_b k) s)), ''gpr''),
     (''ext'', with_sh (\<lambda>s. with_rd (\<lambda>r k. m_ext2 (g_a k) s r)), ''gpr''),
     (''ins'', with_sh (\<lambda>s. with_rd (\<lambda>r k. m_ins (g_a k) (g_seed k) s r)), ''gpr''),
     (''beq'', \<lambda>k. Inr (m_beq (g_a k) (g_b k)), ''gpr''), (''bne'', \<lambda>k. Inr (m_bne (g_a k) (g_b k)), ''gpr''),
     (''beql'', \<lambda>k. Inr (m_beq (g_a k) (g_b k)), ''gpr''), (''bnel'', \<lambda>k. Inr (m_bne (g_a k) (g_b k)), ''gpr''),
     (''blezl'', \<lambda>k. Inr (m_blez (g_a k)), ''gpr''), (''bgtzl'', \<lambda>k. Inr (m_bgtz (g_a k)), ''gpr''),
     (''jr'', \<lambda>k. Inr m_jr, ''gpr''), (''ll'', \<lambda>k. m_lw (g_m0 k) (g_m1 k) (g_imm k), ''gpr'')]"

subsection \<open>The machine\<close>

text \<open>
  Reference semantics on 32-bit words; a \<open>None\<close> is a trap or an operand outside the two words of memory.
  The result is the register the table declares: for a store that is \<open>m0\<close>, the first of the two words
  after it, whichever of them it changed.
\<close>

record wargs =
  w_a :: "32 word"
  w_b :: "32 word"
  w_m0 :: "32 word"
  w_m1 :: "32 word"
  w_seed :: "32 word"
  w_sh :: nat
  w_rd :: nat
  w_imm :: int

definition args_of :: "wargs \<Rightarrow> margs" where
  "args_of w = \<lparr>g_a = uint (w_a w), g_b = uint (w_b w), g_m0 = uint (w_m0 w), g_m1 = uint (w_m1 w), g_seed = uint (w_seed w),
     g_sh = Some (int (w_sh w)), g_rd = Some (int (w_rd w)), g_imm = w_imm w\<rparr>"

definition word_bytes :: "32 word \<Rightarrow> 8 word list" where
  "word_bytes w = [ucast (drop_bit 24 w), ucast (drop_bit 16 w), ucast (drop_bit 8 w), ucast w]"

definition of_word_bytes :: "8 word list \<Rightarrow> 32 word" where
  "of_word_bytes bs = foldl (\<lambda>acc x. push_bit 8 acc OR ucast x) 0 bs"

definition mem_bytes :: "wargs \<Rightarrow> 8 word list" where "mem_bytes w = word_bytes (w_m0 w) @ word_bytes (w_m1 w)"

definition at_byte :: "wargs \<Rightarrow> (nat \<Rightarrow> 'a) \<Rightarrow> 'a option" where
  "at_byte w f = (if 0 \<le> w_imm w \<and> w_imm w < 8 then Some (f (nat (w_imm w))) else None)"

definition flag :: "bool \<Rightarrow> 32 word" where "flag c = (if c then 0x0600 else 0x0BAD)"
definition bool_word :: "bool \<Rightarrow> 32 word" where "bool_word c = (if c then 1 else 0)"

definition lead :: "(bool \<Rightarrow> bool) \<Rightarrow> 32 word \<Rightarrow> 32 word" where
  "lead p w = of_nat (length (takeWhile (\<lambda>i. p (bit w i)) (rev [0..<32])))"

definition acc_word :: "wargs \<Rightarrow> 64 word" where "acc_word w = 0x0BAD0000F00D0000 + scast (w_a w) * scast (w_b w)"

definition load_left :: "8 word list \<Rightarrow> 32 word \<Rightarrow> nat \<Rightarrow> 32 word" where
  "load_left mem seed i = of_word_bytes (take (4 - i mod 4) (drop i mem) @ drop (4 - i mod 4) (word_bytes seed))"

definition load_right :: "8 word list \<Rightarrow> 32 word \<Rightarrow> nat \<Rightarrow> 32 word" where
  "load_right mem seed i = of_word_bytes (take (3 - i mod 4) (word_bytes seed) @ take (i mod 4 + 1) (drop (i - i mod 4) mem))"

text \<open>A store left or right, or of a whole word, as the memory after it.\<close>

definition store_left :: "8 word list \<Rightarrow> 32 word \<Rightarrow> nat \<Rightarrow> 8 word list" where
  "store_left mem v i = take i mem @ take (4 - i mod 4) (word_bytes v) @ drop (i + (4 - i mod 4)) mem"

definition store_right :: "8 word list \<Rightarrow> 32 word \<Rightarrow> nat \<Rightarrow> 8 word list" where
  "store_right mem v i = take (i - i mod 4) mem @ drop (3 - i mod 4) (word_bytes v) @ drop (i + 1) mem"

definition word_at :: "8 word list \<Rightarrow> nat \<Rightarrow> 32 word" where
  "word_at mem i = of_word_bytes (take 4 (drop (i - i mod 4) mem))"

definition store_word :: "8 word list \<Rightarrow> 32 word \<Rightarrow> nat \<Rightarrow> 8 word list" where
  "store_word mem v i = take i mem @ word_bytes v @ drop (i + 4) mem"

definition first_word :: "8 word list \<Rightarrow> 32 word" where "first_word mem = of_word_bytes (take 4 mem)"

definition MACHINE :: "(string \<times> (wargs \<Rightarrow> 32 word option)) list" where
  "MACHINE =
    [(''add'', \<lambda>w. if sint (w_a w) + sint (w_b w) = sint (w_a w + w_b w) then Some (w_a w + w_b w) else None),
     (''addu'', \<lambda>w. Some (w_a w + w_b w)),
     (''sub'', \<lambda>w. if sint (w_a w) - sint (w_b w) = sint (w_a w - w_b w) then Some (w_a w - w_b w) else None),
     (''and'', \<lambda>w. Some (w_a w AND w_b w)), (''or'', \<lambda>w. Some (w_a w OR w_b w)),
     (''xor'', \<lambda>w. Some (w_a w XOR w_b w)), (''sll'', \<lambda>w. Some (push_bit (w_sh w) (w_b w))),
     (''srl'', \<lambda>w. Some (drop_bit (w_sh w) (w_b w))),
     (''sra'', \<lambda>w. Some (signed_drop_bit (w_sh w) (w_b w))),
     (''slt'', \<lambda>w. Some (bool_word (w_a w <s w_b w))),
     (''sltu'', \<lambda>w. Some (bool_word (w_a w < w_b w))),
     (''lw'', \<lambda>w. if w_imm w = 0 then Some (w_m0 w) else if w_imm w = 4 then Some (w_m1 w) else None),
     (''lb'', \<lambda>w. at_byte w (\<lambda>i. scast (mem_bytes w ! i))),
     (''lbu'', \<lambda>w. at_byte w (\<lambda>i. ucast (mem_bytes w ! i))), 
     (''sw'', \<lambda>w. if w_imm w = 0 \<or> w_imm w = 4 then Some (first_word (store_word (mem_bytes w) (w_b w) (nat (w_imm w)))) else None),
     (''lwl'', \<lambda>w. at_byte w (load_left (mem_bytes w) (w_seed w))),
     (''lwr'', \<lambda>w. at_byte w (load_right (mem_bytes w) (w_seed w))),
     (''swl'', \<lambda>w. at_byte w (\<lambda>i. first_word (store_left (mem_bytes w) (w_b w) i))),
     (''swr'', \<lambda>w. at_byte w (\<lambda>i. first_word (store_right (mem_bytes w) (w_b w) i))),
     (''mult'', \<lambda>w. Some (w_a w * w_b w)), (''multu'', \<lambda>w. Some (w_a w * w_b w)),
     (''mult_hi'', \<lambda>w. Some (ucast (drop_bit 32 (scast (w_a w) * scast (w_b w) :: 64 word)))),
     (''madd'', \<lambda>w. Some (ucast (acc_word w))),
     (''madd_hi'', \<lambda>w. Some (ucast (drop_bit 32 (acc_word w)))),
     (''clz'', \<lambda>w. Some (lead Not (w_a w))), (''clo'', \<lambda>w. Some (lead (\<lambda>b. b) (w_a w))),
     (''mul'', \<lambda>w. Some (w_a w * w_b w)),
     (''movz'', \<lambda>w. Some (if w_b w = 0 then w_a w else w_seed w)),
     (''movn'', \<lambda>w. Some (if w_b w \<noteq> 0 then w_a w else w_seed w)),
     (''seb'', \<lambda>w. Some (scast (ucast (w_b w) :: 8 word))),
     (''seh'', \<lambda>w. Some (scast (ucast (w_b w) :: 16 word))),
     (''wsbh'', \<lambda>w. case word_bytes (w_b w) of [x, y, z, u] \<Rightarrow> Some (of_word_bytes [y, x, u, z]) | _ \<Rightarrow> None),
     (''rotr'', \<lambda>w. Some (word_rotr (w_sh w) (w_b w))),
     (''ext'', \<lambda>w. if w_sh w + Suc (w_rd w) \<le> 32
        then Some (take_bit (Suc (w_rd w)) (drop_bit (w_sh w) (w_a w))) else None),
     (''ins'', \<lambda>w. if w_sh w \<le> w_rd w \<and> w_rd w < 32 then Some ((w_seed w AND NOT (push_bit (w_sh w) (mask (Suc (w_rd w) - w_sh w))))
        OR push_bit (w_sh w) (take_bit (Suc (w_rd w) - w_sh w) (w_a w))) else None),
     (''beq'', \<lambda>w. Some (flag (w_a w = w_b w))), (''bne'', \<lambda>w. Some (flag (w_a w \<noteq> w_b w))),
     (''beql'', \<lambda>w. Some (flag (w_a w = w_b w))), (''bnel'', \<lambda>w. Some (flag (w_a w \<noteq> w_b w))),
     (''blezl'', \<lambda>w. Some (flag (sint (w_a w) \<le> 0))),
     (''bgtzl'', \<lambda>w. Some (flag (0 < sint (w_a w)))), (''jr'', \<lambda>w. Some (flag True)),
     (''ll'', \<lambda>w. if w_imm w = 0 then Some (w_m0 w) else if w_imm w = 4 then Some (w_m1 w) else None)]"

subsection \<open>Masks are wrap-around\<close>

abbreviation to32 :: "int \<Rightarrow> 32 word" where "to32 \<equiv> word_of_int"

lemma u32_uint: "u32 x = uint (to32 x)"
proof -
  have "(0xFFFFFFFF :: int) = mask 32" by (simp add: mask_eq_exp_minus_1)
  then have "u32 x = take_bit 32 x" unfolding u32_def by (simp only: take_bit_eq_mask [symmetric])
  then show ?thesis by (simp add: uint_word_of_int take_bit_eq_mod)
qed

lemma s32_sint: "s32 x = sint (to32 x)"
proof -
  have m: "(0xFFFFFFFF :: int) = mask 32" "(0x80000000 :: int) = 2 ^ 31" by (simp_all add: mask_eq_exp_minus_1)
  have "(take_bit 32 x AND 2 ^ 31 \<noteq> 0) = bit (take_bit 32 x) 31" by (simp only: and_exp_eq_0_iff_not_bit simp_thms)
  also have "\<dots> = bit x 31" by (simp add: bit_simps)
  finally have "(take_bit 32 x AND 2 ^ 31 \<noteq> 0) = bit x 31" .
  then show ?thesis
    unfolding s32_def Let_def m take_bit_eq_mask [symmetric]
    by (simp add: sint_sbintrunc' signed_take_bit_eq_take_bit_minus push_bit_eq_mult)
qed

lemma to32_bits:
  "to32 (x AND y) = to32 x AND to32 y" "to32 (x OR y) = to32 x OR to32 y" "to32 (x XOR y) = to32 x XOR to32 y"
  "to32 (NOT x) = NOT (to32 x)" "to32 (push_bit n x) = push_bit n (to32 x)"
  "to32 (drop_bit n (uint w)) = drop_bit n w" "to32 (uint w) = w" "to32 (sint w) = w"
  by (rule bit_word_eqI; auto simp: bit_simps)+

lemma to32_drop_signed: "to32 (drop_bit n (sint (w :: 32 word))) = signed_drop_bit n w"
proof (rule bit_word_eqI)
  fix i assume "i < LENGTH(32)"
  then show "bit (to32 (drop_bit n (sint w))) i = bit (signed_drop_bit n w) i"
    by (cases "n + i < 31"; cases "n + i = 31") (auto simp: bit_simps min_def)
qed

subsection \<open>Arithmetic and logic\<close>

lemma u32_word [simp]: "u32 (uint (w :: 32 word)) = uint w"
  by (simp add: u32_uint)

lemma s32_word [simp]: "s32 (uint (w :: 32 word)) = sint w"
  by (simp add: s32_sint)

lemma sint_range: "- (2 ^ 31) \<le> sint (w :: 32 word)" "sint (w :: 32 word) < 2 ^ 31"
  using sint_greater_eq [of w] sint_less [of w] by simp_all

lemma signed_fits: "- (2 ^ 31) \<le> x \<and> x < 2 ^ 31 \<longleftrightarrow> x = sint (to32 x)"
proof
  assume "- (2 ^ 31) \<le> x \<and> x < 2 ^ 31"
  then have "signed_take_bit 31 x = x" by (simp add: signed_take_bit_int_eq_self_iff)
  then show "x = sint (to32 x)" by (simp add: sint_sbintrunc')
qed (metis sint_range)

lemma add_word:
  fixes a b :: "32 word"
  shows "m_add (uint a) (uint b) = (if sint a + sint b = sint (a + b) then Inr (uint (a + b)) else Inl Add_overflow)"
proof -
  have "to32 (sint a + sint b) = a + b" by simp
  then show ?thesis
    using signed_fits [of "sint a + sint b"] by (auto simp: m_add_def Let_def u32_uint push_bit_eq_mult)
qed

lemma sub_word:
  fixes a b :: "32 word"
  shows "m_sub (uint a) (uint b) = (if sint a - sint b = sint (a - b) then Inr (uint (a - b)) else Inl Sub_overflow)"
proof -
  have "to32 (sint a - sint b) = a - b" by simp
  then show ?thesis
    using signed_fits [of "sint a - sint b"] by (auto simp: m_sub_def Let_def u32_uint push_bit_eq_mult)
qed

lemma logic_words:
  fixes a b :: "32 word"
  shows "m_addu (uint a) (uint b) = uint (a + b)" "m_and (uint a) (uint b) = uint (a AND b)"
  "m_or (uint a) (uint b) = uint (a OR b)" "m_xor (uint a) (uint b) = uint (a XOR b)"
  by (simp_all add: m_addu_def m_and_def m_or_def m_xor_def u32_uint to32_bits del: of_int_add) simp_all

lemma shift_words:
  fixes b :: "32 word"
  shows "m_sll (uint b) n = uint (push_bit n b)" "m_srl (uint b) n = uint (drop_bit n b)"
  "m_sra (uint b) n = uint (signed_drop_bit n b)"
  unfolding m_sll_def m_srl_def m_sra_def u32_uint s32_word to32_bits to32_drop_signed by (rule refl)+

lemma compare_words:
  fixes a b :: "32 word"
  shows "m_slt (uint a) (uint b) = uint (bool_word (a <s b))" "m_sltu (uint a) (uint b) = uint (bool_word (a < b))"
  by (simp_all add: m_slt_def m_sltu_def bool_word_def word_sless_alt word_less_def)

lemma product_words:
  fixes a b :: "32 word"
  shows "m_mult_lo (uint a) (uint b) = uint (a * b)" "m_multu_lo (uint a) (uint b) = uint (a * b)"
  "m_mul (uint a) (uint b) = uint (a * b)"
  by (simp_all add: m_mult_lo_def m_multu_lo_def m_mul_def u32_uint)

lemma high_word:
  fixes x :: "64 word"
  assumes "take_bit 64 y = uint x"
  shows "u32 (drop_bit 32 y) = uint (ucast (drop_bit 32 x) :: 32 word)"
proof -
  have b: "bit y k = bit x k" if "k < 64" for k
    using that arg_cong [OF assms, of "\<lambda>z. bit z k"] by (simp add: bit_simps)
  have "to32 (drop_bit 32 y) = ucast (drop_bit 32 x)"
    by (rule bit_word_eqI) (auto simp: bit_simps b)
  then show ?thesis by (simp add: u32_uint)
qed

lemma low_word:
  fixes x :: "64 word"
  assumes "take_bit 64 y = uint x"
  shows "u32 y = uint (ucast x :: 32 word)"
proof -
  have b: "bit y k = bit x k" if "k < 64" for k
    using that arg_cong [OF assms, of "\<lambda>z. bit z k"] by (simp add: bit_simps)
  have "to32 y = ucast x" by (rule bit_word_eqI) (auto simp: bit_simps b)
  then show ?thesis by (simp add: u32_uint)
qed

lemma wide_product:
  fixes a b :: "32 word"
  shows "take_bit 64 (k + sint a * sint b) = uint (word_of_int k + scast a * scast b :: 64 word)"
proof -
  have "(scast a :: 64 word) = word_of_int (sint a)" for a :: "32 word" by (rule bit_word_eqI) (auto simp: bit_simps)
  then have "(word_of_int k + scast a * scast b :: 64 word) = word_of_int (k + sint a * sint b)" by simp
  then show ?thesis by (simp only: uint_word_of_int take_bit_eq_mod) simp
qed

lemma mult_hi_word:
  fixes a b :: "32 word"
  shows "m_mult_hi (uint a) (uint b) = uint (ucast (drop_bit 32 (scast a * scast b :: 64 word)) :: 32 word)"
  unfolding m_mult_hi_def s32_word using high_word [OF wide_product [of 0 a b]] by simp

lemma acc_mask:
  fixes a b :: "32 word"
  shows "madd_acc (uint a) (uint b) = take_bit 64 (0x0BAD0000F00D0000 + sint a * sint b)"
proof -
  have "push_bit 32 MAC_HI_PRIME OR MAC_LO_PRIME = 0x0BAD0000F00D0000"
    by (simp add: MAC_HI_PRIME_def MAC_LO_PRIME_def push_bit_eq_mult)
  moreover have "(push_bit 64 1 - 1 :: int) = mask 64" by (simp add: mask_eq_exp_minus_1 push_bit_eq_mult)
  ultimately show ?thesis by (simp only: madd_acc_def s32_word take_bit_eq_mask)
qed

lemma madd_words:
  fixes w
  shows "m_madd (uint (w_a w)) (uint (w_b w)) = uint (ucast (acc_word w) :: 32 word)"
    "m_madd_hi (uint (w_a w)) (uint (w_b w)) = uint (ucast (drop_bit 32 (acc_word w)) :: 32 word)"
proof -
  have t: "take_bit 64 (madd_acc (uint (w_a w)) (uint (w_b w))) = uint (acc_word w)"
    unfolding acc_mask acc_word_def using wide_product [of "0x0BAD0000F00D0000" "w_a w" "w_b w"]
    by (simp add: bintr_uint)
  show "m_madd (uint (w_a w)) (uint (w_b w)) = uint (ucast (acc_word w) :: 32 word)"
    unfolding m_madd_def by (rule low_word [OF t])
  show "m_madd_hi (uint (w_a w)) (uint (w_b w)) = uint (ucast (drop_bit 32 (acc_word w)) :: 32 word)"
    unfolding m_madd_hi_def by (rule high_word [OF t])
qed

lemma move_words:
  fixes a b s :: "32 word"
  shows "m_movz (uint a) (uint b) (uint s) = uint (if b = 0 then a else s)"
  "m_movn (uint a) (uint b) (uint s) = uint (if b \<noteq> 0 then a else s)"
  by (simp_all add: m_movz_def m_movn_def uint_0_iff)

lemma branch_words:
  fixes a b :: "32 word"
  shows "m_beq (uint a) (uint b) = uint (flag (a = b))" "m_bne (uint a) (uint b) = uint (flag (a \<noteq> b))"
  "m_blez (uint a) = uint (flag (sint a \<le> 0))" "m_bgtz (uint a) = uint (flag (0 < sint a))" "m_jr = uint (flag True)"
  by (simp_all add: m_beq_def m_bne_def m_blez_def m_bgtz_def m_jr_def flag_def TAKEN_def NOTTAKEN_def
    word_uint_eq_iff)

subsection \<open>Memory\<close>

lemma byte_field: "drop_bit n (uint (w :: 32 word)) AND 0xFF = uint (ucast (drop_bit n w) :: 8 word)"
proof -
  have "(0xFF :: int) = mask 8" by (simp add: mask_eq_exp_minus_1)
  then have "drop_bit n (uint w) AND 0xFF = take_bit 8 (drop_bit n (uint w))" by (simp only: take_bit_eq_mask [symmetric])
  then show ?thesis by (simp only:) (rule bit_eqI, auto simp: bit_simps)
qed

lemma bytes_be_word: "bytes_be (uint (w :: 32 word)) = map uint (word_bytes w)"
  using byte_field [of 24 w] byte_field [of 16 w] byte_field [of 8 w] byte_field [of 0 w]
  by (simp add: bytes_be_def word_bytes_def)

lemma length_word_bytes [simp]: "length (word_bytes w) = 4"
  by (simp add: word_bytes_def)

lemma length_mem_bytes [simp]: "length (mem_bytes w) = 8"
  by (simp add: mem_bytes_def)

lemma mem_byte_word:
  assumes "i < 8"
  shows "mem_byte (uint (w_m0 w)) (uint (w_m1 w)) (int i) = Inr (uint (mem_bytes w ! i))"
  using assms by (auto simp: mem_byte_def list_at_def bytes_be_word mem_bytes_def nth_append nat_diff_distrib)

lemma at_byte_Some:
  "at_byte w f = Some v \<longleftrightarrow> (\<exists>i < 8. w_imm w = int i \<and> v = f i)"
proof
  assume "at_byte w f = Some v"
  then show "\<exists>i < 8. w_imm w = int i \<and> v = f i"
    by (intro exI [of _ "nat (w_imm w)"]) (auto simp: at_byte_def split: if_splits)
qed (auto simp: at_byte_def)

lemma sign_extend:
  fixes v :: int
  assumes "take_bit (Suc n) v = v" and "m = 2 ^ Suc n"
  shows "u32 (if bit v n then v - m else v) = uint (word_of_int (signed_take_bit n v) :: 32 word)"
  using assms signed_take_bit_eq_take_bit_minus [of n v] by (simp add: u32_uint)

lemma and_bit: "(v AND 0x80 \<noteq> 0) = bit (v :: int) 7" "(v AND 0x8000 \<noteq> 0) = bit v 15" "(v AND 0x80000000 \<noteq> 0) = bit v 31"
proof -
  have e: "(0x80 :: int) = 2 ^ 7" "(0x8000 :: int) = 2 ^ 15" "(0x80000000 :: int) = 2 ^ 31" by simp_all
  show "(v AND 0x80 \<noteq> 0) = bit v 7" "(v AND 0x8000 \<noteq> 0) = bit v 15" "(v AND 0x80000000 \<noteq> 0) = bit v 31"
    by (simp_all only: e and_exp_eq_0_iff_not_bit simp_thms)
qed

lemma byte_extend:
  "u32 (if uint (x :: 8 word) AND 0x80 \<noteq> 0 then uint x - 256 else uint x) = uint (scast x :: 32 word)"
proof -
  have "(scast x :: 32 word) = word_of_int (signed_take_bit 7 (uint x))" by (rule bit_word_eqI) (auto simp: bit_simps)
  moreover have "take_bit (Suc 7) (uint x) = uint x" by (simp add: bintr_uint)
  ultimately show ?thesis using sign_extend [of 7 "uint x" 256] by (simp add: and_bit split del: if_split)
qed

lemma half_extend:
  "u32 (if uint (x :: 16 word) AND 0x8000 \<noteq> 0 then uint x - 65536 else uint x) = uint (scast x :: 32 word)"
proof -
  have "(scast x :: 32 word) = word_of_int (signed_take_bit 15 (uint x))" by (rule bit_word_eqI) (auto simp: bit_simps)
  moreover have "take_bit (Suc 15) (uint x) = uint x" by (simp add: bintr_uint)
  ultimately show ?thesis using sign_extend [of 15 "uint x" 65536] by (simp add: and_bit split del: if_split)
qed

lemma extend_words:
  fixes b :: "32 word"
  shows "m_seb (uint b) = uint (scast (ucast b :: 8 word) :: 32 word)" "m_seh (uint b) = uint (scast (ucast b :: 16 word) :: 32 word)"
proof -
  have "(0xFFFF :: int) = mask 16" by (simp add: mask_eq_exp_minus_1)
  then have "uint b AND 0xFFFF = take_bit 16 (uint b)" by (simp only: take_bit_eq_mask [symmetric])
  then have h: "uint b AND 0xFFFF = uint (ucast b :: 16 word)" by (simp only:) (rule bit_eqI, auto simp: bit_simps)
  show "m_seb (uint b) = uint (scast (ucast b :: 8 word) :: 32 word)"
    using byte_field [of 0 b] byte_extend [of "ucast b"] by (simp add: m_seb_def Let_def)
  show "m_seh (uint b) = uint (scast (ucast b :: 16 word) :: 32 word)"
    using h half_extend [of "ucast b"] by (simp add: m_seh_def Let_def)
qed

lemma load_byte_words:
  assumes "i < 8"
  shows "m_lb (uint (w_m0 w)) (uint (w_m1 w)) (int i) = Inr (uint (scast (mem_bytes w ! i) :: 32 word))"
    "m_lbu (uint (w_m0 w)) (uint (w_m1 w)) (int i) = Inr (uint (ucast (mem_bytes w ! i) :: 32 word))"
  using byte_extend [of "mem_bytes w ! i"] by (simp_all add: m_lb_def m_lbu_def mem_byte_word [OF assms] unsigned_ucast_eq bintr_uint)

subsection \<open>Four bytes of a word\<close>

lemma bit_of_word_bytes:
  "bit (of_word_bytes [x, y, z, u]) i =
     (if i < 8 then bit u i else if i < 16 then bit z (i - 8) else if i < 24 then bit y (i - 16)
      else i < 32 \<and> bit x (i - 24))"
  by (auto simp: of_word_bytes_def bit_simps dest: bit_imp_le_length)

lemma join_be_word:
  "join_be (map uint [x, y, z, u]) = uint (of_word_bytes [x, y, z, u])"
proof -
  have "to32 (push_bit 24 (uint x) OR push_bit 16 (uint y) OR push_bit 8 (uint z) OR uint u) = of_word_bytes [x, y, z, u]"
    by (rule bit_word_eqI) (auto simp: bit_of_word_bytes bit_simps dest: bit_imp_le_length)
  then show ?thesis by (simp add: join_be_def u32_uint)
qed

lemma of_word_bytes_word_bytes: "of_word_bytes (word_bytes w) = w"
  by (rule bit_word_eqI) (auto simp: word_bytes_def bit_of_word_bytes bit_simps)

lemma word_bytes_of_word_bytes: "word_bytes (of_word_bytes [x, y, z, u]) = [x, y, z, u]"
proof -
  have "ucast (drop_bit 24 (of_word_bytes [x, y, z, u])) = x" "ucast (drop_bit 16 (of_word_bytes [x, y, z, u])) = y"
    "ucast (drop_bit 8 (of_word_bytes [x, y, z, u])) = z" "ucast (of_word_bytes [x, y, z, u]) = u"
    by (rule bit_word_eqI; auto simp: bit_of_word_bytes bit_simps)+
  then show ?thesis by (simp add: word_bytes_def)
qed

lemma word_bytes_cases: "\<exists>x y z u. word_bytes w = [x, y, z, u]"
  by (simp add: word_bytes_def)

subsection \<open>Unaligned loads and stores\<close>

definition half :: "wargs \<Rightarrow> nat \<Rightarrow> 32 word" where "half w i = (if i < 4 then w_m0 w else w_m1 w)"

lemma byte_of: "i < (8::nat) \<Longrightarrow> int i AND 3 = int (i mod 4)"
proof -
  have "(3 :: int) = mask 2" by (simp add: mask_eq_exp_minus_1)
  then have "int i AND 3 = take_bit 2 (int i)" by (simp only: take_bit_eq_mask [symmetric])
  then show ?thesis by (simp add: take_bit_eq_mod zmod_int)
qed

lemma eight_cases:
  assumes "i < (8::nat)"
  obtains "i = 0" | "i = 1" | "i = 2" | "i = 3" | "i = 4" | "i = 5" | "i = 6" | "i = 7"
  using assms by (cases "i \<in> {0, 1, 2, 3, 4, 5, 6, 7}") auto

lemma mem_word_half:
  assumes "i < 8"
  shows "mem_word (uint (w_m0 w)) (uint (w_m1 w)) (int i AND NOT 3) = Inr (uint (half w i))"
  using assms by (cases rule: eight_cases) (simp_all add: mem_word_def half_def)

lemma drop_mem: "i < 8 \<Longrightarrow> take (4 - i mod 4) (drop i (mem_bytes w)) = drop (i mod 4) (word_bytes (half w i))"
  by (cases i rule: eight_cases) (simp_all add: mem_bytes_def half_def word_bytes_def)

lemma take_mem: "i < 8 \<Longrightarrow> take (i mod 4 + 1) (drop (i - i mod 4) (mem_bytes w)) = take (i mod 4 + 1) (word_bytes (half w i))"
  by (cases i rule: eight_cases) (simp_all add: mem_bytes_def half_def word_bytes_def)

lemma four_cases:
  assumes "j < (4::nat)"
  obtains "j = 0" | "j = 1" | "j = 2" | "j = 3"
  using assms by (cases "j \<in> {0, 1, 2, 3}") auto

lemma mask_low: "(push_bit n 1 - 1 :: int) = mask n"
  by (simp add: mask_eq_exp_minus_1 push_bit_eq_mult)

lemma left_word:
  assumes "j < 4"
  shows "u32 (push_bit (8 * j) (uint m) OR (uint s AND (push_bit (8 * j) 1 - 1))) =
    uint (of_word_bytes (drop j (word_bytes m) @ drop (4 - j) (word_bytes s)))"
proof -
  have "push_bit (8 * j) m OR (s AND mask (8 * j)) = of_word_bytes (drop j (word_bytes m) @ drop (4 - j) (word_bytes s))"
    using assms by (cases rule: four_cases)
      (simp_all add: word_bytes_def, (rule bit_word_eqI, auto simp: bit_of_word_bytes bit_simps)+)
  moreover have "to32 (uint s AND mask (8 * j)) = s AND mask (8 * j)"
    by (rule bit_word_eqI) (auto simp: bit_simps)
  ultimately show ?thesis unfolding mask_low u32_uint by (simp only: to32_bits)
qed

lemma right_word:
  assumes "j < 4"
  shows "u32 (drop_bit (8 * (3 - j)) (uint m) OR (uint s AND
      (if 8 * (3 - j) \<noteq> 0 then u32 (NOT (push_bit (32 - 8 * (3 - j)) 1 - 1)) else 0))) =
    uint (of_word_bytes (take (3 - j) (word_bytes s) @ take (j + 1) (word_bytes m)))"
proof -
  have "drop_bit (8 * (3 - j)) m OR (s AND (if 8 * (3 - j) \<noteq> 0 then NOT (mask (32 - 8 * (3 - j))) else 0)) =
      of_word_bytes (take (3 - j) (word_bytes s) @ take (j + 1) (word_bytes m))"
    using assms by (cases rule: four_cases)
      (simp_all add: word_bytes_def, (rule bit_word_eqI, auto simp: bit_of_word_bytes bit_simps dest: bit_imp_le_length)+)
  moreover have "to32 (if c then u32 (NOT (mask n)) else 0) = (if c then NOT (mask n) else 0)" for c n
    unfolding u32_uint by (rule bit_word_eqI) (auto simp: bit_simps)
  ultimately show ?thesis unfolding mask_low u32_uint [of "_ OR _"] by (simp only: to32_bits)
qed

lemma load_half_words:
  assumes "i < 8"
  shows "m_lwl (uint (w_m0 w)) (uint (w_m1 w)) (int i) (uint s) = Inr (uint (load_left (mem_bytes w) s i))"
    "m_lwr (uint (w_m0 w)) (uint (w_m1 w)) (int i) (uint s) = Inr (uint (load_right (mem_bytes w) s i))"
  using left_word [of "i mod 4" "half w i" s] right_word [of "i mod 4" "half w i" s]
  unfolding m_lwl_def m_lwr_def load_left_def load_right_def byte_of [OF assms] mem_word_half [OF assms]
    drop_mem [OF assms] take_mem [OF assms] Let_def sbind_simps nat_int by (simp_all only:)

lemma store_half_words:
  assumes "i < 8"
  shows "m_swl (uint b) (uint (w_m0 w)) (uint (w_m1 w)) (int i) = Inr (uint (word_at (store_left (mem_bytes w) b i) i))"
    "m_swr (uint b) (uint (w_m0 w)) (uint (w_m1 w)) (int i) = Inr (uint (word_at (store_right (mem_bytes w) b i) i))"
proof -
  obtain x y z u where b: "word_bytes b = [x, y, z, u]" using word_bytes_cases by blast
  obtain p q r t where m0: "word_bytes (w_m0 w) = [p, q, r, t]" using word_bytes_cases by blast
  obtain p' q' r' t' where m1: "word_bytes (w_m1 w) = [p', q', r', t']" using word_bytes_cases by blast
  note j = join_be_word [unfolded list.map]
  show "m_swl (uint b) (uint (w_m0 w)) (uint (w_m1 w)) (int i) = Inr (uint (word_at (store_left (mem_bytes w) b i) i))"
    using assms by (cases rule: eight_cases) (simp_all add: m_swl_def Let_def mem_word_def bytes_be_word b m0 m1 j upt_conv_Cons
        word_at_def store_left_def mem_bytes_def)
  show "m_swr (uint b) (uint (w_m0 w)) (uint (w_m1 w)) (int i) = Inr (uint (word_at (store_right (mem_bytes w) b i) i))"
    using assms by (cases rule: eight_cases) (simp_all add: m_swr_def Let_def mem_word_def bytes_be_word b m0 m1 j upt_conv_Cons
        word_at_def store_right_def mem_bytes_def)
qed

subsection \<open>Fields and counts\<close>

lemma wsbh_word:
  assumes "word_bytes b = [x, y, z, u]"
  shows "m_wsbh (uint b) = uint (of_word_bytes [y, x, u, z])"
proof -
  have m: "(0x00FF0000 :: int) = push_bit 16 (mask 8)" "(0xFF000000 :: int) = push_bit 24 (mask 8)"
    "(0x000000FF :: int) = mask 8" "(0x0000FF00 :: int) = push_bit 8 (mask 8)"
    by (simp_all add: mask_eq_exp_minus_1 push_bit_eq_mult)
  have "to32 (push_bit 8 (uint b AND 0x00FF0000) OR drop_bit 8 (uint b AND 0xFF000000)
     OR push_bit 8 (uint b AND 0x000000FF) OR drop_bit 8 (uint b AND 0x0000FF00)) = of_word_bytes [y, x, u, z]"
    using assms [symmetric] unfolding m
    by (intro bit_word_eqI) (auto simp: word_bytes_def bit_of_word_bytes bit_simps)
  then show ?thesis by (simp only: m_wsbh_def u32_uint)
qed

lemma rotr_word: "m_rotr (uint (b :: 32 word)) n = uint (word_rotr n b)"
proof (cases "n mod 32 = 0")
  case True
  then have "word_rotr n b = b" by (rule_tac bit_word_eqI) (auto simp: bit_simps mod_simps)
  then show ?thesis using True by (simp add: m_rotr_def)
next
  case False
  have "to32 (drop_bit (n mod 32) (uint b) OR push_bit (32 - n mod 32) (uint b)) = word_rotr n b"
  proof (rule bit_word_eqI)
    fix i assume i: "i < LENGTH(32)"
    show "bit (to32 (drop_bit (n mod 32) (uint b) OR push_bit (32 - n mod 32) (uint b))) i = bit (word_rotr n b) i"
    proof (cases "i + n mod 32 < 32")
      case True
      then have "(i + n) mod 32 = i + n mod 32" by (metis mod_add_right_eq mod_less)
      then show ?thesis using i True by (auto simp: bit_simps add.commute dest: bit_imp_le_length)
    next
      case c: False
      then have "(i + n) mod 32 = i + n mod 32 - 32"
        using i c mod_add_right_eq [of i n 32] le_mod_geq [of 32 "i + n mod 32"] mod_less_divisor [of 32 n]
          mod_less [of "i + n mod 32 - 32" 32] by simp
      then show ?thesis using i c False by (auto simp: bit_simps add.commute dest: bit_imp_le_length)
    qed
  qed
  then show ?thesis using False by (simp add: m_rotr_def Let_def u32_uint)
qed

lemma ext_word:
  fixes a :: "32 word"
  assumes "n + Suc r \<le> 32"
  shows "m_ext2 (uint a) n r = Inr (uint (take_bit (Suc r) (drop_bit n a)))"
proof -
  have "to32 (drop_bit n (uint a) AND mask (Suc r)) = take_bit (Suc r) (drop_bit n a)"
    by (rule bit_word_eqI) (auto simp: bit_simps)
  then show ?thesis using assms unfolding m_ext2_def mask_low u32_uint Let_def Suc_eq_plus1 [symmetric] by simp
qed

lemma ins_word:
  fixes a s :: "32 word"
  assumes "n \<le> r" "r < 32"
  shows "m_ins (uint a) (uint s) n r =
    Inr (uint ((s AND NOT (push_bit n (mask (Suc r - n)))) OR push_bit n (take_bit (Suc r - n) a)))"
proof -
  have e: "nat (int r - int n + 1) = Suc r - n" using assms by simp
  have "to32 ((uint s AND NOT (push_bit n (mask (Suc r - n)))) OR push_bit n (uint a AND mask (Suc r - n))) =
      (s AND NOT (push_bit n (mask (Suc r - n)))) OR push_bit n (take_bit (Suc r - n) a)"
    by (rule bit_word_eqI) (auto simp: bit_simps)
  then show ?thesis using assms unfolding m_ins_def mask_low u32_uint Let_def e by simp
qed

lemma lead_loop_word:
  "n \<le> 32 \<Longrightarrow> lead_loop one n (uint (push_bit n (w :: 32 word))) =
    n + length (takeWhile (\<lambda>i. bit w i = one) (rev [0..<32 - n]))"
proof (induction "32 - n" arbitrary: n)
  case 0
  then show ?case by (subst lead_loop.simps) simp
next
  case (Suc k)
  then have n: "n < 32" by simp
  then have l: "rev [0..<32 - n] = (31 - n) # rev [0..<31 - n]" using upt_Suc_append [of 0 "31 - n"] by (simp add: Suc_diff_le [symmetric] del: upt_Suc)
  have t: "(uint (push_bit n w) AND 0x80000000 \<noteq> 0) = bit w (31 - n)" using n by (simp only: and_bit) (simp add: bit_simps)
  have p: "u32 (push_bit 1 (uint (push_bit n w))) = uint (push_bit (Suc n) w)"
  proof -
    show ?thesis by (simp only: u32_uint to32_bits push_bit_push_bit plus_1_eq_Suc)
  qed
  have "lead_loop one (Suc n) (uint (push_bit (Suc n) w)) = Suc n + length (takeWhile (\<lambda>i. bit w i = one) (rev [0..<31 - n]))"
    using Suc.hyps(1) [of "Suc n"] Suc.hyps(2) n by simp
  then show ?case by (subst lead_loop.simps) (simp only: t p l n simp_thms takeWhile.simps if_bool_eq_conj, simp)
qed

lemma count_words:
  fixes a :: "32 word"
  shows "m_clz (uint a) = uint (lead Not a)" "m_clo (uint a) = uint (lead (\<lambda>b. b) a)"
proof -
  have le: "length (takeWhile p (rev [0..<32])) \<le> 32" for p :: "nat \<Rightarrow> bool"
    using length_takeWhile_le [of p "rev [0..<32]"] by simp
  have s: "uint (of_nat n :: 32 word) = int n" if "n \<le> 32" for n
    using that by (simp add: unsigned_of_nat take_bit_eq_mod)
  have "takeWhile (\<lambda>i. bit a i = False) (rev [0..<32]) = takeWhile (\<lambda>i. \<not> bit a i) (rev [0..<32])" by simp
  then show "m_clz (uint a) = uint (lead Not a)" "m_clo (uint a) = uint (lead (\<lambda>b. b) a)"
    using lead_loop_word [of 0 False a] lead_loop_word [of 0 True a] by (simp_all add: m_clz_def m_clo_def lead_def s le del: upt_Suc)
qed

subsection \<open>Every model is the machine's instruction\<close>

text \<open>The machine's word where it computes one, and where it traps a refusal of the model's own, not a traceback.\<close>

definition refusal :: "model_error \<Rightarrow> bool" where
  "refusal e \<longleftrightarrow> e \<noteq> Index_traceback \<and> e \<noteq> Type_traceback"

lemma refusal_simps [simp]:
  "refusal (Mem_outside i)" "refusal (Unaligned_word i)" "refusal Add_overflow" "refusal Sub_overflow"
  "refusal (Ins_outside i j)" "refusal (Ext_outside i j)" "\<not> refusal Index_traceback" "\<not> refusal Type_traceback"
  by (simp_all add: refusal_def)

definition agrees :: "(margs \<Rightarrow> model_error + int) \<Rightarrow> (wargs \<Rightarrow> 32 word option) \<Rightarrow> wargs \<Rightarrow> bool" where
  "agrees fn ref w = (case ref w of Some v \<Rightarrow> fn (args_of w) = Inr (uint v) | None \<Rightarrow> \<exists>e. fn (args_of w) = Inl e \<and> refusal e)"

text \<open>
  Where a model is not the machine's instruction: a byte loaded below the two words, a word stored anywhere but
  into the first of them, and the bytes of a word stored into the second, which leave \<open>m0\<close> as it was.
\<close>

definition departs :: "string \<Rightarrow> int \<Rightarrow> bool" where
  "departs n i \<longleftrightarrow> n \<in> {''lb'', ''lbu''} \<and> i < 0 \<or> n = ''sw'' \<and> i \<noteq> 0 \<or> n \<in> {''swl'', ''swr''} \<and> 4 \<le> i \<and> i < 8"

lemma agrees_total:
  "fn (args_of w) = Inr (uint v) \<Longrightarrow> agrees fn (\<lambda>w. Some v) w"
  by (simp add: agrees_def)

lemmas args_simps = args_of_def margs.simps with_sh_def with_rd_def

lemmas model_words = add_word sub_word logic_words shift_words compare_words product_words mult_hi_word madd_words move_words
  branch_words extend_words rotr_word count_words

lemma mem_word_refused: "\<not> (0 \<le> i \<and> i < 8) \<Longrightarrow> \<exists>e. mem_word m0 m1 (i AND NOT 3) = Inl e \<and> refusal e"
proof -
  assume i: "\<not> (0 \<le> i \<and> i < 8)"
  have "(3 :: int) = mask 2" by (simp add: mask_eq_exp_minus_1)
  moreover have "i AND NOT (mask n) = push_bit n (drop_bit n i)" for n by (rule bit_eqI) (auto simp: bit_simps)
  ultimately have "i AND NOT 3 = 4 * (i div 4)" by (simp only: push_bit_eq_mult drop_bit_eq_div) simp
  then have "i AND NOT 3 \<noteq> 0" "i AND NOT 3 \<noteq> 4" using i by presburger+
  then show ?thesis by (simp add: mem_word_def)
qed

lemma at_byte_agrees:
  assumes "\<And>i. i < 8 \<Longrightarrow> w_imm w = int i \<Longrightarrow> fn (args_of w) = Inr (uint (f w i))"
    and "\<not> (0 \<le> w_imm w \<and> w_imm w < 8) \<Longrightarrow> \<exists>e. fn (args_of w) = Inl e \<and> refusal e"
  shows "agrees fn (\<lambda>w. at_byte w (f w)) w"
  using assms(1) [of "nat (w_imm w)"] assms(2) by (auto simp: agrees_def at_byte_def)

lemma half_refused:
  assumes "\<not> (0 \<le> i \<and> i < 8)"
  shows "\<exists>e. m_lwl m0 m1 i s = Inl e \<and> refusal e" "\<exists>e. m_lwr m0 m1 i s = Inl e \<and> refusal e"
    "\<exists>e. m_swl b m0 m1 i = Inl e \<and> refusal e" "\<exists>e. m_swr b m0 m1 i = Inl e \<and> refusal e"
  using mem_word_refused [OF assms, of m0 m1] unfolding m_lwl_def m_lwr_def m_swl_def m_swr_def Let_def by auto

lemma byte_refused: "8 \<le> i \<Longrightarrow> \<exists>e. m_lb m0 m1 i = Inl e \<and> refusal e" "8 \<le> i \<Longrightarrow> \<exists>e. m_lbu m0 m1 i = Inl e \<and> refusal e"
  by (auto simp: m_lb_def m_lbu_def mem_byte_def)

lemma first_word_stored:
  assumes "i < 4"
  shows "word_at (store_left (mem_bytes w) b i) i = first_word (store_left (mem_bytes w) b i)"
    "word_at (store_right (mem_bytes w) b i) i = first_word (store_right (mem_bytes w) b i)"
  using assms by (simp_all add: word_at_def first_word_def)

lemma memory_agrees:
  "agrees (\<lambda>k. m_lwl (g_m0 k) (g_m1 k) (g_imm k) (g_seed k)) (\<lambda>w. at_byte w (load_left (mem_bytes w) (w_seed w))) w"
  "agrees (\<lambda>k. m_lwr (g_m0 k) (g_m1 k) (g_imm k) (g_seed k)) (\<lambda>w. at_byte w (load_right (mem_bytes w) (w_seed w))) w"
  by (rule at_byte_agrees; simp add: args_of_def load_half_words half_refused)+

lemma store_agrees:
  assumes "\<not> (4 \<le> w_imm w \<and> w_imm w < 8)"
  shows "agrees (\<lambda>k. m_swl (g_b k) (g_m0 k) (g_m1 k) (g_imm k)) (\<lambda>w. at_byte w (\<lambda>i. first_word (store_left (mem_bytes w) (w_b w) i))) w"
    "agrees (\<lambda>k. m_swr (g_b k) (g_m0 k) (g_m1 k) (g_imm k)) (\<lambda>w. at_byte w (\<lambda>i. first_word (store_right (mem_bytes w) (w_b w) i))) w"
  by (rule at_byte_agrees; use assms in \<open>simp add: args_of_def store_half_words half_refused first_word_stored\<close>)+

lemma first_word_whole: "first_word (store_word (mem_bytes w) b 0) = b"
  by (simp add: first_word_def store_word_def of_word_bytes_word_bytes)

lemma byte_agrees:
  assumes "0 \<le> w_imm w"
  shows "agrees (\<lambda>k. m_lb (g_m0 k) (g_m1 k) (g_imm k)) (\<lambda>w. at_byte w (\<lambda>i. scast (mem_bytes w ! i))) w"
    "agrees (\<lambda>k. m_lbu (g_m0 k) (g_m1 k) (g_imm k)) (\<lambda>w. at_byte w (\<lambda>i. ucast (mem_bytes w ! i))) w"
  by (rule at_byte_agrees; use assms in \<open>simp add: args_of_def load_byte_words byte_refused\<close>)+

lemma ext_refused: "32 < n + Suc r \<Longrightarrow> \<exists>e. m_ext2 a n r = Inl e \<and> refusal e"
  by (simp add: m_ext2_def)

lemma ins_refused: "\<not> (n \<le> r \<and> r < 32) \<Longrightarrow> \<exists>e. m_ins a s n r = Inl e \<and> refusal e"
  by (auto simp: m_ins_def)

lemma field_agrees:
  "agrees (with_sh (\<lambda>s. with_rd (\<lambda>r k. m_ext2 (g_a k) s r)))
     (\<lambda>w. if w_sh w + Suc (w_rd w) \<le> 32 then Some (take_bit (Suc (w_rd w)) (drop_bit (w_sh w) (w_a w))) else None) w"
  "agrees (with_sh (\<lambda>s. with_rd (\<lambda>r k. m_ins (g_a k) (g_seed k) s r)))
     (\<lambda>w. if w_sh w \<le> w_rd w \<and> w_rd w < 32 then Some ((w_seed w AND NOT (push_bit (w_sh w) (mask (Suc (w_rd w) - w_sh w))))
        OR push_bit (w_sh w) (take_bit (Suc (w_rd w) - w_sh w) (w_a w))) else None) w"
proof -
  show "agrees (with_sh (\<lambda>s. with_rd (\<lambda>r k. m_ext2 (g_a k) s r)))
     (\<lambda>w. if w_sh w + Suc (w_rd w) \<le> 32 then Some (take_bit (Suc (w_rd w)) (drop_bit (w_sh w) (w_a w))) else None) w"
    by (cases "w_sh w + Suc (w_rd w) \<le> 32") (simp_all add: agrees_def args_simps ext_word ext_refused)
  show "agrees (with_sh (\<lambda>s. with_rd (\<lambda>r k. m_ins (g_a k) (g_seed k) s r)))
     (\<lambda>w. if w_sh w \<le> w_rd w \<and> w_rd w < 32 then Some ((w_seed w AND NOT (push_bit (w_sh w) (mask (Suc (w_rd w) - w_sh w))))
        OR push_bit (w_sh w) (take_bit (Suc (w_rd w) - w_sh w) (w_a w))) else None) w"
    by (cases "w_sh w \<le> w_rd w \<and> w_rd w < 32") (simp_all add: agrees_def args_simps ins_word ins_refused)
qed

definition model_matches :: "wargs \<Rightarrow> string \<times> (margs \<Rightarrow> model_error + int) \<times> string \<Rightarrow> string \<times> (wargs \<Rightarrow> 32 word option) \<Rightarrow> bool" where
  "model_matches w m r = (fst m = fst r \<and> (departs (fst m) (w_imm w) \<or> agrees (fst (snd m)) (snd r) w))"

lemma all_agree: "list_all2 (model_matches w) MODELS MACHINE"
proof -
  obtain x y z u where b: "word_bytes (w_b w) = [x, y, z, u]" using word_bytes_cases by blast
  have m: "agrees (\<lambda>k. m_lb (g_m0 k) (g_m1 k) (g_imm k)) (\<lambda>w. at_byte w (\<lambda>i. scast (mem_bytes w ! i))) w \<or> w_imm w < 0"
    "agrees (\<lambda>k. m_lbu (g_m0 k) (g_m1 k) (g_imm k)) (\<lambda>w. at_byte w (\<lambda>i. ucast (mem_bytes w ! i))) w \<or> w_imm w < 0"
    "agrees (\<lambda>k. m_swl (g_b k) (g_m0 k) (g_m1 k) (g_imm k)) (\<lambda>w. at_byte w (\<lambda>i. first_word (store_left (mem_bytes w) (w_b w) i))) w \<or> 4 \<le> w_imm w \<and> w_imm w < 8"
    "agrees (\<lambda>k. m_swr (g_b k) (g_m0 k) (g_m1 k) (g_imm k)) (\<lambda>w. at_byte w (\<lambda>i. first_word (store_right (mem_bytes w) (w_b w) i))) w \<or> 4 \<le> w_imm w \<and> w_imm w < 8"
    using byte_agrees [of w] store_agrees [of w] by linarith+
  note m' = m [THEN disj_commute [THEN iffD1]]
  show ?thesis
    unfolding MODELS_def MACHINE_def model_matches_def
    by (simp add: departs_def memory_agrees m' field_agrees del: conj_assoc)
      (simp add: agrees_def args_simps model_words m_lw_def mem_word_def m_sw_def first_word_whole wsbh_word [OF b] b, simp add: ext_word ext_refused)
qed

text \<open>The operands that tell the two apart: a first word that a store into the second does not reach.\<close>

definition telling_words :: "int \<Rightarrow> wargs" where
  "telling_words i = \<lparr>w_a = 0, w_b = 0, w_m0 = 1, w_m1 = 0, w_seed = 0, w_sh = 0, w_rd = 0, w_imm = i\<rparr>"

lemma byte_below:
  assumes "i < 0"
  shows "\<not> agrees (\<lambda>k. m_lb (g_m0 k) (g_m1 k) (g_imm k)) (\<lambda>w. at_byte w (\<lambda>i. scast (mem_bytes w ! i))) (telling_words i)"
    "\<not> agrees (\<lambda>k. m_lbu (g_m0 k) (g_m1 k) (g_imm k)) (\<lambda>w. at_byte w (\<lambda>i. ucast (mem_bytes w ! i))) (telling_words i)"
  using assms by (auto simp: agrees_def at_byte_def telling_words_def args_of_def m_lb_def m_lbu_def mem_byte_def list_at_def
      sbind_def split: if_splits)

lemma second_word_stored:
  assumes "4 \<le> i" "i < 8"
  shows "\<not> agrees (\<lambda>k. m_swl (g_b k) (g_m0 k) (g_m1 k) (g_imm k)) (\<lambda>w. at_byte w (\<lambda>i. first_word (store_left (mem_bytes w) (w_b w) i))) (telling_words i)"
    "\<not> agrees (\<lambda>k. m_swr (g_b k) (g_m0 k) (g_m1 k) (g_imm k)) (\<lambda>w. at_byte w (\<lambda>i. first_word (store_right (mem_bytes w) (w_b w) i))) (telling_words i)"
proof -
  obtain j where j: "i = int j" "4 \<le> j" "j < 8" using assms by (cases i) auto
  show "\<not> agrees (\<lambda>k. m_swl (g_b k) (g_m0 k) (g_m1 k) (g_imm k)) (\<lambda>w. at_byte w (\<lambda>i. first_word (store_left (mem_bytes w) (w_b w) i))) (telling_words i)"
    using j(3) j(2) unfolding j(1) by (cases j rule: eight_cases)
      (simp_all add: agrees_def at_byte_def telling_words_def args_of_def m_swl_def mem_word_def bytes_be_def join_be_def u32_def
        first_word_def store_left_def mem_bytes_def word_bytes_def of_word_bytes_def upt_conv_Cons)
  show "\<not> agrees (\<lambda>k. m_swr (g_b k) (g_m0 k) (g_m1 k) (g_imm k)) (\<lambda>w. at_byte w (\<lambda>i. first_word (store_right (mem_bytes w) (w_b w) i))) (telling_words i)"
    using j(3) j(2) unfolding j(1) by (cases j rule: eight_cases)
      (simp_all add: agrees_def at_byte_def telling_words_def args_of_def m_swr_def mem_word_def bytes_be_def join_be_def u32_def
        first_word_def store_right_def mem_bytes_def word_bytes_def of_word_bytes_def upt_conv_Cons)
qed

lemma whole_word_stored:
  assumes "i \<noteq> 0"
  shows "\<not> agrees (\<lambda>k. Inr (m_sw (g_b k))) (\<lambda>w. if w_imm w = 0 \<or> w_imm w = 4
    then Some (first_word (store_word (mem_bytes w) (w_b w) (nat (w_imm w)))) else None) (telling_words i)"
  using assms by (simp add: agrees_def telling_words_def args_of_def m_sw_def first_word_def store_word_def mem_bytes_def
      word_bytes_def of_word_bytes_def u32_def)

definition model_departs :: "int \<Rightarrow> string \<times> (margs \<Rightarrow> model_error + int) \<times> string \<Rightarrow> string \<times> (wargs \<Rightarrow> 32 word option) \<Rightarrow> bool" where
  "model_departs i m r = (fst m = fst r \<and> (departs (fst m) i \<longrightarrow> \<not> agrees (fst (snd m)) (snd r) (telling_words i)))"

lemma all_depart: "list_all2 (model_departs i) MODELS MACHINE"
  unfolding MODELS_def MACHINE_def model_departs_def
  by (simp add: departs_def byte_below second_word_stored whole_word_stored)

lemma map_of_all2:
  assumes "list_all2 R xs ys" and "\<And>x y. R x y \<Longrightarrow> fst x = fst y" and "map_of xs k = Some x"
  shows "\<exists>y. map_of ys k = Some y \<and> R (k, x) (k, y)"
  using assms
proof (induction xs ys rule: list_all2_induct)
  case (Cons x' xs y' ys)
  show ?case
  proof (cases "fst x' = k")
    case True
    then have "fst y' = k" using Cons.prems(1) [OF Cons.hyps(1)] by simp
    moreover have "snd x' = x" using Cons.prems(2) True by (cases x') simp
    ultimately show ?thesis using True Cons.hyps(1) by (cases x'; cases y') simp
  next
    case False
    then have "fst y' \<noteq> k" using Cons.prems(1) [OF Cons.hyps(1)] by simp
    with False Cons show ?thesis by (cases x'; cases y') simp
  qed
qed simp

lemma model_exact:
  assumes "map_of MODELS name = Some (fn, p)"
  shows "\<exists>ref. map_of MACHINE name = Some ref \<and> (\<forall>w. departs name (w_imm w) \<or> agrees fn ref w) \<and>
    (\<forall>i. departs name i \<longrightarrow> \<not> agrees fn ref (telling_words i))"
proof -
  have a: "\<exists>ref. map_of MACHINE name = Some ref \<and> (departs name (w_imm w) \<or> agrees fn ref w)" for w
    using map_of_all2 [OF all_agree [of w] _ assms] by (auto simp: model_matches_def)
  have d: "\<exists>ref. map_of MACHINE name = Some ref \<and> (departs name i \<longrightarrow> \<not> agrees fn ref (telling_words i))" for i
    using map_of_all2 [OF all_depart [of i] _ assms] by (auto simp: model_departs_def)
  obtain ref where ref: "map_of MACHINE name = Some ref" using a [of "telling_words 0"] by blast
  have "departs name (w_imm w) \<or> agrees fn ref w" for w using a [of w] ref by simp
  moreover have "departs name i \<longrightarrow> \<not> agrees fn ref (telling_words i)" for i using d [of i] ref by simp
  ultimately show ?thesis using ref by blast
qed

lemma model_agrees:
  assumes "map_of MODELS name = Some (fn, p)" and "\<not> departs name (w_imm w)"
  shows "\<exists>ref. map_of MACHINE name = Some ref \<and> agrees fn ref w"
  using model_exact [OF assms(1)] assms(2) by blast

text \<open>
  C21. For every name of the table the model is the machine's instruction, operand by operand: its integer is the word
  the machine leaves in the declared register, and it refuses, by a refusal of its own, where the machine traps or
  leaves the two words of memory.  The exceptions are exactly the offsets of \<open>departs\<close>: at each of them some operands
  tell the two apart (\<open>lb\<close> and \<open>lbu\<close> below the two words, \<open>sw\<close> anywhere but at 0, whose model ignores the offset,
  and \<open>swl\<close> and \<open>swr\<close> in the second word, where the model returns the word it changed and \<open>m0\<close> is the other).
\<close>
theorem model_is_machine:
  assumes "map_of MODELS name = Some (fn, p)"
  shows "\<exists>ref. map_of MACHINE name = Some ref \<and>
    (\<forall>i. (\<forall>w. w_imm w = i \<longrightarrow>
        (case ref w of Some v \<Rightarrow> fn (args_of w) = Inr (uint v) | None \<Rightarrow> \<exists>e. fn (args_of w) = Inl e \<and> refusal e))
      \<longleftrightarrow> \<not> departs name i)"
proof -
  obtain ref where ref: "map_of MACHINE name = Some ref" "\<And>w. departs name (w_imm w) \<or> agrees fn ref w"
    "\<And>i. departs name i \<Longrightarrow> \<not> agrees fn ref (telling_words i)"
    using model_exact [OF assms] by blast
  have t: "w_imm (telling_words i) = i" for i by (simp add: telling_words_def)
  have "(\<forall>w. w_imm w = i \<longrightarrow> agrees fn ref w) \<longleftrightarrow> \<not> departs name i" for i
    using ref(2) ref(3) [of i] t [of i] by blast
  then show ?thesis using ref(1) by (auto simp: agrees_def)
qed

definition sample_args :: wargs where
  "sample_args = \<lparr>w_a = 0x7FFFFFFF, w_b = 1, w_m0 = 0x11223344, w_m1 = 0x55667788, w_seed = 0xDEADBEEF, w_sh = 0, w_rd = 0, w_imm = 0\<rparr>"

lemma model_is_machine_witness:
  "map_of MODELS ''add'' = Some (\<lambda>k. m_add (g_a k) (g_b k), ''gpr'') \<and>
   (\<exists>e. m_add (g_a (args_of sample_args)) (g_b (args_of sample_args)) = Inl e)"
proof -
  have m: "map_of MODELS ''add'' = Some (\<lambda>k. m_add (g_a k) (g_b k), ''gpr'')" by (simp add: MODELS_def)
  have i: "\<not> departs ''add'' (w_imm sample_args)" by (simp add: departs_def)
  have r: "map_of MACHINE ''add'' = Some (\<lambda>w. if sint (w_a w) + sint (w_b w) = sint (w_a w + w_b w) then Some (w_a w + w_b w) else None)"
    by (simp add: MACHINE_def)
  obtain ref where ref: "map_of MACHINE ''add'' = Some ref"
    "case ref sample_args of Some v \<Rightarrow> m_add (g_a (args_of sample_args)) (g_b (args_of sample_args)) = Inr (uint v)
      | None \<Rightarrow> \<exists>e. m_add (g_a (args_of sample_args)) (g_b (args_of sample_args)) = Inl e \<and> refusal e"
    using model_is_machine [OF m] i by blast
  have "sint (w_a sample_args) + sint (w_b sample_args) \<noteq> sint (w_a sample_args + w_b sample_args)"
    by (simp add: sample_args_def)
  then have "ref sample_args = None" using r ref(1) by simp
  with m ref(2) show ?thesis by auto
qed

subsection \<open>An unaligned word, stored and loaded\<close>

text \<open>The two memory words after a store whose changed word the model returned.\<close>

definition put_word :: "int \<Rightarrow> int \<Rightarrow> int \<times> int \<Rightarrow> int \<times> int" where
  "put_word off v m = (if off < 4 then (v, snd m) else (fst m, v))"

definition store_unaligned :: "int \<Rightarrow> int \<times> int \<Rightarrow> int \<Rightarrow> model_error + int \<times> int" where
  "store_unaligned b m off =
     sbind (m_swl b (fst m) (snd m) off) (\<lambda>x. let m = put_word off x m in
       sbind (m_swr b (fst m) (snd m) (off + 3)) (\<lambda>y. Inr (put_word (off + 3) y m)))"

definition load_unaligned :: "int \<times> int \<Rightarrow> int \<Rightarrow> int \<Rightarrow> model_error + int" where
  "load_unaligned m seed off =
     sbind (m_lwl (fst m) (snd m) off seed) (\<lambda>x. m_lwr (fst m) (snd m) (off + 3) x)"

lemma word_of_bytes_cases: obtains p q r t where "w = of_word_bytes [p, q, r, t]"
  using word_bytes_cases [of w] of_word_bytes_word_bytes [of w] by metis

lemma five_cases:
  assumes "i \<le> (4::nat)"
  obtains "i = 0" | "i = 1" | "i = 2" | "i = 3" | "i = 4"
  using assms by (cases "i \<in> {0, 1, 2, 3, 4}") auto

definition unaligned_words :: "32 word \<Rightarrow> 32 word \<Rightarrow> wargs" where
  "unaligned_words m0 m1 = \<lparr>w_a = 0, w_b = 0, w_m0 = m0, w_m1 = m1, w_seed = 0, w_sh = 0, w_rd = 0, w_imm = 0\<rparr>"

lemma half_words:
  assumes "i < 8" and "mem = word_bytes m0 @ word_bytes m1"
  shows "m_lwl (uint m0) (uint m1) (int i) (uint s) = Inr (uint (load_left mem s i))"
    "m_lwr (uint m0) (uint m1) (int i) (uint s) = Inr (uint (load_right mem s i))"
    "m_swl (uint b) (uint m0) (uint m1) (int i) = Inr (uint (word_at (store_left mem b i) i))"
    "m_swr (uint b) (uint m0) (uint m1) (int i) = Inr (uint (word_at (store_right mem b i) i))"
  using load_half_words [of i "unaligned_words m0 m1" s] store_half_words [of i b "unaligned_words m0 m1"] assms
  by (simp_all add: unaligned_words_def mem_bytes_def)

lemma load_unaligned_bytes:
  fixes s :: "32 word"
  assumes "i \<le> 4"
  shows "load_unaligned (uint m0, uint m1) (uint s) (int i) =
    Inr (uint (of_word_bytes (take 4 (drop i (word_bytes m0 @ word_bytes m1)))))"
proof -
  obtain p q r t where m0: "word_bytes m0 = [p, q, r, t]" using word_bytes_cases by blast
  obtain p' q' r' t' where m1: "word_bytes m1 = [p', q', r', t']" using word_bytes_cases by blast
  obtain x y z u where s: "word_bytes s = [x, y, z, u]" using word_bytes_cases by blast
  let ?mem = "word_bytes m0 @ word_bytes m1"
  have "int i + 3 = int (i + 3)" by simp
  then have "load_unaligned (uint m0, uint m1) (uint s) (int i) = Inr (uint (load_right ?mem (load_left ?mem s i) (i + 3)))"
    using assms unfolding load_unaligned_def by (simp only: half_words [OF _ refl] sbind_simps fst_conv snd_conv)
  moreover have "load_right ?mem (load_left ?mem s i) (i + 3) = of_word_bytes (take 4 (drop i ?mem))"
    using assms by (cases i rule: five_cases) (simp_all add: load_left_def load_right_def m0 m1 s word_bytes_of_word_bytes)
  ultimately show ?thesis by simp
qed

lemma store_unaligned_bytes:
  assumes "i \<le> 4" and "mem = take i (word_bytes m0 @ word_bytes m1) @ word_bytes b @ drop (i + 4) (word_bytes m0 @ word_bytes m1)"
  shows "store_unaligned (uint b) (uint m0, uint m1) (int i) = Inr (uint (of_word_bytes (take 4 mem)), uint (of_word_bytes (drop 4 mem)))"
proof -
  obtain p q r t where m0: "m0 = of_word_bytes [p, q, r, t]" by (rule word_of_bytes_cases)
  obtain p' q' r' t' where m1: "m1 = of_word_bytes [p', q', r', t']" by (rule word_of_bytes_cases)
  obtain x y z u where b: "b = of_word_bytes [x, y, z, u]" by (rule word_of_bytes_cases)
  note j = join_be_word [unfolded list.map]
  show ?thesis
    using assms(1) unfolding assms(2) b m0 m1 by (cases i rule: five_cases)
      (simp_all add: store_unaligned_def put_word_def m_swl_def m_swr_def Let_def mem_word_def bytes_be_word j upt_conv_Cons
        word_bytes_of_word_bytes)
qed

text \<open>
  An unaligned word stored with the \<open>swl\<close>/\<open>swr\<close> pair is the word the \<open>lwl\<close>/\<open>lwr\<close> pair loads back,
  at each of the five offsets of a word inside the two words of memory, whatever the register held.
\<close>
theorem unaligned_round_trip:
  fixes b m0 m1 seed :: "32 word"
  assumes "off \<le> 4"
  shows "\<exists>m. store_unaligned (uint b) (uint m0, uint m1) (int off) = Inr m \<and> load_unaligned m (uint seed) (int off) = Inr (uint b)"
proof -
  let ?bs = "take off (word_bytes m0 @ word_bytes m1) @ word_bytes b @ drop (off + 4) (word_bytes m0 @ word_bytes m1)"
  have w: "word_bytes (of_word_bytes xs) = xs" if "length xs = 4" for xs
    using that by (auto simp: numeral_eq_Suc length_Suc_conv word_bytes_of_word_bytes)
  have l: "length (take 4 ?bs) = 4" "length (drop 4 ?bs) = 4" using assms by auto
  have "take 4 (drop off (take 4 ?bs @ drop 4 ?bs)) = word_bytes b" using assms by (simp only: append_take_drop_id) simp
  then have "load_unaligned (uint (of_word_bytes (take 4 ?bs)), uint (of_word_bytes (drop 4 ?bs))) (uint seed) (int off) = Inr (uint b)"
    using load_unaligned_bytes [OF assms] by (simp only: w [OF l(1)] w [OF l(2)] of_word_bytes_word_bytes)
  then show ?thesis using store_unaligned_bytes [OF assms refl] by blast
qed

lemma unaligned_round_trip_witness:
  "\<exists>m. store_unaligned (uint (0xDEADBEEF :: 32 word)) (uint (0x11223344 :: 32 word), uint (0x55667788 :: 32 word)) (int 3) = Inr m \<and>
    load_unaligned m (uint (0 :: 32 word)) (int 3) = Inr (uint (0xDEADBEEF :: 32 word))"
  by (rule unaligned_round_trip) simp

text \<open>A byte offset below zero is not refused: it reads from the end of the first word.\<close>

lemma negative_offset_reads: "m_lbu 0x11223344 0x55667788 (- 1) = Inr 0x44"
  by (simp add: m_lbu_def mem_byte_def list_at_def bytes_be_def)

end
