(* ===== verification/IsaRow.thy ===== *)
theory IsaRow
  imports IsaModel
begin

unbundle bit_operations_syntax

text \<open>
  \<open>tools/isapay.py\<close>, the table of probed encodings: parsing a row and its fields, the encoding built from
  the fields, and the two comparisons \<open>encode\<close> and \<open>model\<close> that hold the hand-written columns against a second source.
\<close>

subsection \<open>Numbers and fields\<close>

datatype row_error =
    Not_a_number string string
  | No_equals string | Unknown_field string | Field_twice string | No_op
  | No_rows | Bad_header "string list" | Bad_width nat nat | Has_pipe string | Duplicate_name string
  | Unknown_shape string | Unknown_read string | Bad_exccode string | Bad_qemu string | Unknown_group string | No_dash string
  | Reserved_not_seed string | Expect_untouched string
  | Op_wide int | Imm_with_r | Field_wide string int | Imm_wide int
  | Model_refuses model_error
  | Arith_None

text \<open>\<open>Arith_None\<close> is the \<open>TypeError\<close> of arithmetic on a field whose value is \<open>-\<close>; nothing catches it.\<close>

definition hx :: "string \<Rightarrow> string \<Rightarrow> row_error + int option" where
  "hx s what =
     (let t = strip s in
      if t = ''-'' then Inr None
      else case int0 t of None \<Rightarrow> Inl (Not_a_number what t) | Some v \<Rightarrow> Inr (Some (v AND 0xFFFFFFFF)))"

type_synonym fields = "(string \<times> int option) list"

definition FIELD_NAMES :: "string list" where
  "FIELD_NAMES = [''op'', ''rs'', ''rt'', ''rd'', ''sh'', ''fn'', ''imm'']"

definition field_part :: "fields \<Rightarrow> string \<Rightarrow> row_error + fields" where
  "field_part d part =
     (let part = strip part in
      if part = [] then Inr d
      else if CHR ''='' \<notin> set part then Inl (No_equals part)
      else let k = strip (takeWhile (\<lambda>c. c \<noteq> CHR ''='') part); v = tl (dropWhile (\<lambda>c. c \<noteq> CHR ''='') part) in
        if k \<notin> set FIELD_NAMES then Inl (Unknown_field k)
        else if k \<in> fst ` set d then Inl (Field_twice k)
        else sbind (hx v (''field '' @ k)) (\<lambda>x. Inr (d @ [(k, x)])))"

fun field_parts :: "fields \<Rightarrow> string list \<Rightarrow> row_error + fields" where
  "field_parts d [] = Inr d"
| "field_parts d (p # ps) = sbind (field_part d p) (\<lambda>d'. field_parts d' ps)"

definition parse_fields :: "string \<Rightarrow> row_error + fields" where
  "parse_fields spec =
     sbind (field_parts [] (split_on (CHR '','') spec)) (\<lambda>d. if ''op'' \<in> fst ` set d then Inr d else Inl No_op)"

text \<open>\<open>d.get(k, 0)\<close>.\<close>

definition get0 :: "fields \<Rightarrow> string \<Rightarrow> int option" where
  "get0 d k = (case map_of d k of None \<Rightarrow> Some 0 | Some v \<Rightarrow> v)"

fun put_fields :: "fields \<Rightarrow> (string \<times> nat \<times> nat) list \<Rightarrow> int \<Rightarrow> row_error + int" where
  "put_fields d [] w = Inr w"
| "put_fields d ((k, shift, width) # fs) w =
     (case get0 d k of
        None \<Rightarrow> Inl Arith_None
      | Some v \<Rightarrow>
          if v \<ge> push_bit width 1 then Inl (Field_wide k v)
          else put_fields d fs (w OR push_bit shift v))"

definition I_FIELDS :: "(string \<times> nat \<times> nat) list" where "I_FIELDS = [(''rs'', 21, 5), (''rt'', 16, 5)]"
definition R_FIELDS :: "(string \<times> nat \<times> nat) list" where "R_FIELDS = [(''rd'', 11, 5), (''sh'', 6, 5), (''fn'', 0, 6)]"

definition put_tail :: "fields \<Rightarrow> int \<Rightarrow> row_error + int" where
  "put_tail d w =
     (if ''imm'' \<in> fst ` set d
      then sbind (or_err Arith_None (get0 d ''imm'')) (\<lambda>v.
        if v > 0xFFFF \<and> \<not> (0xFFFF0000 \<le> v \<and> v \<le> 0xFFFFFFFF) then Inl (Imm_wide v) else Inr (w OR (v AND 0xFFFF)))
      else put_fields d R_FIELDS w)"

definition encode_fields :: "fields \<Rightarrow> row_error + int" where
  "encode_fields d =
     sbind (or_err Arith_None (get0 d ''op'')) (\<lambda>op.
     if op > 0x3F then Inl (Op_wide op)
     else if ''imm'' \<in> fst ` set d \<and> (\<exists>k \<in> {''rd'', ''sh'', ''fn''}. k \<in> fst ` set d) then Inl Imm_with_r
     else sbind (put_fields d I_FIELDS (push_bit 26 op)) (\<lambda>w.
       sbind (put_tail d w) (\<lambda>w. Inr (w AND 0xFFFFFFFF))))"

subsection \<open>The table\<close>

definition COLUMNS :: "string list" where
  "COLUMNS = [''group'', ''name'', ''shape'', ''fields'', ''word'', ''in_a'', ''in_b'', ''mem0'', ''mem1'', ''seed'', ''read'',
     ''expect'', ''qemu'', ''why'']"

definition PLAN_GROUPS :: "string list" where
  "PLAN_GROUPS = [''baseline'', ''reserved'', ''unaligned'', ''mips2'', ''mips32r1'', ''mips32r2'', ''mips16'', ''cop1'', ''ase'', ''nx'']"

definition EXTRA_GROUPS :: "string list" where
  "EXTRA_GROUPS = [''census'', ''lexra-cp0'', ''cop3'', ''traps'']"

definition SHAPES :: "(string \<times> string) list" where
  "SHAPES = [(''alu'', ''val''), (''load'', ''val''), (''store'', ''val''), (''hilo'', ''hilo''), (''machilo'', ''machilo''),
     (''branch'', ''branch''), (''jr'', ''jr''), (''nx'', ''nx'')]"

record irow =
  i_group :: string
  i_name :: string
  i_shape :: string
  i_read :: string
  i_qemu :: string
  i_in_a :: int
  i_in_b :: int
  i_mem0 :: int
  i_mem1 :: int
  i_seed :: int
  i_word :: int
  i_expect :: "int option"
  i_idx :: nat
  i_fields :: fields
  i_qemu_kind :: string
  i_qemu_exc :: "int option"

definition hx_num :: "string \<Rightarrow> string \<Rightarrow> row_error + int" where
  "hx_num s what = sbind (hx s what) (or_err (No_dash what))"

text \<open>The \<open>qemu\<close> column: \<open>run\<close>, \<open>trap\<close> or \<open>trap:N\<close>.\<close>

definition qemu_of :: "string \<Rightarrow> row_error + string \<times> int option" where
  "qemu_of q =
     (if prefix ''trap:'' q
      then sbind (hx (drop 5 q) ''ExcCode'') (\<lambda>e. case e of
        None \<Rightarrow> Inl (Bad_exccode q)
      | Some n \<Rightarrow> if n > 31 then Inl (Bad_exccode q) else Inr (''trap'', Some n))
      else if q \<in> {''run'', ''trap''} then Inr (q, None)
      else Inl (Bad_qemu q))"

text \<open>What the recorded word holds when the probed instruction did nothing; \<open>None\<close> where the template cannot say.\<close>

definition untouched :: "irow \<Rightarrow> int option" where
  "untouched r =
     (if i_read r = ''m0'' then Some (i_mem0 r)
      else if i_read r = ''m1'' then Some (i_mem1 r)
      else case map_of SHAPES (i_shape r) of
        None \<Rightarrow> None
      | Some t \<Rightarrow>
          if t \<in> {''branch'', ''jr''} then Some (if i_read r = ''gpr'' then NOTTAKEN else 0)
          else if t = ''machilo'' then Some (if i_read r = ''gpr'' then MAC_LO_PRIME else MAC_HI_PRIME)
          else if t = ''hilo'' then None
          else Some (if i_read r = ''gpr'' then i_seed r else 0))"

definition check_expect :: "irow \<Rightarrow> row_error + irow" where
  "check_expect r =
     (if i_group r = ''reserved''
      then if i_expect r \<noteq> Some (i_seed r) then Inl (Reserved_not_seed (i_name r)) else Inr r
      else if i_expect r \<noteq> None \<and> untouched r \<noteq> None \<and> i_expect r = untouched r then Inl (Expect_untouched (i_name r))
      else Inr r)"

definition row_of :: "string set \<Rightarrow> nat \<Rightarrow> string \<Rightarrow> row_error + irow" where
  "row_of seen i l =
     (case split_on (CHR 0x09) l of
        [grp, nm, shp, flds, wrd, xa, xb, x0, x1, sd, rd, ex, q, _] \<Rightarrow>
          if CHR ''|'' \<in> set l then Inl (Has_pipe nm)
          else if nm \<in> seen then Inl (Duplicate_name nm)
          else if shp \<notin> fst ` set SHAPES then Inl (Unknown_shape shp)
          else if rd \<notin> {''gpr'', ''m0'', ''m1'', ''aux''} then Inl (Unknown_read rd)
          else sbind (qemu_of q) (\<lambda>(kind, exc).
          if grp \<notin> set (PLAN_GROUPS @ EXTRA_GROUPS) then Inl (Unknown_group grp)
          else sbind (hx_num xa ''in_a'') (\<lambda>a.
          sbind (hx_num xb ''in_b'') (\<lambda>b.
          sbind (hx_num x0 ''mem0'') (\<lambda>m0.
          sbind (hx_num x1 ''mem1'') (\<lambda>m1.
          sbind (hx_num sd ''seed'') (\<lambda>s.
          sbind (hx_num wrd ''word'') (\<lambda>w.
          sbind (hx ex ''expect'') (\<lambda>e.
          sbind (parse_fields flds) (\<lambda>d.
            check_expect \<lparr>i_group = grp, i_name = nm, i_shape = shp, i_read = rd, i_qemu = q, i_in_a = a, i_in_b = b,
              i_mem0 = m0, i_mem1 = m1, i_seed = s, i_word = w, i_expect = e, i_idx = i, i_fields = d,
              i_qemu_kind = kind, i_qemu_exc = exc\<rparr>)))))))))
      | fs \<Rightarrow> Inl (Bad_width i (length fs)))"

fun rows_of :: "string set \<Rightarrow> nat \<Rightarrow> string list \<Rightarrow> row_error + irow list" where
  "rows_of seen i [] = Inr []"
| "rows_of seen i (l # ls) =
     sbind (row_of seen i l) (\<lambda>r. sbind (rows_of (insert (i_name r) seen) (Suc i) ls) (\<lambda>rs. Inr (r # rs)))"

definition load_rows :: "string \<Rightarrow> row_error + irow list" where
  "load_rows txt =
     (case filter (\<lambda>l. strip l \<noteq> [] \<and> take 1 l \<noteq> ''#'') (split_on (CHR 0x0A) (universal_newlines txt)) of
        [] \<Rightarrow> Inl No_rows
      | h # ls \<Rightarrow> if split_on (CHR 0x09) h \<noteq> COLUMNS then Inl (Bad_header (split_on (CHR 0x09) h)) else rows_of {} 0 ls)"

subsection \<open>The two comparisons\<close>

text \<open>The value of a row's model, or \<open>None\<close> where the tool has no model for the name.\<close>

definition row_args :: "irow \<Rightarrow> row_error + margs" where
  "row_args r =
     sbind (or_err Arith_None (get0 (i_fields r) ''imm'')) (\<lambda>imm.
       Inr \<lparr>g_a = i_in_a r, g_b = i_in_b r, g_m0 = i_mem0 r, g_m1 = i_mem1 r, g_seed = i_seed r,
         g_sh = get0 (i_fields r) ''sh'', g_rd = get0 (i_fields r) ''rd'', g_imm = (if imm > 0x7FFF then imm - 0x10000 else imm)\<rparr>)"

definition model_row :: "irow \<Rightarrow> row_error + int option" where
  "model_row r =
     (case map_of MODELS (i_name r) of
        None \<Rightarrow> Inr None
      | Some (fn, produces) \<Rightarrow>
          if produces \<noteq> i_read r then Inl (Model_refuses (Produces produces (i_read r)))
          else sbind (row_args r) (\<lambda>k. case fn k of Inl e \<Rightarrow> Inl (Model_refuses e) | Inr v \<Rightarrow> Inr (Some v)))"

definition LOAD_OPS :: "int list" where
  "LOAD_OPS = [0x20, 0x21, 0x22, 0x23, 0x24, 0x25, 0x26, 0x30, 0x31, 0x32, 0x33, 0x35, 0x37]"

definition STORE_OPS :: "int list" where
  "STORE_OPS = [0x28, 0x29, 0x2A, 0x2B, 0x2E, 0x38, 0x39, 0x3A, 0x3B, 0x3D, 0x3F]"

definition BRANCH_IMM :: int where "BRANCH_IMM = 4"

definition encode_findings :: "irow \<Rightarrow> row_error + nat" where
  "encode_findings r =
     sbind (encode_fields (i_fields r)) (\<lambda>want.
       let branch = (if map_of SHAPES (i_shape r) = Some ''branch'' \<and> map_of (i_fields r) ''imm'' \<noteq> Some (Some BRANCH_IMM) then 1 else 0);
           op = get0 (i_fields r) ''op'';
           cls = (case op of None \<Rightarrow> None
             | Some op \<Rightarrow> if op \<in> set LOAD_OPS then Some ''load'' else if op \<in> set STORE_OPS then Some ''store'' else None);
           class = (case cls of None \<Rightarrow> 0 | Some c \<Rightarrow> if i_shape r \<notin> {c, ''hilo'', ''branch'', ''jr'', ''nx''} then 1 else 0)
       in Inr (branch + class + (if want = i_word r then 0 else 1)))"

definition cmd_encode :: "irow list \<Rightarrow> row_error + nat" where
  "cmd_encode rows = sbind (traverse encode_findings rows) (\<lambda>bs. Inr (if sum_list bs \<noteq> 0 then 1 else 0))"

definition model_findings :: "irow \<Rightarrow> row_error + nat" where
  "model_findings r =
     (case i_expect r of
        None \<Rightarrow> Inr 0
      | Some e \<Rightarrow>
          if i_group r = ''reserved'' then Inr 0
          else sbind (model_row r) (\<lambda>v. case v of None \<Rightarrow> Inr 0 | Some v \<Rightarrow> Inr (if u32 v = e then 0 else 1)))"

definition cmd_model :: "irow list \<Rightarrow> row_error + nat" where
  "cmd_model rows = sbind (traverse model_findings rows) (\<lambda>bs. Inr (if sum_list bs \<noteq> 0 then 1 else 0))"

subsection \<open>The encoding and its fields\<close>

definition field_at :: "int \<Rightarrow> nat \<Rightarrow> nat \<Rightarrow> int" where "field_at w shift width = take_bit width (drop_bit shift w)"

definition u32_range :: "int \<Rightarrow> bool" where "u32_range v \<longleftrightarrow> 0 \<le> v \<and> v < 2 ^ 32"

lemma mask32: "(0xFFFFFFFF :: int) = mask 32"
  by (simp add: mask_eq_exp_minus_1)

lemma and_mask32: "v AND 0xFFFFFFFF = take_bit 32 (v :: int)"
  by (simp only: mask32 take_bit_eq_mask [symmetric])

lemma u32_range_and: "u32_range (v AND 0xFFFFFFFF)"
  unfolding and_mask32 u32_range_def by (simp only: take_bit_nonnegative take_bit_int_less_exp simp_thms)

lemma hx_range: "hx s what = Inr (Some v) \<Longrightarrow> u32_range v"
  using u32_range_and by (auto simp: hx_def Let_def split: if_splits option.splits)

lemma hx_num_range: "hx_num s what = Inr v \<Longrightarrow> u32_range v"
  using hx_range by (auto simp: hx_num_def sbind_Inr or_err_def split: option.splits)

definition fields_ok :: "fields \<Rightarrow> bool" where
  "fields_ok d \<longleftrightarrow> distinct (map fst d) \<and> fst ` set d \<subseteq> set FIELD_NAMES \<and> (\<forall>k x. (k, Some x) \<in> set d \<longrightarrow> u32_range x)"

lemma field_part_ok:
  assumes "field_part d p = Inr d'" and "fields_ok d"
  shows "fields_ok d'"
proof (cases "d' = d")
  case False
  then obtain k v x where "d' = d @ [(k, x)]" "k \<in> set FIELD_NAMES" "k \<notin> fst ` set d" "hx v (''field '' @ k) = Inr x"
    using assms(1) by (auto simp: field_part_def Let_def sbind_Inr split: if_splits)
  then show ?thesis using assms(2) hx_range [of v] by (auto simp: fields_ok_def)
qed (simp add: assms)

lemma field_parts_ok: "field_parts d ps = Inr d' \<Longrightarrow> fields_ok d \<Longrightarrow> fields_ok d'"
  by (induction ps arbitrary: d) (auto simp: sbind_Inr dest: field_part_ok)

lemma parse_fields_ok: "parse_fields spec = Inr d \<Longrightarrow> fields_ok d \<and> ''op'' \<in> fst ` set d"
  using field_parts_ok [of "[]" "split_on (CHR '','') spec" d] by (auto simp: parse_fields_def sbind_Inr fields_ok_def split: if_splits)

lemma get0_range: "fields_ok d \<Longrightarrow> get0 d k = Some v \<Longrightarrow> u32_range v"
  by (auto simp: get0_def fields_ok_def u32_range_def split: option.splits dest!: map_of_SomeD)

lemma put_fields_Inr:
  "put_fields d ((k, shift, width) # fs) w = Inr w' \<longleftrightarrow>
    (\<exists>v. get0 d k = Some v \<and> v < 2 ^ width \<and> put_fields d fs (w OR push_bit shift v) = Inr w')"
  by (auto simp: push_bit_eq_mult split: option.splits)

text \<open>A value that fits its field, as a truncation.\<close>

lemma fits: "u32_range v \<Longrightarrow> v < 2 ^ n \<Longrightarrow> take_bit n v = v"
  by (simp add: u32_range_def take_bit_int_eq_self)

lemma field_or: "field_at (x OR y) s n = field_at x s n OR field_at y s n"
  by (simp add: field_at_def)

lemma field_mask: "s + n \<le> 32 \<Longrightarrow> field_at (w AND 0xFFFFFFFF) s n = field_at w s n"
  unfolding field_at_def and_mask32 by (rule bit_eqI) (auto simp: bit_simps)

lemma field_above: "s + n \<le> t \<Longrightarrow> field_at (push_bit t v) s n = 0"
  unfolding field_at_def by (rule bit_eqI) (auto simp: bit_simps)

lemma field_here: "field_at (push_bit s v) s n = take_bit n v"
  unfolding field_at_def by (rule bit_eqI) (auto simp: bit_simps)

lemma field_below:
  assumes "take_bit k v = v" and "t + k \<le> s"
  shows "field_at (push_bit t v) s n = 0"
proof -
  have "field_at (push_bit t (take_bit k v)) s n = 0"
    unfolding field_at_def using assms(2) by (intro bit_eqI) (auto simp: bit_simps)
  then show ?thesis by (simp only: assms(1))
qed

lemma pack_register:
  fixes op rs rt rd sh fn :: int
  assumes f: "take_bit 6 op = op" "take_bit 5 rs = rs" "take_bit 5 rt = rt" "take_bit 5 rd = rd" "take_bit 5 sh = sh" "take_bit 6 fn = fn"
    and w: "w = (push_bit 26 op OR push_bit 21 rs OR push_bit 16 rt OR push_bit 11 rd OR push_bit 6 sh OR push_bit 0 fn) AND 0xFFFFFFFF"
  shows "field_at w 26 6 = op" "field_at w 21 5 = rs" "field_at w 16 5 = rt" "field_at w 11 5 = rd" "field_at w 6 5 = sh" "field_at w 0 6 = fn"
  using field_below [OF f(1)] field_below [OF f(2)] field_below [OF f(3)] field_below [OF f(4)] field_below [OF f(5)] field_below [OF f(6)]
  by (simp_all add: w field_mask field_or field_above field_here f del: push_bit_0_id)

lemma pack_immediate:
  fixes op rs rt v :: int
  assumes f: "take_bit 6 op = op" "take_bit 5 rs = rs" "take_bit 5 rt = rt"
    and w: "w = (push_bit 26 op OR push_bit 21 rs OR push_bit 16 rt OR (v AND 0xFFFF)) AND 0xFFFFFFFF"
  shows "field_at w 26 6 = op" "field_at w 21 5 = rs" "field_at w 16 5 = rt" "field_at w 0 16 = take_bit 16 v"
proof -
  have m: "v AND 0xFFFF = push_bit 0 (take_bit 16 v)" by (simp add: take_bit_eq_mask mask_eq_exp_minus_1)
  have t: "take_bit 16 (take_bit 16 v) = take_bit 16 v" by simp
  show "field_at w 26 6 = op" "field_at w 21 5 = rs" "field_at w 16 5 = rt" "field_at w 0 16 = take_bit 16 v"
    using field_below [OF f(1)] field_below [OF f(2)] field_below [OF f(3)] field_below [OF t]
    by (simp_all add: w m field_mask field_or field_above field_here f del: push_bit_0_id)
qed

definition fields_of :: "int \<Rightarrow> (string \<times> nat \<times> nat) list \<Rightarrow> fields" where
  "fields_of w fs = map (\<lambda>(k, s, n). (k, Some (field_at w s n))) fs"

text \<open>The fields that a word carries: an immediate row has no \<open>rd\<close>, \<open>sh\<close>, \<open>fn\<close>.\<close>

definition agrees_with :: "fields \<Rightarrow> int \<Rightarrow> bool" where
  "agrees_with d w \<longleftrightarrow>
     get0 d ''op'' = Some (field_at w 26 6) \<and> get0 d ''rs'' = Some (field_at w 21 5) \<and> get0 d ''rt'' = Some (field_at w 16 5) \<and>
     (if ''imm'' \<in> fst ` set d
      then get0 d ''imm'' \<in> {Some (field_at w 0 16), Some (0xFFFF0000 + field_at w 0 16)}
        \<and> (\<forall>k \<in> {''rd'', ''sh'', ''fn''}. k \<notin> fst ` set d)
      else get0 d ''rd'' = Some (field_at w 11 5) \<and> get0 d ''sh'' = Some (field_at w 6 5) \<and> get0 d ''fn'' = Some (field_at w 0 6))"

lemma imm_value:
  assumes "u32_range v" and "\<not> (v > 0xFFFF \<and> \<not> (0xFFFF0000 \<le> v \<and> v \<le> 0xFFFFFFFF))"
  shows "v = take_bit 16 v \<or> v = 0xFFFF0000 + take_bit 16 v"
proof (cases "v > 0xFFFF")
  case True
  then have "0xFFFF0000 \<le> v" "v \<le> 0xFFFFFFFF" using assms(2) by auto
  moreover have "(v - 0xFFFF0000 + 65535 * 65536) mod 65536 = (v - 0xFFFF0000) mod 65536" by (rule mod_mult_self1)
  ultimately have "take_bit 16 v = v - 0xFFFF0000" unfolding take_bit_eq_mod by simp
  then show ?thesis by simp
next
  case False
  then have "take_bit 16 v = v" using assms(1) by (intro take_bit_int_eq_self) (auto simp: u32_range_def)
  then show ?thesis by simp
qed

lemma op_fits: "u32_range op \<Longrightarrow> \<not> op > 0x3F \<Longrightarrow> take_bit 6 op = op"
  by (rule fits) auto

lemma encode_fields_decode:
  assumes "fields_ok d" and "encode_fields d = Inr w"
  shows "agrees_with d w \<and> u32_range w"
proof -
  note range = get0_range [OF assms(1)]
  obtain op where op: "get0 d ''op'' = Some op" "\<not> op > 0x3F"
    using assms(2) by (cases "get0 d ''op''") (auto simp: encode_fields_def Let_def split: if_splits)
  let ?imm = "''imm'' \<in> fst ` set d"
  have no: "?imm \<longrightarrow> (\<forall>k \<in> {''rd'', ''sh'', ''fn''}. k \<notin> fst ` set d)"
    using assms(2) op by (auto simp: encode_fields_def Let_def split: if_splits)
  obtain w1 w2 where w1: "put_fields d I_FIELDS (push_bit 26 op) = Inr w1" and w2: "put_tail d w1 = Inr w2" and w: "w = w2 AND 0xFFFFFFFF"
    using assms(2) op no by (auto simp: encode_fields_def sbind_Inr split: if_splits)
  obtain rs rt where r: "get0 d ''rs'' = Some rs" "rs < 2 ^ 5" "get0 d ''rt'' = Some rt" "rt < 2 ^ 5"
    and e1: "w1 = push_bit 26 op OR push_bit 21 rs OR push_bit 16 rt"
    using w1 unfolding I_FIELDS_def put_fields_Inr by (auto simp: or.assoc)
  note f = op_fits [OF range [OF op(1)] op(2)] fits [OF range [OF r(1)] r(2)] fits [OF range [OF r(3)] r(4)]
  have "agrees_with d w"
  proof (cases ?imm)
    case True
    then obtain v where v: "get0 d ''imm'' = Some v" "\<not> (v > 0xFFFF \<and> \<not> (0xFFFF0000 \<le> v \<and> v \<le> 0xFFFFFFFF))"
      and e2: "w2 = w1 OR (v AND 0xFFFF)"
      using w2 by (cases "get0 d ''imm''") (auto simp: put_tail_def split: if_splits)
    have e: "w = (push_bit 26 op OR push_bit 21 rs OR push_bit 16 rt OR (v AND 0xFFFF)) AND 0xFFFFFFFF"
      by (simp add: w e1 e2 or.assoc)
    show ?thesis
      using True no op r imm_value [OF range [OF v(1)] v(2)] by (auto simp: agrees_with_def pack_immediate [OF f e] v(1))
  next
    case False
    then have "put_fields d R_FIELDS w1 = Inr w2" using w2 by (simp add: put_tail_def)
    then obtain rd sh fn where g: "get0 d ''rd'' = Some rd" "rd < 2 ^ 5" "get0 d ''sh'' = Some sh" "sh < 2 ^ 5"
        "get0 d ''fn'' = Some fn" "fn < 2 ^ 6" and e2: "w2 = w1 OR push_bit 11 rd OR push_bit 6 sh OR push_bit 0 fn"
      unfolding R_FIELDS_def put_fields_Inr by (auto simp: or.assoc)
    have e: "w = (push_bit 26 op OR push_bit 21 rs OR push_bit 16 rt OR push_bit 11 rd OR push_bit 6 sh OR push_bit 0 fn) AND 0xFFFFFFFF"
      by (simp add: w e1 e2 or.assoc)
    show ?thesis
      using False op r g by (simp add: agrees_with_def
        pack_register [OF f fits [OF range [OF g(1)] g(2)] fits [OF range [OF g(3)] g(4)] fits [OF range [OF g(5)] g(6)] e])
  qed
  then show ?thesis unfolding w by (simp only: u32_range_and simp_thms)
qed

text \<open>
  A word built from parsed fields carries exactly those fields: cutting the word at the positions of the
  instruction format gives back every value of the table, none truncated, in a 32-bit word.
\<close>
theorem built_word_carries_fields:
  assumes "parse_fields spec = Inr d" and "encode_fields d = Inr w"
  shows "agrees_with d w \<and> u32_range w"
  using encode_fields_decode assms parse_fields_ok by blast

lemma built_word_carries_fields_witness:
  "\<exists>d. parse_fields ''op=0x23, rs=10, rt=2, imm=0x4'' = Inr d \<and> encode_fields d = Inr 0x8D420004 \<and> agrees_with d 0x8D420004"
proof -
  define d :: fields where "d = [(''op'', Some 0x23), (''rs'', Some 10), (''rt'', Some 2), (''imm'', Some 4)]"
  have p: "parse_fields ''op=0x23, rs=10, rt=2, imm=0x4'' = Inr d" unfolding d_def by code_simp
  have e: "encode_fields d = Inr 0x8D420004" unfolding d_def by code_simp
  show ?thesis using p e built_word_carries_fields [OF p e] by blast
qed

subsection \<open>What an accepted table is\<close>

definition row_ok :: "irow \<Rightarrow> bool" where
  "row_ok r \<longleftrightarrow>
     list_all u32_range [i_in_a r, i_in_b r, i_mem0 r, i_mem1 r, i_seed r, i_word r] \<and> (\<forall>e. i_expect r = Some e \<longrightarrow> u32_range e)
     \<and> fields_ok (i_fields r) \<and> ''op'' \<in> fst ` set (i_fields r)
     \<and> i_read r \<in> {''gpr'', ''m0'', ''m1'', ''aux''} \<and> i_group r \<in> set (PLAN_GROUPS @ EXTRA_GROUPS)
     \<and> i_shape r \<in> fst ` set SHAPES
     \<and> (if i_group r = ''reserved'' then i_expect r = Some (i_seed r)
        else i_expect r \<noteq> None \<longrightarrow> untouched r \<noteq> None \<longrightarrow> i_expect r \<noteq> untouched r)"

lemma check_expect_Inr:
  "check_expect r = Inr r' \<longleftrightarrow> r' = r \<and>
    (if i_group r = ''reserved'' then i_expect r = Some (i_seed r)
     else i_expect r \<noteq> None \<longrightarrow> untouched r \<noteq> None \<longrightarrow> i_expect r \<noteq> untouched r)"
  by (auto simp: check_expect_def)

lemma row_of_ok:
  assumes "row_of seen i l = Inr r"
  shows "row_ok r \<and> i_name r \<notin> seen \<and> i_idx r = i"
proof -
  obtain grp nm shp flds wrd xa xb x0 x1 sd rd ex q wy where
    f: "split_on (CHR 0x09) l = [grp, nm, shp, flds, wrd, xa, xb, x0, x1, sd, rd, ex, q, wy]"
    using assms unfolding row_of_def by (auto split: list.splits)
  have guard: "nm \<notin> seen" "shp \<in> fst ` set SHAPES" "rd \<in> {''gpr'', ''m0'', ''m1'', ''aux''}"
    using assms unfolding row_of_def f by (auto split: if_splits)
  obtain k where k: "qemu_of q = Inr k" and g: "grp \<in> set (PLAN_GROUPS @ EXTRA_GROUPS)"
    using assms unfolding row_of_def f list.case by (cases "qemu_of q") (auto simp del: set_append split: if_splits prod.splits)
  obtain a b m0 m1 s w e d where n: "hx_num xa ''in_a'' = Inr a" "hx_num xb ''in_b'' = Inr b" "hx_num x0 ''mem0'' = Inr m0"
      "hx_num x1 ''mem1'' = Inr m1" "hx_num sd ''seed'' = Inr s" "hx_num wrd ''word'' = Inr w"
    and e: "hx ex ''expect'' = Inr e" and d: "parse_fields flds = Inr d"
    and c: "check_expect \<lparr>i_group = grp, i_name = nm, i_shape = shp, i_read = rd, i_qemu = q, i_in_a = a, i_in_b = b,
              i_mem0 = m0, i_mem1 = m1, i_seed = s, i_word = w, i_expect = e, i_idx = i, i_fields = d,
              i_qemu_kind = fst k, i_qemu_exc = snd k\<rparr> = Inr r"
    using assms guard g unfolding row_of_def f list.case k sbind_simps
    by (auto simp del: set_append simp: sbind_Inr case_prod_unfold split: if_splits)
  have r: "r = \<lparr>i_group = grp, i_name = nm, i_shape = shp, i_read = rd, i_qemu = q, i_in_a = a, i_in_b = b,
              i_mem0 = m0, i_mem1 = m1, i_seed = s, i_word = w, i_expect = e, i_idx = i, i_fields = d,
              i_qemu_kind = fst k, i_qemu_exc = snd k\<rparr>"
    using c unfolding check_expect_Inr by simp
  have t: "if i_group r = ''reserved'' then i_expect r = Some (i_seed r)
     else i_expect r \<noteq> None \<longrightarrow> untouched r \<noteq> None \<longrightarrow> i_expect r \<noteq> untouched r"
    using c unfolding check_expect_Inr r by simp
  have "list_all u32_range [a, b, m0, m1, s, w] \<and> (\<forall>x. e = Some x \<longrightarrow> u32_range x)"
    using n [THEN hx_num_range] hx_range e by auto
  then show ?thesis
    using parse_fields_ok [OF d] guard g t unfolding row_ok_def r by (simp del: set_append)
qed

lemma rows_of_ok:
  "rows_of seen i ls = Inr rs \<Longrightarrow>
    list_all row_ok rs \<and> distinct (map i_name rs) \<and> i_name ` set rs \<inter> seen = {} \<and> map i_idx rs = [i..<i + length rs]"
proof (induction ls arbitrary: seen i rs)
  case (Cons l ls)
  then obtain r rs' where r: "row_of seen i l = Inr r" and rs: "rows_of (insert (i_name r) seen) (Suc i) ls = Inr rs'"
    and e: "rs = r # rs'"
    by (auto simp: sbind_Inr)
  have "[i..<i + length rs] = i # [Suc i..<Suc i + length rs']" by (simp add: e upt_rec)
  with Cons.IH [OF rs] row_of_ok [OF r] show ?case by (auto simp: e simp del: upt_Suc)
qed simp

lemma load_rows_ok:
  assumes "load_rows txt = Inr rows"
  shows "list_all row_ok rows \<and> distinct (map i_name rows) \<and> map i_idx rows = [0..<length rows]"
proof -
  obtain ls where "rows_of {} 0 ls = Inr rows"
    using assms by (auto simp: load_rows_def split: list.splits if_splits)
  from rows_of_ok [OF this] show ?thesis by simp
qed

text \<open>
  C22. A table that is accepted has one row per name, numbered in order; every number is 32 bits; and a row is
  never ambiguous: the reserved row expects its own seed, and no other row expects what its word holds when nothing ran.
\<close>
theorem accepted_table:
  assumes "load_rows txt = Inr rows"
  shows "list_all row_ok rows \<and> distinct (map i_name rows) \<and> map i_idx rows = [0..<length rows]"
  using load_rows_ok [OF assms] .

definition tab_line :: "string list \<Rightarrow> string" where "tab_line fs = join [CHR 0x09] fs @ [CHR 0x0A]"

definition sample_table :: string where
  "sample_table = ''# rows'' @ [CHR 0x0A] @ tab_line COLUMNS
     @ tab_line [''baseline'', ''add'', ''alu'', ''op=0,rd=2,fn=0x20'', ''0x1020'', ''5'', ''7'', ''0'', ''0'', ''99'', ''gpr'', ''12'', ''run'', ''w'']
     @ tab_line [''reserved'', ''sp'', ''alu'', ''op=0,fn=0xE'', ''0xE'', ''5'', ''7'', ''0'', ''0'', ''99'', ''gpr'', ''99'', ''trap:10'', ''w'']"

definition sample_rows :: "irow list" where
  "sample_rows =
    [\<lparr>i_group = ''baseline'', i_name = ''add'', i_shape = ''alu'', i_read = ''gpr'', i_qemu = ''run'', i_in_a = 5, i_in_b = 7,
      i_mem0 = 0, i_mem1 = 0, i_seed = 99, i_word = 0x1020, i_expect = Some 12, i_idx = 0,
      i_fields = [(''op'', Some 0), (''rd'', Some 2), (''fn'', Some 0x20)], i_qemu_kind = ''run'', i_qemu_exc = None\<rparr>,
     \<lparr>i_group = ''reserved'', i_name = ''sp'', i_shape = ''alu'', i_read = ''gpr'', i_qemu = ''trap:10'', i_in_a = 5, i_in_b = 7,
      i_mem0 = 0, i_mem1 = 0, i_seed = 99, i_word = 0xE, i_expect = Some 99, i_idx = 1,
      i_fields = [(''op'', Some 0), (''fn'', Some 0xE)], i_qemu_kind = ''trap'', i_qemu_exc = Some 10\<rparr>]"

lemma sample_loads: "load_rows sample_table = Inr sample_rows"
  by code_simp

lemma accepted_table_witness:
  "load_rows sample_table = Inr sample_rows \<and> list_all row_ok sample_rows \<and> distinct (map i_name sample_rows)"
  using sample_loads accepted_table [OF sample_loads] by simp

subsection \<open>What the two comparisons vouch for\<close>

definition row_imm :: "irow \<Rightarrow> int" where
  "row_imm r = (case get0 (i_fields r) ''imm'' of None \<Rightarrow> 0 | Some v \<Rightarrow> if v > 0x7FFF then v - 0x10000 else v)"

definition small_field :: "irow \<Rightarrow> string \<Rightarrow> nat" where
  "small_field r k = (case get0 (i_fields r) k of None \<Rightarrow> 0 | Some v \<Rightarrow> nat v)"

definition row_words :: "irow \<Rightarrow> wargs" where
  "row_words r = \<lparr>w_a = to32 (i_in_a r), w_b = to32 (i_in_b r), w_m0 = to32 (i_mem0 r), w_m1 = to32 (i_mem1 r),
     w_seed = to32 (i_seed r), w_sh = small_field r ''sh'', w_rd = small_field r ''rd'', w_imm = row_imm r\<rparr>"

lemma uint_range: "u32_range x \<Longrightarrow> uint (to32 x) = x"
  by (simp add: u32_range_def unsigned_of_int take_bit_int_eq_self)

lemma sum_list_zero: "sum_list (bs :: nat list) = 0 \<longleftrightarrow> list_all (\<lambda>b. b = 0) bs"
  by (induction bs) auto

lemma no_findings:
  assumes "sbind (traverse f rows) (\<lambda>bs. Inr (if sum_list bs \<noteq> 0 then 1 else 0)) = Inr (0 :: nat)" and "r \<in> set rows"
  shows "f r = Inr (0 :: nat)"
proof -
  obtain bs where bs: "list_all2 (\<lambda>x y. f x = Inr y) rows bs" "sum_list bs = 0"
    using assms(1) by (auto simp: sbind_Inr traverse_Inr split: if_splits)
  obtain i where i: "i < length rows" "rows ! i = r" using assms(2) by (auto simp: in_set_conv_nth)
  from bs(1) i have "f r = Inr (bs ! i)" "i < length bs" by (auto simp: list_all2_conv_all_nth)
  moreover have "bs ! i = 0" using bs(2) calculation(2) by (auto simp: sum_list_zero list_all_length)
  ultimately show ?thesis by simp
qed

lemma encoded_row:
  assumes "row_ok r" and "encode_findings r = Inr 0"
  shows "agrees_with (i_fields r) (i_word r)"
proof -
  have "encode_fields (i_fields r) = Inr (i_word r)"
    using assms(2) by (auto simp: encode_findings_def sbind_Inr Let_def split: if_splits)
  with encode_fields_decode assms(1) show ?thesis by (auto simp: row_ok_def)
qed

lemma modelled_row:
  assumes "model_findings r = Inr 0" "i_expect r = Some e" "i_group r \<noteq> ''reserved''" "map_of MODELS (i_name r) = Some (fn, p)"
  shows "\<exists>k v. p = i_read r \<and> row_args r = Inr k \<and> fn k = Inr v \<and> u32 v = e"
proof (cases "row_args r")
  case (Inr k)
  then show ?thesis using assms by (cases "fn k") (auto simp: model_findings_def model_row_def split: if_splits)
qed (use assms in \<open>auto simp: model_findings_def model_row_def split: if_splits\<close>)

lemma row_args_words:
  assumes "row_ok r" and "agrees_with (i_fields r) w" and "row_args r = Inr k"
  shows "k = args_of (row_words r)"
proof -
  have ok: "fields_ok (i_fields r)" using assms(1) by (simp add: row_ok_def)
  have missing: "get0 d f = Some 0" if "f \<notin> fst ` set d" for d f
    using that map_of_eq_None_iff [of d f] by (simp add: get0_def)
  obtain sh rd where g: "get0 (i_fields r) ''sh'' = Some sh" "get0 (i_fields r) ''rd'' = Some rd"
    using assms(2) missing by (auto simp: agrees_with_def split: if_splits)
  have "0 \<le> sh" "0 \<le> rd" using get0_range [OF ok g(1)] get0_range [OF ok g(2)] by (simp_all add: u32_range_def)
  moreover obtain v where "get0 (i_fields r) ''imm'' = Some v" using assms(3) by (cases "get0 (i_fields r) ''imm''") (auto simp: row_args_def)
  moreover have "list_all u32_range [i_in_a r, i_in_b r, i_mem0 r, i_mem1 r, i_seed r, i_word r]"
    using assms(1) by (simp add: row_ok_def)
  ultimately show ?thesis
    using assms(3) g by (auto simp: row_args_def args_of_def row_words_def small_field_def row_imm_def uint_range)
qed

text \<open>
  C23. When the table loads and both comparisons find nothing, then for a row that has a model and expects a number the
  hand-written word is the row's fields, the recorded register is the one the instruction writes, and the
  expectation is what the machine leaves in that register from the row's operands, unless the row's offset is one
  where the model is not the machine's instruction (\<open>departs\<close>: a byte loaded below the two words, \<open>sw\<close> away from
  offset 0, \<open>swl\<close> or \<open>swr\<close> into the second word).  Such a row passes both comparisons and is not vouched for.
\<close>
theorem vouched_row:
  assumes "load_rows txt = Inr rows" "cmd_encode rows = Inr 0" "cmd_model rows = Inr 0" "r \<in> set rows"
    and "i_expect r = Some e" "i_group r \<noteq> ''reserved''" "map_of MODELS (i_name r) = Some (fn, p)"
  shows "agrees_with (i_fields r) (i_word r) \<and> p = i_read r \<and>
    (departs (i_name r) (row_imm r) \<or>
     (\<exists>ref v. map_of MACHINE (i_name r) = Some ref \<and> ref (row_words r) = Some v \<and> e = uint v))"
proof -
  have ok: "row_ok r" using load_rows_ok [OF assms(1)] assms(4) by (simp add: list_all_iff)
  have enc: "agrees_with (i_fields r) (i_word r)"
    by (rule encoded_row [OF ok no_findings [OF assms(2) [unfolded cmd_encode_def] assms(4)]])
  have m: "model_findings r = Inr 0" by (rule no_findings [OF assms(3) [unfolded cmd_model_def] assms(4)])
  obtain v k where v: "p = i_read r" "row_args r = Inr k" "fn k = Inr v" "u32 v = e"
    using modelled_row [OF m assms(5,6,7)] by blast
  have k: "k = args_of (row_words r)" by (rule row_args_words [OF ok enc v(2)])
  have "\<exists>ref x. map_of MACHINE (i_name r) = Some ref \<and> ref (row_words r) = Some x \<and> e = uint x"
    if nd: "\<not> departs (i_name r) (row_imm r)"
  proof -
    have "w_imm (row_words r) = row_imm r" by (simp add: row_words_def)
    with nd have "\<not> departs (i_name r) (w_imm (row_words r))" by simp
    then obtain ref where ref: "map_of MACHINE (i_name r) = Some ref" "agrees fn ref (row_words r)"
      using model_agrees [OF assms(7), of "row_words r"] by blast
    then obtain x where "ref (row_words r) = Some x" "fn k = Inr (uint x)"
      using v(3) k by (auto simp: agrees_def split: option.splits)
    then show ?thesis using ref(1) v by auto
  qed
  then show ?thesis using v(1) enc by blast
qed

lemma vouched_row_witness:
  "load_rows sample_table = Inr sample_rows \<and> cmd_encode sample_rows = Inr 0 \<and> cmd_model sample_rows = Inr 0 \<and>
   (\<exists>ref. map_of MACHINE ''add'' = Some ref \<and> ref (row_words (sample_rows ! 0)) = Some 12)"
proof -
  have e: "cmd_encode sample_rows = Inr 0" by code_simp
  have m: "cmd_model sample_rows = Inr 0" by code_simp
  let ?r = "sample_rows ! 0"
  have r: "?r \<in> set sample_rows" "i_expect ?r = Some 12" "i_group ?r \<noteq> ''reserved''" "i_name ?r = ''add''"
    by (simp_all add: sample_rows_def)
  have f: "map_of MODELS (i_name ?r) = Some (\<lambda>k. m_add (g_a k) (g_b k), ''gpr'')" by (simp add: r(4) MODELS_def)
  have i: "\<not> departs (i_name ?r) (row_imm ?r)" by (simp add: r(4) departs_def)
  have "\<exists>ref v. map_of MACHINE ''add'' = Some ref \<and> ref (row_words ?r) = Some v \<and> 12 = uint v"
    using vouched_row [OF sample_loads e m r(1) r(2) r(3) f] i by (auto simp: r(4))
  moreover have "12 = uint v \<Longrightarrow> v = 12" for v :: "32 word" by (metis uint_numeral word_uint_eq_iff word_of_int_uint of_int_numeral)
  ultimately show ?thesis using sample_loads e m by blast
qed

end
