(* ===== verification/IsaVerdict.thy ===== *)
theory IsaVerdict
  imports "HOL-Library.AList" IsaRow
begin

text \<open>
  \<open>tools/isapay.py\<close>, the verdict: the capture of a run read back into one record per row of the table, the
  three-way verdict of a row, the controls on the verdict itself, and the exit status of \<open>verdict\<close>.
\<close>

subsection \<open>Reading the capture\<close>

definition ROW_WORDS :: nat where "ROW_WORDS = 8"
definition ROW_TAG_BASE :: int where "ROW_TAG_BASE = 0x52340000"

datatype arm = Device | Qemu | User

datatype capture_error = Index_beyond nat nat | Two_values nat | No_capture_rows arm

definition hex8 :: "string \<Rightarrow> bool" where "hex8 s \<longleftrightarrow> length s = 8 \<and> list_all is_hex s"

definition tag_of :: "arm \<Rightarrow> string" where "tag_of a = (if a = User then ''PU'' else ''P4'')"

text \<open>\<open>ROW_RE\<close> and \<open>UROW_RE\<close>: the index, and the eight words of the row.\<close>

definition row_match :: "string \<Rightarrow> string \<Rightarrow> (nat \<times> int list) option" where
  "row_match tag line =
     (case py_words line of
        t # i # nm # vs \<Rightarrow>
          if t = tag \<and> hex8 i \<and> length vs = 8 \<and> list_all hex8 vs then Some (hex_num i, map (\<lambda>v. int (hex_num v)) vs) else None
      | _ \<Rightarrow> None)"

definition ARMS :: "arm \<Rightarrow> string \<Rightarrow> (nat \<times> int list) option" where
  "ARMS a = row_match (tag_of a)"

definition put_row :: "int option list \<Rightarrow> nat \<Rightarrow> int list \<Rightarrow> int option list" where
  "put_row words idx vals = take (idx * ROW_WORDS) words @ map Some vals @ drop ((idx + 1) * ROW_WORDS) words"

fun read_loop :: "arm \<Rightarrow> nat \<Rightarrow> string list \<Rightarrow> int option list \<Rightarrow> (nat \<times> int list) list
    \<Rightarrow> capture_error + int option list \<times> (nat \<times> int list) list" where
  "read_loop a n [] words seen = Inr (words, seen)"
| "read_loop a n (l # ls) words seen =
     (case ARMS a (strip l) of
        None \<Rightarrow> read_loop a n ls words seen
      | Some (idx, vals) \<Rightarrow>
          if idx \<ge> n then Inl (Index_beyond idx n)
          else if \<exists>v. map_of seen idx = Some v \<and> v \<noteq> vals then Inl (Two_values idx)
          else read_loop a n ls (put_row words idx vals) (AList.update idx vals seen))"

text \<open>\<open>txt.replace("\r", "\n").split("\n")\<close>, on the text that \<open>open\<close> has already normalised.\<close>

definition capture_lines :: "string \<Rightarrow> string list" where
  "capture_lines txt = split_on (CHR 0x0A) (map (\<lambda>c. if c = CHR 0x0D then CHR 0x0A else c) (universal_newlines txt))"

definition read_rows :: "arm \<Rightarrow> nat \<Rightarrow> string \<Rightarrow> capture_error + int option list \<times> nat list" where
  "read_rows a n txt =
     sbind (read_loop a n (capture_lines txt) (replicate (n * ROW_WORDS) None) []) (\<lambda>(words, seen).
       if seen = [] then Inl (No_capture_rows a) else Inr (words, sort (map fst seen)))"

subsection \<open>The verdict of a row\<close>

datatype verdict = V_TRAP | V_RIGHT | V_WRONG | V_NORUN | V_RAN

fun verdict_text :: "verdict \<Rightarrow> string" where
  "verdict_text V_TRAP = ''TRAPS''"
| "verdict_text V_RIGHT = ''RIGHT''"
| "verdict_text V_WRONG = ''WRONG''"
| "verdict_text V_NORUN = ''NOT-RUN''"
| "verdict_text V_RAN = ''RAN''"

record rec8 =
  c_tag :: int
  c_n :: int
  c_cause :: int
  c_epc :: int
  c_gpr :: int
  c_m0 :: int
  c_m1 :: int
  c_aux :: int

definition recorded :: "irow \<Rightarrow> rec8 \<Rightarrow> int" where
  "recorded r c = (if i_read r = ''gpr'' then c_gpr c else if i_read r = ''m0'' then c_m0 c else if i_read r = ''m1'' then c_m1 c else c_aux c)"

unbundle bit_operations_syntax

definition verdict_row :: "irow \<Rightarrow> rec8 \<Rightarrow> verdict \<times> int option" where
  "verdict_row r c =
     (if c_tag c \<noteq> ROW_TAG_BASE OR int (i_idx r) then (V_NORUN, None)
      else let val = recorded r c in
        if c_n c \<noteq> 0 then (V_TRAP, Some val)
        else case i_expect r of None \<Rightarrow> (V_RAN, Some val) | Some e \<Rightarrow> (if val = e then V_RIGHT else V_WRONG, Some val))"

definition exccode :: "int \<Rightarrow> int" where "exccode cause = drop_bit 2 cause AND 0x1F"

type_synonym outcome = "irow \<times> verdict \<times> int option \<times> rec8 option"

text \<open>The eight words of a row, if all of them are there.\<close>

definition rec_of :: "int option list \<Rightarrow> rec8 option" where
  "rec_of ws =
     (case ws of
        [Some t, Some n, Some c, Some e, Some g, Some m0, Some m1, Some a] \<Rightarrow>
          Some \<lparr>c_tag = t, c_n = n, c_cause = c, c_epc = e, c_gpr = g, c_m0 = m0, c_m1 = m1, c_aux = a\<rparr>
      | _ \<Rightarrow> None)"

definition outcome_of :: "int option list \<Rightarrow> irow \<Rightarrow> outcome" where
  "outcome_of words r =
     (case rec_of (slice words (i_idx r * ROW_WORDS) (i_idx r * ROW_WORDS + ROW_WORDS)) of
        None \<Rightarrow> (r, V_NORUN, None, None)
      | Some c \<Rightarrow> (r, fst (verdict_row r c), snd (verdict_row r c), Some c))"

subsection \<open>The controls\<close>

datatype control =
    No_baseline | Baseline_not_right string verdict | No_reserved | Reserved_right string
  | No_header | No_install | Install_failed nat | C1a_not_seen | C1b_not_seen | Scratch_bad nat | Not_ended | Escape_hatch "string list"
  | C2_not_run | C2_no_symbol string | C2_wrong_pc string int

definition check_controls :: "outcome list \<Rightarrow> control list" where
  "check_controls out =
     (let base = filter (\<lambda>o1. i_group (fst o1) = ''baseline'') out; res = filter (\<lambda>o1. i_group (fst o1) = ''reserved'') out in
      (if base = [] then [No_baseline] else [])
      @ map (\<lambda>o1. Baseline_not_right (i_name (fst o1)) (fst (snd o1))) (filter (\<lambda>o1. fst (snd o1) \<noteq> V_RIGHT) base)
      @ (if res = [] then [No_reserved] else [])
      @ map (\<lambda>o1. Reserved_right (i_name (fst o1))) (filter (\<lambda>o1. fst (snd o1) = V_RIGHT) res))"

text \<open>The header of a user-mode capture: the last value of each field, and whether the run ended.\<close>

definition UEND :: string where "UEND = ''rlxuprobe: end''"

definition key_char :: "char \<Rightarrow> bool" where
  "key_char c \<longleftrightarrow> (let n = (of_char c :: nat) in 97 \<le> n \<and> n \<le> 122 \<or> n = 95) \<or> is_digit c"

definition UHDR_RE :: "string \<Rightarrow> (string \<times> nat) option" where
  "UHDR_RE line =
     (case py_words line of
        [t, kv] \<Rightarrow>
          let k = takeWhile (\<lambda>c. c \<noteq> CHR ''='') kv; v = tl (dropWhile (\<lambda>c. c \<noteq> CHR ''='') kv) in
          if t = ''rlxuprobe:'' \<and> CHR ''='' \<in> set kv \<and> k \<noteq> [] \<and> list_all key_char k \<and> hex8 v then Some (k, hex_num v) else None
      | _ \<Rightarrow> None)"

definition header_line :: "(string \<times> nat) list \<times> bool \<Rightarrow> string \<Rightarrow> (string \<times> nat) list \<times> bool" where
  "header_line st l =
     (let line = strip l in
      if line = UEND then (fst st, True)
      else case UHDR_RE line of None \<Rightarrow> st | Some (k, v) \<Rightarrow> (AList.update k v (fst st), snd st))"

definition read_user_header :: "string \<Rightarrow> (string \<times> nat) list \<times> bool" where
  "read_user_header txt = foldl header_line ([], False) (capture_lines txt)"

definition trapped :: "outcome \<Rightarrow> rec8 option" where
  "trapped o1 = (case snd (snd (snd o1)) of None \<Rightarrow> None | Some c \<Rightarrow> if c_n c \<noteq> 0 then Some c else None)"

definition c2_finding :: "(string \<Rightarrow> int option) \<Rightarrow> outcome \<Rightarrow> control list" where
  "c2_finding syms o1 =
     (case trapped o1 of
        None \<Rightarrow> []
      | Some c \<Rightarrow>
          (case syms (''rlx_p4_'' @ i_name (fst o1) @ ''_w'') of
             None \<Rightarrow> [C2_no_symbol (i_name (fst o1))]
           | Some a \<Rightarrow> if c_epc c \<noteq> a then [C2_wrong_pc (i_name (fst o1)) (c_epc c)] else []))"

definition escaped :: "nat \<Rightarrow> outcome list \<Rightarrow> string list" where
  "escaped max_sig out =
     map (\<lambda>o1. i_name (fst o1))
       (filter (\<lambda>o1. case snd (snd (snd o1)) of None \<Rightarrow> False | Some c \<Rightarrow> c_n c > int max_sig) out)"

definition user_controls :: "(string \<times> nat) list \<Rightarrow> bool \<Rightarrow> outcome list \<Rightarrow> (string \<Rightarrow> int option) option \<Rightarrow> control list" where
  "user_controls hdr ended out sym_addr =
     (if hdr = [] then [No_header]
      else (case map_of hdr ''install_rc'' of None \<Rightarrow> [No_install] | Some v \<Rightarrow> if v \<noteq> 0 then [Install_failed v] else [])
        @ (if map_of hdr ''c1a_raise'' \<noteq> Some 1 then [C1a_not_seen] else [])
        @ (case map_of hdr ''c1b_special0e_n'' of None \<Rightarrow> [C1b_not_seen]
           | Some v \<Rightarrow> if v = 0 \<or> v = 0xFFFFFFFF then [C1b_not_seen] else [])
        @ (case map_of hdr ''scratch_bad'' of None \<Rightarrow> [] | Some v \<Rightarrow> if v \<noteq> 0 then [Scratch_bad v] else [])
        @ (if \<not> ended then [Not_ended] else [])
        @ (case map_of hdr ''max_sig'' of None \<Rightarrow> []
           | Some m \<Rightarrow> if escaped m out = [] then [] else [Escape_hatch (escaped m out)])
        @ (case sym_addr of None \<Rightarrow> [C2_not_run] | Some syms \<Rightarrow> concat (map (c2_finding syms) out)))"

subsection \<open>Predictions and the exit status\<close>

definition QEMU_REFUTED :: "(string \<times> string) list" where
  "QEMU_REFUTED = [(''ltw'', ''RAN''), (''mfc2'', ''TRAPS ExcCode 10''), (''rdhwr'', ''RAN'')]"

definition mispredicted :: "outcome \<Rightarrow> bool" where
  "mispredicted o1 =
     (let r = fst o1; got = (if fst (snd o1) = V_TRAP then ''trap'' else ''run'') in
      got \<noteq> i_qemu_kind r \<or> i_qemu_exc r \<noteq> None \<and> map_option (\<lambda>c. exccode (c_cause c)) (trapped o1) \<noteq> i_qemu_exc r)"

definition got_text :: "outcome \<Rightarrow> string" where
  "got_text o1 =
     (case trapped o1 of
        None \<Rightarrow> verdict_text (fst (snd o1))
      | Some c \<Rightarrow> verdict_text (fst (snd o1)) @ '' ExcCode '' @ fmtd (exccode (c_cause c)))"

text \<open>A misprediction that is not on the record, and an entry of the record that no longer mispredicts.\<close>

definition novel :: "outcome list \<Rightarrow> string list" where
  "novel out =
     (let mis = filter mispredicted out in
      map (\<lambda>o1. i_name (fst o1)) (filter (\<lambda>o1. map_of QEMU_REFUTED (i_name (fst o1)) \<noteq> Some (got_text o1)) mis)
      @ filter (\<lambda>n. n \<notin> (\<lambda>o1. i_name (fst o1)) ` set mis) (map fst QEMU_REFUTED))"

definition cmd_verdict :: "irow list \<Rightarrow> string \<Rightarrow> arm \<Rightarrow> (string \<Rightarrow> int option) option \<Rightarrow> capture_error + nat" where
  "cmd_verdict rows txt a sym_addr =
     sbind (read_rows a (length rows) txt) (\<lambda>(words, present).
       let out = map (outcome_of words) rows; hdr = read_user_header txt;
           findings = check_controls out @ (if a = User then user_controls (fst hdr) (snd hdr) out sym_addr else []);
           new = (if a = Qemu then novel out else [])
       in Inr (if findings \<noteq> [] \<or> new \<noteq> [] then 1 else 0))"

subsection \<open>The block that was read\<close>

definition rows_in :: "arm \<Rightarrow> string \<Rightarrow> (nat \<times> int list) set" where
  "rows_in a txt = {iv. \<exists>l \<in> set (capture_lines txt). ARMS a (strip l) = Some iv}"

definition row_slot :: "int option list \<Rightarrow> nat \<Rightarrow> int option list" where
  "row_slot words i = slice words (i * ROW_WORDS) (i * ROW_WORDS + ROW_WORDS)"

definition slot_of :: "(nat \<times> int list) list \<Rightarrow> nat \<Rightarrow> int option list" where
  "slot_of seen i = (case map_of seen i of None \<Rightarrow> replicate ROW_WORDS None | Some v \<Rightarrow> map Some v)"

lemma ARMS_width: "ARMS a l = Some (i, v) \<Longrightarrow> length v = ROW_WORDS"
  by (auto simp: ARMS_def row_match_def ROW_WORDS_def split: list.splits if_splits)

lemma put_row_slot:
  assumes "length v = ROW_WORDS" "j < n" "i < n" "length words = n * ROW_WORDS"
  shows "row_slot (put_row words i v) j = (if j = i then map Some v else row_slot words j)"
    and "length (put_row words i v) = n * ROW_WORDS"
proof -
  have i: "i * 8 + 8 \<le> n * 8" "j * 8 + 8 \<le> n * 8" using assms(2,3) by auto
  have v: "length v = 8" "length words = n * 8" using assms(1,4) by (simp_all add: ROW_WORDS_def)
  consider "j = i" | "j < i" | "i < j" by linarith
  then show "row_slot (put_row words i v) j = (if j = i then map Some v else row_slot words j)"
  proof cases
    case 2
    then have "8 \<le> i * 8 - j * 8" by simp
    then show ?thesis using 2 i v by (simp add: row_slot_def put_row_def slice_def ROW_WORDS_def min_def drop_take)
  next
    case 3
    then have "i * 8 + 8 \<le> j * 8" by simp
    then show ?thesis using 3 i v by (simp add: row_slot_def put_row_def slice_def ROW_WORDS_def min_def)
  qed (use i v in \<open>simp add: row_slot_def put_row_def slice_def ROW_WORDS_def\<close>)
  show "length (put_row words i v) = n * ROW_WORDS"
    using i v by (simp add: put_row_def ROW_WORDS_def)
qed

definition block_ok :: "nat \<Rightarrow> int option list \<Rightarrow> (nat \<times> int list) list \<Rightarrow> bool" where
  "block_ok n words seen \<longleftrightarrow> length words = n * ROW_WORDS \<and> (\<forall>i \<in> fst ` set seen. i < n) \<and> (\<forall>i < n. row_slot words i = slot_of seen i)
     \<and> distinct (map fst seen)"

lemma block_ok_put:
  assumes "block_ok n words seen" "i < n" "length v = ROW_WORDS"
  shows "block_ok n (put_row words i v) (AList.update i v seen)"
  using assms put_row_slot [OF assms(3) _ assms(2)]
  by (auto simp: block_ok_def slot_of_def update_conv' distinct_update dom_update)

lemma read_loop_block:
  assumes "read_loop a n ls words seen = Inr (words', seen')" and "block_ok n words seen"
  shows "block_ok n words' seen' \<and>
    (\<forall>i v. map_of seen' i = Some v \<longleftrightarrow> map_of seen i = Some v \<or> (\<exists>l \<in> set ls. ARMS a (strip l) = Some (i, v)))"
  using assms
proof (induction ls arbitrary: words seen)
  case (Cons l ls)
  show ?case
  proof (cases "ARMS a (strip l)")
    case None
    then show ?thesis using Cons by simp
  next
    case (Some iv)
    obtain i v where iv: "iv = (i, v)" by force
    have g: "i < n" "\<And>u. map_of seen i = Some u \<Longrightarrow> u = v"
      and r: "read_loop a n ls (put_row words i v) (AList.update i v seen) = Inr (words', seen')"
      using Cons.prems(1) Some iv by (auto split: if_splits)
    have b: "block_ok n (put_row words i v) (AList.update i v seen)"
      by (rule block_ok_put [OF Cons.prems(2) g(1) ARMS_width [of a "strip l"]]) (simp add: Some iv)
    have u: "map_of (AList.update i v seen) k = Some x \<longleftrightarrow> map_of seen k = Some x \<or> k = i \<and> x = v" for k x
      using g(2) by (auto simp: update_conv')
    show ?thesis using Cons.IH [OF r b] by (auto simp: u Some iv)
  qed
qed simp

lemma block_empty: "block_ok n (replicate (n * ROW_WORDS) None) []"
  by (auto simp: block_ok_def row_slot_def slot_of_def slice_def ROW_WORDS_def min_def)

lemma read_rows_block:
  assumes "read_rows a n txt = Inr (words, present)"
  obtains seen where "block_ok n words seen" "present = sort (map fst seen)" "\<And>i v. map_of seen i = Some v \<longleftrightarrow> (i, v) \<in> rows_in a txt"
    "seen \<noteq> []"
proof -
  obtain seen where s: "read_loop a n (capture_lines txt) (replicate (n * ROW_WORDS) None) [] = Inr (words, seen)"
    "seen \<noteq> []" "present = sort (map fst seen)"
    using assms by (auto simp: read_rows_def sbind_Inr split: if_splits)
  show ?thesis
    using read_loop_block [OF s(1) block_empty] s(2,3) by (intro that [of seen]) (auto simp: rows_in_def)
qed

text \<open>
  A capture that is read has no row outside the table and no row with two values, and the block holds, at each
  index of the table, the eight words of every line of that index, or nothing where the capture has no such line.
\<close>
theorem capture_block:
  assumes "read_rows a n txt = Inr (words, present)"
  shows "sorted present \<and> present \<noteq> [] \<and> (\<forall>i v. (i, v) \<in> rows_in a txt \<longrightarrow> i < n \<and> i \<in> set present) \<and>
    (\<forall>i < n. if i \<in> set present then \<forall>v. (i, v) \<in> rows_in a txt \<longleftrightarrow> row_slot words i = map Some v
      else row_slot words i = replicate ROW_WORDS None)"
proof -
  obtain seen where s: "block_ok n words seen" "present = sort (map fst seen)" "\<And>i v. map_of seen i = Some v \<longleftrightarrow> (i, v) \<in> rows_in a txt"
    "seen \<noteq> []"
    using read_rows_block [OF assms] by blast
  have p: "i \<in> set present \<longleftrightarrow> (\<exists>v. map_of seen i = Some v)" for i
    using map_of_eq_None_iff [of seen i] by (cases "map_of seen i") (simp_all add: s(2))
  have r: "i < n" if "map_of seen i = Some v" for i v
    using s(1) map_of_SomeD [OF that] by (force simp: block_ok_def)
  have w: "row_slot words i = slot_of seen i" if "i < n" for i using s(1) that by (simp add: block_ok_def)
  have "inj Some" by simp
  then have e: "map Some u = map Some v \<longleftrightarrow> u = v" for u v :: "int list" by (simp add: inj_map_eq_map)
  have i: "if i \<in> set present then \<forall>v. (i, v) \<in> rows_in a txt \<longleftrightarrow> row_slot words i = map Some v
      else row_slot words i = replicate ROW_WORDS None" if "i < n" for i
  proof (cases "map_of seen i")
    case (Some v)
    then have "(i, u) \<in> rows_in a txt \<longleftrightarrow> u = v" for u by (auto simp flip: s(3))
    then show ?thesis using Some w [OF that] by (auto simp: slot_of_def p e)
  qed (use w [OF that] in \<open>simp add: slot_of_def p\<close>)
  have "set present \<noteq> {}" using s(2,4) by simp
  then have ne: "present \<noteq> []" by auto
  have "sorted present" using s(2) by simp
  moreover have "\<forall>i v. (i, v) \<in> rows_in a txt \<longrightarrow> i < n \<and> i \<in> set present" using r p s(3) by blast
  moreover have "\<forall>i < n. if i \<in> set present then \<forall>v. (i, v) \<in> rows_in a txt \<longleftrightarrow> row_slot words i = map Some v
      else row_slot words i = replicate ROW_WORDS None"
    using i by blast
  ultimately show ?thesis using ne by (intro conjI)
qed

subsection \<open>What a clean verdict says\<close>

lemma verdict_right:
  "fst (verdict_row r c) = V_RIGHT \<longleftrightarrow>
    c_tag c = ROW_TAG_BASE OR int (i_idx r) \<and> c_n c = 0 \<and> i_expect r = Some (recorded r c)"
  by (auto simp: verdict_row_def Let_def split: option.splits)

lemma no_controls:
  assumes "check_controls out = []"
  shows "\<exists>o1 \<in> set out. i_group (fst o1) = ''baseline''" "\<exists>o1 \<in> set out. i_group (fst o1) = ''reserved''"
    and "\<And>o1. o1 \<in> set out \<Longrightarrow> i_group (fst o1) = ''baseline'' \<Longrightarrow> fst (snd o1) = V_RIGHT"
    and "\<And>o1. o1 \<in> set out \<Longrightarrow> i_group (fst o1) = ''reserved'' \<Longrightarrow> fst (snd o1) \<noteq> V_RIGHT"
  using assms unfolding check_controls_def Let_def
  by (auto simp: filter_empty_conv split: if_splits)

definition rec_words :: "int list \<Rightarrow> rec8" where
  "rec_words v = \<lparr>c_tag = v ! 0, c_n = v ! 1, c_cause = v ! 2, c_epc = v ! 3, c_gpr = v ! 4, c_m0 = v ! 5, c_m1 = v ! 6, c_aux = v ! 7\<rparr>"

lemma rec_of_words:
  assumes "length v = ROW_WORDS"
  shows "rec_of (map Some v) = Some (rec_words v)"
proof -
  obtain a b c d e f g h where "v = [a, b, c, d, e, f, g, h]"
    using assms by (auto simp: ROW_WORDS_def numeral_eq_Suc length_Suc_conv)
  then show ?thesis by (simp add: rec_of_def rec_words_def)
qed

lemma rec_of_none: "rec_of (replicate ROW_WORDS None) = None"
  by (simp add: rec_of_def ROW_WORDS_def numeral_eq_Suc)

lemma outcome_row:
  assumes "read_rows a n txt = Inr (words, present)" and "i_idx r < n"
  shows "(\<exists>v. (i_idx r, v) \<in> rows_in a txt \<and> outcome_of words r =
      (r, fst (verdict_row r (rec_words v)), snd (verdict_row r (rec_words v)), Some (rec_words v)))
    \<or> (\<forall>v. (i_idx r, v) \<notin> rows_in a txt) \<and> outcome_of words r = (r, V_NORUN, None, None)"
proof -
  obtain seen where s: "block_ok n words seen" "\<And>i v. map_of seen i = Some v \<longleftrightarrow> (i, v) \<in> rows_in a txt"
    using read_rows_block [OF assms(1)] by blast
  have w: "row_slot words (i_idx r) = slot_of seen (i_idx r)" using s(1) assms(2) by (simp add: block_ok_def)
  show ?thesis
  proof (cases "map_of seen (i_idx r)")
    case None
    then have "slot_of seen (i_idx r) = replicate ROW_WORDS None" by (simp add: slot_of_def)
    then show ?thesis using None w s(2) [of "i_idx r"] rec_of_none by (simp add: outcome_of_def row_slot_def)
  next
    case (Some v)
    then have v: "(i_idx r, v) \<in> rows_in a txt" using s(2) by blast
    then have "length v = ROW_WORDS" using ARMS_width by (auto simp: rows_in_def)
    then have "rec_of (slot_of seen (i_idx r)) = Some (rec_words v)" using Some by (simp add: slot_of_def rec_of_words)
    then show ?thesis using w v by (auto simp: outcome_of_def row_slot_def)
  qed
qed

lemma fst_outcome [simp]: "fst (outcome_of words r) = r"
  by (simp add: outcome_of_def split: option.split)

lemma cmd_verdict_zero:
  assumes "cmd_verdict rows txt a syms = Inr 0"
  obtains words present where "read_rows a (length rows) txt = Inr (words, present)"
    "check_controls (map (outcome_of words) rows) = []"
    "a = User \<longrightarrow> user_controls (fst (read_user_header txt)) (snd (read_user_header txt)) (map (outcome_of words) rows) syms = []"
    "a = Qemu \<longrightarrow> novel (map (outcome_of words) rows) = []"
  using assms by (auto simp: cmd_verdict_def Let_def sbind_Inr split: if_splits)

definition answered :: "irow \<Rightarrow> int list \<Rightarrow> bool" where
  "answered r v \<longleftrightarrow> v ! 0 = ROW_TAG_BASE OR int (i_idx r) \<and> v ! 1 = 0 \<and> i_expect r = Some (recorded r (rec_words v))"

lemma answered_right: "answered r v \<longleftrightarrow> fst (verdict_row r (rec_words v)) = V_RIGHT"
  by (simp add: answered_def verdict_right) (simp add: rec_words_def)

text \<open>
  C24. Status 0 on a loaded table: there are baseline rows and a reserved row, every baseline row has a line in the capture
  with its own tag, no trap and the expected word, and no line of a reserved row has that.
\<close>
theorem verdict_zero_means:
  assumes "load_rows table = Inr rows" "cmd_verdict rows txt a syms = Inr 0"
  shows "(\<exists>r \<in> set rows. i_group r = ''baseline'') \<and> (\<exists>r \<in> set rows. i_group r = ''reserved'')
    \<and> (\<forall>r \<in> set rows. i_group r = ''baseline'' \<longrightarrow> (\<exists>v. (i_idx r, v) \<in> rows_in a txt \<and> answered r v))
    \<and> (\<forall>r \<in> set rows. \<forall>v. i_group r = ''reserved'' \<longrightarrow> (i_idx r, v) \<in> rows_in a txt \<longrightarrow> \<not> answered r v)"
proof -
  obtain words present where w: "read_rows a (length rows) txt = Inr (words, present)"
    and c: "check_controls (map (outcome_of words) rows) = []"
    using cmd_verdict_zero [OF assms(2)] by blast
  have idx: "i_idx r < length rows" if "r \<in> set rows" for r
  proof -
    have "i_idx r \<in> set (map i_idx rows)" using that by simp
    then show ?thesis using load_rows_ok [OF assms(1)] by (metis atLeastLessThan_iff set_upt)
  qed
  have one: "u = v" if "(i, u) \<in> rows_in a txt" "(i, v) \<in> rows_in a txt" for i u v
  proof -
    obtain seen where "\<And>i v. map_of seen i = Some v \<longleftrightarrow> (i, v) \<in> rows_in a txt" using read_rows_block [OF w] by blast
    with that have "map_of seen i = Some u" "map_of seen i = Some v" by simp_all
    then show ?thesis by simp
  qed
  have b: "\<exists>v. (i_idx r, v) \<in> rows_in a txt \<and> answered r v" if "r \<in> set rows" "i_group r = ''baseline''" for r
    using outcome_row [OF w idx [OF that(1)]] no_controls(3) [OF c, of "outcome_of words r"] that
    by (auto simp: answered_right)
  have n: "\<not> answered r v" if r: "r \<in> set rows" "i_group r = ''reserved''" "(i_idx r, v) \<in> rows_in a txt" for r v
  proof -
    obtain u where u: "(i_idx r, u) \<in> rows_in a txt" "fst (snd (outcome_of words r)) = fst (verdict_row r (rec_words u))"
      using outcome_row [OF w idx [OF r(1)]] r(3) by auto
    moreover have "u = v" by (rule one [OF u(1) r(3)])
    ultimately show ?thesis using no_controls(4) [OF c, of "outcome_of words r"] r by (simp add: answered_right)
  qed
  show ?thesis using no_controls(1,2) [OF c] b n by auto
qed

lemma c2_findings:
  assumes "concat (map (c2_finding syms) out) = []" "o1 \<in> set out" "trapped o1 = Some c"
  shows "syms (''rlx_p4_'' @ i_name (fst o1) @ ''_w'') = Some (c_epc c)"
proof -
  have "c2_finding syms o1 = []" using assms(1,2) by simp
  then show ?thesis using assms(3) unfolding c2_finding_def by (cases "syms (''rlx_p4_'' @ i_name (fst o1) @ ''_w'')") (simp_all split: if_splits)
qed

lemma no_user_controls:
  assumes "user_controls hdr ended out syms = []"
  shows "map_of hdr ''install_rc'' = Some 0" "map_of hdr ''c1a_raise'' = Some 1" "ended"
    and "\<exists>n. map_of hdr ''c1b_special0e_n'' = Some n \<and> n \<noteq> 0 \<and> n \<noteq> 0xFFFFFFFF"
    and "\<exists>f. syms = Some f \<and> concat (map (c2_finding f) out) = []"
  using assms unfolding user_controls_def by (auto split: if_splits option.splits)

text \<open>
  Status 0 of a user-mode run: the handler was installed and seen twice, by \<open>raise\<close> and by the reserved encoding, the
  run reached its end, the artefact was given, and every row that trapped did so at its own probed word.
\<close>
theorem user_zero_means:
  assumes "cmd_verdict rows txt User syms = Inr 0" and "(hdr, ended) = read_user_header txt"
  shows "map_of hdr ''install_rc'' = Some 0 \<and> map_of hdr ''c1a_raise'' = Some 1 \<and> ended
    \<and> (\<exists>n. map_of hdr ''c1b_special0e_n'' = Some n \<and> n \<noteq> 0 \<and> n \<noteq> 0xFFFFFFFF)
    \<and> (\<exists>f. syms = Some f \<and> (\<forall>r \<in> set rows. \<forall>v. i_idx r < length rows \<longrightarrow> (i_idx r, v) \<in> rows_in User txt \<longrightarrow> v ! 1 \<noteq> 0
         \<longrightarrow> f (''rlx_p4_'' @ i_name r @ ''_w'') = Some (v ! 3)))"
proof -
  obtain words present where w: "read_rows User (length rows) txt = Inr (words, present)"
    and u: "user_controls hdr ended (map (outcome_of words) rows) syms = []"
    using cmd_verdict_zero [OF assms(1)] assms(2) by (metis fst_conv snd_conv)
  obtain f where f: "syms = Some f" "concat (map (c2_finding f) (map (outcome_of words) rows)) = []"
    using no_user_controls(5) [OF u] by blast
  have "f (''rlx_p4_'' @ i_name r @ ''_w'') = Some (v ! 3)"
    if r: "r \<in> set rows" "i_idx r < length rows" "(i_idx r, v) \<in> rows_in User txt" "v ! 1 \<noteq> 0" for r v
  proof -
    obtain x where x: "(i_idx r, x) \<in> rows_in User txt" "snd (snd (snd (outcome_of words r))) = Some (rec_words x)"
      using outcome_row [OF w r(2)] r(3) by auto
    obtain seen where "\<And>i v. map_of seen i = Some v \<longleftrightarrow> (i, v) \<in> rows_in User txt" using read_rows_block [OF w] by blast
    with x(1) r(3) have "x = v" by (metis option.inject)
    then have "trapped (outcome_of words r) = Some (rec_words v)" using x(2) r(4) by (simp add: trapped_def rec_words_def)
    then show ?thesis using c2_findings [OF f(2), of "outcome_of words r" "rec_words v"] r(1) by (simp add: rec_words_def)
  qed
  then show ?thesis using no_user_controls(1-4) [OF u] f(1) by blast
qed

text \<open>
  The trap laid for the answer checker: on a loaded table a line whose recorded word is still what it was before the
  probed instruction reads RIGHT for the reserved row alone, and then the table is void.
\<close>
theorem silence_is_not_an_answer:
  assumes "load_rows table = Inr rows" "r \<in> set rows" "untouched r = Some (recorded r c)"
    and "fst (verdict_row r c) = V_RIGHT" "(r, fst (verdict_row r c), x) \<in> set out"
  shows "i_group r = ''reserved'' \<and> c_n c = 0 \<and> Reserved_right (i_name r) \<in> set (check_controls out)"
proof -
  have "row_ok r" using load_rows_ok [OF assms(1)] assms(2) by (simp add: list_all_iff)
  moreover have e: "i_expect r = Some (recorded r c)" "c_n c = 0" using assms(4) by (simp_all add: verdict_right)
  ultimately have g: "i_group r = ''reserved''" using assms(3) by (auto simp: row_ok_def split: if_splits)
  have "Reserved_right (i_name r) \<in> set (check_controls out)"
    using assms(4,5) g unfolding check_controls_def Let_def by (auto intro!: image_eqI [of _ _ "(r, V_RIGHT, x)"])
  then show ?thesis using g e by simp
qed

subsection \<open>A capture as it is printed\<close>

definition row_line :: "arm \<Rightarrow> nat \<Rightarrow> string \<Rightarrow> int list \<Rightarrow> string" where
  "row_line a i nm vs = join '' '' (tag_of a # hexU 8 i # nm # map (\<lambda>v. hexU 8 (nat v)) vs)"

definition text_of :: "string list \<Rightarrow> string" where
  "text_of ls = concat (map (\<lambda>l. l @ [CHR 0x0A]) ls)"

lemma capture_lines_text:
  assumes "list_all (\<lambda>l. CHR 0x0A \<notin> set l \<and> CHR 0x0D \<notin> set l) ls"
  shows "capture_lines (text_of ls) = ls @ [[]]"
proof -
  have u: "universal_newlines (text_of ls) = text_of ls"
    using assms by (induction ls) (simp_all add: text_of_def universal_newlines_free)
  have m: "map (\<lambda>c. if c = CHR 0x0D then CHR 0x0A else c) (text_of ls) = text_of ls"
  proof (rule map_idI)
    have "CHR 0x0D \<notin> set (text_of ls)" using assms by (induction ls) (simp_all add: text_of_def)
    then show "(if c = CHR 0x0D then CHR 0x0A else c) = c" if "c \<in> set (text_of ls)" for c using that by auto
  qed
  have "split_on (CHR 0x0A) (text_of ls) = ls @ [[]]"
    using assms by (induction ls) (simp_all add: text_of_def split_on_piece)
  then show ?thesis by (simp only: capture_lines_def u m)
qed

definition printable :: "string \<Rightarrow> bool" where "printable w \<longleftrightarrow> w \<noteq> [] \<and> list_all (\<lambda>x. \<not> py_space x) w"

lemma hex8_hexU: "n < 2 ^ 32 \<Longrightarrow> hex8 (hexU 8 n)"
  using length_hexU [of n 8] hexU_hex [of _ 8 n] by (auto simp: hex8_def list_all_iff)

lemma printable_hex: "hex8 w \<Longrightarrow> printable w"
  using hex_no_space by (auto simp: hex8_def printable_def list_all_iff)

lemma printable_tag: "printable (tag_of a)"
  by (simp add: tag_of_def printable_def py_space_def)

lemma join_ends:
  assumes "ws \<noteq> []" "list_all printable ws"
  shows "join '' '' ws \<noteq> [] \<and> hd (join '' '' ws) = hd (hd ws) \<and> last (join '' '' ws) = last (last ws)"
  using assms
proof (induction ws)
  case (Cons w ws)
  then show ?case by (cases ws) (auto simp: printable_def)
qed simp

lemma strip_join:
  assumes "ws \<noteq> []" "list_all printable ws"
  shows "strip (join '' '' ws) = join '' '' ws"
proof -
  have "printable (hd ws)" "printable (last ws)" using assms by (auto simp: list_all_iff)
  then have "\<not> py_space (hd (hd ws))" "\<not> py_space (last (last ws))"
    by (auto simp: printable_def list_all_iff)
  then show ?thesis using join_ends [OF assms] by (intro strip_ends) auto
qed

lemma row_line_words:
  assumes "i < 2 ^ 32" "printable nm" "list_all u32_range vs"
  shows "py_words (strip (row_line a i nm vs)) = tag_of a # hexU 8 i # nm # map (\<lambda>v. hexU 8 (nat v)) vs"
    and "list_all hex8 (map (\<lambda>v. hexU 8 (nat v)) vs)" and "strip (row_line a i nm vs) = row_line a i nm vs"
proof -
  let ?ws = "tag_of a # hexU 8 i # nm # map (\<lambda>v. hexU 8 (nat v)) vs"
  show h: "list_all hex8 (map (\<lambda>v. hexU 8 (nat v)) vs)"
    using assms(3) by (auto simp: list_all_iff u32_range_def intro!: hex8_hexU)
  have p: "list_all printable ?ws"
    using h printable_tag printable_hex hex8_hexU [OF assms(1)] assms(2) by (auto simp: list_all_iff)
  show s: "strip (row_line a i nm vs) = row_line a i nm vs" unfolding row_line_def by (rule strip_join [OF _ p]) simp
  have "py_words (join '' '' ?ws) = ?ws"
    by (rule py_words_join) (use p in \<open>simp add: list_all_iff printable_def\<close>)
  then show "py_words (strip (row_line a i nm vs)) = ?ws" unfolding s unfolding row_line_def .
qed

lemma row_line_match:
  assumes "i < 2 ^ 32" "printable nm" "list_all u32_range vs" "length vs = ROW_WORDS"
  shows "ARMS b (strip (row_line a i nm vs)) = (if tag_of a = tag_of b then Some (i, vs) else None)"
proof -
  note w = row_line_words(1) [OF assms(1-3), of a] row_line_words(2) [OF assms(1-3)]
  have "map (\<lambda>v. int (hex_num v)) (map (\<lambda>v. hexU 8 (nat v)) vs) = vs"
    using assms(3) by (auto simp: hex_num_hexU list_all_iff u32_range_def intro: map_idI)
  then show ?thesis
    unfolding ARMS_def row_match_def w(1)
    using w(2) hex8_hexU [OF assms(1)] assms(4) by (simp only: list.case hex_num_hexU ROW_WORDS_def length_map simp_thms if_True)
qed

lemma read_loop_total:
  assumes "\<And>l i v. l \<in> set ls \<Longrightarrow> ARMS a (strip l) = Some (i, v) \<Longrightarrow> i < n \<and> v = f i"
    and "\<And>i v. map_of seen i = Some v \<Longrightarrow> v = f i"
  shows "\<exists>b. read_loop a n ls words seen = Inr b"
  using assms
proof (induction ls arbitrary: words seen)
  case (Cons l ls)
  show ?case
  proof (cases "ARMS a (strip l)")
    case None
    have "\<exists>b. read_loop a n ls words seen = Inr b" by (rule Cons.IH) (use Cons.prems in auto)
    then show ?thesis using None by simp
  next
    case (Some iv)
    obtain i v where iv: "ARMS a (strip l) = Some (i, v)" using Some by (cases iv) auto
    have g: "i < n" "v = f i" using Cons.prems(1) [of l] iv by auto
    have "\<exists>b. read_loop a n ls (put_row words i v) (AList.update i v seen) = Inr b"
      by (rule Cons.IH) (use Cons.prems g in \<open>auto simp: update_conv' split: if_splits\<close>)
    moreover have "\<not> (\<exists>u. map_of seen i = Some u \<and> u \<noteq> v)" using Cons.prems(2) g(2) by blast
    ultimately show ?thesis using iv g by simp
  qed
qed simp

lemma read_rows_total:
  assumes "(i0, v0) \<in> rows_in a txt" and "\<And>i v. (i, v) \<in> rows_in a txt \<Longrightarrow> i < n \<and> v = f i"
  shows "\<exists>words present. read_rows a n txt = Inr (words, present)"
proof -
  have "i < n \<and> v = f i" if "l \<in> set (capture_lines txt)" "ARMS a (strip l) = Some (i, v)" for l i v
    using assms(2) that by (auto simp: rows_in_def)
  then obtain words seen where r: "read_loop a n (capture_lines txt) (replicate (n * ROW_WORDS) None) [] = Inr (words, seen)"
    using read_loop_total [of "capture_lines txt" a n f "[]"] by force
  have "map_of seen i0 = Some v0" using read_loop_block [OF r block_empty] assms(1) by (simp add: rows_in_def)
  then have "seen \<noteq> []" by auto
  then show ?thesis using r by (simp add: read_rows_def)
qed

lemma rows_in_text:
  assumes "list_all (\<lambda>l. CHR 0x0A \<notin> set l \<and> CHR 0x0D \<notin> set l) ls"
  shows "rows_in a (text_of ls) = {iv. \<exists>l \<in> set ls. ARMS a (strip l) = Some iv}"
proof -
  have "ARMS a (strip []) = None" by (simp add: ARMS_def row_match_def strip_def rstrip_def lstrip_def)
  then show ?thesis unfolding rows_in_def capture_lines_text [OF assms] by auto
qed

lemma printable_no_newline: "printable w \<Longrightarrow> CHR 0x0A \<notin> set w \<and> CHR 0x0D \<notin> set w"
proof -
  assume "printable w"
  moreover have "py_space (CHR 0x0A)" "py_space (CHR 0x0D)" by (simp_all add: py_space_def)
  ultimately show ?thesis unfolding printable_def list_all_iff by blast
qed

lemma row_line_no_newline:
  assumes "i < 2 ^ 32" "printable nm" "list_all u32_range vs"
  shows "CHR 0x0A \<notin> set (row_line a i nm vs) \<and> CHR 0x0D \<notin> set (row_line a i nm vs)"
proof -
  have j: "set (join '' '' ws) \<subseteq> insert (CHR '' '') (\<Union> (set ` set ws))" for ws :: "string list"
  proof (induction ws)
    case (Cons w ws)
    then show ?case by (cases ws) auto
  qed simp
  have "printable (hexU 8 (nat v))" if "v \<in> set vs" for v
    using assms(3) that by (auto simp: list_all_iff u32_range_def intro!: printable_hex hex8_hexU)
  then have "\<forall>w \<in> set (tag_of a # hexU 8 i # nm # map (\<lambda>v. hexU 8 (nat v)) vs). printable w"
    using printable_tag printable_hex [OF hex8_hexU [OF assms(1)]] assms(2) by simp
  then have "\<forall>w \<in> set (tag_of a # hexU 8 i # nm # map (\<lambda>v. hexU 8 (nat v)) vs). CHR 0x0A \<notin> set w \<and> CHR 0x0D \<notin> set w"
    using printable_no_newline by blast
  moreover have "CHR 0x0A \<noteq> CHR '' ''" "CHR 0x0D \<noteq> CHR '' ''" by simp_all
  ultimately show ?thesis
    unfolding row_line_def using j [of "tag_of a # hexU 8 i # nm # map (\<lambda>v. hexU 8 (nat v)) vs"] by blast
qed

text \<open>The rows of a run, printed in order after other lines.\<close>

definition run_lines :: "arm \<Rightarrow> string list \<Rightarrow> (string \<times> int list) list \<Rightarrow> string list" where
  "run_lines a hs rs = hs @ map (\<lambda>i. row_line a i (fst (rs ! i)) (snd (rs ! i))) [0..<length rs]"

definition run_text :: "arm \<Rightarrow> string list \<Rightarrow> (string \<times> int list) list \<Rightarrow> string" where
  "run_text a hs rs = text_of (run_lines a hs rs)"

definition no_newline :: "string \<Rightarrow> bool" where "no_newline l \<longleftrightarrow> CHR 0x0A \<notin> set l \<and> CHR 0x0D \<notin> set l"

definition run_ok :: "string list \<Rightarrow> (string \<times> int list) list \<Rightarrow> bool" where
  "run_ok hs rs \<longleftrightarrow> rs \<noteq> [] \<and> length rs < 2 ^ 32 \<and> list_all (\<lambda>(nm, vs). printable nm \<and> length vs = ROW_WORDS \<and> list_all u32_range vs) rs
     \<and> list_all (\<lambda>h. no_newline h \<and> (\<forall>b \<in> {Device, User}. ARMS b (strip h) = None)) hs"

lemma run_ok_row:
  assumes "run_ok hs rs" "i < length rs"
  shows "i < 2 ^ 32" "printable (fst (rs ! i))" "list_all u32_range (snd (rs ! i))" "length (snd (rs ! i)) = ROW_WORDS"
  using assms by (auto simp: run_ok_def list_all_length case_prod_unfold)

lemma run_lines_newline:
  assumes "run_ok hs rs"
  shows "list_all (\<lambda>l. CHR 0x0A \<notin> set l \<and> CHR 0x0D \<notin> set l) (run_lines a hs rs)"
proof -
  have "list_all no_newline hs" using assms by (auto simp: run_ok_def list_all_iff)
  moreover have "\<forall>i \<in> {0..<length rs}. no_newline (row_line a i (fst (rs ! i)) (snd (rs ! i)))"
    using row_line_no_newline run_ok_row [OF assms] by (auto simp: no_newline_def)
  ultimately show ?thesis by (auto simp: run_lines_def list_all_iff no_newline_def)
qed

lemma rows_in_run:
  assumes "run_ok hs rs"
  shows "rows_in b (run_text a hs rs) = (if tag_of a = tag_of b then {(i, v). i < length rs \<and> v = snd (rs ! i)} else {})"
proof -
  have "ARMS b = ARMS (if b = User then User else Device)" by (simp add: ARMS_def tag_of_def)
  then have h: "h \<in> set hs \<Longrightarrow> ARMS b (strip h) = None" for h using assms by (auto simp: run_ok_def list_all_iff)
  have "rows_in b (run_text a hs rs) = {iv. \<exists>l \<in> set (run_lines a hs rs). ARMS b (strip l) = Some iv}"
    unfolding run_text_def by (rule rows_in_text [OF run_lines_newline [OF assms]])
  also have "\<dots> = {iv. \<exists>i \<in> {0..<length rs}. ARMS b (strip (row_line a i (fst (rs ! i)) (snd (rs ! i)))) = Some iv}"
    using h by (auto simp: run_lines_def)
  also have "\<dots> = {iv. \<exists>i \<in> {0..<length rs}. (if tag_of a = tag_of b then Some (i, snd (rs ! i)) else None) = Some iv}"
    using row_line_match [OF run_ok_row [OF assms]] by simp
  also have "\<dots> = (if tag_of a = tag_of b then {(i, v). i < length rs \<and> v = snd (rs ! i)} else {})" by auto
  finally show ?thesis .
qed

lemma run_read:
  assumes "run_ok hs rs"
  shows "\<exists>words. read_rows a (length rs) (run_text a hs rs) = Inr (words, [0..<length rs])
    \<and> (\<forall>i < length rs. row_slot words i = map Some (snd (rs ! i)))"
proof -
  have rows: "rows_in a (run_text a hs rs) = {(i, v). i < length rs \<and> v = snd (rs ! i)}" by (simp add: rows_in_run [OF assms])
  have ne: "rs \<noteq> []" using assms by (simp add: run_ok_def)
  obtain words present where w: "read_rows a (length rs) (run_text a hs rs) = Inr (words, present)"
    using read_rows_total [of 0 "snd (rs ! 0)" a "run_text a hs rs" "length rs" "\<lambda>i. snd (rs ! i)"] ne unfolding rows by blast
  obtain seen where s: "block_ok (length rs) words seen" "present = sort (map fst seen)"
    "\<And>i v. map_of seen i = Some v \<longleftrightarrow> (i, v) \<in> rows_in a (run_text a hs rs)"
    using read_rows_block [OF w] by blast
  have m: "map_of seen i = (if i < length rs then Some (snd (rs ! i)) else None)" for i
    using s(3) [of i] unfolding rows by (cases "map_of seen i") (auto split: if_splits)
  have "set (map fst seen) = {0..<length rs}"
  proof (rule set_eqI)
    fix i
    show "i \<in> set (map fst seen) \<longleftrightarrow> i \<in> {0..<length rs}"
      using m [of i] map_of_eq_None_iff [of seen i] by (cases "i < length rs") auto
  qed
  then have "set present = set [0..<length rs]" using s(2) by simp
  moreover have "sorted present" "distinct present" using s(1,2) by (simp_all add: block_ok_def)
  ultimately have "present = [0..<length rs]" by (intro sorted_distinct_set_unique) simp_all
  moreover have "row_slot words i = map Some (snd (rs ! i))" if "i < length rs" for i
    using s(1) m [of i] that by (simp add: block_ok_def slot_of_def)
  ultimately show ?thesis using w by blast
qed

text \<open>
  A run printed row by row in the format of its arm, after any lines that are not rows, is read back whole: the block holds
  exactly the words that were printed, every row is present, and the reader of another format refuses the capture as empty.
\<close>
theorem printed_run_read:
  assumes "run_ok hs rs"
  shows "(\<exists>words. read_rows a (length rs) (run_text a hs rs) = Inr (words, [0..<length rs])
      \<and> (\<forall>i < length rs. row_slot words i = map Some (snd (rs ! i))))
    \<and> (tag_of b \<noteq> tag_of a \<longrightarrow> read_rows b (length rs) (run_text a hs rs) = Inl (No_capture_rows b))"
proof -
  have "read_rows b (length rs) (run_text a hs rs) = Inl (No_capture_rows b)" if "tag_of b \<noteq> tag_of a"
  proof -
    have "rows_in b (run_text a hs rs) = {}" using rows_in_run [OF assms, of b a] that by simp
    then have n: "ARMS b (strip l) \<noteq> Some (i, v)" if "l \<in> set (capture_lines (run_text a hs rs))" for l i v
      using that by (auto simp: rows_in_def)
    obtain words seen where r: "read_loop b (length rs) (capture_lines (run_text a hs rs)) (replicate (length rs * ROW_WORDS) None) [] =
        Inr (words, seen)"
      using read_loop_total [of "capture_lines (run_text a hs rs)" b "length rs" "\<lambda>i. []" "[]"] n by force
    have "map_of seen i = None" for i
      using read_loop_block [OF r block_empty] n by (cases "map_of seen i") auto
    then have "seen = []" by (metis map_of_eq_empty_iff ext)
    then show ?thesis using r by (simp add: read_rows_def)
  qed
  then show ?thesis using run_read [OF assms] by blast
qed

subsection \<open>Examples\<close>

definition sample_run :: "(string \<times> int list) list" where
  "sample_run = [(''add'', [0x52340000, 0, 0, 0, 12, 0, 0, 0]), (''sp'', [0x52340001, 1, 0x28, 0x80001000, 99, 0, 0, 0])]"

lemma sample_run_ok: "run_ok [] sample_run"
  by (simp add: run_ok_def sample_run_def printable_def py_space_def ROW_WORDS_def u32_range_def)

lemma printed_run_read_witness:
  "run_ok [] sample_run \<and> read_rows User (length sample_run) (run_text Device [] sample_run) = Inl (No_capture_rows User)"
  using sample_run_ok printed_run_read [OF sample_run_ok, of Device User] by (simp add: tag_of_def)

lemma capture_block_witness:
  "\<exists>words. read_rows Device 2 (run_text Device [] sample_run) = Inr (words, [0, 1]) \<and>
    row_slot words 0 = map Some [0x52340000, 0, 0, 0, 12, 0, 0, 0]"
proof -
  have l: "length sample_run = 2" "[0..<2] = [0, 1]" by (simp_all add: sample_run_def numeral_2_eq_2)
  obtain words where w: "read_rows Device 2 (run_text Device [] sample_run) = Inr (words, [0, 1])"
    using run_read [OF sample_run_ok, of Device] unfolding l by blast
  have "(0, [0x52340000, 0, 0, 0, 12, 0, 0, 0]) \<in> rows_in Device (run_text Device [] sample_run)"
    by (simp add: rows_in_run [OF sample_run_ok] l(1)) (simp add: sample_run_def)
  then show ?thesis using capture_block [OF w] w by (intro exI [of _ words]) (auto split: if_splits)
qed

definition sample_out :: "outcome list" where
  "sample_out = [(sample_rows ! 0, V_RIGHT, Some 12, Some (rec_words (snd (sample_run ! 0)))),
     (sample_rows ! 1, V_TRAP, Some 99, Some (rec_words (snd (sample_run ! 1))))]"

lemma sample_outcomes:
  assumes "\<forall>i < length sample_run. row_slot words i = map Some (snd (sample_run ! i))"
  shows "map (outcome_of words) sample_rows = sample_out"
proof -
  have o: "outcome_of words (sample_rows ! 0) = (sample_rows ! 0, V_RIGHT, Some 12, Some (rec_words (snd (sample_run ! 0))))"
    "outcome_of words (sample_rows ! 1) = (sample_rows ! 1, V_TRAP, Some 99, Some (rec_words (snd (sample_run ! 1))))"
    using spec [OF assms, of 0] spec [OF assms, of 1]
    by (simp_all add: outcome_of_def row_slot_def sample_rows_def sample_run_def rec_of_def rec_words_def
        verdict_row_def ROW_TAG_BASE_def recorded_def)
  have "map (outcome_of words) sample_rows = [outcome_of words (sample_rows ! 0), outcome_of words (sample_rows ! 1)]"
    by (simp add: sample_rows_def)
  then show ?thesis unfolding o sample_out_def .
qed

lemma sample_out_clean:
  "check_controls sample_out = []"
  "user_controls [(''install_rc'', 0), (''c1a_raise'', 1), (''c1b_special0e_n'', 1)] True sample_out
     (Some (\<lambda>s. if s = ''rlx_p4_sp_w'' then Some 0x80001000 else None)) = []"
  by (simp add: sample_out_def check_controls_def, simp add: sample_rows_def)
    (simp add: user_controls_def sample_out_def c2_finding_def trapped_def rec_words_def sample_run_def, simp add: sample_rows_def)

lemma sample_verdict: "cmd_verdict sample_rows (run_text Device [] sample_run) Device None = Inr 0"
proof -
  have l: "length sample_rows = length sample_run" by (simp add: sample_run_def sample_rows_def)
  obtain words where w: "read_rows Device (length sample_rows) (run_text Device [] sample_run) = Inr (words, [0..<length sample_run])"
    and r: "\<forall>i < length sample_run. row_slot words i = map Some (snd (sample_run ! i))"
    using run_read [OF sample_run_ok, of Device] unfolding l by blast
  show ?thesis by (simp add: cmd_verdict_def w sample_outcomes [OF r] sample_out_clean)
qed

lemma verdict_zero_means_witness:
  "load_rows sample_table = Inr sample_rows \<and> cmd_verdict sample_rows (run_text Device [] sample_run) Device None = Inr 0 \<and>
   (\<exists>r \<in> set sample_rows. i_group r = ''baseline'' \<and> (\<exists>v. (i_idx r, v) \<in> rows_in Device (run_text Device [] sample_run) \<and> answered r v))"
  using sample_loads sample_verdict verdict_zero_means [OF sample_loads sample_verdict] by blast

definition silent_rec :: rec8 where
  "silent_rec = \<lparr>c_tag = 0x52340001, c_n = 0, c_cause = 0, c_epc = 0, c_gpr = 99, c_m0 = 0, c_m1 = 0, c_aux = 0\<rparr>"

lemma silence_is_not_an_answer_witness:
  "check_controls [(sample_rows ! 1, V_RIGHT, Some 99, Some silent_rec)] \<noteq> []"
proof -
  have r: "sample_rows ! 1 \<in> set sample_rows" by (simp add: sample_rows_def)
  have u: "untouched (sample_rows ! 1) = Some (recorded (sample_rows ! 1) silent_rec)"
    by (simp add: untouched_def recorded_def sample_rows_def SHAPES_def silent_rec_def)
  have v: "fst (verdict_row (sample_rows ! 1) silent_rec) = V_RIGHT"
    by (simp add: verdict_right) (simp add: recorded_def sample_rows_def silent_rec_def ROW_TAG_BASE_def)
  have "(sample_rows ! 1, fst (verdict_row (sample_rows ! 1) silent_rec), Some 99, Some silent_rec) \<in>
      set [(sample_rows ! 1, V_RIGHT, Some 99, Some silent_rec)]"
    unfolding v by simp
  from silence_is_not_an_answer [OF sample_loads r u v this] show ?thesis by auto
qed

definition user_head :: "string list" where
  "user_head = [''rlxuprobe: install_rc=00000000'', ''rlxuprobe: c1a_raise=00000001'', ''rlxuprobe: c1b_special0e_n=00000001'', ''rlxuprobe: end'']"

definition user_syms :: "string \<Rightarrow> int option" where
  "user_syms s = (if s = ''rlx_p4_sp_w'' then Some 0x80001000 else None)"

lemma user_run_ok: "run_ok user_head sample_run"
proof -
  have "list_all (\<lambda>h. no_newline h \<and> ARMS Device (strip h) = None \<and> ARMS User (strip h) = None) user_head" by code_simp
  then show ?thesis using sample_run_ok by (simp add: run_ok_def)
qed

lemma header_line_row:
  assumes "i < 2 ^ 32" "printable nm" "list_all u32_range vs" "length vs = ROW_WORDS"
  shows "header_line st (row_line User i nm vs) = st"
proof -
  note w = row_line_words(1,3) [OF assms(1-3), of User]
  have "take 2 (row_line User i nm vs) = ''PU''" by (simp add: row_line_def tag_of_def numeral_2_eq_2)
  then have "row_line User i nm vs \<noteq> UEND" by (auto simp: UEND_def)
  moreover have "UHDR_RE (row_line User i nm vs) = None" using w(1) unfolding w(2) by (simp add: UHDR_RE_def)
  ultimately show ?thesis by (simp add: header_line_def w(2))
qed

lemma user_header:
  "read_user_header (run_text User user_head sample_run) =
    ([(''install_rc'', 0), (''c1a_raise'', 1), (''c1b_special0e_n'', 1)], True)"
proof -
  have l: "capture_lines (run_text User user_head sample_run) = run_lines User user_head sample_run @ [[]]"
    unfolding run_text_def by (rule capture_lines_text [OF run_lines_newline [OF user_run_ok]])
  have h: "foldl header_line ([], False) user_head = ([(''install_rc'', 0), (''c1a_raise'', 1), (''c1b_special0e_n'', 1)], True)"
    by code_simp
  have r: "foldl header_line st (map (\<lambda>i. row_line User i (fst (sample_run ! i)) (snd (sample_run ! i))) is) = st"
    if "\<forall>i \<in> set is. i < length sample_run" for "is" st
    using that by (induction "is" arbitrary: st) (simp_all add: header_line_row [OF run_ok_row [OF user_run_ok]])
  have e: "header_line st [] = st" for st by (simp add: header_line_def strip_def lstrip_def rstrip_def UEND_def UHDR_RE_def)
  show ?thesis unfolding read_user_header_def l run_lines_def foldl_append h by (simp add: r e)
qed

lemma sample_user: "cmd_verdict sample_rows (run_text User user_head sample_run) User (Some user_syms) = Inr 0"
proof -
  have l: "length sample_rows = length sample_run" by (simp add: sample_run_def sample_rows_def)
  obtain words where w: "read_rows User (length sample_rows) (run_text User user_head sample_run) = Inr (words, [0..<length sample_run])"
    and r: "\<forall>i < length sample_run. row_slot words i = map Some (snd (sample_run ! i))"
    using run_read [OF user_run_ok, of User] unfolding l by blast
  have "user_syms = (\<lambda>s. if s = ''rlx_p4_sp_w'' then Some 0x80001000 else None)" by (rule ext) (simp add: user_syms_def)
  then show ?thesis using sample_out_clean by (simp add: cmd_verdict_def w sample_outcomes [OF r] user_header)
qed

lemma user_zero_means_witness:
  "cmd_verdict sample_rows (run_text User user_head sample_run) User (Some user_syms) = Inr 0 \<and>
   ([(''install_rc'', 0), (''c1a_raise'', 1), (''c1b_special0e_n'', 1)], True) = read_user_header (run_text User user_head sample_run) \<and>
   user_syms ''rlx_p4_sp_w'' = Some 0x80001000"
proof -
  have "(1, snd (sample_run ! 1)) \<in> rows_in User (run_text User user_head sample_run)"
    by (simp add: rows_in_run [OF user_run_ok]) (simp add: sample_run_def)
  moreover have "sample_rows ! 1 \<in> set sample_rows" "i_idx (sample_rows ! 1) = 1" "i_name (sample_rows ! 1) = ''sp''"
    "snd (sample_run ! 1) ! 1 \<noteq> 0" "snd (sample_run ! 1) ! 3 = 0x80001000" "1 < length sample_rows"
    by (simp_all add: sample_rows_def sample_run_def)
  ultimately have "user_syms (''rlx_p4_'' @ ''sp'' @ ''_w'') = Some 0x80001000"
    using user_zero_means [OF sample_user user_header [symmetric]] by (metis option.inject)
  then show ?thesis using sample_user user_header by simp
qed

end
