(* ===== verification/CardText.thy ===== *)
theory CardText
  imports PyText
begin

text \<open>
  \<open>tools/cardrun.py\<close>, the grammar of a bench card: its macros and their expansion, the cells of its one cells
  section, every HOST line of it, and the items of an invocation.
\<close>

subsection \<open>Refusals and macros\<close>

datatype card_refused =
    Carriage_return nat | Macro_twice string nat nat | Body_spans string nat | No_argument string string
  | Section_count nat | Not_a_cell nat string | No_cell_name nat string | Cell_twice string nat nat | Fence_open nat | No_cell
  | Host_line_cr nat
  | Bad_wait string | Bad_gate string | Bad_gate_name string | Empty_grep string | Bad_pattern string | Bad_gate_kind string
  | Bad_reading string | Bad_item string
  | Self_test_args | No_card | No_items | No_log | Named_twice string
  | Unclosed string | Unclosed_quote | Process_substitution string | No_target string | Unparsed string | Program_count nat
  | No_out string | No_start_signal "string list"
  | No_fenced_cell string | Not_started string | Background_reading string

record macro =
  m_param :: "string option"
  m_body :: string
  m_line :: nat

type_synonym macros = "(string \<times> macro) list"

definition upper_char :: "char \<Rightarrow> bool" where
  "upper_char c \<longleftrightarrow> (let n = (of_char c :: nat) in 65 \<le> n \<and> n \<le> 90)"

definition newlines :: "string \<Rightarrow> nat" where "newlines s = length (filter (\<lambda>c. c = CHR 0x0A) s)"

definition no_cr :: "string \<Rightarrow> card_refused + unit" where
  "no_cr text =
     (if CHR 0x0D \<in> set text then Inl (Carriage_return (newlines (takeWhile (\<lambda>c. c \<noteq> CHR 0x0D) text) + 1)) else Inr ())"

text \<open>\<open>MACRO_RE\<close> at the start of a line: the name, the parameter, the body, and what follows the match.\<close>

definition tick :: char where "tick = CHR 0x60"

definition macro_param :: "string \<Rightarrow> string option \<times> string" where
  "macro_param s =
     (let w = takeWhile word_char (drop 2 s); r = dropWhile word_char (drop 2 s) in
      if take 2 s = '' <'' \<and> w \<noteq> [] \<and> take 1 r = ''>'' then (Some w, tl r) else (None, s))"

definition MACRO_RE :: "string \<Rightarrow> (string \<times> string option \<times> string \<times> string) option" where
  "MACRO_RE s =
     (if take 1 s \<noteq> [tick] then None
      else let nm = takeWhile (\<lambda>c. upper_char c \<or> is_digit c) (tl s);
          (p, r) = macro_param (dropWhile (\<lambda>c. upper_char c \<or> is_digit c) (tl s));
          sp = takeWhile (\<lambda>c. c = CHR '' '') (tl r); q = dropWhile (\<lambda>c. c = CHR '' '') (tl r);
          body = takeWhile (\<lambda>c. c \<noteq> tick) (drop 3 q); e = dropWhile (\<lambda>c. c \<noteq> tick) (drop 3 q)
        in if nm \<noteq> [] \<and> upper_char (hd nm) \<and> take 1 r = [tick] \<and> sp \<noteq> [] \<and> take 3 q = ''= '' @ [tick] \<and> body \<noteq> [] \<and> e \<noteq> []
           then Some (nm, p, body, tl e) else None)"

lemma MACRO_RE_shorter: "MACRO_RE s = Some (n, p, b, r) \<Longrightarrow> length r < length s"
proof -
  assume a: "MACRO_RE s = Some (n, p, b, r)"
  define u where "u = dropWhile (\<lambda>c. upper_char c \<or> is_digit c) (tl s)"
  define v where "v = snd (macro_param u)"
  define q where "q = dropWhile (\<lambda>c. c = CHR '' '') (tl v)"
  have r: "r = tl (dropWhile (\<lambda>c. c \<noteq> tick) (drop 3 q))" and s: "s \<noteq> []"
    using a by (auto simp: MACRO_RE_def Let_def u_def v_def q_def case_prod_unfold split: if_splits)
  have "length u \<le> length (tl s)" unfolding u_def by (rule length_dropWhile_le)
  moreover have "length v \<le> length u"
    unfolding v_def macro_param_def Let_def using length_dropWhile_le [of word_char "drop 2 u"] by auto
  moreover have "length q \<le> length (tl v)" unfolding q_def by (rule length_dropWhile_le)
  moreover have "length r \<le> length (drop 3 q)" unfolding r using length_dropWhile_le [of "\<lambda>c. c \<noteq> tick" "drop 3 q"] by simp
  ultimately show ?thesis using s by (cases s) auto
qed

text \<open>\<open>finditer\<close> of the macro pattern, with the line of every match.\<close>

function macro_scan :: "bool \<Rightarrow> nat \<Rightarrow> string \<Rightarrow> (string \<times> macro) list" where
  "macro_scan bol line s =
     (case (if bol then MACRO_RE s else None) of
        Some (nm, p, body, r) \<Rightarrow>
          (nm, \<lparr>m_param = p, m_body = body, m_line = line\<rparr>)
            # macro_scan False (line + newlines (take (length s - length r) s)) r
      | None \<Rightarrow>
          (case s of
             [] \<Rightarrow> []
           | c # s' \<Rightarrow> macro_scan (c = CHR 0x0A) (if c = CHR 0x0A then Suc line else line) s'))"
  by pat_completeness auto
termination
  by (relation "measure (\<lambda>(b, l, s). length s)") (auto simp: MACRO_RE_shorter split: if_splits)

declare macro_scan.simps [simp del]

fun macro_table :: "macros \<Rightarrow> (string \<times> macro) list \<Rightarrow> card_refused + macros" where
  "macro_table t [] = Inr t"
| "macro_table t ((nm, m) # ms) =
     (case map_of t nm of
        Some m0 \<Rightarrow> Inl (Macro_twice nm (m_line m0) (m_line m))
      | None \<Rightarrow> macro_table (t @ [(nm, m)]) ms)"

definition macros :: "string \<Rightarrow> card_refused + macros" where
  "macros text = macro_table [] (macro_scan True 1 text)"

subsection \<open>Expansion\<close>

definition in_word :: "char \<Rightarrow> bool" where
  "in_word c \<longleftrightarrow> word_char c \<or> c = CHR ''/'' \<or> c = CHR ''.'' \<or> c = CHR ''-''"

definition bounded :: "char list \<Rightarrow> bool" where
  "bounded s \<longleftrightarrow> (case s of [] \<Rightarrow> True | c # _ \<Rightarrow> \<not> in_word c)"

text \<open>The first alternative of the pattern that matches here: the longest names come first.\<close>

definition find_macro :: "string list \<Rightarrow> string \<Rightarrow> string option" where
  "find_macro names s = find (\<lambda>n. prefix n s \<and> bounded (drop (length n) s)) names"

definition replace :: "string \<Rightarrow> string \<Rightarrow> string \<Rightarrow> string" where
  "replace old new s = join new (split_seq old s)"

definition operator_word :: "string \<Rightarrow> bool" where
  "operator_word w \<longleftrightarrow> w \<noteq> [] \<and> list_all (\<lambda>c. c \<in> set '';&|<>()'') w"

definition blank :: "char \<Rightarrow> bool" where "blank c \<longleftrightarrow> c = CHR '' '' \<or> c = CHR 0x09"

text \<open>The body at a use, and how much of the text behind the name it takes.\<close>

definition use_macro :: "string \<Rightarrow> string \<Rightarrow> macro \<Rightarrow> string \<Rightarrow> card_refused + string \<times> nat" where
  "use_macro cmd nm m r =
     (if CHR 0x0A \<in> set (m_body m) then Inl (Body_spans nm (m_line m))
      else case m_param m of
        None \<Rightarrow> Inr (m_body m, 0)
      | Some p \<Rightarrow>
          let sp = takeWhile blank r; a = takeWhile (\<lambda>c. \<not> py_space c) (drop (length sp) r) in
          if sp = [] \<or> a = [] \<or> operator_word a then Inl (No_argument nm cmd)
          else Inr (replace (''<'' @ p @ ''>'') a (m_body m), length sp + length a))"

text \<open>The search from left to right; \<open>at\<close> is whether the character before is none of the word.\<close>

function expand_loop :: "string \<Rightarrow> macros \<Rightarrow> string list \<Rightarrow> bool \<Rightarrow> string \<Rightarrow> card_refused + string" where
  "expand_loop cmd table names at [] = Inr []"
| "expand_loop cmd table names at (c # s) =
     (case (if at then find_macro names (c # s) else None) of
        None \<Rightarrow> sbind (expand_loop cmd table names (\<not> in_word c) s) (\<lambda>t. Inr (c # t))
      | Some nm \<Rightarrow>
          (case map_of table nm of
             None \<Rightarrow> sbind (expand_loop cmd table names (\<not> in_word c) s) (\<lambda>t. Inr (c # t))
           | Some m \<Rightarrow>
               sbind (use_macro cmd nm m (drop (length nm) (c # s))) (\<lambda>(body, k).
                 sbind (expand_loop cmd table names (\<not> in_word (last (take (length nm + k) (c # s)))) (drop (length nm + k - 1) s))
                   (\<lambda>t. Inr (body @ t)))))"
  by pat_completeness auto
termination by (relation "measure (\<lambda>(cmd, table, names, at, s). length s)") auto

declare expand_loop.simps(2) [simp del]

definition names_of :: "macros \<Rightarrow> string list" where
  "names_of table = sort_key (\<lambda>n. - int (length n)) (map fst table)"

definition expand :: "string \<Rightarrow> macros \<Rightarrow> card_refused + string" where
  "expand cmd table = (if table = [] then Inr cmd else expand_loop cmd table (names_of table) True cmd)"

subsection \<open>The cells\<close>

record cell =
  c_name :: string
  c_kind :: string
  c_prefix :: string
  c_line :: string
  c_lineno :: nat

text \<open>\<open>SECTION_RE\<close>, on one line.\<close>

fun has_word :: "string \<Rightarrow> bool \<Rightarrow> string \<Rightarrow> bool" where
  "has_word w at [] = False"
| "has_word w at (c # s) =
     (at \<and> prefix w (c # s) \<and> (drop (length w) (c # s) = [] \<or> \<not> word_char (hd (drop (length w) (c # s))))
      \<or> has_word w (\<not> word_char c) s)"

definition next_section :: "string \<Rightarrow> bool" where "next_section l \<longleftrightarrow> take 3 l = ''## ''"

definition section_head :: "string \<Rightarrow> bool" where
  "section_head l \<longleftrightarrow> next_section l \<and> has_word ''The cells'' True (drop 3 l)"

text \<open>The lines of the section, and the number of the first; a heading behind it leaves an empty last piece.\<close>

definition cells_section :: "string \<Rightarrow> card_refused + nat \<times> string list" where
  "cells_section text =
     (let ls = split_on (CHR 0x0A) text; heads = filter (\<lambda>i. section_head (ls ! i)) [0..<length ls] in
      case heads of
        [h] \<Rightarrow>
          let body = takeWhile (\<lambda>l. \<not> next_section l) (drop (Suc h) ls) in
          Inr (h + 1, ls ! h # body @ (if Suc h + length body < length ls then [[]] else []))
      | _ \<Rightarrow> Inl (Section_count (length heads)))"

definition name_char :: "char \<Rightarrow> bool" where
  "name_char c \<longleftrightarrow> is_digit c \<or> upper_char c \<or> (let n = (of_char c :: nat) in 97 \<le> n \<and> n \<le> 122)"

definition NAME_RE :: "string \<Rightarrow> bool" where
  "NAME_RE s \<longleftrightarrow> s \<noteq> [] \<and> name_char (hd s) \<and> list_all (\<lambda>c. name_char c \<or> c \<in> set ''_.+-'') s"

definition CAP_CELL_RE :: "string \<Rightarrow> string option" where
  "CAP_CELL_RE l =
     (case lit ''CAP --out '' l of
        None \<Rightarrow> None
      | Some s \<Rightarrow>
          let p = takeWhile (\<lambda>c. \<not> py_space c) s; r = dropWhile (\<lambda>c. \<not> py_space c) s in
          if p \<noteq> [] \<and> take 1 r = '' '' \<and> tl r \<noteq> [] \<and> \<not> py_space (hd (tl r)) then Some p else None)"

text \<open>\<open>HOST_LINE_RE\<close>: the kind, the prefix and the command; a cell of the card needs a command too.\<close>

definition HOST_LINE_RE :: "string \<Rightarrow> (string \<times> string \<times> string) option" where
  "HOST_LINE_RE l =
     (case lit ''HOST'' l of
        None \<Rightarrow> None
      | Some s \<Rightarrow>
          let k = (if take 1 s = ''&'' then ''HOST&'' else ''HOST''); u = (if take 1 s = ''&'' then tl s else s);
              p = takeWhile (\<lambda>c. \<not> py_space c) (tl u); r = dropWhile (\<lambda>c. \<not> py_space c) (tl u) in
          if take 1 u = '' '' \<and> p \<noteq> [] then map_option (\<lambda>c. (k, p, c)) (lit '' :: '' r) else None)"

definition HOST_CELL_RE :: "string \<Rightarrow> (string \<times> string) option" where
  "HOST_CELL_RE l =
     (case HOST_LINE_RE l of
        None \<Rightarrow> None
      | Some (k, p, c) \<Rightarrow> if c \<noteq> [] \<and> \<not> py_space (hd c) then Some (k, p) else None)"

definition last_field :: "string \<Rightarrow> string" where
  "last_field p = last (split_on (CHR ''/'') p)"

definition cell_of :: "nat \<Rightarrow> string \<Rightarrow> card_refused + cell" where
  "cell_of n l =
     (let mk = (\<lambda>k p. if NAME_RE (last_field p)
          then Inr \<lparr>c_name = last_field p, c_kind = k, c_prefix = p, c_line = l, c_lineno = n\<rparr> else Inl (No_cell_name n p)) in
      case CAP_CELL_RE l of
        Some p \<Rightarrow> mk ''CAP'' p
      | None \<Rightarrow> (case HOST_CELL_RE l of Some (k, p) \<Rightarrow> mk k p | None \<Rightarrow> Inl (Not_a_cell n l)))"

definition fence_mark :: string where "fence_mark = replicate 3 tick"

fun fence_loop :: "(string \<times> nat) option \<Rightarrow> cell list \<Rightarrow> nat \<Rightarrow> string list \<Rightarrow> card_refused + cell list" where
  "fence_loop fence out n [] = (case fence of Some (_, k) \<Rightarrow> Inl (Fence_open k) | None \<Rightarrow> Inr out)"
| "fence_loop fence out n (l # ls) =
     (case fence of
        None \<Rightarrow> fence_loop (if take 3 l = fence_mark then Some (strip (drop 3 l), n) else None) out (Suc n) ls
      | Some (info, k) \<Rightarrow>
          if rstrip l = fence_mark then fence_loop None out (Suc n) ls
          else if info \<noteq> [] then fence_loop fence out (Suc n) ls
          else sbind (cell_of n l) (\<lambda>c.
            case find (\<lambda>d. c_name d = c_name c) out of
              Some d \<Rightarrow> Inl (Cell_twice (c_name c) (c_lineno d) n)
            | None \<Rightarrow> fence_loop fence (out @ [c]) (Suc n) ls))"

definition fenced_cells :: "string \<Rightarrow> card_refused + cell list" where
  "fenced_cells text =
     sbind (no_cr text) (\<lambda>_. sbind (cells_section text) (\<lambda>(base, ls).
       sbind (fence_loop None [] base ls) (\<lambda>out. if out = [] then Inl No_cell else Inr out)))"

record host_line =
  h_kind :: string
  h_prefix :: string
  h_name :: string
  h_cmd :: string
  h_lineno :: nat

definition host_line_of :: "nat \<times> string \<Rightarrow> card_refused + host_line list" where
  "host_line_of nl =
     (case HOST_LINE_RE (snd nl) of
        None \<Rightarrow> Inr []
      | Some (k, p, c) \<Rightarrow>
          if CHR 0x0D \<in> set c then Inl (Host_line_cr (fst nl))
          else Inr [\<lparr>h_kind = k, h_prefix = p, h_name = last_field p, h_cmd = c, h_lineno = fst nl\<rparr>])"

definition host_lines :: "string \<Rightarrow> card_refused + host_line list" where
  "host_lines text = sbind (traverse host_line_of (enumerate 1 (split_on (CHR 0x0A) text))) (\<lambda>ls. Inr (concat ls))"

text \<open>A CAP line whole, a HOST line after its first \<open>::\<close>.\<close>

definition cell_text :: "cell \<Rightarrow> string" where
  "cell_text c =
     (if c_kind c = ''CAP'' then c_line c
      else case find_sub '' :: '' (c_line c) of None \<Rightarrow> [] | Some i \<Rightarrow> drop (i + 4) (c_line c))"

definition cell_command :: "cell \<Rightarrow> macros \<Rightarrow> card_refused + string" where
  "cell_command c table = expand (cell_text c) table"

subsection \<open>Items\<close>

datatype item = Run string | Reading string | Wait string | Gate string string

definition GATE_KINDS :: "string list" where "GATE_KINDS = [''until'', ''prompt'', ''caught'', ''hpstop'']"

text \<open>\<open>compiles\<close> stands for \<open>re.compile\<close> of a pattern that the command line gives.\<close>

definition parse_item :: "(string \<Rightarrow> bool) \<Rightarrow> string \<Rightarrow> card_refused + item" where
  "parse_item compiles it =
     (case lit ''wait:'' it of
        Some nm \<Rightarrow> if NAME_RE nm then Inr (Wait nm) else Inl (Bad_wait it)
      | None \<Rightarrow>
     (case lit ''gate:'' it of
        Some body \<Rightarrow>
          (if CHR '':'' \<notin> set body then Inl (Bad_gate it)
           else let nm = last (split_on (CHR '':'') body); kind = take (length body - length nm - 1) body in
             if \<not> NAME_RE nm then Inl (Bad_gate_name it)
             else case lit ''grep='' kind of
               Some rx \<Rightarrow> if rx = [] then Inl (Empty_grep it) else if \<not> compiles rx then Inl (Bad_pattern it) else Inr (Gate kind nm)
             | None \<Rightarrow> if kind \<notin> set GATE_KINDS then Inl (Bad_gate_kind it) else Inr (Gate kind nm))
      | None \<Rightarrow>
     (if it \<noteq> [] \<and> last it = CHR ''?''
      then (if NAME_RE (butlast it) then Inr (Reading (butlast it)) else Inl (Bad_reading it))
      else if NAME_RE it then Inr (Run it) else Inl (Bad_item it))))"

record card_args =
  a_card :: "string option"
  a_dry :: bool
  a_log :: "string option"
  a_self_test :: bool
  a_items :: "string list"

fun named_once :: "(string \<Rightarrow> bool) \<Rightarrow> string list \<Rightarrow> string list \<Rightarrow> card_refused + unit" where
  "named_once compiles seen [] = Inr ()"
| "named_once compiles seen (it # its) =
     sbind (parse_item compiles it) (\<lambda>x.
       case x of
         Wait _ \<Rightarrow> named_once compiles seen its
       | Gate _ _ \<Rightarrow> named_once compiles seen its
       | Run nm \<Rightarrow> if nm \<in> set seen then Inl (Named_twice nm) else named_once compiles (nm # seen) its
       | Reading nm \<Rightarrow> if nm \<in> set seen then Inl (Named_twice nm) else named_once compiles (nm # seen) its)"

text \<open>An option that is not given and one that is empty are the same to the refusals.\<close>

definition given :: "string option \<Rightarrow> bool" where "given x \<longleftrightarrow> x \<noteq> None \<and> x \<noteq> Some []"

definition refuse_args :: "(string \<Rightarrow> bool) \<Rightarrow> card_args \<Rightarrow> card_refused + unit" where
  "refuse_args compiles a =
     (if a_self_test a
      then (if given (a_card a) \<or> a_items a \<noteq> [] \<or> a_dry a \<or> given (a_log a) then Inl Self_test_args else Inr ())
      else if \<not> given (a_card a) then Inl No_card
      else if a_items a = [] then Inl No_items
      else if \<not> a_dry a \<and> \<not> given (a_log a) then Inl No_log
      else named_once compiles [] (a_items a))"

subsection \<open>Expansion replaces whole words\<close>

text \<open>The specification: the text cut into maximal words, a word that is a name replaced by its body.\<close>

function subst_words :: "string \<Rightarrow> macros \<Rightarrow> string \<Rightarrow> card_refused + string" where
  "subst_words cmd table [] = Inr []"
| "subst_words cmd table (c # s) =
     (if \<not> in_word c then sbind (subst_words cmd table s) (\<lambda>t. Inr (c # t))
      else let w = takeWhile in_word (c # s); r = dropWhile in_word s in
        case map_of table w of
          None \<Rightarrow> sbind (subst_words cmd table r) (\<lambda>t. Inr (w @ t))
        | Some m \<Rightarrow> sbind (use_macro cmd w m r) (\<lambda>(body, k). sbind (subst_words cmd table (drop k r)) (\<lambda>t. Inr (body @ t))))"
  by pat_completeness auto
termination
  by (relation "measure (\<lambda>(cmd, table, s). length s)")
    (auto simp: le_imp_less_Suc length_dropWhile_le diff_le_self intro: le_less_trans [OF diff_le_self])

declare subst_words.simps(2) [simp del]

definition names_ok :: "macros \<Rightarrow> bool" where
  "names_ok table \<longleftrightarrow> (\<forall>n \<in> fst ` set table. n \<noteq> [] \<and> list_all in_word n)"

lemma name_in_word: "upper_char c \<or> is_digit c \<Longrightarrow> in_word c"
  by (auto simp: upper_char_def in_word_def word_char_def is_digit_def Let_def)

lemma MACRO_RE_name: "MACRO_RE s = Some (n, p, b, r) \<Longrightarrow> n \<noteq> [] \<and> list_all in_word n"
  by (auto simp: MACRO_RE_def Let_def list_all_iff case_prod_unfold name_in_word dest!: set_takeWhileD split: if_splits)

lemma macro_scan_names: "(n, m) \<in> set (macro_scan bol line s) \<Longrightarrow> n \<noteq> [] \<and> list_all in_word n"
proof (induction "length s" arbitrary: bol line s rule: less_induct)
  case less
  show ?case
  proof (cases "if bol then MACRO_RE s else None")
    case None
    have "(n, m) \<in> set (case s of [] \<Rightarrow> [] | c # s' \<Rightarrow> macro_scan (c = CHR 0x0A) (if c = CHR 0x0A then Suc line else line) s')"
      using less.prems unfolding macro_scan.simps [of bol line s] None by simp
    then obtain c s' where s: "s = c # s'" "(n, m) \<in> set (macro_scan (c = CHR 0x0A) (if c = CHR 0x0A then Suc line else line) s')"
      by (cases s) simp_all
    show ?thesis by (rule less.hyps [OF _ s(2)]) (simp add: s(1))
  next
    case (Some x)
    obtain nm p body r where x: "x = (nm, p, body, r)" by (cases x)
    have e: "MACRO_RE s = Some (nm, p, body, r)" using Some x by (simp split: if_splits)
    have "(n, m) = (nm, \<lparr>m_param = p, m_body = body, m_line = line\<rparr>)
        \<or> (n, m) \<in> set (macro_scan False (line + newlines (take (length s - length r) s)) r)"
      using less.prems unfolding macro_scan.simps [of bol line s] Some x by simp
    then show ?thesis using MACRO_RE_name [OF e] less.hyps [OF MACRO_RE_shorter [OF e]] by blast
  qed
qed

lemma macro_table_names: "macro_table t ms = Inr t' \<Longrightarrow> fst ` set t' \<subseteq> fst ` set t \<union> fst ` set ms"
  by (induction t ms rule: macro_table.induct) (auto split: option.splits)

lemma macros_names_ok:
  assumes "macros text = Inr table"
  shows "names_ok table"
proof -
  have "fst ` set table \<subseteq> fst ` set (macro_scan True 1 text)"
    using macro_table_names [of "[]" "macro_scan True 1 text" table] assms by (simp add: macros_def)
  moreover have "\<forall>n \<in> fst ` set (macro_scan True 1 text). n \<noteq> [] \<and> list_all in_word n"
    using macro_scan_names by fastforce
  ultimately show ?thesis unfolding names_ok_def by blast
qed

lemma macro_table_distinct: "macro_table t ms = Inr t' \<Longrightarrow> distinct (map fst t) \<Longrightarrow> distinct (map fst t')"
  by (induction t ms rule: macro_table.induct) (auto simp: map_of_eq_None_iff split: option.splits)

lemma set_names_of [simp]: "set (names_of table) = fst ` set table"
  by (simp add: names_of_def)

text \<open>A name found at the start of a word is the whole word.\<close>

lemma bounded_prefix:
  assumes "list_all in_word n"
  shows "prefix n s \<and> bounded (drop (length n) s) \<longleftrightarrow> takeWhile in_word s = n"
proof
  assume a: "prefix n s \<and> bounded (drop (length n) s)"
  then obtain r where "s = n @ r" by (auto simp: prefix_def)
  then show "takeWhile in_word s = n" using a assms by (cases r) (auto simp: bounded_def list_all_iff takeWhile_append)
next
  assume a: "takeWhile in_word s = n"
  have "s = n @ dropWhile in_word s" using a takeWhile_dropWhile_id [of in_word s] by simp
  moreover have "bounded (dropWhile in_word s)"
    using hd_dropWhile [of in_word s] by (cases "dropWhile in_word s") (simp_all add: bounded_def del: dropWhile_eq_Nil_conv)
  ultimately show "prefix n s \<and> bounded (drop (length n) s)" by (metis append_eq_conv_conj prefixI)
qed

lemma find_macro_word:
  assumes "names_ok table"
  shows "find_macro (names_of table) s = (if takeWhile in_word s \<in> fst ` set table then Some (takeWhile in_word s) else None)"
proof -
  have "find_macro (names_of table) s = find (\<lambda>n. takeWhile in_word s = n) (names_of table)"
    unfolding find_macro_def using assms bounded_prefix by (intro find_cong) (auto simp: names_ok_def)
  moreover have "find (\<lambda>n. w = n) ns = (if w \<in> set ns then Some w else None)" for w :: string and ns
    by (induction ns) auto
  ultimately show ?thesis by simp
qed

lemma space_not_in_word: "py_space c \<Longrightarrow> \<not> in_word c"
  by (auto simp: py_space_def in_word_def word_char_def is_digit_def Let_def)

lemma sbind_assoc: "sbind (sbind x f) g = sbind x (\<lambda>y. sbind (f y) g)"
  by (cases x) simp_all

lemma sbind_same: "sbind x Inr = x"
  by (cases x) simp_all

lemma expand_inside:
  "list_all in_word w \<Longrightarrow>
    expand_loop cmd table names False (w @ r) = sbind (expand_loop cmd table names False r) (\<lambda>t. Inr (w @ t))"
  by (induction w) (simp_all add: expand_loop.simps(2) sbind_assoc sbind_same)

lemma use_macro_stops:
  assumes "use_macro cmd w m r = Inr (body, k)" and "r = [] \<or> \<not> in_word (hd r)"
  shows "drop k r = [] \<or> \<not> in_word (hd (drop k r))"
proof (cases "m_param m")
  case None
  then show ?thesis using assms by (auto simp: use_macro_def split: if_splits)
next
  case (Some p)
  define sp where "sp = takeWhile blank r"
  define a where "a = takeWhile (\<lambda>c. \<not> py_space c) (drop (length sp) r)"
  have "k = length sp + length a"
    using assms(1) Some by (auto simp: use_macro_def sp_def a_def Let_def split: if_splits)
  then have "drop k r = drop (length a) (drop (length sp) r)" by (simp add: add.commute)
  also have "\<dots> = dropWhile (\<lambda>c. \<not> py_space c) (drop (length sp) r)" by (simp add: a_def dropWhile_eq_drop)
  finally have d: "drop k r = dropWhile (\<lambda>c. \<not> py_space c) (drop (length sp) r)" .
  show ?thesis
  proof (cases "drop k r = []")
    case False
    then have "py_space (hd (drop k r))" using hd_dropWhile [of "\<lambda>c. \<not> py_space c"] by (simp only: d simp_thms)
    then show ?thesis using space_not_in_word by blast
  qed simp
qed

lemma expand_subst:
  assumes "names_ok table"
  shows "at \<or> s = [] \<or> \<not> in_word (hd s) \<Longrightarrow> expand_loop cmd table (names_of table) at s = subst_words cmd table s"
proof (induction "length s" arbitrary: at s rule: less_induct)
  case less
  show ?case
  proof (cases s)
    case (Cons c s')
    have no_empty: "[] \<notin> fst ` set table" using assms by (auto simp: names_ok_def)
    show ?thesis
    proof (cases "in_word c")
      case False
      then have "takeWhile in_word s = []" by (simp add: Cons)
      then have "(if at then find_macro (names_of table) (c # s') else None) = None"
        using find_macro_word [OF assms, of s] no_empty by (simp add: Cons)
      moreover have "expand_loop cmd table (names_of table) True s' = subst_words cmd table s'"
        by (rule less.hyps) (simp_all add: Cons)
      ultimately show ?thesis using False by (simp add: Cons expand_loop.simps(2) subst_words.simps(2))
    next
      case True
      define w where "w = takeWhile in_word s"
      define r where "r = dropWhile in_word s'"
      have at: "at" using less.prems True by (simp add: Cons)
      have s: "s = w @ r" "w = c # takeWhile in_word s'" using True by (simp_all add: w_def r_def Cons)
      have r: "r = [] \<or> \<not> in_word (hd r)" using hd_dropWhile [of in_word s'] unfolding r_def by blast
      have len: "length r < length s" using s by simp
      show ?thesis
      proof (cases "map_of table w")
        case None
        then have "w \<notin> fst ` set table" by (simp add: map_of_eq_None_iff)
        then have "find_macro (names_of table) (c # s') = None" using find_macro_word [OF assms, of s] by (simp add: Cons w_def)
        moreover have "expand_loop cmd table (names_of table) False s' =
            sbind (expand_loop cmd table (names_of table) False r) (\<lambda>t. Inr (takeWhile in_word s' @ t))"
          using expand_inside [of "takeWhile in_word s'" cmd table "names_of table" r]
          by (simp add: r_def list_all_iff) (meson set_takeWhileD)
        moreover have "expand_loop cmd table (names_of table) False r = subst_words cmd table r"
          by (rule less.hyps [OF len]) (use r in simp)
        ultimately show ?thesis
          using True None at by (simp add: Cons expand_loop.simps(2) subst_words.simps(2) sbind_assoc w_def r_def)
      next
        case (Some m)
        then have "w \<in> fst ` set table" by (metis map_of_eq_None_iff option.distinct(1))
        then have f: "find_macro (names_of table) (c # s') = Some w" using find_macro_word [OF assms, of s] by (simp add: Cons w_def)
        have d: "drop (length w + k - 1) s' = drop k r" "drop (length w) (c # s') = r" for k
        proof -
          have "drop (length w + k) s = drop k r" "drop (length w) s = r" by (simp_all add: s(1))
          then show "drop (length w + k - 1) s' = drop k r" "drop (length w) (c # s') = r"
            by (simp_all add: Cons s(2))
        qed
        have step: "expand_loop cmd table (names_of table) b (drop k r) = subst_words cmd table (drop k r)"
          if "use_macro cmd w m r = Inr (body, k)" for b body k
          by (rule less.hyps) (use len use_macro_stops [OF that r] in auto)
        show ?thesis
        proof (cases "use_macro cmd w m r")
          case (Inr bk)
          obtain body k where bk: "bk = (body, k)" by (cases bk)
          show ?thesis
            using True Some at Inr step [of body k]
            unfolding Cons expand_loop.simps(2) subst_words.simps(2)
            by (simp only: if_True f option.case Some d bk sbind_simps prod.case step [OF Inr [unfolded bk]] Let_def
                w_def [unfolded Cons, symmetric] r_def [symmetric] simp_thms if_False)
        qed (use True Some at in \<open>simp add: Cons expand_loop.simps(2) subst_words.simps(2) f d, simp add: w_def r_def Cons\<close>)
      qed
    qed
  qed simp
qed

text \<open>
  C25. Expansion is the substitution of whole words: the search with its longest-first alternatives and its two lookarounds
  does what cutting the command into maximal words and replacing each word that is a macro's name does.
\<close>
theorem expand_is_word_substitution:
  assumes "macros text = Inr table"
  shows "expand cmd table = subst_words cmd table cmd"
proof (cases "table = []")
  case True
  have "subst_words cmd [] s = Inr s" for s
    by (induction cmd "[] :: macros" s rule: subst_words.induct) (simp_all add: subst_words.simps(2))
  then show ?thesis by (simp add: True expand_def)
next
  case False
  then show ?thesis using expand_subst [OF macros_names_ok [OF assms]] by (simp add: expand_def)
qed

definition sample_card :: string where
  "sample_card = join [CHR 0x0A]
     [''# card'', tick # ''HP'' @ [tick] @ '' = '' @ [tick] @ ''python3 x'' @ [tick], ''## The cells'', fence_mark,
      ''HOST b/A1 :: HP run; echo P1-HP'', ''CAP --out b/A2 --port p'', fence_mark]"

lemma expand_is_word_substitution_witness:
  "macros sample_card = Inr [(''HP'', \<lparr>m_param = None, m_body = ''python3 x'', m_line = 2\<rparr>)] \<and>
   expand ''HP run; echo P1-HP'' [(''HP'', \<lparr>m_param = None, m_body = ''python3 x'', m_line = 2\<rparr>)] = Inr ''python3 x run; echo P1-HP''"
proof -
  have m: "macros sample_card = Inr [(''HP'', \<lparr>m_param = None, m_body = ''python3 x'', m_line = 2\<rparr>)]" by code_simp
  have "subst_words ''HP run; echo P1-HP'' [(''HP'', \<lparr>m_param = None, m_body = ''python3 x'', m_line = 2\<rparr>)] ''HP run; echo P1-HP'' =
      Inr ''python3 x run; echo P1-HP''"
    by code_simp
  then show ?thesis using m expand_is_word_substitution [OF m] by simp
qed

subsection \<open>What is checked is what is run\<close>

lemma word_no_space: "p = takeWhile (\<lambda>c. \<not> py_space c) s \<Longrightarrow> list_all (\<lambda>c. \<not> py_space c) p"
  by (auto simp: list_all_iff dest: set_takeWhileD)

lemma HOST_LINE_RE_form:
  assumes "HOST_LINE_RE l = Some (k, p, c)"
  shows "l = k @ '' '' @ p @ '' :: '' @ c \<and> k \<in> {''HOST'', ''HOST&''} \<and> p \<noteq> [] \<and> list_all (\<lambda>c. \<not> py_space c) p"
proof -
  obtain s where s: "l = ''HOST'' @ s" using assms by (auto simp: HOST_LINE_RE_def lit_iff split: option.splits)
  define u where "u = (if take 1 s = ''&'' then tl s else s)"
  have k: "k = (if take 1 s = ''&'' then ''HOST&'' else ''HOST'')" "take 1 u = '' ''" "p = takeWhile (\<lambda>c. \<not> py_space c) (tl u)" "p \<noteq> []"
    and r: "lit '' :: '' (dropWhile (\<lambda>c. \<not> py_space c) (tl u)) = Some c"
    using assms by (auto simp: HOST_LINE_RE_def s u_def lit_def Let_def split: if_splits)
  have "tl u = p @ '' :: '' @ c" using r k(3) by (metis lit_iff takeWhile_dropWhile_id)
  moreover have "u = CHR '' '' # tl u" using k(2) by (cases u) auto
  moreover have "l = k @ u" using k(1) s by (cases s) (auto simp: u_def)
  ultimately show ?thesis using k word_no_space [OF k(3)] by auto
qed

lemma find_sub_here:
  assumes "\<And>i. i < length a \<Longrightarrow> \<not> prefix p (drop i (a @ p @ r))" and "p \<noteq> []"
  shows "find_sub p (a @ p @ r) = Some (length a)"
  using assms(1)
proof (induction a)
  case Nil
  obtain x xs where "p = x # xs" using assms(2) by (cases p) auto
  then show ?case by simp
next
  case (Cons x a)
  have "\<not> prefix p (x # a @ p @ r)" using Cons.prems [of 0] by simp
  moreover have "find_sub p (a @ p @ r) = Some (length a)"
    by (rule Cons.IH) (use Cons.prems [of "Suc _"] in auto)
  ultimately show ?case by simp
qed

lemma nth_prefix: "prefix p s \<Longrightarrow> j < length p \<Longrightarrow> s ! j = p ! j"
  by (auto simp: prefix_def nth_append)

text \<open>The first \<open>::\<close> of a HOST line is the one behind its prefix, unless the prefix is itself \<open>::\<close>.\<close>

lemma first_separator:
  assumes k: "list_all (\<lambda>c. \<not> py_space c) k" and p: "list_all (\<lambda>c. \<not> py_space c) p" "p \<noteq> []" "p \<noteq> ''::''"
  shows "find_sub '' :: '' (k @ '' '' @ p @ '' :: '' @ c) = Some (length k + 1 + length p)"
proof -
  let ?s = "k @ '' '' @ p @ '' :: '' @ c"
  have sp: "py_space (CHR '' '')" by (simp add: py_space_def)
  have no: "\<not> prefix '' :: '' (drop i ?s)" if "i < length (k @ '' '' @ p)" for i
  proof
    assume a: "prefix '' :: '' (drop i ?s)"
    have at: "?s ! (i + j) = '' :: '' ! j" if "j < 4" for j
    proof -
      have "drop i ?s ! j = '' :: '' ! j" by (rule nth_prefix [OF a]) (use that in simp)
      moreover have "i \<le> length ?s" using \<open>i < length (k @ '' '' @ p)\<close> by simp
      ultimately show ?thesis by (simp only: nth_drop)
    qed
    have i: "?s ! i = CHR '' ''" using at [of 0] by simp
    have "i = length k"
    proof (rule ccontr)
      assume n: "i \<noteq> length k"
      consider "i < length k" | "length k < i" using n by linarith
      then show False
      proof cases
        case 1
        then show False using i k sp by (auto simp: nth_append list_all_length)
      next
        case 2
        then obtain j where j: "i = length k + Suc j" using less_imp_Suc_add by force
        then have "j < length p" using that by simp
        moreover from this have "?s ! i = p ! j" by (simp add: j nth_append)
        ultimately show False using i p(1) sp by (auto simp: list_all_length)
      qed
    qed
    then have q: "(p @ '' :: '' @ c) ! 0 = CHR '':''" "(p @ '' :: '' @ c) ! 1 = CHR '':''" "(p @ '' :: '' @ c) ! 2 = CHR '' ''"
      using at [of 1] at [of 2] at [of 3] by (simp_all add: nth_append nth_Cons')
    obtain x y where "p = x # y" using p(2) by (cases p) auto
    moreover have "y \<noteq> []" using q(2) calculation by (auto simp: nth_append)
    moreover obtain z w where "y = z # w" using calculation(2) by (cases y) auto
    moreover have "w = []" using q(3) p(1) sp calculation by (cases w) auto
    ultimately show False using q p(3) by simp
  qed
  have "find_sub '' :: '' ((k @ '' '' @ p) @ '' :: '' @ c) = Some (length (k @ '' '' @ p))"
    by (rule find_sub_here) (use no in auto)
  then show ?thesis by simp
qed

lemma cell_text_host:
  assumes "cell_of n l = Inr c" "c_kind c \<noteq> ''CAP''"
  shows "\<exists>cmd. HOST_LINE_RE l = Some (c_kind c, c_prefix c, cmd) \<and> cell_text c = cmd"
proof -
  obtain k p where h: "HOST_CELL_RE l = Some (k, p)" "NAME_RE (last_field p)"
    and c: "c = \<lparr>c_name = last_field p, c_kind = k, c_prefix = p, c_line = l, c_lineno = n\<rparr>"
    using assms by (auto simp: cell_of_def Let_def split: option.splits if_splits)
  then obtain cmd where m: "HOST_LINE_RE l = Some (k, p, cmd)"
    by (auto simp: HOST_CELL_RE_def split: option.splits if_splits)
  note f = HOST_LINE_RE_form [OF m]
  have "p \<noteq> ''::''"
  proof
    assume "p = ''::''"
    then have "last_field p = ''::''" by (simp add: last_field_def)
    then show False using h(2) by (simp add: NAME_RE_def name_char_def upper_char_def is_digit_def)
  qed
  moreover have "list_all (\<lambda>c. \<not> py_space c) k" using f by (auto simp: py_space_def)
  ultimately have "find_sub '' :: '' l = Some (length k + 1 + length p)"
    using f first_separator [of k p cmd] by auto
  moreover have "drop (length k + 1 + length p + 4) l = cmd"
  proof -
    have n: "length k + 1 + length p + 4 = length (k @ '' '' @ p @ '' :: '')" by simp
    have "l = (k @ '' '' @ p @ '' :: '') @ cmd" using f by simp
    then show ?thesis unfolding n by (metis append_eq_conv_conj)
  qed
  ultimately show ?thesis using m assms(2) by (simp add: c cell_text_def)
qed

text \<open>The cells come from the lines of the section, and those from the lines of the card.\<close>

lemma fence_loop_cells:
  assumes "fence_loop fence out n ls = Inr out'" and "distinct (map c_name out)"
  shows "distinct (map c_name out') \<and>
    (\<forall>c \<in> set out'. c \<in> set out \<or> (\<exists>j < length ls. cell_of (n + j) (ls ! j) = Inr c))"
  using assms
proof (induction ls arbitrary: fence out n)
  case Nil
  then show ?case by (auto split: option.splits)
next
  case (Cons l ls)
  have later: "\<exists>j < length (l # ls). cell_of (n + j) ((l # ls) ! j) = Inr c"
    if "\<exists>j < length ls. cell_of (Suc n + j) (ls ! j) = Inr c" for c
    using that by (metis Suc_less_eq add_Suc_shift length_Cons nth_Cons_Suc)
  show ?case
  proof (cases "\<exists>f. fence_loop f out (Suc n) ls = Inr out'")
    case True
    then obtain f where "fence_loop f out (Suc n) ls = Inr out'" by blast
    from Cons.IH [OF this Cons.prems(2)] later show ?thesis by blast
  next
    case False
    obtain k info where f: "fence = Some (info, k)" "rstrip l \<noteq> fence_mark" "info = []"
      using Cons.prems(1) False by (auto split: option.splits if_splits prod.splits)
    then obtain c where c: "cell_of n l = Inr c" "find (\<lambda>d. c_name d = c_name c) out = None"
      and r: "fence_loop fence (out @ [c]) (Suc n) ls = Inr out'"
      using Cons.prems(1) by (auto simp: sbind_Inr split: option.splits)
    have "distinct (map c_name (out @ [c]))" using Cons.prems(2) c(2) by (auto simp: find_None_iff)
    from Cons.IH [OF r this] later c(1) show ?thesis by fastforce
  qed
qed

lemma cells_section_lines:
  assumes "cells_section text = Inr (base, ls)" "j < length ls" "cell_of n (ls ! j) = Inr c"
  shows "1 \<le> base \<and> base - 1 + j < length (split_on (CHR 0x0A) text) \<and> split_on (CHR 0x0A) text ! (base - 1 + j) = ls ! j"
proof -
  let ?L = "split_on (CHR 0x0A) text"
  obtain h where h: "filter (\<lambda>i. section_head (?L ! i)) [0..<length ?L] = [h]" "base = h + 1"
    and ls: "ls = ?L ! h # takeWhile (\<lambda>l. \<not> next_section l) (drop (Suc h) ?L)
      @ (if Suc h + length (takeWhile (\<lambda>l. \<not> next_section l) (drop (Suc h) ?L)) < length ?L then [[]] else [])"
    using assms(1) by (auto simp: cells_section_def Let_def split: list.splits)
  have "h \<in> set (filter (\<lambda>i. section_head (?L ! i)) [0..<length ?L])" by (simp add: h(1))
  then have hl: "h < length ?L" by simp
  let ?b = "takeWhile (\<lambda>l. \<not> next_section l) (drop (Suc h) ?L)"
  have "cell_of n [] = Inl (Not_a_cell n [])" by (simp add: cell_of_def CAP_CELL_RE_def HOST_CELL_RE_def HOST_LINE_RE_def lit_def)
  then have "ls ! j \<noteq> []" using assms(3) by auto
  then consider "j = 0" | i where "j = Suc i" "i < length ?b"
    using assms(2) by (cases j) (auto simp: ls nth_append split: if_splits)
  then show ?thesis
  proof cases
    case 2
    have "length ?b \<le> length (drop (Suc h) ?L)" by (rule length_takeWhile_le)
    then have "Suc h + i < length ?L" using 2(2) by simp
    moreover have "?b ! i = drop (Suc h) ?L ! i" using 2(2) by (rule takeWhile_nth)
    ultimately show ?thesis using 2 hl h(2) by (simp add: ls nth_append)
  qed (use hl h(2) in \<open>simp add: ls\<close>)
qed

lemma cell_of_line: "cell_of n l = Inr c \<Longrightarrow> c_line c = l \<and> c_lineno c = n \<and> NAME_RE (c_name c) \<and> c_name c = last_field (c_prefix c)"
  by (auto simp: cell_of_def Let_def split: option.splits if_splits)

lemma traverse_total: "\<forall>x \<in> set xs. \<exists>y. f x = Inr y \<Longrightarrow> \<exists>ys. traverse f xs = Inr ys \<and> (\<forall>x \<in> set xs. \<exists>y \<in> set ys. f x = Inr y)"
  by (induction xs) auto

lemma host_lines_hold:
  assumes "CHR 0x0D \<notin> set text"
  shows "\<exists>hs. host_lines text = Inr hs \<and>
    (\<forall>i < length (split_on (CHR 0x0A) text). \<forall>k p c. HOST_LINE_RE (split_on (CHR 0x0A) text ! i) = Some (k, p, c) \<longrightarrow>
      (\<exists>h \<in> set hs. h_kind h = k \<and> h_prefix h = p \<and> h_cmd h = c \<and> h_lineno h = Suc i \<and> h_name h = last_field p))"
proof -
  let ?L = "split_on (CHR 0x0A) text"
  have cr: "CHR 0x0D \<notin> set l" if "l \<in> set ?L" for l
    using assms split_on_subset [OF that] by blast
  have "\<exists>y. host_line_of nl = Inr y" if nl: "nl \<in> set (enumerate 1 ?L)" for nl
  proof -
    have "snd nl \<in> set ?L" using nl by (metis in_set_zip enumerate_eq_zip snd_conv nth_mem)
    then show ?thesis
    proof (cases "HOST_LINE_RE (snd nl)")
      case (Some x)
      obtain k p c where x: "x = (k, p, c)" by (cases x)
      then have "set c \<subseteq> set (snd nl)" using HOST_LINE_RE_form [of "snd nl" k p c] Some by auto
      then show ?thesis using cr [OF \<open>snd nl \<in> set ?L\<close>] Some x by (auto simp: host_line_of_def)
    qed (simp add: host_line_of_def)
  qed
  then obtain hss where hss: "traverse host_line_of (enumerate 1 ?L) = Inr hss"
    "\<forall>nl \<in> set (enumerate 1 ?L). \<exists>y \<in> set hss. host_line_of nl = Inr y"
    using traverse_total [of "enumerate 1 ?L" host_line_of] by blast
  have "\<exists>h \<in> set (concat hss). h_kind h = k \<and> h_prefix h = p \<and> h_cmd h = c \<and> h_lineno h = Suc i \<and> h_name h = last_field p"
    if i: "i < length ?L" "HOST_LINE_RE (?L ! i) = Some (k, p, c)" for i k p c
  proof -
    have "(Suc i, ?L ! i) \<in> set (enumerate 1 ?L)" using i(1) by (auto simp: in_set_enumerate_eq)
    then obtain y where y: "y \<in> set hss" "host_line_of (Suc i, ?L ! i) = Inr y" using hss(2) by blast
    then have "y = [\<lparr>h_kind = k, h_prefix = p, h_name = last_field p, h_cmd = c, h_lineno = Suc i\<rparr>]"
      using i(2) by (auto simp: host_line_of_def split: if_splits)
    then show ?thesis using y(1) by force
  qed
  then show ?thesis using hss(1) by (auto simp: host_lines_def)
qed

text \<open>
  The cells of an accepted card have one name each; every cell is a line of the card, at the line number it carries; and every
  HOST cell is one of the HOST lines that the static check sweeps, with the very command the runner will expand.
\<close>
theorem checked_is_run:
  assumes "fenced_cells text = Inr cells"
  shows "cells \<noteq> [] \<and> distinct (map c_name cells) \<and> (\<exists>hs. host_lines text = Inr hs \<and>
    (\<forall>c \<in> set cells. 1 \<le> c_lineno c \<and> c_lineno c \<le> length (split_on (CHR 0x0A) text)
      \<and> split_on (CHR 0x0A) text ! (c_lineno c - 1) = c_line c \<and> NAME_RE (c_name c)
      \<and> (c_kind c \<noteq> ''CAP'' \<longrightarrow> (\<exists>h \<in> set hs. h_lineno h = c_lineno c \<and> h_kind h = c_kind c \<and> h_name h = c_name c
          \<and> h_prefix h = c_prefix c \<and> h_cmd h = cell_text c))))"
proof -
  obtain base ls where ls: "no_cr text = Inr ()" "cells_section text = Inr (base, ls)" "fence_loop None [] base ls = Inr cells" "cells \<noteq> []"
    using assms by (auto simp: fenced_cells_def sbind_Inr split: if_splits)
  have cr: "CHR 0x0D \<notin> set text" using ls(1) by (auto simp: no_cr_def split: if_splits)
  obtain hs where hs: "host_lines text = Inr hs"
    "\<forall>i < length (split_on (CHR 0x0A) text). \<forall>k p c. HOST_LINE_RE (split_on (CHR 0x0A) text ! i) = Some (k, p, c) \<longrightarrow>
      (\<exists>h \<in> set hs. h_kind h = k \<and> h_prefix h = p \<and> h_cmd h = c \<and> h_lineno h = Suc i \<and> h_name h = last_field p)"
    using host_lines_hold [OF cr] by blast
  note cells = fence_loop_cells [OF ls(3)]
  have one: "1 \<le> c_lineno c \<and> c_lineno c \<le> length (split_on (CHR 0x0A) text)
      \<and> split_on (CHR 0x0A) text ! (c_lineno c - 1) = c_line c \<and> NAME_RE (c_name c)
      \<and> (c_kind c \<noteq> ''CAP'' \<longrightarrow> (\<exists>h \<in> set hs. h_lineno h = c_lineno c \<and> h_kind h = c_kind c \<and> h_name h = c_name c
          \<and> h_prefix h = c_prefix c \<and> h_cmd h = cell_text c))" if c: "c \<in> set cells" for c
  proof -
    obtain j where j: "j < length ls" "cell_of (base + j) (ls ! j) = Inr c" using cells c by auto
    note l = cells_section_lines [OF ls(2) j] and d = cell_of_line [OF j(2)]
    have i: "base - 1 + j < length (split_on (CHR 0x0A) text)" "Suc (base - 1 + j) = c_lineno c" "c_lineno c - 1 = base - 1 + j"
      using l d by auto
    have "\<exists>h \<in> set hs. h_lineno h = c_lineno c \<and> h_kind h = c_kind c \<and> h_name h = c_name c
          \<and> h_prefix h = c_prefix c \<and> h_cmd h = cell_text c" if k: "c_kind c \<noteq> ''CAP''"
    proof -
      obtain cmd where "HOST_LINE_RE (ls ! j) = Some (c_kind c, c_prefix c, cmd)" "cell_text c = cmd"
        using cell_text_host [OF j(2) k] by blast
      then show ?thesis using hs(2) i l d by (metis (no_types, lifting))
    qed
    then show ?thesis using l d i by auto
  qed
  show ?thesis using ls(4) cells hs(1) one by auto
qed

lemma checked_is_run_witness:
  "\<exists>cells. fenced_cells sample_card = Inr cells \<and> map c_name cells = [''A1'', ''A2''] \<and> distinct (map c_name cells)"
proof -
  define cells where "cells = (case fenced_cells sample_card of Inl _ \<Rightarrow> [] | Inr cs \<Rightarrow> cs)"
  have "map c_name cells = [''A1'', ''A2'']" unfolding cells_def by code_simp
  moreover have c: "fenced_cells sample_card = Inr cells"
    using calculation by (cases "fenced_cells sample_card") (simp_all add: cells_def)
  ultimately show ?thesis using checked_is_run [OF c] by (intro exI [of _ cells]) simp
qed

end
