(* ===== verification/CardShell.thy ===== *)
theory CardShell
  imports CardText
begin

text \<open>
  \<open>tools/cardrun.py\<close>, the shell reading: words with their quoting, tokens, the simple commands of a command line, the
  wrappers around a program, and which program a background cell starts.
\<close>

subsection \<open>Words\<close>

record word =
  w_text :: string
  w_raw :: string
  w_quoted :: bool
  w_expands :: bool
  w_globs :: bool
  w_placeholder :: bool

definition OPS :: "string list" where
  "OPS = [''&>>'', ''<<<'', ''<<-'', ''&&'', ''||'', '';;'', ''|&'', ''>>'', ''<<'', ''<>'', ''<&'', ''>&'', ''>|'', ''&>'',
     '';'', ''&'', ''|'', ''('', '')'', ''<'', ''>'']"

definition REDIR_OPS :: "string list" where
  "REDIR_OPS = [''&>>'', ''<<<'', ''<<-'', ''>>'', ''<<'', ''<>'', ''<&'', ''>&'', ''>|'', ''&>'', ''<'', ''>'']"

definition op_at :: "string \<Rightarrow> string option" where "op_at s = find (\<lambda>p. prefix p s) OPS"

definition quote1 :: char where "quote1 = CHR 0x27"
definition quote2 :: char where "quote2 = CHR 0x22"
definition backslash :: char where "backslash = CHR 0x5C"

definition alpha_char :: "char \<Rightarrow> bool" where
  "alpha_char c \<longleftrightarrow> upper_char c \<or> (let n = (of_char c :: nat) in 97 \<le> n \<and> n \<le> 122)"

text \<open>The text up to a character, and the text behind it.\<close>

definition upto :: "char \<Rightarrow> string \<Rightarrow> (string \<times> string) option" where
  "upto q s = (if q \<in> set s then Some (takeWhile (\<lambda>c. c \<noteq> q) s, tl (dropWhile (\<lambda>c. c \<noteq> q) s)) else None)"

lemma upto_shorter: "upto q s = Some (a, r) \<Longrightarrow> s = a @ q # r"
proof -
  assume a: "upto q s = Some (a, r)"
  then have "dropWhile (\<lambda>c. c \<noteq> q) s \<noteq> []" by (auto simp: upto_def split: if_splits)
  then have "dropWhile (\<lambda>c. c \<noteq> q) s = q # r"
    using a hd_dropWhile [of "\<lambda>c. c \<noteq> q" s] by (cases "dropWhile (\<lambda>c. c \<noteq> q) s") (auto simp: upto_def split: if_splits)
  then show ?thesis using a takeWhile_dropWhile_id [of "\<lambda>c. c \<noteq> q" s] by (auto simp: upto_def split: if_splits)
qed

text \<open>What a parenthesis encloses, up to and with the one that closes it, and the rest.\<close>

function close_paren :: "nat \<Rightarrow> string \<Rightarrow> (string \<times> string) option" where
  "close_paren depth [] = None"
| "close_paren depth (c # s) =
     (if c = backslash then
        (case s of [] \<Rightarrow> None | d # s' \<Rightarrow> map_option (\<lambda>(a, r). (c # d # a, r)) (close_paren depth s'))
      else if c = quote1 \<or> c = quote2 then
        (case upto c s of None \<Rightarrow> None | Some (a, r) \<Rightarrow> map_option (\<lambda>(b, t). (c # a @ c # b, t)) (close_paren depth r))
      else if c = CHR '')'' \<and> depth \<le> 1 then Some ([c], s)
      else map_option (\<lambda>(a, r). (c # a, r))
        (close_paren (if c = CHR ''('' then Suc depth else if c = CHR '')'' then depth - 1 else depth) s))"
  by pat_completeness auto
termination by (relation "measure (\<lambda>(d, s). length s)") (auto dest: upto_shorter)

declare close_paren.simps(2) [simp del]

text \<open>Inside double quotes: the text, whether something expands, and what follows the closing quote.\<close>

function dquote :: "string \<Rightarrow> (string \<times> bool \<times> string) option" where
  "dquote [] = None"
| "dquote (d # s) =
     (if d = quote2 then Some ([], False, s)
      else if d = backslash \<and> s \<noteq> [] \<and> hd s \<in> {CHR ''$'', tick, quote2, backslash}
      then map_option (\<lambda>(b, e, r). (hd s # b, e, r)) (dquote (tl s))
      else map_option (\<lambda>(b, e, r). (d # b, e \<or> d = CHR ''$'' \<or> d = tick, r)) (dquote s))"
  by pat_completeness auto
termination by (relation "measure length") (auto simp: le_imp_less_Suc)

declare dquote.simps(2) [simp del]

lemma close_paren_split: "close_paren n s = Some (a, r) \<Longrightarrow> s = a @ r \<and> a \<noteq> []"
  by (induction n s arbitrary: a r rule: close_paren.induct)
    (auto simp: close_paren.simps(2) split: if_splits list.splits option.splits dest!: upto_shorter)

lemma dquote_shorter: "dquote s = Some (b, e, r) \<Longrightarrow> length r < length s"
proof (induction s arbitrary: b e r rule: dquote.induct)
  case (2 d s)
  show ?case
  proof (cases "d = quote2")
    case False
    then show ?thesis
    proof (cases "d = backslash \<and> s \<noteq> [] \<and> hd s \<in> {CHR ''$'', tick, quote2, backslash}")
      case True
      then obtain b' where "dquote (tl s) = Some (b', e, r)" using 2(3) False by (auto simp: dquote.simps(2))
      from 2(1) [OF False True this] show ?thesis by simp
    next
      case c: False
      then obtain b' e' where "dquote s = Some (b', e', r)" using 2(3) False by (auto simp: dquote.simps(2) split: if_splits)
      from 2(2) [OF False c this] show ?thesis by simp
    qed
  qed (use 2(3) in \<open>simp add: dquote.simps(2)\<close>)
qed simp

definition PLACEHOLDER_RE :: "string \<Rightarrow> (string \<times> string) option" where
  "PLACEHOLDER_RE s =
     (let w = takeWhile (\<lambda>c. alpha_char c \<or> is_digit c \<or> c = CHR ''_'' \<or> c = CHR ''-'') (tl s);
          r = dropWhile (\<lambda>c. alpha_char c \<or> is_digit c \<or> c = CHR ''_'' \<or> c = CHR ''-'') (tl s) in
      if take 1 s = ''<'' \<and> w \<noteq> [] \<and> alpha_char (hd w) \<and> take 1 r = ''>'' then Some (''<'' @ w @ ''>'', tl r) else None)"

lemma PLACEHOLDER_RE_split: "PLACEHOLDER_RE s = Some (m, r) \<Longrightarrow> s = m @ r \<and> m \<noteq> []"
proof -
  assume a: "PLACEHOLDER_RE s = Some (m, r)"
  define P where "P = (\<lambda>c. alpha_char c \<or> is_digit c \<or> c = CHR ''_'' \<or> c = CHR ''-'')"
  have h: "take 1 s = ''<''" "take 1 (dropWhile P (tl s)) = ''>''" "m = ''<'' @ takeWhile P (tl s) @ ''>''" "r = tl (dropWhile P (tl s))"
    using a by (auto simp: PLACEHOLDER_RE_def P_def Let_def split: if_splits)
  then have "dropWhile P (tl s) = CHR ''>'' # r" by (cases "dropWhile P (tl s)") auto
  then have "tl s = takeWhile P (tl s) @ CHR ''>'' # r" by (metis takeWhile_dropWhile_id)
  then show ?thesis using h by (cases s) auto
qed

definition WORD_END :: "char \<Rightarrow> bool" where
  "WORD_END c \<longleftrightarrow> c \<in> {CHR '' '', CHR 0x09, CHR 0x0A} \<union> set '';&|()<>''"

text \<open>The word so far: its text, its unquoted part, and what was seen in it.\<close>

record wacc =
  x_text :: string
  x_bare :: string
  x_quoted :: bool
  x_expands :: bool
  x_placeholder :: bool

definition plain :: "string \<Rightarrow> wacc \<Rightarrow> wacc" where
  "plain t x = x\<lparr>x_text := x_text x @ t, x_bare := x_bare x @ t\<rparr>"

definition quoted :: "string \<Rightarrow> wacc \<Rightarrow> wacc" where
  "quoted t x = x\<lparr>x_text := x_text x @ t, x_quoted := True\<rparr>"

definition expanding :: "bool \<Rightarrow> wacc \<Rightarrow> wacc" where
  "expanding e x = x\<lparr>x_expands := x_expands x \<or> e\<rparr>"

text \<open>One step of the loop: what it consumed and the word after it, or \<open>None\<close> at the end of the word.\<close>

definition word_piece :: "char \<Rightarrow> string \<Rightarrow> wacc \<Rightarrow> card_refused + (wacc \<times> string) option" where
  "word_piece c s x =
     (if c = CHR ''<'' then
        (case PLACEHOLDER_RE (c # s) of
           None \<Rightarrow> Inr None
         | Some (m, r) \<Rightarrow> Inr (Some ((plain m x)\<lparr>x_placeholder := True\<rparr>, r)))
      else if WORD_END c then Inr None
      else if c = quote1 then
        (case upto quote1 s of None \<Rightarrow> Inl Unclosed_quote | Some (a, r) \<Rightarrow> Inr (Some (quoted a x, r)))
      else if c = quote2 then
        (case dquote s of None \<Rightarrow> Inl Unclosed_quote | Some (b, e, r) \<Rightarrow> Inr (Some (expanding e (quoted b x), r)))
      else if c = backslash then Inr (Some (quoted (take 1 s) x, drop 1 s))
      else if c = CHR ''$'' \<and> take 1 s = ''('' then
        (case close_paren 0 s of None \<Rightarrow> Inl (Unclosed ''$('') | Some (a, r) \<Rightarrow> Inr (Some (expanding True (plain (c # a) x), r)))
      else if c = CHR ''$'' \<and> take 1 s = ''{'' then
        (case upto (CHR ''}'') s of None \<Rightarrow> Inl (Unclosed ''${'')
         | Some (a, r) \<Rightarrow> Inr (Some (expanding True (plain (c # a @ ''}'') x), r)))
      else if c = tick then
        (case upto tick s of None \<Rightarrow> Inl (Unclosed [tick]) | Some (a, r) \<Rightarrow> Inr (Some (expanding True (plain (c # a @ [tick]) x), r)))
      else Inr (Some (expanding (c = CHR ''$'') (plain [c] x), s)))"

lemma word_piece_shorter: "word_piece c s x = Inr (Some (y, r)) \<Longrightarrow> length r < Suc (length s)"
  by (auto simp: word_piece_def split: if_splits option.splits dest!: upto_shorter close_paren_split PLACEHOLDER_RE_split dquote_shorter)
    (metis length_Cons length_append less_add_same_cancel2 length_greater_0_conv)

function word_loop :: "string \<Rightarrow> wacc \<Rightarrow> card_refused + wacc \<times> string" where
  "word_loop [] x = Inr (x, [])"
| "word_loop (c # s) x =
     (case word_piece c s x of
        Inl e \<Rightarrow> Inl e
      | Inr None \<Rightarrow> Inr (x, c # s)
      | Inr (Some (y, r)) \<Rightarrow> word_loop r y)"
  by pat_completeness auto
termination by (relation "measure (\<lambda>(s, x). length s)") (auto dest: word_piece_shorter)

declare word_loop.simps(2) [simp del]

text \<open>A brace with a comma or two dots in it, and no other brace.\<close>

fun brace_glob :: "string \<Rightarrow> bool" where
  "brace_glob [] = False"
| "brace_glob (c # s) =
     (c = CHR ''{'' \<and> (let m = takeWhile (\<lambda>d. d \<noteq> CHR ''{'' \<and> d \<noteq> CHR ''}'') s in
        (CHR '','' \<in> set m \<or> occurs ''..'' m) \<and> take 1 (drop (length m) s) = ''}'')
      \<or> brace_glob s)"

definition globs :: "string \<Rightarrow> bool" where
  "globs b \<longleftrightarrow> (\<exists>c \<in> set b. c \<in> set ''*?['') \<or> brace_glob b \<or> take 1 b = ''~''"

definition no_word :: wacc where
  "no_word = \<lparr>x_text = [], x_bare = [], x_quoted = False, x_expands = False, x_placeholder = False\<rparr>"

definition word_at :: "string \<Rightarrow> card_refused + word \<times> string" where
  "word_at s =
     sbind (word_loop s no_word) (\<lambda>(x, r).
       Inr (\<lparr>w_text = x_text x, w_raw = take (length s - length r) s, w_quoted = x_quoted x, w_expands = x_expands x,
         w_globs = globs (x_bare x), w_placeholder = x_placeholder x\<rparr>, r))"

subsection \<open>Tokens and simple commands\<close>

datatype token = W word | OP string | REDIR string

text \<open>A token, and whether it starts where the token before it ended.\<close>

definition next_token :: "char \<Rightarrow> string \<Rightarrow> card_refused + token \<times> string" where
  "next_token c s =
     (if c = CHR 0x0A then Inr (OP [c], s)
      else case (if PLACEHOLDER_RE (c # s) = None then op_at (c # s) else None) of
        Some p \<Rightarrow>
          if p \<in> {''<'', ''>''} \<and> take 1 s = ''('' then Inl (Process_substitution p)
          else Inr (if p \<in> set REDIR_OPS then REDIR p else OP p, drop (length p - 1) s)
      | None \<Rightarrow> sbind (word_at (c # s)) (\<lambda>(w, r). Inr (W w, drop (length (c # s) - length r - 1) s)))"

lemma next_token_shorter: "next_token c s = Inr (t, r) \<Longrightarrow> length r \<le> length s"
  by (auto simp: next_token_def sbind_Inr split: if_splits option.splits)

function lex :: "bool \<Rightarrow> string \<Rightarrow> card_refused + (token \<times> bool) list" where
  "lex glued [] = Inr []"
| "lex glued (c # s) =
     (if c = CHR '' '' \<or> c = CHR 0x09 then lex False s
      else if c = CHR ''#'' then lex False (dropWhile (\<lambda>d. d \<noteq> CHR 0x0A) s)
      else (case next_token c s of
          Inl e \<Rightarrow> Inl e
        | Inr (t, r) \<Rightarrow> sbind (lex True r) (\<lambda>ts. Inr ((t, glued) # ts))))"
  by pat_completeness auto
termination by (relation "measure (\<lambda>(g, s). length s)") (auto simp: le_imp_less_Suc length_dropWhile_le next_token_shorter)

declare lex.simps(2) [simp del]

record simple =
  s_words :: "word list"
  s_assigns :: "word list"
  s_redirs :: "(string \<times> word) list"

definition ASSIGN_RE :: "string \<Rightarrow> bool" where
  "ASSIGN_RE s \<longleftrightarrow>
     (let w = takeWhile (\<lambda>c. alpha_char c \<or> is_digit c \<or> c = CHR ''_'') s in
      w \<noteq> [] \<and> \<not> is_digit (hd w) \<and> take 1 (drop (length w) s) = ''='')"

definition no_simple :: simple where "no_simple = \<lparr>s_words = [], s_assigns = [], s_redirs = []\<rparr>"

definition flush :: "simple \<Rightarrow> simple list" where "flush x = (if x = no_simple then [] else [x])"

definition all_digits :: "string \<Rightarrow> bool" where "all_digits s \<longleftrightarrow> s \<noteq> [] \<and> list_all is_digit s"

fun collect :: "(token \<times> bool) list \<Rightarrow> simple \<Rightarrow> card_refused + simple list" where
  "collect [] x = Inr (flush x)"
| "collect ((OP p, g) # ts) x = sbind (collect ts no_simple) (\<lambda>r. Inr (flush x @ r))"
| "collect ((REDIR p, g) # (W w, h) # ts) x = collect ts (x\<lparr>s_redirs := s_redirs x @ [(p, w)]\<rparr>)"
| "collect ((REDIR p, g) # ts) x = Inl (No_target p)"
| "collect ((W w, g) # ts) x =
     (if (case ts of (REDIR p, True) # _ \<Rightarrow> all_digits (w_raw w) | _ \<Rightarrow> False) then collect ts x
      else if s_words x = [] \<and> ASSIGN_RE (w_raw w) then collect ts (x\<lparr>s_assigns := s_assigns x @ [w]\<rparr>)
      else collect ts (x\<lparr>s_words := s_words x @ [w]\<rparr>))"

definition simple_commands :: "string \<Rightarrow> card_refused + simple list" where
  "simple_commands cmd = sbind (lex False cmd) (\<lambda>ts. collect ts no_simple)"

subsection \<open>Programs\<close>

definition LEAD_KEYWORDS :: "string list" where
  "LEAD_KEYWORDS = [''!'', ''{'', ''do'', ''then'', ''else'', ''elif'', ''if'', ''while'', ''until'', ''time'']"
definition NO_PROGRAM :: "string list" where
  "NO_PROGRAM = [''done'', ''fi'', ''}'', ''esac'', ''in'', ''for'', ''select'', ''[['']"
definition UNPARSED :: "string list" where "UNPARSED = [''case'', ''function'', ''coproc'']"
definition PYTHONS :: "string list" where
  "PYTHONS = [''python3'', ''python'', ''/usr/bin/python3'', ''/usr/bin/python'']"

definition is_option :: "string \<Rightarrow> bool" where "is_option t \<longleftrightarrow> take 1 t = ''-'' \<and> t \<noteq> ''-''"

definition duration :: "string \<Rightarrow> bool" where
  "duration t \<longleftrightarrow>
     (let u = (if t \<noteq> [] \<and> last t \<in> set ''smhd'' then butlast t else t);
          a = takeWhile is_digit u; r = dropWhile is_digit u in
      a \<noteq> [] \<and> (r = [] \<or> take 1 r = ''.'' \<and> all_digits (tl r)))"

text \<open>The options of a wrapper, skipped; \<open>arg\<close> says which of them take a word.\<close>

fun skip_options :: "(string \<Rightarrow> bool) \<Rightarrow> word list \<Rightarrow> word list" where
  "skip_options arg [] = []"
| "skip_options arg [w] = (if is_option (w_text w) then [] else [w])"
| "skip_options arg (w # v # ws) =
     (if \<not> is_option (w_text w) then w # v # ws
      else if w_text w = ''--'' then v # ws
      else if arg (w_text w) then skip_options arg ws else skip_options arg (v # ws))"

definition after_timeout :: "word list \<Rightarrow> word list option" where
  "after_timeout w =
     (case skip_options (\<lambda>t. t \<in> {''-s'', ''-k'', ''--signal'', ''--kill-after''}) (tl w) of
        [] \<Rightarrow> None
      | d # rest \<Rightarrow> if duration (w_text d) \<and> rest \<noteq> [] then Some rest else None)"

definition SUDO_ARG :: "string list" where
  "SUDO_ARG = [''-u'', ''-g'', ''-C'', ''-D'', ''-R'', ''-T'', ''-U'', ''-p'', ''-r'', ''-t'', ''--user'', ''--group'', ''--prompt'',
     ''--close-from'', ''--chdir'', ''--chroot'', ''--command-timeout'', ''--other-user'', ''--role'', ''--type'']"

definition after_sudo :: "word list \<Rightarrow> word list option" where
  "after_sudo w =
     (case dropWhile (\<lambda>x. ASSIGN_RE (w_raw x)) (skip_options (\<lambda>t. t \<in> set SUDO_ARG) (tl w)) of
        [] \<Rightarrow> None | rest \<Rightarrow> Some rest)"

datatype unwrapped = Argv "word list" "string list" | Keyword_only "string list" | Not_parsed string

definition after_keyword :: "word \<Rightarrow> word list \<Rightarrow> word list" where
  "after_keyword w ws =
     dropWhile (\<lambda>x. ASSIGN_RE (w_raw x)) (if w_text w = ''time'' \<and> ws \<noteq> [] \<and> w_text (hd ws) = ''-p'' then tl ws else ws)"

lemma after_keyword_shorter: "length (after_keyword w ws) \<le> length ws"
  unfolding after_keyword_def by (rule order_trans [OF length_dropWhile_le]) simp

function lead :: "word list \<Rightarrow> word list" where
  "lead [] = []"
| "lead (w # ws) = (if \<not> w_quoted w \<and> w_text w \<in> set LEAD_KEYWORDS then lead (after_keyword w ws) else w # ws)"
  by pat_completeness auto
termination
  by (relation "measure length") (auto intro: le_imp_less_Suc after_keyword_shorter)

lemma lead_shorter: "length (lead ws) \<le> length ws"
proof (induction ws rule: lead.induct)
  case (2 w ws)
  then show ?case using after_keyword_shorter [of w ws] by (cases "\<not> w_quoted w \<and> w_text w \<in> set LEAD_KEYWORDS") auto
qed simp

lemma skip_options_shorter: "length (skip_options arg ws) \<le> length ws"
  by (induction arg ws rule: skip_options.induct) auto

function unwrap_loop :: "string list \<Rightarrow> word list \<Rightarrow> unwrapped" where
  "unwrap_loop wr ws =
     (case lead ws of
        [] \<Rightarrow> Keyword_only wr
      | w # rest \<Rightarrow>
          (if w_quoted w then Argv (w # rest) wr
           else if w_text w \<in> set NO_PROGRAM then Keyword_only wr
           else if w_text w \<in> set UNPARSED then Not_parsed (w_text w)
           else if w_text w = ''timeout'' then
             (case after_timeout (w # rest) of None \<Rightarrow> Not_parsed ''timeout'' | Some r \<Rightarrow> unwrap_loop (wr @ [''timeout'']) r)
           else if w_text w = ''sudo'' then
             (case after_sudo (w # rest) of None \<Rightarrow> Not_parsed ''sudo'' | Some r \<Rightarrow> unwrap_loop (wr @ [''sudo'']) r)
           else Argv (w # rest) wr))"
  by pat_completeness auto
termination
proof (relation "measure (\<lambda>(wr, ws). length ws)")
  fix wr :: "string list" and ws w rest r
  assume l: "lead ws = w # rest"
  have n: "Suc (length rest) \<le> length ws" using lead_shorter [of ws] by (simp add: l)
  {
    assume "after_timeout (w # rest) = Some r"
    then obtain d where "skip_options (\<lambda>t. t \<in> {''-s'', ''-k'', ''--signal'', ''--kill-after''}) rest = d # r"
      by (auto simp: after_timeout_def split: list.splits if_splits)
    then have "length r < length rest"
      using skip_options_shorter [of "\<lambda>t. t \<in> {''-s'', ''-k'', ''--signal'', ''--kill-after''}" rest] by simp
    then show "((wr @ [''timeout''], r), wr, ws) \<in> measure (\<lambda>(wr, ws). length ws)" using n by simp
  next
    assume "after_sudo (w # rest) = Some r"
    then have "dropWhile (\<lambda>x. ASSIGN_RE (w_raw x)) (skip_options (\<lambda>t. t \<in> set SUDO_ARG) rest) = r"
      by (auto simp: after_sudo_def split: list.splits)
    then have "length r \<le> length rest"
      using length_dropWhile_le [of "\<lambda>x. ASSIGN_RE (w_raw x)" "skip_options (\<lambda>t. t \<in> set SUDO_ARG) rest"]
        skip_options_shorter [of "\<lambda>t. t \<in> set SUDO_ARG" rest] by simp
    then show "((wr @ [''sudo''], r), wr, ws) \<in> measure (\<lambda>(wr, ws). length ws)" using n by simp
  }
qed simp

declare unwrap_loop.simps [simp del]

definition unwrap :: "simple \<Rightarrow> unwrapped" where "unwrap s = unwrap_loop [] (s_words s)"

text \<open>\<open>TOOL_ARG_RE\<close>: the name between \<open>tools/\<close> and \<open>.py\<close>.\<close>

definition TOOL_ARG_RE :: "string \<Rightarrow> string option" where
  "TOOL_ARG_RE t =
     (let u = (if take 2 t = ''./'' then drop 2 t else t) in
      case lit ''tools/'' u of
        None \<Rightarrow> None
      | Some v \<Rightarrow>
          let n = take (length v - 3) v in
          if drop (length v - 3) v = ''.py'' \<and> n \<noteq> [] \<and> name_char (hd n) \<and> list_all (\<lambda>c. name_char c \<or> c \<in> set ''_.-'') n
          then Some n else None)"

definition tool_of :: "word list \<Rightarrow> (string \<times> word list) option" where
  "tool_of argv =
     (case argv of
        p # t # args \<Rightarrow>
          if \<not> w_quoted p \<and> w_text p \<in> set PYTHONS \<and> \<not> (w_expands t \<or> w_globs t \<or> w_placeholder t)
          then map_option (\<lambda>n. (n, args)) (TOOL_ARG_RE (w_text t)) else None
      | _ \<Rightarrow> None)"

fun last_option :: "string \<Rightarrow> string option \<Rightarrow> word list \<Rightarrow> string option" where
  "last_option opt v [] = v"
| "last_option opt v (w # ws) =
     last_option opt
       (if w_text w = opt \<and> ws \<noteq> [] then Some (w_text (hd ws))
        else if prefix (opt @ ''='') (w_text w) then Some (drop (length opt + 1) (w_text w)) else v) ws"

datatype program = Hostprobe string | Hostclock string | Tcpdump

fun programs :: "simple list \<Rightarrow> card_refused + word list list" where
  "programs [] = Inr []"
| "programs (s # ss) =
     (case unwrap s of
        Keyword_only _ \<Rightarrow> programs ss
      | Not_parsed t \<Rightarrow> Inl (Unparsed t)
      | Argv argv _ \<Rightarrow> sbind (programs ss) (\<lambda>r. Inr (argv # r)))"

definition program_of :: "word list \<Rightarrow> card_refused + program" where
  "program_of argv =
     (let other = (if last_field (w_text (hd argv)) = ''tcpdump'' then Inr Tcpdump else Inl (No_start_signal (map w_text (take 3 argv)))) in
      case tool_of argv of
        None \<Rightarrow> other
      | Some (t, args) \<Rightarrow>
          if t \<in> {''hostprobe'', ''hostclock''} \<and> args \<noteq> [] \<and> w_text (hd args) = ''run''
          then (case last_option ''--out'' None args of
              None \<Rightarrow> Inl (No_out t)
            | Some v \<Rightarrow> if v = [] then Inl (No_out t) else Inr (if t = ''hostprobe'' then Hostprobe v else Hostclock v))
          else other)"

definition background_program :: "string \<Rightarrow> card_refused + program" where
  "background_program cmd =
     sbind (simple_commands cmd) (\<lambda>ss. sbind (programs ss) (\<lambda>ps.
       case ps of [argv] \<Rightarrow> program_of argv | _ \<Rightarrow> Inl (Program_count (length ps))))"

subsection \<open>Quoted words are read back\<close>

text \<open>How a shell word is written so that nothing in it is special.\<close>

definition quote_body :: "string \<Rightarrow> string" where
  "quote_body t = concat (map (\<lambda>c. if c = quote1 then [quote1, backslash, quote1, quote1] else [c]) t)"

definition shquote :: "string \<Rightarrow> string" where "shquote t = quote1 # quote_body t @ [quote1]"

definition literal :: "string \<Rightarrow> word" where
  "literal t = \<lparr>w_text = t, w_raw = shquote t, w_quoted = True, w_expands = False, w_globs = False, w_placeholder = False\<rparr>"

lemma special_chars: "quote1 \<noteq> CHR ''<''" "quote1 \<noteq> backslash" "quote1 \<noteq> quote2" "\<not> WORD_END quote1" "backslash \<noteq> CHR ''<''"
  "\<not> WORD_END backslash" "backslash \<noteq> quote2" "quote1 \<noteq> CHR 0x0A" "quote1 \<noteq> CHR '' ''" "quote1 \<noteq> CHR 0x09" "quote1 \<noteq> CHR ''#''"
  by (simp_all add: quote1_def quote2_def backslash_def WORD_END_def)

lemma upto_here: "q \<notin> set a \<Longrightarrow> upto q (a @ q # r) = Some (a, r)"
  by (induction a) (auto simp: upto_def)

lemma quoted_quoted [simp]: "quoted u (quoted v x) = quoted (v @ u) x"
  by (simp add: quoted_def)

lemma word_loop_quoted:
  "quote1 \<notin> set a \<Longrightarrow> word_loop (quote1 # a @ quote_body t @ quote1 # r) x = word_loop r (quoted (a @ t) x)"
proof (induction t arbitrary: a x)
  case Nil
  then show ?case by (simp add: word_loop.simps(2) word_piece_def special_chars upto_here quote_body_def)
next
  case (Cons c t)
  show ?case
  proof (cases "c = quote1")
    case True
    have "word_loop (quote1 # a @ quote_body (c # t) @ quote1 # r) x =
        word_loop (backslash # quote1 # quote1 # quote_body t @ quote1 # r) (quoted a x)"
      using upto_here [OF Cons.prems] by (simp add: True word_loop.simps(2) word_piece_def special_chars quote_body_def)
    also have "\<dots> = word_loop (quote1 # [] @ quote_body t @ quote1 # r) (quoted (a @ [quote1]) x)"
      using special_chars by (subst word_loop.simps(2)) (simp add: word_piece_def)
    also have "\<dots> = word_loop r (quoted ((a @ [quote1]) @ t) x)" using Cons.IH [of "[]"] by simp
    finally show ?thesis by (simp add: True)
  next
    case False
    then show ?thesis using Cons.IH [of "a @ [c]" x] Cons.prems by (simp add: quote_body_def)
  qed
qed

lemma word_loop_stop: "r = [] \<or> WORD_END (hd r) \<and> hd r \<noteq> CHR ''<'' \<Longrightarrow> word_loop r x = Inr (x, r)"
  by (cases r) (auto simp: word_loop.simps(2) word_piece_def)

lemma word_at_quoted:
  assumes "r = [] \<or> WORD_END (hd r) \<and> hd r \<noteq> CHR ''<''"
  shows "word_at (shquote t @ r) = Inr (literal t, r)"
proof -
  have "word_loop (shquote t @ r) no_word = Inr (quoted t no_word, r)"
    using word_loop_quoted [of "[]" t r no_word] word_loop_stop [OF assms] by (simp add: shquote_def)
  then show ?thesis
    by (simp add: word_at_def literal_def quoted_def no_word_def globs_def)
qed

lemma next_token_quoted:
  assumes "r = [] \<or> WORD_END (hd r) \<and> hd r \<noteq> CHR ''<''"
  shows "next_token quote1 (quote_body t @ quote1 # r) = Inr (W (literal t), r)"
proof -
  have s: "quote1 # quote_body t @ quote1 # r = shquote t @ r" by (simp add: shquote_def)
  have "PLACEHOLDER_RE (quote1 # quote_body t @ quote1 # r) = None" by (simp add: PLACEHOLDER_RE_def quote1_def)
  moreover have "op_at (quote1 # quote_body t @ quote1 # r) = None" by (simp add: op_at_def OPS_def quote1_def)
  moreover have "drop (length (quote1 # quote_body t @ quote1 # r) - length r - 1) (quote_body t @ quote1 # r) = r" by simp
  ultimately show ?thesis
    using word_at_quoted [OF assms, of t] special_chars unfolding next_token_def s by simp
qed

lemma lex_quoted: "lex g (join '' '' (map shquote ts)) = Inr (map (\<lambda>(i, t). (W (literal t), g \<and> i = 0)) (enumerate 0 ts))"
proof (induction ts arbitrary: g)
  case (Cons t ts)
  have e: "map (\<lambda>(i, t). (W (literal t), False \<and> i = 0)) (enumerate 0 ts) = map (\<lambda>(i, t). (W (literal t), g \<and> i = 0)) (enumerate (Suc 0) ts)"
    by (induction ts arbitrary: rule: rev_induct) (simp_all add: enumerate_append_eq)
  show ?case
  proof (cases ts)
    case Nil
    then show ?thesis using next_token_quoted [of "[]" t] special_chars by (simp add: shquote_def lex.simps(2))
  next
    case c: (Cons u us)
    have j: "join '' '' (map shquote (t # ts)) = quote1 # quote_body t @ quote1 # '' '' @ join '' '' (map shquote ts)"
      by (simp add: c shquote_def)
    have "lex g (join '' '' (map shquote (t # ts))) = sbind (lex True ('' '' @ join '' '' (map shquote ts))) (\<lambda>r. Inr ((W (literal t), g) # r))"
      unfolding j using next_token_quoted [of "'' '' @ join '' '' (map shquote ts)" t] special_chars
      by (subst lex.simps(2)) (simp add: WORD_END_def)
    also have "lex True ('' '' @ join '' '' (map shquote ts)) = lex False (join '' '' (map shquote ts))" by (simp add: lex.simps(2))
    also have "\<dots> = Inr (map (\<lambda>(i, t). (W (literal t), False \<and> i = 0)) (enumerate 0 ts))" by (rule Cons.IH)
    finally show ?thesis unfolding e by simp
  qed
qed simp

lemma collect_literals:
  "list_all (\<lambda>tg. \<exists>t. fst tg = W (literal t)) ts \<Longrightarrow>
    collect ts x = Inr (flush (x\<lparr>s_words := s_words x @ map (\<lambda>tg. case fst tg of W w \<Rightarrow> w | _ \<Rightarrow> undefined) ts\<rparr>))"
proof (induction ts arbitrary: x)
  case (Cons tg ts)
  obtain t g where tg: "tg = (W (literal t), g)" using Cons.prems by (cases tg) auto
  have "\<not> ASSIGN_RE (shquote t)"
    by (simp add: ASSIGN_RE_def shquote_def quote1_def alpha_char_def upper_char_def is_digit_def)
  moreover have "(case ts of (REDIR p, True) # _ \<Rightarrow> all_digits (w_raw (literal t)) | _ \<Rightarrow> False) = False"
    using Cons.prems by (cases ts) (auto split: token.splits bool.splits)
  moreover have "w_raw (literal t) = shquote t" by (simp add: literal_def)
  ultimately show ?case using Cons.IH [of "x\<lparr>s_words := s_words x @ [literal t]\<rparr>"] Cons.prems by (simp add: tg)
qed simp

text \<open>
  C26. Words quoted for the shell are read back as they are: any list of texts, joined after quoting each, is one simple command
  of exactly those words, nothing in it expanding, globbing, redirecting or assigning.
\<close>
theorem quoted_command_read:
  "simple_commands (join '' '' (map shquote ts)) =
     Inr (if ts = [] then [] else [\<lparr>s_words = map literal ts, s_assigns = [], s_redirs = []\<rparr>])"
proof -
  let ?tok = "map (\<lambda>(i, t). (W (literal t), False \<and> i = 0)) (enumerate 0 ts)"
  have "list_all (\<lambda>tg. \<exists>t. fst tg = W (literal t)) ?tok" by (auto simp: list_all_iff)
  then have c: "collect ?tok no_simple = Inr (flush (no_simple\<lparr>s_words := map (\<lambda>tg. case fst tg of W w \<Rightarrow> w | _ \<Rightarrow> undefined) ?tok\<rparr>))"
    using collect_literals [of ?tok no_simple] by (simp add: no_simple_def)
  have m: "map (\<lambda>tg. case fst tg of W w \<Rightarrow> w | _ \<Rightarrow> undefined) ?tok = map literal ts"
    by (induction ts rule: rev_induct) (simp_all add: enumerate_append_eq)
  have "simple_commands (join '' '' (map shquote ts)) = Inr (flush (no_simple\<lparr>s_words := map literal ts\<rparr>))"
    by (simp only: simple_commands_def lex_quoted sbind_simps c m)
  then show ?thesis by (simp add: flush_def no_simple_def)
qed

end
