(* ===== verification/CardRun.thy ===== *)
theory CardRun
  imports "HOL-Library.AList" CardShell
begin

text \<open>
  \<open>tools/cardrun.py\<close>, the runner: the plan that refuses before anything runs, one item of an invocation, the gates, and the
  run as a step relation.  Files, exit codes and the lives of background programs are the environment's: they are
  answers that a step takes, and between steps they change as they like.
\<close>

subsection \<open>A relation, its runs, and what holds in all of them\<close>

locale invariant =
  fixes start :: "'s \<Rightarrow> bool" and step :: "'s \<Rightarrow> 's \<Rightarrow> bool" and inv :: "'s \<Rightarrow> bool"
  assumes first: "start s \<Longrightarrow> inv s"
    and keep: "inv s \<Longrightarrow> step s t \<Longrightarrow> inv t"
begin

lemma always: "start s \<Longrightarrow> step\<^sup>*\<^sup>* s t \<Longrightarrow> inv t"
proof (rotate_tac, induction rule: rtranclp_induct)
  case base
  then show ?case by (rule first)
next
  case (step t u)
  then show ?case using keep by blast
qed

end

subsection \<open>The card, the host and the state\<close>

record meta =
  m_stop :: "string option"
  m_prompt_seen :: bool

record world =
  f_exists :: "string set"
  f_text :: "string \<Rightarrow> string"
  f_meta :: "string \<Rightarrow> meta option"

text \<open>A background program: the exit status of its leader, and whether its process group still has a member.\<close>

record child =
  k_rc :: "int option"
  k_group :: bool

text \<open>\<open>g_search\<close> stands for \<open>re.search\<close> of a pattern of the command line: the text of the match.\<close>

record card_cfg =
  g_cells :: "cell list"
  g_table :: macros
  g_root :: string
  g_dry :: bool
  g_compiles :: "string \<Rightarrow> bool"
  g_search :: "string \<Rightarrow> string \<Rightarrow> string option"

text \<open>What \<open>os.killpg\<close> answers: the group has no member, or no member that may be signalled, or some member was.\<close>

datatype kill_answer = No_group | Not_permitted | Delivered

datatype event =
    Began string
  | Dry string
  | Ran string "string set"
  | Started string | Ended string int | Read_off string int | Waited string int
  | Gate_ok string string | Gate_skipped string string
  | Sigint string | Sigkill string kill_answer | Left_running string | Stop_ended string "int option"

record run_state =
  r_world :: world
  r_bg :: "(string \<times> child) list"
  r_readings :: "(string \<times> int) list"
  r_events :: "event list"

datatype stop =
    Record_exists string string | Appeared string | Exit_code string int
  | Exited_before_start string int | Clock_wait string int | No_start string
  | Gate_failed string string | Host_error | Interrupted

datatype phase = Items "string list" | Ending "string list" | Stopping stop | Exited int | Crashed

definition RECORD_SUFFIXES :: "string list" where
  "RECORD_SUFFIXES = [''.log'', ''.meta.json'', ''.events'', ''.timing'', ''.clock'']"

definition find_cell :: "card_cfg \<Rightarrow> string \<Rightarrow> cell option" where
  "find_cell cfg nm = find (\<lambda>c. c_name c = nm) (g_cells cfg)"

definition path_of :: "card_cfg \<Rightarrow> string \<Rightarrow> string" where
  "path_of cfg p = (if take 1 p = ''/'' then p else g_root cfg @ ''/'' @ p)"

definition say :: "event \<Rightarrow> run_state \<Rightarrow> run_state" where
  "say e st = st\<lparr>r_events := r_events st @ [e]\<rparr>"

subsection \<open>The plan\<close>

type_synonym kinds = "(string \<times> program) list"

definition plan_item :: "card_cfg \<Rightarrow> string \<Rightarrow> string list \<times> kinds \<Rightarrow> card_refused + string list \<times> kinds" where
  "plan_item cfg it acc =
     sbind (parse_item (g_compiles cfg) it) (\<lambda>x.
       let run = (\<lambda>nm reading.
         case find_cell cfg nm of
           None \<Rightarrow> Inl (No_fenced_cell nm)
         | Some c \<Rightarrow>
             sbind (cell_command c (g_table cfg)) (\<lambda>cmd.
               if c_kind c \<noteq> ''HOST&'' then Inr acc
               else if reading then Inl (Background_reading nm)
               else sbind (background_program cmd) (\<lambda>p. Inr (nm # fst acc, AList.update nm p (snd acc)))))
       in case x of
            Gate k nm \<Rightarrow> (case find_cell cfg nm of None \<Rightarrow> Inl (No_fenced_cell nm) | Some _ \<Rightarrow> Inr acc)
          | Wait nm \<Rightarrow> if nm \<in> set (fst acc) then Inr acc else Inl (Not_started nm)
          | Run nm \<Rightarrow> run nm False
          | Reading nm \<Rightarrow> run nm True)"

fun plan_loop :: "card_cfg \<Rightarrow> string list \<Rightarrow> string list \<times> kinds \<Rightarrow> card_refused + string list \<times> kinds" where
  "plan_loop cfg [] acc = Inr acc"
| "plan_loop cfg (it # its) acc = sbind (plan_item cfg it acc) (plan_loop cfg its)"

definition plan :: "card_cfg \<Rightarrow> string list \<Rightarrow> card_refused + kinds" where
  "plan cfg items = sbind (plan_loop cfg items ([], [])) (\<lambda>acc. Inr (snd acc))"

subsection \<open>Gates\<close>

definition read_text :: "world \<Rightarrow> string \<Rightarrow> string" where
  "read_text w p = filter (\<lambda>c. c \<noteq> CHR 0x0D) (f_text w p)"

definition until_matched :: "world \<Rightarrow> string \<Rightarrow> bool" where
  "until_matched w key = (case f_meta w key of None \<Rightarrow> False | Some m \<Rightarrow>
     (case m_stop m of None \<Rightarrow> False | Some s \<Rightarrow> occurs ''--until matched'' s))"

definition realtek :: string where "realtek = ''<RealTek>''"

definition gate :: "card_cfg \<Rightarrow> world \<Rightarrow> string \<Rightarrow> cell \<Rightarrow> bool" where
  "gate cfg w kind c =
     (let key = path_of cfg (c_prefix c); t = read_text w (key @ ''.log'') in
      if kind = ''until'' then until_matched w key
      else if kind = ''prompt'' then
        until_matched w key \<and> occurs ''Reboot Result from Watchdog Timeout!'' t \<and> suffix realtek (rstrip t)
      else if kind = ''caught'' then
        (case f_meta w key of None \<Rightarrow> False | Some m \<Rightarrow> m_prompt_seen m) \<and> occurs realtek t
      else if kind = ''hpstop'' then
        occurs '' stop '' ('' '' @ last (split_on (CHR 0x0A) (strip t)) @ '' '')
      else g_search cfg (drop 5 kind) t \<noteq> None)"

subsection \<open>Waiting for a start signal\<close>

text \<open>One round of the loop: the exit status if there is one, the record or log text, the answer of
  \<open>hostclock wait\<close> if time was left to ask, and whether the deadline has passed.\<close>

record poll_obs =
  p_exit :: "int option"
  p_record :: string
  p_clock :: "int option"
  p_late :: bool

definition start_row :: "string \<Rightarrow> bool" where
  "start_row l \<longleftrightarrow>
     (let a = dropWhile is_digit l; b = dropWhile is_digit (tl a); r = drop 6 b in
      l \<noteq> [] \<and> is_digit (hd l) \<and> take 1 a = ''.'' \<and> tl a \<noteq> [] \<and> is_digit (hd (tl a)) \<and> take 6 b = '' start''
      \<and> (r = [] \<or> \<not> word_char (hd r)))"

datatype start_reply = Seen | Failed stop | Waiting

fun wait_start :: "string \<Rightarrow> program \<Rightarrow> poll_obs list \<Rightarrow> start_reply" where
  "wait_start nm kind [] = Waiting"
| "wait_start nm kind (o1 # os) =
     (case p_exit o1 of
        Some rc \<Rightarrow> Failed (Exited_before_start nm rc)
      | None \<Rightarrow>
          let late = (if p_late o1 then Failed (No_start nm) else wait_start nm kind os) in
          (case kind of
             Hostprobe _ \<Rightarrow> if \<exists>l \<in> set (split_on (CHR 0x0A) (p_record o1)). start_row l then Seen else late
           | Tcpdump \<Rightarrow> if occurs ''listening on'' (p_record o1) then Seen else late
           | Hostclock _ \<Rightarrow>
               (case p_clock o1 of
                  None \<Rightarrow> Failed (No_start nm)
                | Some rc \<Rightarrow> if rc = 0 then Seen else Failed (Clock_wait nm rc))))"

subsection \<open>One item\<close>

text \<open>The environment's answers: the exit status of a command, the files behind it, whether the log
  appeared between the check and the open, the rounds of a start, an interrupt, an error of the host.\<close>

record item_obs =
  o_rc :: int
  o_world :: world
  o_appeared :: bool
  o_polls :: "poll_obs list"
  o_interrupt :: bool
  o_host_error :: bool

datatype item_result = Next run_state | Halt stop run_state | Crash | Unfinished

definition settle :: "string \<Rightarrow> int \<Rightarrow> bool \<Rightarrow> run_state \<Rightarrow> item_result" where
  "settle nm rc reading st =
     (let st = say (Ended nm rc) st in
      if rc = 0 then Next st
      else if reading then Next (say (Read_off nm rc) (st\<lparr>r_readings := AList.update nm rc (r_readings st)\<rparr>))
      else Halt (Exit_code nm rc) st)"

definition run_cell :: "card_cfg \<Rightarrow> kinds \<Rightarrow> item_obs \<Rightarrow> string \<Rightarrow> bool \<Rightarrow> run_state \<Rightarrow> item_result" where
  "run_cell cfg kinds obs nm reading st =
     (case find_cell cfg nm of
        None \<Rightarrow> Crash
      | Some c \<Rightarrow>
     (case cell_command c (g_table cfg) of
        Inl _ \<Rightarrow> Crash
      | Inr cmd \<Rightarrow>
          if g_dry cfg then Next (say (Dry nm) st)
          else let key = path_of cfg (c_prefix c); st0 = st; exist = f_exists (r_world st);
                   st = say (Ran nm exist) st; after = st\<lparr>r_world := o_world obs\<rparr> in
          (case find (\<lambda>suf. key @ suf \<in> exist) RECORD_SUFFIXES of
             Some suf \<Rightarrow> Halt (Record_exists (c_prefix c) suf) st0
           | None \<Rightarrow>
               if o_host_error obs then Halt Host_error st
               else if c_kind c \<noteq> ''CAP'' \<and> o_appeared obs then Halt (Appeared (c_prefix c)) st
               else if c_kind c \<noteq> ''HOST&'' then
                 (if o_interrupt obs then Halt Interrupted after else settle nm (o_rc obs) reading after)
               else let st = after\<lparr>r_bg := AList.update nm \<lparr>k_rc = None, k_group = True\<rparr> (r_bg st)\<rparr> in
                 if o_interrupt obs then Halt Interrupted st
                 else (case map_of kinds nm of
                     None \<Rightarrow> Crash
                   | Some p \<Rightarrow>
                       (case wait_start nm p (o_polls obs) of
                          Seen \<Rightarrow> Next (say (Started nm) st)
                        | Failed s \<Rightarrow> Halt s st
                        | Waiting \<Rightarrow> Unfinished)))))"

definition exited :: "int \<Rightarrow> child \<Rightarrow> child" where
  "exited rc c = (case k_rc c of None \<Rightarrow> c\<lparr>k_rc := Some rc\<rparr> | Some _ \<Rightarrow> c)"

definition run_item :: "card_cfg \<Rightarrow> kinds \<Rightarrow> item_obs \<Rightarrow> string \<Rightarrow> run_state \<Rightarrow> item_result" where
  "run_item cfg kinds obs it st0 =
     (let st = say (Began it) st0 in
      case parse_item (g_compiles cfg) it of
        Inl _ \<Rightarrow> Crash
      | Inr (Wait nm) \<Rightarrow>
          if g_dry cfg then Next (say (Dry nm) st)
          else (case map_of (r_bg st) nm of
              None \<Rightarrow> Crash
            | Some c \<Rightarrow>
                if o_interrupt obs then Halt Interrupted st
                else let c = exited (o_rc obs) c in
                  Next (say (Waited nm (the (k_rc c))) (st\<lparr>r_bg := AList.update nm c (r_bg st)\<rparr>)))
      | Inr (Gate k nm) \<Rightarrow>
          if g_dry cfg then Next (say (Dry nm) st)
          else if nm \<in> fst ` set (r_readings st) then Next (say (Gate_skipped k nm) st)
          else (case find_cell cfg nm of
              None \<Rightarrow> Crash
            | Some c \<Rightarrow> if gate cfg (r_world st) k c then Next (say (Gate_ok k nm) st) else Halt (Gate_failed k nm) st)
      | Inr (Run nm) \<Rightarrow> run_cell cfg kinds obs nm False st
      | Inr (Reading nm) \<Rightarrow> run_cell cfg kinds obs nm True st)"

subsection \<open>Stopping the children\<close>

text \<open>
  What a live child meets after its SIGINT: whether its group has a member when the grace period is over; whether, when
  SIGKILL is sent, it has members that this user may signal and members that are somebody else's (a group may have
  both: \<open>sudo\<close> beside the shell that ran it); and the exit status that the last wait finds.
\<close>

record stop_obs =
  s_alive :: bool
  s_own :: bool
  s_foreign :: bool
  s_rc :: "int option"

text \<open>\<open>killpg\<close> signals the members it may, and fails for want of permission only where there is none of them.\<close>

definition killpg :: "stop_obs \<Rightarrow> kill_answer" where
  "killpg ob = (if s_own ob then Delivered else if s_foreign ob then Not_permitted else No_group)"

text \<open>The second phase for one child: SIGKILL ends the members it reaches, the others live on.\<close>

definition stop_child :: "stop_obs \<Rightarrow> string \<times> child \<Rightarrow> event list \<times> (string \<times> child)" where
  "stop_child ob nc =
     (let n = fst nc; c = snd nc; rc = (if k_rc c = None then s_rc ob else k_rc c) in
      ((if s_alive ob
        then Sigkill n (killpg ob) # (if killpg ob = Not_permitted then [Left_running n] else [])
        else []) @ [Stop_ended n rc],
       (n, c\<lparr>k_rc := rc, k_group := s_alive ob \<and> s_foreign ob\<rparr>)))"

text \<open>SIGINT to every live group first, and only then, one after another, what is left of each.\<close>

definition stop_children :: "(string \<Rightarrow> stop_obs) \<Rightarrow> run_state \<Rightarrow> run_state" where
  "stop_children obs st =
     (let live = filter (\<lambda>nc. k_group (snd nc)) (r_bg st) in
      st\<lparr>r_bg := map (\<lambda>nc. if k_group (snd nc) then snd (stop_child (obs (fst nc)) nc) else nc) (r_bg st),
         r_events := r_events st @ map (\<lambda>nc. Sigint (fst nc)) live
           @ concat (map (\<lambda>nc. fst (stop_child (obs (fst nc)) nc)) live)\<rparr>)"

subsection \<open>The run\<close>

text \<open>What happens to a child by itself: its leader exits, its group ends, and neither comes back.\<close>

definition child_change :: "string \<times> child \<Rightarrow> string \<times> child \<Rightarrow> bool" where
  "child_change a b \<longleftrightarrow> fst a = fst b \<and> (k_rc (snd a) \<noteq> None \<longrightarrow> k_rc (snd b) = k_rc (snd a)) \<and> (k_group (snd b) \<longrightarrow> k_group (snd a))"

definition finish_child :: "string \<Rightarrow> int \<Rightarrow> run_state \<Rightarrow> run_state" where
  "finish_child n rc st = st\<lparr>r_bg := map (\<lambda>nc. if fst nc = n then (n, exited rc (snd nc)) else nc) (r_bg st)\<rparr>"

inductive run_step :: "card_cfg \<Rightarrow> kinds \<Rightarrow> phase \<times> run_state \<Rightarrow> phase \<times> run_state \<Rightarrow> bool"
  for cfg :: card_cfg and kinds :: kinds where
  environ: "list_all2 child_change (r_bg st) bg \<Longrightarrow> run_step cfg kinds (ph, st) (ph, st\<lparr>r_world := w, r_bg := bg\<rparr>)"
| item: "run_item cfg kinds obs it st = Next st' \<Longrightarrow> run_step cfg kinds (Items (it # its), st) (Items its, st')"
| halt: "run_item cfg kinds obs it st = Halt s st' \<Longrightarrow> run_step cfg kinds (Items (it # its), st) (Stopping s, st')"
| crash: "run_item cfg kinds obs it st = Crash \<Longrightarrow> run_step cfg kinds (Items (it # its), st) (Crashed, st)"
| interrupt: "run_step cfg kinds (Items its, st) (Stopping Interrupted, st)"
| finish: "run_step cfg kinds (Items [], st) (Ending (map fst (r_bg st)), st)"
| waited: "run_step cfg kinds (Ending (n # ns), st) (Ending ns, finish_child n rc st)"
| late_interrupt: "run_step cfg kinds (Ending ns, st) (Stopping Interrupted, st)"
| all_done: "run_step cfg kinds (Ending [], st) (Exited 0, st)"
| stopped: "run_step cfg kinds (Stopping s, st) (Exited 3, stop_children obs st)"

inductive_cases from_items: "run_step cfg kinds (Items (it # its), st) s"
inductive_cases to_crash: "run_step cfg kinds s (Crashed, st)"
inductive_simps from_exit: "run_step cfg kinds (Exited rc, st) s"

definition fresh :: "world \<Rightarrow> run_state" where
  "fresh w = \<lparr>r_world = w, r_bg = [], r_readings = [], r_events = []\<rparr>"

text \<open>A run begins once the arguments and the plan are accepted.\<close>

definition begins :: "card_cfg \<Rightarrow> kinds \<Rightarrow> string list \<Rightarrow> phase \<times> run_state \<Rightarrow> bool" where
  "begins cfg kinds items s \<longleftrightarrow>
     plan cfg items = Inr kinds \<and> named_once (g_compiles cfg) [] items = Inr () \<and> (\<exists>w. s = (Items items, fresh w))"

subsection \<open>What a step adds to the record\<close>

fun began_of :: "event \<Rightarrow> string list" where "began_of (Began it) = [it]" | "began_of e = []"
fun ran_of :: "event \<Rightarrow> string list" where "ran_of (Ran nm F) = [nm]" | "ran_of e = []"

definition began :: "run_state \<Rightarrow> string list" where "began st = concat (map began_of (r_events st))"
definition ran :: "run_state \<Rightarrow> string list" where "ran st = concat (map ran_of (r_events st))"

fun item_names :: "item \<Rightarrow> string list" where
  "item_names (Run nm) = [nm]" | "item_names (Reading nm) = [nm]" | "item_names i = []"

definition names_in :: "card_cfg \<Rightarrow> string \<Rightarrow> string list" where
  "names_in cfg it = (case parse_item (g_compiles cfg) it of Inl _ \<Rightarrow> [] | Inr x \<Rightarrow> item_names x)"

definition unrecorded :: "card_cfg \<Rightarrow> string \<Rightarrow> string set \<Rightarrow> bool" where
  "unrecorded cfg nm F \<longleftrightarrow> (\<exists>c. find_cell cfg nm = Some c \<and> (\<forall>suf \<in> set RECORD_SUFFIXES. path_of cfg (c_prefix c) @ suf \<notin> F))"

text \<open>The events of one item: itself begun once, at most its own cell run, and that over no record.\<close>

definition adds :: "card_cfg \<Rightarrow> string \<Rightarrow> run_state \<Rightarrow> run_state \<Rightarrow> bool" where
  "adds cfg it st st' \<longleftrightarrow>
     (\<exists>evs. r_events st' = r_events st @ Began it # evs \<and> concat (map began_of evs) = [] \<and>
        concat (map ran_of evs) \<in> {[], names_in cfg it} \<and> (\<forall>nm F. Ran nm F \<in> set evs \<longrightarrow> unrecorded cfg nm F))"

fun result_state :: "item_result \<Rightarrow> run_state option" where
  "result_state (Next st) = Some st" | "result_state (Halt s st) = Some st" | "result_state _ = None"

lemma say_events [simp]: "r_events (say e st) = r_events st @ [e]" "r_bg (say e st) = r_bg st" "r_readings (say e st) = r_readings st"
  "r_world (say e st) = r_world st"
  by (simp_all add: say_def)

lemma addsI:
  assumes "r_events st' = r_events st @ Began it # evs" "concat (map began_of evs) = []" "concat (map ran_of evs) \<in> {[], names_in cfg it}"
    "\<And>nm F. Ran nm F \<in> set evs \<Longrightarrow> unrecorded cfg nm F"
  shows "adds cfg it st st'"
  using assms unfolding adds_def by blast

lemma settle_events:
  "result_state (settle nm rc reading st) = Some st' \<Longrightarrow> \<exists>evs. r_events st' = r_events st @ evs \<and> set evs \<subseteq> {Ended nm rc, Read_off nm rc}"
  by (auto simp: settle_def Let_def split: if_splits)

lemma run_cell_events:
  assumes "result_state (run_cell cfg kinds obs nm reading st) = Some st'"
  shows "\<exists>evs. r_events st' = r_events st @ evs \<and> concat (map began_of evs) = [] \<and> concat (map ran_of evs) \<in> {[], [nm]} \<and>
    (\<forall>n F. Ran n F \<in> set evs \<longrightarrow> unrecorded cfg n F)"
proof -
  obtain c where c: "find_cell cfg nm = Some c" using assms by (cases "find_cell cfg nm") (auto simp: run_cell_def)
  obtain cmd where cmd: "cell_command c (g_table cfg) = Inr cmd" using assms c by (cases "cell_command c (g_table cfg)") (auto simp: run_cell_def)
  let ?F = "f_exists (r_world st)"
  show ?thesis
  proof (cases "g_dry cfg \<or> find (\<lambda>suf. path_of cfg (c_prefix c) @ suf \<in> ?F) RECORD_SUFFIXES \<noteq> None")
    case True
    then show ?thesis using assms c cmd by (auto simp: run_cell_def Let_def split: option.splits if_splits)
  next
    case False
    then have un: "unrecorded cfg nm ?F" using c by (auto simp: unrecorded_def find_None_iff)
    have "\<exists>evs. r_events st' = r_events st @ Ran nm ?F # evs \<and> concat (map began_of evs) = [] \<and> concat (map ran_of evs) = []
        \<and> (\<forall>n F. Ran n F \<notin> set evs)"
      using assms c cmd False by (auto simp: run_cell_def settle_def Let_def split: option.splits if_splits start_reply.splits)
    then show ?thesis using un by fastforce
  qed
qed

lemma run_item_adds:
  assumes "result_state (run_item cfg kinds obs it st) = Some st'"
  shows "adds cfg it st st'"
proof (cases "parse_item (g_compiles cfg) it")
  case (Inl e)
  then show ?thesis using assms by (simp add: run_item_def Let_def)
next
  case (Inr x)
  have cell: "adds cfg it st st'" if "result_state (run_cell cfg kinds obs nm reading (say (Began it) st)) = Some st'" "item_names x = [nm]" for nm reading
    using run_cell_events [OF that(1)] that(2) Inr by (elim exE conjE) (rule addsI, auto simp: names_in_def)
  show ?thesis
  proof (cases x)
    case (Run nm)
    then show ?thesis using assms Inr cell by (simp add: run_item_def Let_def)
  next
    case (Reading nm)
    then show ?thesis using assms Inr cell by (simp add: run_item_def Let_def)
  next
    case (Wait nm)
    then show ?thesis using assms Inr by (auto simp: run_item_def Let_def intro!: addsI split: if_splits option.splits)
  next
    case (Gate k nm)
    then show ?thesis using assms Inr by (auto simp: run_item_def Let_def intro!: addsI split: if_splits option.splits)
  qed
qed

subsection \<open>Items in order, cells over no record\<close>

lemma began_say [simp]: "began (say e st) = began st @ began_of e" "ran (say e st) = ran st @ ran_of e"
  by (simp_all add: began_def ran_def)

lemma adds_began: "adds cfg it st st' \<Longrightarrow> began st' = began st @ [it]"
  by (auto simp: adds_def began_def)

lemma adds_ran: "adds cfg it st st' \<Longrightarrow> ran st' = ran st \<or> ran st' = ran st @ names_in cfg it"
  by (auto simp: adds_def ran_def)

lemma stop_child_events:
  "e \<in> set (fst (stop_child ob nc)) \<Longrightarrow> began_of e = [] \<and> ran_of e = [] \<and> (\<forall>n F. e \<noteq> Ran n F)"
  by (auto simp: stop_child_def Let_def split: if_splits)

lemma stop_children_events:
  "\<exists>evs. r_events (stop_children obs st) = r_events st @ evs \<and> concat (map began_of evs) = [] \<and> concat (map ran_of evs) = []
    \<and> (\<forall>n F. Ran n F \<notin> set evs)"
  by (auto simp: stop_children_def Let_def concat_eq_Nil_conv dest: stop_child_events)

text \<open>The items begun are the items in order; a cell ran only where none of its records existed.\<close>

definition log_ok :: "card_cfg \<Rightarrow> run_state \<Rightarrow> bool" where
  "log_ok cfg st \<longleftrightarrow> subseq (ran st) (concat (map (names_in cfg) (began st))) \<and> (\<forall>n F. Ran n F \<in> set (r_events st) \<longrightarrow> unrecorded cfg n F)"

definition in_order :: "string list \<Rightarrow> phase \<Rightarrow> run_state \<Rightarrow> bool" where
  "in_order items ph st \<longleftrightarrow>
     (case ph of Items its \<Rightarrow> began st @ its = items
      | Ending _ \<Rightarrow> began st = items
      | Exited rc \<Rightarrow> prefix (began st) items \<and> (rc = 0 \<longrightarrow> began st = items) \<and> rc \<in> {0, 3}
      | _ \<Rightarrow> prefix (began st) items)"

lemma log_ok_adds:
  assumes "adds cfg it st st'" "log_ok cfg st"
  shows "log_ok cfg st'"
proof -
  have "subseq (ran st') (concat (map (names_in cfg) (began st')))"
    using adds_ran [OF assms(1)] adds_began [OF assms(1)] assms(2)
    by (auto simp: log_ok_def intro: list_emb_append_mono subseq_order.trans [OF _ list_emb_append2])
  then show ?thesis using assms by (auto simp: log_ok_def adds_def)
qed

lemma log_ok_stop: "log_ok cfg (stop_children obs st) = log_ok cfg st"
  "began (stop_children obs st) = began st"
proof -
  obtain evs where e: "r_events (stop_children obs st) = r_events st @ evs" "concat (map began_of evs) = []"
    "concat (map ran_of evs) = []" "\<forall>n F. Ran n F \<notin> set evs"
    using stop_children_events by blast
  have b: "began (stop_children obs st) = began st" "ran (stop_children obs st) = ran st"
    unfolding began_def ran_def e(1) map_append concat_append e(2,3) by simp_all
  show "began (stop_children obs st) = began st" by (rule b(1))
  show "log_ok cfg (stop_children obs st) = log_ok cfg st"
    using e(4) unfolding log_ok_def b by (auto simp: e(1))
qed

lemma log_ok_same [simp]:
  "log_ok cfg (st\<lparr>r_world := w, r_bg := bg\<rparr>) = log_ok cfg st" "log_ok cfg (finish_child n rc st) = log_ok cfg st"
  "began (st\<lparr>r_world := w, r_bg := bg\<rparr>) = began st" "began (finish_child n rc st) = began st"
  by (simp_all add: log_ok_def began_def ran_def finish_child_def)

interpretation ordered: invariant "begins cfg kinds items" "run_step cfg kinds"
    "\<lambda>s. in_order items (fst s) (snd s) \<and> log_ok cfg (snd s)" for cfg kinds items
proof
  fix s assume "begins cfg kinds items s"
  then show "in_order items (fst s) (snd s) \<and> log_ok cfg (snd s)"
    by (auto simp: begins_def in_order_def log_ok_def began_def ran_def fresh_def)
next
  fix s t assume i: "in_order items (fst s) (snd s) \<and> log_ok cfg (snd s)" and st: "run_step cfg kinds s t"
  from st i show "in_order items (fst t) (snd t) \<and> log_ok cfg (snd t)"
  proof cases
    case (item obs it st st' its)
    then have "adds cfg it st st'" by (intro run_item_adds [of cfg kinds obs]) simp
    then show ?thesis using i item adds_began log_ok_adds by (auto simp: in_order_def)
  next
    case (halt obs it st sp st' its)
    then have "adds cfg it st st'" by (intro run_item_adds [of cfg kinds obs]) simp
    then show ?thesis using i halt adds_began log_ok_adds by (auto simp: in_order_def prefix_def)
  qed (use i in \<open>auto simp: in_order_def log_ok_stop prefix_def split: phase.splits\<close>)
qed

subsection \<open>An accepted plan meets no surprise\<close>

lemma find_cell_name: "find_cell cfg nm = Some c \<Longrightarrow> c_name c = nm"
  by (auto simp: find_cell_def find_Some_iff)

lemma plan_item_kinds:
  assumes "plan_item cfg it acc = Inr acc'" "map_of (snd acc) n \<noteq> None"
  shows "map_of (snd acc') n \<noteq> None"
proof -
  obtain x where x: "parse_item (g_compiles cfg) it = Inr x" using assms by (auto simp: plan_item_def sbind_Inr)
  show ?thesis
    using assms x by (cases x) (auto simp: plan_item_def sbind_Inr Let_def update_conv' split: option.splits if_splits)
qed

lemma plan_loop_kinds: "plan_loop cfg its acc = Inr acc' \<Longrightarrow> map_of (snd acc) n \<noteq> None \<Longrightarrow> map_of (snd acc') n \<noteq> None"
proof (induction its arbitrary: acc)
  case (Cons it its)
  then obtain acc1 where "plan_item cfg it acc = Inr acc1" "plan_loop cfg its acc1 = Inr acc'" by (auto simp: sbind_Inr)
  with Cons.IH plan_item_kinds Cons.prems(2) show ?case by blast
qed simp

text \<open>The cells that the plan knows as started have a child; the rest of the plan is still accepted.\<close>

definition on_plan :: "card_cfg \<Rightarrow> kinds \<Rightarrow> string list \<Rightarrow> run_state \<Rightarrow> bool" where
  "on_plan cfg kinds its st \<longleftrightarrow>
     (\<exists>acc acc'. plan_loop cfg its acc = Inr acc' \<and> snd acc' = kinds
       \<and> (\<not> g_dry cfg \<longrightarrow> (\<forall>n \<in> set (fst acc). map_of (r_bg st) n \<noteq> None)))"

lemma result_bg:
  assumes "run_item cfg kinds obs it st = Next st'" "map_of (r_bg st) n \<noteq> None"
  shows "map_of (r_bg st') n \<noteq> None"
proof -
  obtain x where x: "parse_item (g_compiles cfg) it = Inr x" using assms by (cases "parse_item (g_compiles cfg) it") (auto simp: run_item_def Let_def)
  show ?thesis
    using assms x by (cases x) (auto simp: run_item_def run_cell_def settle_def Let_def update_conv' split: option.splits sum.splits if_splits start_reply.splits)
qed

lemma plan_item_cell:
  assumes a: "plan_item cfg it acc = Inr acc1" and x: "parse_item (g_compiles cfg) it = Inr x" "x = (if reading then Reading nm else Run nm)"
  obtains c cmd where "find_cell cfg nm = Some c" "cell_command c (g_table cfg) = Inr cmd"
    "if c_kind c = ''HOST&'' then fst acc1 = nm # fst acc \<and> map_of (snd acc1) nm \<noteq> None else acc1 = acc"
proof -
  obtain c where c: "find_cell cfg nm = Some c" using a x by (cases "find_cell cfg nm"; cases reading) (auto simp: plan_item_def)
  obtain cmd where cmd: "cell_command c (g_table cfg) = Inr cmd"
    using a x c by (cases "cell_command c (g_table cfg)"; cases reading) (auto simp: plan_item_def)
  have "if c_kind c = ''HOST&'' then fst acc1 = nm # fst acc \<and> map_of (snd acc1) nm \<noteq> None else acc1 = acc"
    using a x c cmd by (cases reading; cases "c_kind c = ''HOST&''") (auto simp: plan_item_def sbind_Inr update_conv')
  with c cmd show thesis by (rule that)
qed

lemma planned_item:
  assumes p: "plan_item cfg it acc = Inr acc1" "plan_loop cfg its acc1 = Inr acc'" "snd acc' = kinds"
    and bg: "\<not> g_dry cfg \<longrightarrow> (\<forall>n \<in> set (fst acc). map_of (r_bg st) n \<noteq> None)"
  shows "run_item cfg kinds obs it st \<noteq> Crash" "run_item cfg kinds obs it st = Next st' \<Longrightarrow> on_plan cfg kinds its st'"
proof -
  obtain x where x: "parse_item (g_compiles cfg) it = Inr x" using p(1) by (auto simp: plan_item_def sbind_Inr)
  have keep: "map_of kinds n \<noteq> None" if "map_of (snd acc1) n \<noteq> None" for n using plan_loop_kinds [OF p(2)] p(3) that by blast
  have cell: "run_cell cfg kinds obs nm reading st1 \<noteq> Crash \<and> (\<forall>st'. run_cell cfg kinds obs nm reading st1 = Next st' \<longrightarrow>
      (\<not> g_dry cfg \<longrightarrow> (\<forall>n \<in> set (fst acc1). n \<in> set (fst acc) \<or> map_of (r_bg st') n \<noteq> None)))"
    if y: "x = (if reading then Reading nm else Run nm)" for nm reading st1
  proof -
    obtain c cmd where c: "find_cell cfg nm = Some c" "cell_command c (g_table cfg) = Inr cmd"
      and k: "if c_kind c = ''HOST&'' then fst acc1 = nm # fst acc \<and> map_of (snd acc1) nm \<noteq> None else acc1 = acc"
      using plan_item_cell [OF p(1) x y] by blast
    show ?thesis
    proof (cases "c_kind c = ''HOST&''")
      case True
      then have f: "fst acc1 = nm # fst acc" and "map_of kinds nm \<noteq> None" using k keep by auto
      then obtain pr where "map_of kinds nm = Some pr" by blast
      then show ?thesis using c True
        by (auto simp: f run_cell_def Let_def update_conv' split: option.splits start_reply.splits if_splits)
    next
      case False
      then show ?thesis using c k by (auto simp: run_cell_def settle_def Let_def split: option.splits)
    qed
  qed
  have new: "on_plan cfg kinds its st'"
    if n: "run_item cfg kinds obs it st = Next st'" "\<not> g_dry cfg \<longrightarrow> (\<forall>n \<in> set (fst acc1). n \<in> set (fst acc) \<or> map_of (r_bg st') n \<noteq> None)" for st'
    using p(2,3) n(2) bg result_bg [OF n(1)] unfolding on_plan_def by blast
  show "run_item cfg kinds obs it st \<noteq> Crash"
  proof (cases x)
    case (Run nm)
    then show ?thesis using cell [of False nm] x by (simp add: run_item_def Let_def)
  next
    case (Reading nm)
    then show ?thesis using cell [of True nm] x by (simp add: run_item_def Let_def)
  next
    case (Wait nm)
    then show ?thesis using p(1) x bg by (auto simp: run_item_def plan_item_def Let_def split: if_splits option.splits)
  next
    case (Gate k nm)
    then show ?thesis using p(1) x by (auto simp: run_item_def plan_item_def Let_def split: option.splits)
  qed
  show "on_plan cfg kinds its st'" if n: "run_item cfg kinds obs it st = Next st'"
  proof (rule new [OF n])
    show "\<not> g_dry cfg \<longrightarrow> (\<forall>n \<in> set (fst acc1). n \<in> set (fst acc) \<or> map_of (r_bg st') n \<noteq> None)"
    proof (cases x)
      case (Run nm)
      then show ?thesis using cell [of False nm "say (Began it) st"] n x by (simp add: run_item_def Let_def)
    next
      case (Reading nm)
      then show ?thesis using cell [of True nm "say (Began it) st"] n x by (simp add: run_item_def Let_def)
    next
      case (Wait nm)
      then show ?thesis using p(1) x by (auto simp: plan_item_def Let_def split: if_splits)
    next
      case (Gate k nm)
      then show ?thesis using p(1) x by (auto simp: plan_item_def Let_def split: option.splits)
    qed
  qed
qed

lemma child_change_names: "list_all2 child_change bg bg' \<Longrightarrow> map_of bg n \<noteq> None \<Longrightarrow> map_of bg' n \<noteq> None"
proof (induction bg bg' rule: list_all2_induct)
  case (Cons x xs y ys)
  then show ?case by (cases x; cases y) (auto simp: child_change_def split: if_splits)
qed simp

definition uncrashed :: "card_cfg \<Rightarrow> kinds \<Rightarrow> phase \<times> run_state \<Rightarrow> bool" where
  "uncrashed cfg kinds s \<longleftrightarrow> fst s \<noteq> Crashed \<and> (\<forall>its. fst s = Items its \<longrightarrow> on_plan cfg kinds its (snd s))"

interpretation planned: invariant "begins cfg kinds items" "run_step cfg kinds" "uncrashed cfg kinds" for cfg kinds items
proof
  fix s assume "begins cfg kinds items s"
  then obtain w acc' where "plan_loop cfg items ([], []) = Inr acc'" "snd acc' = kinds" and s: "s = (Items items, fresh w)"
    by (auto simp: begins_def plan_def sbind_Inr)
  moreover have "\<forall>n \<in> set (fst (([], []) :: string list \<times> kinds)). map_of (r_bg (fresh w)) n \<noteq> None" by simp
  ultimately have "on_plan cfg kinds items (fresh w)" unfolding on_plan_def by blast
  then show "uncrashed cfg kinds s" using s by (simp add: uncrashed_def)
next
  fix s t assume i: "uncrashed cfg kinds s" and st: "run_step cfg kinds s t"
  have items: "\<exists>acc acc1 acc'. plan_item cfg it acc = Inr acc1 \<and> plan_loop cfg its acc1 = Inr acc' \<and> snd acc' = kinds
      \<and> (\<not> g_dry cfg \<longrightarrow> (\<forall>n \<in> set (fst acc). map_of (r_bg st) n \<noteq> None))" if "s = (Items (it # its), st)" for it its st
  proof -
    have "on_plan cfg kinds (it # its) st" using i that by (simp add: uncrashed_def)
    then obtain acc acc' where a: "plan_loop cfg (it # its) acc = Inr acc'" "snd acc' = kinds"
      "\<not> g_dry cfg \<longrightarrow> (\<forall>n \<in> set (fst acc). map_of (r_bg st) n \<noteq> None)"
      unfolding on_plan_def by blast
    from a(1) obtain acc1 where "plan_item cfg it acc = Inr acc1" "plan_loop cfg its acc1 = Inr acc'" by (auto simp: sbind_Inr)
    with a(2,3) show ?thesis by blast
  qed
  from st show "uncrashed cfg kinds t"
  proof cases
    case (environ st bg ph w)
    have "on_plan cfg kinds its (st\<lparr>r_world := w, r_bg := bg\<rparr>)" if "on_plan cfg kinds its st" for its
    proof -
      from that obtain acc acc' where a: "plan_loop cfg its acc = Inr acc'" "snd acc' = kinds"
        "\<not> g_dry cfg \<longrightarrow> (\<forall>n \<in> set (fst acc). map_of (r_bg st) n \<noteq> None)"
        unfolding on_plan_def by blast
      then have "\<not> g_dry cfg \<longrightarrow> (\<forall>n \<in> set (fst acc). map_of bg n \<noteq> None)" using child_change_names [OF environ(3)] by blast
      with a(1,2) show ?thesis unfolding on_plan_def by (intro exI conjI) simp_all
    qed
    then show ?thesis using i environ(1,2) by (simp add: uncrashed_def)
  next
    case (item obs it st st' its)
    obtain acc acc1 acc' where a: "plan_item cfg it acc = Inr acc1" "plan_loop cfg its acc1 = Inr acc'" "snd acc' = kinds"
      "\<not> g_dry cfg \<longrightarrow> (\<forall>n \<in> set (fst acc). map_of (r_bg st) n \<noteq> None)"
      using items [OF item(1)] by blast
    have "on_plan cfg kinds its st'" by (rule planned_item(2) [OF a item(3)])
    then show ?thesis using item(2) by (simp add: uncrashed_def)
  next
    case (crash obs it st its)
    obtain acc acc1 acc' where a: "plan_item cfg it acc = Inr acc1" "plan_loop cfg its acc1 = Inr acc'" "snd acc' = kinds"
      "\<not> g_dry cfg \<longrightarrow> (\<forall>n \<in> set (fst acc). map_of (r_bg st) n \<noteq> None)"
      using items [OF crash(1)] by blast
    then show ?thesis using planned_item(1) [OF a] crash(3) by blast
  qed (simp_all add: uncrashed_def)
qed

end
