(* ===== verification/CardEnd.thy ===== *)
theory CardEnd
  imports CardRun
begin

text \<open>
  What a run of \<open>tools/cardrun.py\<close> means by its exit: a cell is never run twice nor over a record, an accepted plan is
  never surprised by a cell it does not know, status 0 says that every item was settled, and status 3 that both signals
  were tried on whatever is left running.
\<close>

subsection \<open>Settled items\<close>

definition is_background :: "card_cfg \<Rightarrow> string \<Rightarrow> bool" where
  "is_background cfg nm \<longleftrightarrow> (\<exists>c. find_cell cfg nm = Some c \<and> c_kind c = ''HOST&'')"

text \<open>The last word on an item: how its program ended, that its start was seen, or that its gate held.\<close>

definition item_settled :: "card_cfg \<Rightarrow> event set \<Rightarrow> item \<Rightarrow> bool" where
  "item_settled cfg E x =
     (case x of
        Run nm \<Rightarrow> (if is_background cfg nm then Started nm \<in> E else Ended nm 0 \<in> E)
      | Reading nm \<Rightarrow>
          (if is_background cfg nm then Started nm \<in> E
           else Ended nm 0 \<in> E \<or> (\<exists>rc. rc \<noteq> 0 \<and> Ended nm rc \<in> E \<and> Read_off nm rc \<in> E))
      | Wait nm \<Rightarrow> \<exists>rc. Waited nm rc \<in> E
      | Gate k nm \<Rightarrow> Gate_ok k nm \<in> E \<or> (\<exists>rc. rc \<noteq> 0 \<and> Ended nm rc \<in> E \<and> Read_off nm rc \<in> E))"

definition settled :: "card_cfg \<Rightarrow> run_state \<Rightarrow> string \<Rightarrow> bool" where
  "settled cfg st it \<longleftrightarrow> (\<exists>x. parse_item (g_compiles cfg) it = Inr x \<and> item_settled cfg (set (r_events st)) x)"

text \<open>A declared reading is one that ended otherwise than with 0, and was said to.\<close>

definition read_off :: "run_state \<Rightarrow> bool" where
  "read_off st \<longleftrightarrow> (\<forall>nm rc. map_of (r_readings st) nm = Some rc \<longrightarrow>
     rc \<noteq> 0 \<and> Ended nm rc \<in> set (r_events st) \<and> Read_off nm rc \<in> set (r_events st))"

lemma item_settled_mono: "item_settled cfg E x \<Longrightarrow> E \<subseteq> F \<Longrightarrow> item_settled cfg F x"
  by (cases x) (auto simp: item_settled_def split: if_splits)

lemma settled_mono: "settled cfg st it \<Longrightarrow> set (r_events st) \<subseteq> set (r_events st') \<Longrightarrow> settled cfg st' it"
  unfolding settled_def using item_settled_mono by blast

lemma settle_next:
  assumes "settle nm rc reading st = Next st'"
  shows "Ended nm rc \<in> set (r_events st')" "rc \<noteq> 0 \<Longrightarrow> reading \<and> Read_off nm rc \<in> set (r_events st')"
    "set (r_events st) \<subseteq> set (r_events st')" "read_off st \<Longrightarrow> read_off st'"
proof -
  show "Ended nm rc \<in> set (r_events st')" "rc \<noteq> 0 \<Longrightarrow> reading \<and> Read_off nm rc \<in> set (r_events st')" "set (r_events st) \<subseteq> set (r_events st')"
    using assms by (auto simp: settle_def Let_def split: if_splits)
  show "read_off st'" if r: "read_off st"
  proof -
    have "r_readings st' = (if rc = 0 then r_readings st else AList.update nm rc (r_readings st))"
      "set (r_events st) \<subseteq> set (r_events st')" "Ended nm rc \<in> set (r_events st')" "rc \<noteq> 0 \<Longrightarrow> Read_off nm rc \<in> set (r_events st')"
      using assms by (auto simp: settle_def Let_def split: if_splits)
    then show ?thesis using r unfolding read_off_def by (auto simp: update_conv' split: if_splits)
  qed
qed

lemma read_off_say [simp]: "read_off st \<Longrightarrow> read_off (say e st)" "read_off (st\<lparr>r_bg := bg\<rparr>) = read_off st"
  "read_off (st\<lparr>r_world := w\<rparr>) = read_off st"
  by (auto simp: read_off_def)

lemma run_cell_next:
  assumes n: "run_cell cfg kinds obs nm reading st = Next st'" and dry: "\<not> g_dry cfg" and r: "read_off st"
  shows "item_settled cfg (set (r_events st')) (if reading then Reading nm else Run nm) \<and> read_off st'
    \<and> set (r_events st) \<subseteq> set (r_events st')"
proof -
  obtain c where c: "find_cell cfg nm = Some c" using n by (cases "find_cell cfg nm") (auto simp: run_cell_def)
  obtain cmd where cmd: "cell_command c (g_table cfg) = Inr cmd" using n c by (cases "cell_command c (g_table cfg)") (auto simp: run_cell_def)
  show ?thesis
  proof (cases "c_kind c = ''HOST&''")
    case True
    then show ?thesis using n c cmd dry r
      by (auto simp: run_cell_def Let_def item_settled_def is_background_def split: option.splits if_splits start_reply.splits)
  next
    case False
    let ?st = "say (Ran nm (f_exists (r_world st))) st"
    have s: "settle nm (o_rc obs) reading (?st\<lparr>r_world := o_world obs\<rparr>) = Next st'"
      using n c cmd dry False by (auto simp: run_cell_def Let_def split: option.splits if_splits)
    note f = settle_next [OF s]
    have "read_off st'" using f(4) r by simp
    moreover have "set (r_events st) \<subseteq> set (r_events st')" using f(3) by auto
    moreover have "item_settled cfg (set (r_events st')) (if reading then Reading nm else Run nm)"
      using f(1,2) c False by (cases "o_rc obs = 0") (auto simp: item_settled_def is_background_def)
    ultimately show ?thesis by blast
  qed
qed

lemma run_item_next:
  assumes n: "run_item cfg kinds obs it st = Next st'" and dry: "\<not> g_dry cfg" and r: "read_off st"
  shows "settled cfg st' it \<and> read_off st' \<and> set (r_events st) \<subseteq> set (r_events st')"
proof -
  obtain x where x: "parse_item (g_compiles cfg) it = Inr x" using n by (cases "parse_item (g_compiles cfg) it") (auto simp: run_item_def Let_def)
  have cell: "settled cfg st' it \<and> read_off st' \<and> set (r_events st) \<subseteq> set (r_events st')"
    if "run_cell cfg kinds obs nm reading (say (Began it) st) = Next st'" "x = (if reading then Reading nm else Run nm)" for nm reading
    using run_cell_next [OF that(1) dry] r that(2) x by (simp add: settled_def)
  show ?thesis
  proof (cases x)
    case (Run nm)
    then show ?thesis using n x cell [of nm False] by (simp add: run_item_def Let_def)
  next
    case (Reading nm)
    then show ?thesis using n x cell [of nm True] by (simp add: run_item_def Let_def)
  next
    case (Wait nm)
    then show ?thesis using n x dry r
      by (auto simp: run_item_def Let_def settled_def item_settled_def split: if_splits option.splits)
  next
    case (Gate k nm)
    have s: "st' = say (Gate_skipped k nm) (say (Began it) st) \<and> nm \<in> fst ` set (r_readings st) \<or> st' = say (Gate_ok k nm) (say (Began it) st)"
      using n x dry Gate by (simp add: run_item_def Let_def split: if_splits option.splits)
    then show ?thesis
    proof
      assume a: "st' = say (Gate_skipped k nm) (say (Began it) st) \<and> nm \<in> fst ` set (r_readings st)"
      then obtain rc where "rc \<noteq> 0 \<and> Ended nm rc \<in> set (r_events st) \<and> Read_off nm rc \<in> set (r_events st)"
        using r unfolding read_off_def by (cases "map_of (r_readings st) nm") (auto simp: map_of_eq_None_iff)
      then show ?thesis using a x Gate r by (auto simp: settled_def item_settled_def)
    next
      assume "st' = say (Gate_ok k nm) (say (Began it) st)"
      then show ?thesis using x Gate r by (auto simp: settled_def item_settled_def)
    qed
  qed
qed


subsection \<open>The invariants of the two exits\<close>

definition all_settled :: "card_cfg \<Rightarrow> string list \<Rightarrow> run_state \<Rightarrow> bool" where
  "all_settled cfg its st \<longleftrightarrow> (\<forall>it \<in> set its. settled cfg st it)"

definition waited_for :: "string list \<Rightarrow> run_state \<Rightarrow> bool" where
  "waited_for ns st \<longleftrightarrow> (\<forall>nc \<in> set (r_bg st). fst nc \<in> set ns \<or> k_rc (snd nc) \<noteq> None)"

text \<open>
  A group that lives on after a stop was sent SIGINT and then SIGKILL; it is said to be left running exactly where the
  SIGKILL was refused for the whole of it.
\<close>

definition killed_or_said :: "event set \<Rightarrow> string \<Rightarrow> bool" where
  "killed_or_said E n \<longleftrightarrow> Sigint n \<in> E \<and>
     (Sigkill n Not_permitted \<in> E \<and> Left_running n \<in> E \<or> Sigkill n Delivered \<in> E)"

definition left_said :: "run_state \<Rightarrow> bool" where
  "left_said st \<longleftrightarrow> (\<forall>nc \<in> set (r_bg st). k_group (snd nc) \<longrightarrow> killed_or_said (set (r_events st)) (fst nc))"

definition good_end :: "card_cfg \<Rightarrow> string list \<Rightarrow> phase \<times> run_state \<Rightarrow> bool" where
  "good_end cfg items s \<longleftrightarrow>
     (case fst s of
        Items its \<Rightarrow> read_off (snd s) \<and> (\<exists>pre. items = pre @ its \<and> all_settled cfg pre (snd s))
      | Ending ns \<Rightarrow> all_settled cfg items (snd s) \<and> waited_for ns (snd s)
      | Exited rc \<Rightarrow>
          if rc = 0 then all_settled cfg items (snd s) \<and> waited_for [] (snd s) else left_said (snd s)
      | _ \<Rightarrow> True)"

lemma all_settled_mono: "all_settled cfg its st \<Longrightarrow> set (r_events st) \<subseteq> set (r_events st') \<Longrightarrow> all_settled cfg its st'"
  unfolding all_settled_def using settled_mono by blast

lemma all_settled_same [simp]: "all_settled cfg its (st\<lparr>r_world := w, r_bg := bg\<rparr>) = all_settled cfg its st"
  "all_settled cfg its (finish_child n rc st) = all_settled cfg its st"
  "read_off (st\<lparr>r_world := w, r_bg := bg\<rparr>) = read_off st"
  by (simp_all add: all_settled_def settled_def finish_child_def read_off_def)

lemma child_change_set:
  "list_all2 child_change bg bg' \<Longrightarrow> nc' \<in> set bg' \<Longrightarrow> \<exists>nc \<in> set bg. child_change nc nc'"
  by (induction bg bg' rule: list_all2_induct) auto

lemma waited_for_change: "list_all2 child_change (r_bg st) bg \<Longrightarrow> waited_for ns st \<Longrightarrow> waited_for ns (st\<lparr>r_world := w, r_bg := bg\<rparr>)"
  unfolding waited_for_def by (auto simp: child_change_def dest!: child_change_set)

lemma left_said_change: "list_all2 child_change (r_bg st) bg \<Longrightarrow> left_said st \<Longrightarrow> left_said (st\<lparr>r_world := w, r_bg := bg\<rparr>)"
  unfolding left_said_def by (auto simp: child_change_def dest!: child_change_set)

lemma waited_for_finish: "waited_for (n # ns) st \<Longrightarrow> waited_for ns (finish_child n rc st)"
  by (auto simp: waited_for_def finish_child_def exited_def split: option.splits)

lemma stop_child_left:
  assumes "k_group (snd (snd (stop_child ob nc)))"
  shows "Sigkill (fst nc) Not_permitted \<in> set (fst (stop_child ob nc)) \<and> Left_running (fst nc) \<in> set (fst (stop_child ob nc))
    \<or> Sigkill (fst nc) Delivered \<in> set (fst (stop_child ob nc))"
  using assms by (auto simp: stop_child_def killpg_def Let_def)

lemma stop_children_says:
  assumes "nc \<in> set (r_bg st)" "k_group (snd nc)"
  shows "Sigint (fst nc) \<in> set (r_events (stop_children obs st))"
    "set (fst (stop_child (obs (fst nc)) nc)) \<subseteq> set (r_events (stop_children obs st))"
proof -
  let ?live = "filter (\<lambda>nc. k_group (snd nc)) (r_bg st)"
  have l: "nc \<in> set ?live" using assms by simp
  have "r_events (stop_children obs st) = r_events st @ map (\<lambda>nc. Sigint (fst nc)) ?live
      @ concat (map (\<lambda>nc. fst (stop_child (obs (fst nc)) nc)) ?live)"
    by (simp add: stop_children_def Let_def)
  then have e: "set (r_events (stop_children obs st)) = set (r_events st) \<union> (\<lambda>nc. Sigint (fst nc)) ` set ?live
      \<union> (\<Union>nc \<in> set ?live. set (fst (stop_child (obs (fst nc)) nc)))"
    by (simp only: set_append set_map set_concat Un_assoc UN_simps image_image)
  show "Sigint (fst nc) \<in> set (r_events (stop_children obs st))" unfolding e using l by blast
  show "set (fst (stop_child (obs (fst nc)) nc)) \<subseteq> set (r_events (stop_children obs st))" unfolding e using l by blast
qed

lemma stop_children_left: "left_said (stop_children obs st)"
  unfolding left_said_def
proof (intro ballI impI)
  fix nc' assume b: "nc' \<in> set (r_bg (stop_children obs st))" and g: "k_group (snd nc')"
  then obtain nc where nc: "nc \<in> set (r_bg st)" "k_group (snd nc)" "nc' = snd (stop_child (obs (fst nc)) nc)"
    by (auto simp: stop_children_def Let_def split: if_splits)
  have f: "fst nc' = fst nc" using nc(3) by (simp add: stop_child_def Let_def)
  have "k_group (snd (snd (stop_child (obs (fst nc)) nc)))" using g nc(3) by simp
  note left = stop_child_left [OF this]
  show "killed_or_said (set (r_events (stop_children obs st))) (fst nc')"
    unfolding f killed_or_said_def using stop_children_says [OF nc(1,2), of obs] left by blast
qed

interpretation ending: invariant "begins cfg kinds items" "run_step cfg kinds" "\<lambda>s. \<not> g_dry cfg \<longrightarrow> good_end cfg items s"
  for cfg kinds items
proof
  fix s assume "begins cfg kinds items s"
  then show "\<not> g_dry cfg \<longrightarrow> good_end cfg items s"
    by (auto simp: begins_def good_end_def read_off_def all_settled_def fresh_def)
next
  fix s t assume i: "\<not> g_dry cfg \<longrightarrow> good_end cfg items s" and st: "run_step cfg kinds s t"
  from st show "\<not> g_dry cfg \<longrightarrow> good_end cfg items t"
  proof cases
    case (environ st bg ph w)
    then show ?thesis using i waited_for_change [OF environ(3)] left_said_change [OF environ(3)]
      by (auto simp: good_end_def split: phase.splits if_splits)
  next
    case (item obs it st st' its)
    show ?thesis
    proof
      assume dry: "\<not> g_dry cfg"
      then obtain pre where p: "read_off st" "items = pre @ it # its" "all_settled cfg pre st"
        using i item(1) by (auto simp: good_end_def)
      note n = run_item_next [OF item(3) dry p(1)]
      then have "all_settled cfg (pre @ [it]) st'" using all_settled_mono [OF p(3)] by (auto simp: all_settled_def)
      then show "good_end cfg items t" using n p(2) item(2) by (auto simp: good_end_def intro!: exI [of _ "pre @ [it]"])
    qed
  next
    case (waited n ns st rc)
    then show ?thesis using i waited_for_finish by (auto simp: good_end_def)
  next
    case (finish st)
    then show ?thesis using i by (auto simp: good_end_def waited_for_def)
  qed (use i stop_children_left in \<open>auto simp: good_end_def\<close>)
qed

subsection \<open>What an exit means\<close>

lemma named_once_distinct:
  "named_once compiles seen items = Inr () \<Longrightarrow>
    distinct (concat (map (\<lambda>it. case parse_item compiles it of Inl _ \<Rightarrow> [] | Inr x \<Rightarrow> item_names x) items))
    \<and> set (concat (map (\<lambda>it. case parse_item compiles it of Inl _ \<Rightarrow> [] | Inr x \<Rightarrow> item_names x) items)) \<inter> set seen = {}"
proof (induction items arbitrary: seen)
  case (Cons it its)
  obtain x where x: "parse_item compiles it = Inr x" using Cons.prems by (auto simp: sbind_Inr)
  show ?case using Cons.prems Cons.IH x by (cases x) (fastforce split: if_splits)+
qed simp

lemma begins_distinct: "begins cfg kinds items s \<Longrightarrow> distinct (concat (map (names_in cfg) items))"
  using named_once_distinct [of "g_compiles cfg" "[]" items] by (auto simp: begins_def names_in_def [abs_def])

lemma subseq_distinct: "subseq xs ys \<Longrightarrow> distinct ys \<Longrightarrow> distinct xs"
proof -
  have "subseq xs ys \<Longrightarrow> set xs \<subseteq> set ys \<and> (distinct ys \<longrightarrow> distinct xs)" by (induction rule: list_emb.induct) auto
  then show "subseq xs ys \<Longrightarrow> distinct ys \<Longrightarrow> distinct xs" by blast
qed

lemma prefix_ran_distinct:
  assumes "distinct (concat (map f items))" "prefix b items" "subseq r (concat (map f b))"
  shows "distinct r"
proof -
  have "prefix (concat (map f b)) (concat (map f items))" using assms(2) by (auto simp: prefix_def)
  then have "distinct (concat (map f b))" using assms(1) by (auto simp: prefix_def)
  then show ?thesis using assms(3) subseq_distinct by blast
qed


subsection \<open>A card with one background cell\<close>

definition sample_cell :: cell where
  "sample_cell = \<lparr>c_name = ''B1'', c_kind = ''HOST&'', c_prefix = ''p'', c_line = ''HOST& p/B1 :: tcpdump'', c_lineno = 3\<rparr>"

definition sample_cfg :: card_cfg where
  "sample_cfg = \<lparr>g_cells = [sample_cell], g_table = [], g_root = ''r'', g_dry = False, g_compiles = (\<lambda>_. False), g_search = (\<lambda>_ _. None)\<rparr>"

definition sample_world :: world where
  "sample_world = \<lparr>f_exists = {}, f_text = (\<lambda>_. []), f_meta = (\<lambda>_. None)\<rparr>"

definition sample_obs :: item_obs where
  "sample_obs = \<lparr>o_rc = 0, o_world = sample_world, o_appeared = False,
     o_polls = [\<lparr>p_exit = None, p_record = ''listening on eth0'', p_clock = None, p_late = False\<rparr>], o_interrupt = False, o_host_error = False\<rparr>"

definition sample_started :: run_state where
  "sample_started = \<lparr>r_world = sample_world, r_bg = [(''B1'', \<lparr>k_rc = None, k_group = True\<rparr>)], r_readings = [],
     r_events = [Began ''B1'', Ran ''B1'' {}, Started ''B1'']\<rparr>"

lemma sample_program: "background_program ''tcpdump'' = Inr Tcpdump" by code_simp

lemma sample_items: "parse_item c ''B1'' = Inr (Run ''B1'')" "parse_item c ''wait:B1'' = Inr (Wait ''B1'')" by code_simp+

lemma sample_command: "cell_command sample_cell [] = Inr ''tcpdump''" by code_simp

lemma sample_find: "find_cell sample_cfg ''B1'' = Some sample_cell"
  by (simp add: find_cell_def sample_cfg_def sample_cell_def)

lemma sample_plan: "plan sample_cfg [''B1'', ''wait:B1''] = Inr [(''B1'', Tcpdump)]"
proof -
  have "c_kind sample_cell = ''HOST&''" "g_table sample_cfg = []" by (simp_all add: sample_cell_def sample_cfg_def)
  then show ?thesis using sample_items [of "g_compiles sample_cfg"] sample_find sample_command sample_program
    by (simp add: plan_def plan_item_def)
qed

lemma sample_begins: "begins sample_cfg [(''B1'', Tcpdump)] [''B1'', ''wait:B1''] (Items [''B1'', ''wait:B1''], fresh sample_world)"
  using sample_plan sample_items [of "g_compiles sample_cfg"] by (auto simp: begins_def)

lemma sample_start: "run_item sample_cfg [(''B1'', Tcpdump)] sample_obs ''B1'' (fresh sample_world) = Next sample_started"
proof -
  have "c_kind sample_cell = ''HOST&''" "g_table sample_cfg = []" "g_dry sample_cfg = False"
    by (simp_all add: sample_cell_def sample_cfg_def)
  moreover have "occurs ''listening on'' ''listening on eth0''" by code_simp
  ultimately show ?thesis using sample_items(1) [of "g_compiles sample_cfg"] sample_find sample_command
    by (simp add: run_item_def run_cell_def sample_obs_def sample_world_def fresh_def say_def RECORD_SUFFIXES_def sample_started_def)
qed

lemma sample_first: "run_step sample_cfg [(''B1'', Tcpdump)] (Items [''B1'', ''wait:B1''], fresh sample_world) (Items [''wait:B1''], sample_started)"
  by (rule run_step.item [OF sample_start])

lemma sample_to_zero:
  "\<exists>st. (run_step sample_cfg [(''B1'', Tcpdump)])\<^sup>*\<^sup>* (Items [''B1'', ''wait:B1''], fresh sample_world) (Exited 0, st)
    \<and> r_events st = [Began ''B1'', Ran ''B1'' {}, Started ''B1'', Began ''wait:B1'', Waited ''B1'' 0] \<and> map fst (r_bg st) = [''B1'']"
proof -
  let ?R = "run_step sample_cfg [(''B1'', Tcpdump)]"
  obtain st where st: "run_item sample_cfg [(''B1'', Tcpdump)] sample_obs ''wait:B1'' sample_started = Next st"
    "r_events st = [Began ''B1'', Ran ''B1'' {}, Started ''B1'', Began ''wait:B1'', Waited ''B1'' 0]" "map fst (r_bg st) = [''B1'']"
  proof (rule that)
    have "g_dry sample_cfg = False" by (simp add: sample_cfg_def)
    then show "run_item sample_cfg [(''B1'', Tcpdump)] sample_obs ''wait:B1'' sample_started =
        Next (sample_started\<lparr>r_bg := [(''B1'', \<lparr>k_rc = Some 0, k_group = True\<rparr>)],
          r_events := r_events sample_started @ [Began ''wait:B1'', Waited ''B1'' 0]\<rparr>)"
      using sample_items(2) [of "g_compiles sample_cfg"]
      by (simp add: run_item_def sample_started_def sample_obs_def exited_def say_def)
  qed (simp_all add: sample_started_def)
  let ?st = "finish_child ''B1'' 0 st"
  have "?R (Items [''wait:B1''], sample_started) (Items [], st)" by (rule run_step.item [OF st(1)])
  moreover have "?R (Items [], st) (Ending [''B1''], st)" using run_step.finish [of _ _ st] st(3) by metis
  moreover have "?R (Ending [''B1''], st) (Ending [], ?st)" by (rule run_step.waited)
  moreover have "?R (Ending [], ?st) (Exited 0, ?st)" by (rule run_step.all_done)
  ultimately have "?R\<^sup>*\<^sup>* (Items [''B1'', ''wait:B1''], fresh sample_world) (Exited 0, ?st)"
    using sample_first by (meson converse_rtranclp_into_rtranclp rtranclp.rtrancl_refl)
  moreover have "r_events ?st = r_events st" "map fst (r_bg ?st) = map fst (r_bg st)" by (auto simp: finish_child_def)
  ultimately show ?thesis using st(2,3) by metis
qed


lemma sample_to_three:
  "(run_step sample_cfg [(''B1'', Tcpdump)])\<^sup>*\<^sup>* (Items [''B1'', ''wait:B1''], fresh sample_world)
     (Exited 3, stop_children (\<lambda>_. ob) sample_started)"
proof -
  let ?R = "run_step sample_cfg [(''B1'', Tcpdump)]"
  have "?R (Items [''wait:B1''], sample_started) (Stopping Interrupted, sample_started)" by (rule run_step.interrupt)
  moreover have "?R (Stopping Interrupted, sample_started) (Exited 3, stop_children (\<lambda>_. ob) sample_started)"
    by (rule run_step.stopped)
  ultimately show ?thesis using sample_first by (meson converse_rtranclp_into_rtranclp rtranclp.rtrancl_refl)
qed

text \<open>A group of this user's shell and of a program that is not this user's, after the grace period.\<close>

definition mixed_group :: stop_obs where
  "mixed_group = \<lparr>s_alive = True, s_own = True, s_foreign = True, s_rc = Some (- 9)\<rparr>"

text \<open>
  Such a group survives the stop with no word of it: \<open>killpg\<close> reached the shell, so nothing was refused, and the transcript
  says no more than that the program ended.
\<close>

lemma mixed_group_unsaid:
  "\<exists>st. (run_step sample_cfg [(''B1'', Tcpdump)])\<^sup>*\<^sup>* (Items [''B1'', ''wait:B1''], fresh sample_world) (Exited 3, st)
    \<and> r_bg st = [(''B1'', \<lparr>k_rc = Some (- 9), k_group = True\<rparr>)]
    \<and> r_events st = r_events sample_started @ [Sigint ''B1'', Sigkill ''B1'' Delivered, Stop_ended ''B1'' (Some (- 9))]"
  using sample_to_three [of mixed_group]
  by (auto simp: stop_children_def stop_child_def killpg_def mixed_group_def sample_started_def Let_def)

text \<open>
  C27. A cell is never run twice and never over a record: in every run, however the files and the programs behave between the
  steps, the cells that ran are distinct, the items begun are the invocation's items in order, and each cell ran at a moment
  when none of its five record files existed.
\<close>
theorem cells_run_once:
  assumes "begins cfg kinds items s" "(run_step cfg kinds)\<^sup>*\<^sup>* s (ph, st)"
  shows "distinct (ran st) \<and> prefix (began st) items \<and> (\<forall>nm F. Ran nm F \<in> set (r_events st) \<longrightarrow> unrecorded cfg nm F)"
proof -
  have o: "in_order items ph st" "log_ok cfg st" using ordered.always [OF assms] by simp_all
  have p: "prefix (began st) items" using o(1) by (auto simp: in_order_def split: phase.splits)
  have "distinct (ran st)"
    using prefix_ran_distinct [OF begins_distinct [OF assms(1)] p] o(2) by (simp add: log_ok_def)
  with p o(2) show ?thesis by (simp add: log_ok_def)
qed

theorem cells_run_once_witness:
  "\<exists>st :: run_state. r_events st = [Began ''B1'', Ran ''B1'' {}, Started ''B1'', Began ''wait:B1'', Waited ''B1'' 0] \<and> distinct (ran st)"
proof -
  obtain st where st: "(run_step sample_cfg [(''B1'', Tcpdump)])\<^sup>*\<^sup>* (Items [''B1'', ''wait:B1''], fresh sample_world) (Exited 0, st)"
    "r_events st = [Began ''B1'', Ran ''B1'' {}, Started ''B1'', Began ''wait:B1'', Waited ''B1'' 0]"
    using sample_to_zero by (elim exE conjE) (rule that)
  then show ?thesis using cells_run_once [OF sample_begins st(1)] by blast
qed

text \<open>
  C28. An accepted plan is never surprised: no run of accepted items looks up a cell, a command, a start signal or a background
  program that is not there, so none of the lookups that the code leaves unguarded fails, whatever happens meanwhile.
\<close>
theorem planned_never_crashes:
  assumes "begins cfg kinds items s" "(run_step cfg kinds)\<^sup>*\<^sup>* s (ph, st)"
  shows "ph \<noteq> Crashed \<and> (\<forall>it its obs. ph = Items (it # its) \<longrightarrow> run_item cfg kinds obs it st \<noteq> Crash)"
proof -
  have "fst (ph, st) \<noteq> Crashed" using planned.always [OF assms] by (simp add: uncrashed_def)
  moreover have "run_item cfg kinds obs it st \<noteq> Crash" if "ph = Items (it # its)" for it its obs
  proof
    assume "run_item cfg kinds obs it st = Crash"
    then have "run_step cfg kinds (ph, st) (Crashed, st)" unfolding that by (rule run_step.crash)
    then have "(run_step cfg kinds)\<^sup>*\<^sup>* s (Crashed, st)" using assms(2) by (rule rtranclp.rtrancl_into_rtrancl [rotated])
    then show False using planned.always [OF assms(1)] by (fastforce simp: uncrashed_def)
  qed
  ultimately show ?thesis by simp
qed

theorem planned_never_crashes_witness: "run_item sample_cfg [(''B1'', Tcpdump)] sample_obs ''wait:B1'' sample_started \<noteq> Crash"
  using planned_never_crashes [OF sample_begins, of "Items [''wait:B1'']" sample_started] sample_first by blast

text \<open>
  C29. Status 0 means that the invocation was carried out: every item was begun, in order, and is settled (a cell ended with 0,
  or otherwise when declared a reading; a background cell's start was seen; a wait ended; a gate held, or its cell was a
  reading), and every background program's exit is known.
\<close>
theorem exit_zero_means:
  assumes "begins cfg kinds items s" "(run_step cfg kinds)\<^sup>*\<^sup>* s (Exited 0, st)" "\<not> g_dry cfg"
  shows "began st = items \<and> (\<forall>it \<in> set items. settled cfg st it) \<and> (\<forall>nc \<in> set (r_bg st). k_rc (snd nc) \<noteq> None)"
proof -
  have "began st = items" using ordered.always [OF assms(1,2)] by (simp add: in_order_def)
  moreover have "all_settled cfg items st" "waited_for [] st"
    using ending.always [OF assms(1,2)] assms(3) by (simp_all add: good_end_def)
  ultimately show ?thesis by (auto simp: all_settled_def waited_for_def)
qed

theorem exit_zero_means_witness:
  "\<exists>st :: run_state. map fst (r_bg st) = [''B1''] \<and> settled sample_cfg st ''wait:B1'' \<and> (\<forall>nc \<in> set (r_bg st). k_rc (snd nc) \<noteq> None)"
proof -
  obtain st where st: "(run_step sample_cfg [(''B1'', Tcpdump)])\<^sup>*\<^sup>* (Items [''B1'', ''wait:B1''], fresh sample_world) (Exited 0, st)"
    "map fst (r_bg st) = [''B1'']"
    using sample_to_zero by (elim exE conjE) (rule that)
  have "\<not> g_dry sample_cfg" by (simp add: sample_cfg_def)
  from exit_zero_means [OF sample_begins st(1) this]
  have "settled sample_cfg st ''wait:B1''" "\<forall>nc \<in> set (r_bg st). k_rc (snd nc) \<noteq> None" by (blast intro: list.set_intros)+
  with st(2) show ?thesis by (intro exI conjI)
qed

text \<open>
  C30. A stop tries both signals on whatever is left: after status 3, a background program whose process group still has a
  member was sent SIGINT and then SIGKILL, and either the SIGKILL was refused, for no member of the group may be signalled, and
  the transcript says that it is left running, or it reached a part of the group.  (In the second case a member that
  may not be signalled lives on, and the transcript does not say so: \<open>mixed_group_unsaid\<close>.)
\<close>
theorem stop_ends_children:
  assumes "begins cfg kinds items s" "(run_step cfg kinds)\<^sup>*\<^sup>* s (Exited 3, st)" "\<not> g_dry cfg"
    and "(n, c) \<in> set (r_bg st)" "k_group c"
  shows "Sigint n \<in> set (r_events st) \<and>
    (Sigkill n Not_permitted \<in> set (r_events st) \<and> Left_running n \<in> set (r_events st)
     \<or> Sigkill n Delivered \<in> set (r_events st))"
proof -
  have "left_said st" using ending.always [OF assms(1,2)] assms(3) by (simp add: good_end_def)
  then show ?thesis using assms(4,5) by (force simp: left_said_def killed_or_said_def)
qed

text \<open>A group that is not this user's at all.\<close>

definition foreign_group :: stop_obs where
  "foreign_group = \<lparr>s_alive = True, s_own = False, s_foreign = True, s_rc = None\<rparr>"

theorem stop_ends_children_witness:
  "\<exists>st :: run_state. (''B1'', \<lparr>k_rc = None, k_group = True\<rparr>) \<in> set (r_bg st) \<and> Sigint ''B1'' \<in> set (r_events st) \<and> Left_running ''B1'' \<in> set (r_events st)"
proof -
  let ?st = "stop_children (\<lambda>_. foreign_group) sample_started"
  have c: "(''B1'', \<lparr>k_rc = None, k_group = True\<rparr>) \<in> set (r_bg ?st)" "Sigkill ''B1'' Delivered \<notin> set (r_events ?st)"
    by (simp_all add: stop_children_def stop_child_def killpg_def foreign_group_def sample_started_def Let_def)
  have "\<not> g_dry sample_cfg" by (simp add: sample_cfg_def)
  from stop_ends_children [OF sample_begins sample_to_three this c(1)] c show ?thesis by auto
qed

end
