(* ===== verification/Kconfig.thy ===== *)
theory Kconfig
  imports "HOL-Library.AList" "HOL-Library.List_Lexorder" "HOL-Library.Char_ord" PyText Sha2
begin

text \<open>
  \<open>tools/kconfig-delta.py\<close>, the gate between a build's kernel configuration and the list of declared differences: the
  two file formats, \<open>check\<close>, \<open>apply\<close>, \<open>explain\<close> and the exit codes.
\<close>

subsection \<open>The texts of a configuration\<close>

datatype kd_error =
    Two_values string string string | No_config_line
  | Unknown_variant string | No_variant nat | Empty_variant nat string | Undeclared_variant nat string | Variant_twice nat "string list"
  | Delta_fields nat nat | Bad_kind nat string | Bad_symbol nat string | Bad_mechanism nat string | Set_mechanism nat string
  | No_reason nat string | Rule_twice nat string nat
  | No_baseline_hash | Wrong_baseline string string | From_differs string string string | Changes_nothing string
  | No_command | Needs_value string | Unknown_option string | Needs string | No_such_file string | Uncaught_missing string | Unknown_command string

definition sym_char :: "char \<Rightarrow> bool" where
  "sym_char c \<longleftrightarrow> is_digit c \<or> c = CHR ''_'' \<or> (let n = (of_char c :: nat) in 65 \<le> n \<and> n \<le> 90 \<or> 97 \<le> n \<and> n \<le> 122)"

definition rstrip_of :: "char set \<Rightarrow> string \<Rightarrow> string" where
  "rstrip_of cs s = rev (dropWhile (\<lambda>c. c \<in> cs) (rev s))"

text \<open>The symbol at the start of a text, and what follows it.\<close>

definition config_sym :: "string \<Rightarrow> (string \<times> string) option" where
  "config_sym s =
     (case lit ''CONFIG_'' s of
        None \<Rightarrow> None
      | Some r \<Rightarrow> if takeWhile sym_char r = [] then None else Some (''CONFIG_'' @ takeWhile sym_char r, dropWhile sym_char r))"

definition RE_SET :: "string \<Rightarrow> (string \<times> string) option" where
  "RE_SET ln = (case config_sym ln of Some (s, CHR ''='' # v) \<Rightarrow> Some (s, v) | _ \<Rightarrow> None)"

definition RE_NOT :: "string \<Rightarrow> string option" where
  "RE_NOT ln =
     (case lit ''# '' ln of
        None \<Rightarrow> None
      | Some r \<Rightarrow> (case config_sym r of Some (s, t) \<Rightarrow> (if prefix '' is not set'' t then Some s else None) | None \<Rightarrow> None))"

definition config_line :: "string \<Rightarrow> (string \<times> string) option" where
  "config_line ln = (case RE_SET ln of Some sv \<Rightarrow> Some sv | None \<Rightarrow> map_option (\<lambda>s. (s, ''n'')) (RE_NOT ln))"

type_synonym config = "(string \<times> string) list"

fun config_lines :: "string list \<Rightarrow> config \<Rightarrow> kd_error + config" where
  "config_lines [] d = Inr d"
| "config_lines (ln # lns) d =
     (case config_line (rstrip_of {CHR 0x0D} ln) of
        None \<Rightarrow> config_lines lns d
      | Some (s, v) \<Rightarrow>
          (case map_of d s of
             Some old \<Rightarrow> if old \<noteq> v then Inl (Two_values s old v) else config_lines lns d
           | None \<Rightarrow> config_lines lns (d @ [(s, v)])))"

definition parse_config :: "string \<Rightarrow> kd_error + config" where
  "parse_config text =
     sbind (config_lines (split_on (CHR 0x0A) text) []) (\<lambda>d. if d = [] then Inl No_config_line else Inr d)"

definition ABSENT :: string where "ABSENT = ''-''"

definition value_in :: "config \<Rightarrow> string \<Rightarrow> string" where
  "value_in d s = (case map_of d s of None \<Rightarrow> ABSENT | Some v \<Rightarrow> v)"

definition diff_configs :: "config \<Rightarrow> config \<Rightarrow> (string \<times> string \<times> string) list" where
  "diff_configs a b =
     map (\<lambda>k. (k, value_in a k, value_in b k))
       (filter (\<lambda>k. value_in a k \<noteq> value_in b k) (sort (remdups (map fst a @ map fst b))))"

subsection \<open>The delta file\<close>

definition VARIANTS :: "string list" where "VARIANTS = [''quiet'', ''loud'', ''quiet-swcore'']"

definition MECHANISMS :: "string list" where
  "MECHANISMS = [''promptless'', ''selected'', ''dep-unmet'', ''undeclared'', ''other-board'']"

definition parse_variants :: "nat \<Rightarrow> string \<Rightarrow> kd_error + string list" where
  "parse_variants no field =
     (let names = split_on (CHR '','') field in
      if names = [[]] then Inl (No_variant no)
      else if [] \<in> set names then Inl (Empty_variant no field)
      else case find (\<lambda>n. n \<notin> set VARIANTS) names of
        Some n \<Rightarrow> Inl (Undeclared_variant no n)
      | None \<Rightarrow>
          (let twice = sort (remdups (filter (\<lambda>n. count_list names n > 1) names)) in
           if twice \<noteq> [] then Inl (Variant_twice no twice) else Inr names))"

record krule =
  ku_kind :: string
  ku_sym :: string
  ku_from :: string
  ku_to :: string
  ku_tag :: string
  ku_reason :: string
  ku_line :: nat
  ku_variants :: "string list option"

type_synonym krules = "(string \<times> krule) list"
type_synonym headers = "(string \<times> string) list"

definition header_char :: "char \<Rightarrow> bool" where
  "header_char c \<longleftrightarrow> is_digit c \<or> c = CHR ''-'' \<or> (let n = (of_char c :: nat) in 97 \<le> n \<and> n \<le> 122)"

definition header_row :: "string \<Rightarrow> (string \<times> string) option" where
  "header_row ln =
     (let r = dropWhile py_space (tl ln); k = takeWhile header_char r in
      if k \<noteq> [] \<and> take 1 (dropWhile header_char r) = '':'' then Some (k, strip (tl (dropWhile header_char r))) else None)"

definition split_kind :: "nat \<Rightarrow> string \<Rightarrow> kd_error + string \<times> string list option" where
  "split_kind no k =
     (if CHR ''@'' \<in> set k
      then sbind (parse_variants no (tl (dropWhile (\<lambda>c. c \<noteq> CHR ''@'') k))) (\<lambda>vs. Inr (takeWhile (\<lambda>c. c \<noteq> CHR ''@'') k, Some vs))
      else Inr (k, None))"

definition selected :: "string option \<Rightarrow> string list option \<Rightarrow> bool" where
  "selected variant vs = (case vs of None \<Rightarrow> True | Some names \<Rightarrow> (case variant of None \<Rightarrow> False | Some v \<Rightarrow> v \<in> set names))"

definition rule_check :: "nat \<Rightarrow> krule \<Rightarrow> krules \<Rightarrow> kd_error + krules" where
  "rule_check no r rules =
     (if \<not> prefix ''CONFIG_'' (ku_sym r) then Inl (Bad_symbol no (ku_sym r))
      else if ku_kind r = ''derive'' \<and> ku_tag r \<notin> set MECHANISMS then Inl (Bad_mechanism no (ku_tag r))
      else if ku_kind r = ''set'' \<and> ku_tag r \<noteq> ''-'' then Inl (Set_mechanism no (ku_tag r))
      else if strip (ku_reason r) = [] then Inl (No_reason no (ku_sym r))
      else case map_of rules (ku_sym r) of
        Some old \<Rightarrow> Inl (Rule_twice no (ku_sym r) (ku_line old))
      | None \<Rightarrow> Inr (rules @ [(ku_sym r, r)]))"

definition delta_row :: "string option \<Rightarrow> nat \<Rightarrow> string \<Rightarrow> krules \<Rightarrow> kd_error + krules" where
  "delta_row variant no ln rules =
     (case split_on (CHR 0x09) ln of
        [k, s, frm, to, tag, reason] \<Rightarrow>
          sbind (split_kind no k) (\<lambda>(kind, vs).
            if kind \<notin> {''derive'', ''set''} then Inl (Bad_kind no kind)
            else if \<not> selected variant vs then Inr rules
            else rule_check no \<lparr>ku_kind = kind, ku_sym = s, ku_from = frm, ku_to = to, ku_tag = tag, ku_reason = reason,
              ku_line = no, ku_variants = vs\<rparr> rules)
      | f \<Rightarrow> Inl (Delta_fields no (length f)))"

fun delta_lines :: "string option \<Rightarrow> nat \<Rightarrow> string list \<Rightarrow> krules \<times> headers \<Rightarrow> kd_error + krules \<times> headers" where
  "delta_lines variant no [] acc = Inr acc"
| "delta_lines variant no (raw # lns) acc =
     (let ln = rstrip_of {CHR 0x0D, CHR 0x0A} raw in
      if strip ln = [] then delta_lines variant (Suc no) lns acc
      else if take 1 ln = ''#'' then
        delta_lines variant (Suc no) lns
          (case header_row ln of
             None \<Rightarrow> acc
           | Some (k, v) \<Rightarrow> (fst acc, if map_of (snd acc) k = None then snd acc @ [(k, v)] else snd acc))
      else sbind (delta_row variant no ln (fst acc)) (\<lambda>rules. delta_lines variant (Suc no) lns (rules, snd acc)))"

definition parse_delta :: "string option \<Rightarrow> string \<Rightarrow> kd_error + krules \<times> headers" where
  "parse_delta variant text =
     (case variant of
        Some v \<Rightarrow> if v \<notin> set VARIANTS then Inl (Unknown_variant v) else delta_lines variant 1 (split_on (CHR 0x0A) text) ([], [])
      | None \<Rightarrow> delta_lines variant 1 (split_on (CHR 0x0A) text) ([], []))"

subsection \<open>\<open>check\<close>\<close>

record check_result =
  k_undeclared :: "(string \<times> string \<times> string) list"
  k_unapplied :: "krule list"
  k_mismatch :: "(string \<times> string \<times> string \<times> krule) list"
  k_derive :: nat
  k_set :: nat

definition check_failed :: "check_result \<Rightarrow> bool" where
  "check_failed r \<longleftrightarrow> k_undeclared r \<noteq> [] \<or> k_unapplied r \<noteq> [] \<or> k_mismatch r \<noteq> []"

text \<open>The loop over the differences; the set holds the symbols whose rule was \<open>seen\<close>.\<close>

fun judge_diffs :: "krules \<Rightarrow> (string \<times> string \<times> string) list \<Rightarrow> check_result \<times> string set \<Rightarrow> check_result \<times> string set" where
  "judge_diffs rules [] acc = acc"
| "judge_diffs rules ((s, frm, to) # ds) (r, seen) =
     (case map_of rules s of
        None \<Rightarrow> judge_diffs rules ds (r\<lparr>k_undeclared := k_undeclared r @ [(s, frm, to)]\<rparr>, seen)
      | Some u \<Rightarrow>
          judge_diffs rules ds
            (if ku_from u \<noteq> frm \<or> ku_to u \<noteq> to then r\<lparr>k_mismatch := k_mismatch r @ [(s, frm, to, u)]\<rparr>
             else if ku_kind u = ''set'' then r\<lparr>k_set := Suc (k_set r)\<rparr> else r\<lparr>k_derive := Suc (k_derive r)\<rparr>,
             insert s seen))"

definition no_result :: check_result where
  "no_result = \<lparr>k_undeclared = [], k_unapplied = [], k_mismatch = [], k_derive = 0, k_set = 0\<rparr>"

definition check_rules :: "config \<Rightarrow> config \<Rightarrow> krules \<Rightarrow> check_result" where
  "check_rules a b rules =
     (let (r, seen) = judge_diffs rules (diff_configs a b) (no_result, {}) in
      r\<lparr>k_unapplied := map snd (filter (\<lambda>su. fst su \<notin> seen) (sort_key fst rules))\<rparr>)"

definition check_delta :: "string \<Rightarrow> string \<Rightarrow> string \<Rightarrow> string option \<Rightarrow> kd_error + check_result \<times> headers" where
  "check_delta base delta built variant =
     sbind (parse_config base) (\<lambda>a. sbind (parse_config built) (\<lambda>b.
     sbind (parse_delta variant delta) (\<lambda>(rules, headers). Inr (check_rules a b rules, headers))))"


subsection \<open>\<open>apply\<close> and \<open>explain\<close>\<close>

definition config_text :: "string \<Rightarrow> string \<Rightarrow> string" where
  "config_text s v = (if v = ''n'' then ''# '' @ s @ '' is not set'' else s @ ''='' @ v)"

definition set_rules :: "krules \<Rightarrow> krules" where
  "set_rules rules = filter (\<lambda>su. ku_kind (snd su) = ''set'') rules"

fun apply_refusal :: "config \<Rightarrow> krules \<Rightarrow> kd_error + unit" where
  "apply_refusal a [] = Inr ()"
| "apply_refusal a ((s, u) # us) =
     (if value_in a s \<noteq> ku_from u then Inl (From_differs s (ku_from u) (value_in a s))
      else if ku_from u = ku_to u then Inl (Changes_nothing s)
      else apply_refusal a us)"

definition apply_line :: "krules \<Rightarrow> string \<Rightarrow> string list" where
  "apply_line sets ln =
     (case config_line ln of
        None \<Rightarrow> [ln]
      | Some (s, v) \<Rightarrow>
          (case map_of sets s of
             None \<Rightarrow> [ln]
           | Some u \<Rightarrow> if ku_to u = ABSENT then [] else [config_text s (ku_to u)]))"

definition appended :: "string list \<Rightarrow> krules \<Rightarrow> string list" where
  "appended lns sets =
     map (\<lambda>su. config_text (fst su) (ku_to (snd su)))
       (filter (\<lambda>su. (\<forall>ln \<in> set lns. map_option fst (config_line ln) \<noteq> Some (fst su)) \<and> ku_to (snd su) \<noteq> ABSENT) (sort_key fst sets))"

definition apply_text :: "string \<Rightarrow> krules \<Rightarrow> string" where
  "apply_text base sets =
     (let lns = split_on (CHR 0x0A) base in
      rstrip_of {CHR 0x0A} (join [CHR 0x0A] (concat (map (apply_line sets) lns) @ appended lns sets)) @ [CHR 0x0A])"

definition cmd_apply :: "string \<Rightarrow> string \<Rightarrow> string option \<Rightarrow> kd_error + string" where
  "cmd_apply base delta variant =
     sbind (parse_config base) (\<lambda>a. sbind (parse_delta variant delta) (\<lambda>(rules, headers).
       sbind (apply_refusal a (set_rules rules)) (\<lambda>_. Inr (apply_text base (set_rules rules)))))"

definition explain_row :: "krules \<Rightarrow> string \<times> string \<times> string \<Rightarrow> string" where
  "explain_row rules d =
     (case d of (s, frm, to) \<Rightarrow>
        join [CHR 0x09]
          (case map_of rules s of
             Some u \<Rightarrow> [ku_kind u, s, frm, to, ku_tag u, ku_reason u]
           | None \<Rightarrow> [''derive'', s, frm, to, ''FIXME'', ''FIXME'']))"

subsection \<open>The command line\<close>

record kd_args =
  kd_baseline :: "string option"
  kd_delta :: "string option"
  kd_built :: "string option"
  kd_output :: "string option"
  kd_variant :: "string option"

definition no_args :: kd_args where
  "no_args = \<lparr>kd_baseline = None, kd_delta = None, kd_built = None, kd_output = None, kd_variant = None\<rparr>"

definition put_arg :: "string \<Rightarrow> string \<Rightarrow> kd_args \<Rightarrow> kd_args option" where
  "put_arg opt v a =
     (if opt = ''--baseline'' then Some (a\<lparr>kd_baseline := Some v\<rparr>)
      else if opt = ''--delta'' then Some (a\<lparr>kd_delta := Some v\<rparr>)
      else if opt = ''--built'' then Some (a\<lparr>kd_built := Some v\<rparr>)
      else if opt = ''--out'' then Some (a\<lparr>kd_output := Some v\<rparr>)
      else if opt = ''--variant'' then Some (a\<lparr>kd_variant := Some v\<rparr>)
      else None)"

fun kd_options :: "string list \<Rightarrow> kd_args \<Rightarrow> kd_error + kd_args" where
  "kd_options [] a = Inr a"
| "kd_options [x] a = (if put_arg x [] a = None then Inl (Unknown_option x) else Inl (Needs_value x))"
| "kd_options (x # v # rest) a =
     (case put_arg x v a of None \<Rightarrow> Inl (Unknown_option x) | Some a' \<Rightarrow> kd_options rest a')"

definition kd_parse_args :: "string list \<Rightarrow> kd_error + string \<times> kd_args" where
  "kd_parse_args argv =
     (case argv of
        [] \<Rightarrow> Inl No_command
      | cmd # rest \<Rightarrow>
          sbind (kd_options rest no_args) (\<lambda>a.
            case kd_variant a of
              Some v \<Rightarrow> if v \<notin> set VARIANTS then Inl (Unknown_variant v) else Inr (cmd, a)
            | None \<Rightarrow> Inr (cmd, a)))"

text \<open>An option that is absent and one that is empty are the same to \<open>main\<close>.\<close>

definition need :: "string \<Rightarrow> string option \<Rightarrow> kd_error + string" where
  "need k x = (case x of None \<Rightarrow> Inl (Needs k) | Some [] \<Rightarrow> Inl (Needs k) | Some p \<Rightarrow> Inr p)"

text \<open>Files hold bytes; \<open>decode\<close> stands for the decoding of UTF-8 with replacement.\<close>

definition text_of_file :: "(bytes \<Rightarrow> string) \<Rightarrow> bytes \<Rightarrow> string" where
  "text_of_file decode b = universal_newlines (decode b)"

definition get_file :: "(string \<Rightarrow> bytes option) \<Rightarrow> string \<Rightarrow> kd_error + bytes" where
  "get_file files p = or_err (No_such_file p) (files p)"

definition check_baseline_identity :: "bytes \<Rightarrow> headers \<Rightarrow> kd_error + unit" where
  "check_baseline_identity blob headers =
     (case map_of headers ''baseline-sha256'' of
        None \<Rightarrow> Inl No_baseline_hash
      | Some want \<Rightarrow>
          if want = [] then Inl No_baseline_hash
          else if hex_of (sha256 blob) \<noteq> want then Inl (Wrong_baseline (hex_of (sha256 blob)) want) else Inr ())"

text \<open>\<open>explain\<close> opens its files without a test: a missing one is an uncaught error, after what was read before it.\<close>

definition open_file :: "(bytes \<Rightarrow> string) \<Rightarrow> (string \<Rightarrow> bytes option) \<Rightarrow> string \<Rightarrow> kd_error + string" where
  "open_file decode files p = (case files p of None \<Rightarrow> Inl (Uncaught_missing p) | Some b \<Rightarrow> Inr (text_of_file decode b))"

definition cmd_explain :: "(bytes \<Rightarrow> string) \<Rightarrow> (string \<Rightarrow> bytes option) \<Rightarrow> string \<Rightarrow> string \<Rightarrow> kd_args \<Rightarrow> kd_error + string list" where
  "cmd_explain decode files pa pb args =
     sbind (open_file decode files pa) (\<lambda>base. sbind (parse_config base) (\<lambda>a.
     sbind (open_file decode files pb) (\<lambda>built. sbind (parse_config built) (\<lambda>b.
     sbind (if kd_delta args = None \<or> kd_delta args = Some [] then Inr []
            else sbind (open_file decode files (the (kd_delta args))) (\<lambda>t. sbind (parse_delta (kd_variant args) t) (\<lambda>x. Inr (fst x)))) (\<lambda>rules.
       Inr (map (explain_row rules) (diff_configs a b)))))))"

text \<open>\<open>controls_ok\<close> stands for the result of the controls that run first.\<close>

datatype kd_out = Checked nat check_result | Applied string string | Controls_failed | Controls_passed | Explained "string list"

definition kd_check :: "(bytes \<Rightarrow> string) \<Rightarrow> bool \<Rightarrow> (string \<Rightarrow> bytes option) \<Rightarrow> kd_args \<Rightarrow> kd_error + kd_out" where
  "kd_check decode controls_ok files a =
     sbind (need ''baseline'' (kd_baseline a)) (\<lambda>pa. sbind (get_file files pa) (\<lambda>base.
     sbind (need ''delta'' (kd_delta a)) (\<lambda>pd. sbind (get_file files pd) (\<lambda>delta.
     sbind (need ''built'' (kd_built a)) (\<lambda>pb. sbind (get_file files pb) (\<lambda>built.
       if \<not> controls_ok then Inr Controls_failed
       else sbind (parse_delta None (text_of_file decode delta)) (\<lambda>x.
            sbind (check_baseline_identity base (snd x)) (\<lambda>_.
            sbind (check_delta (text_of_file decode base) (text_of_file decode delta) (text_of_file decode built) (kd_variant a)) (\<lambda>(r, headers).
              Inr (Checked (if check_failed r then 1 else 0) r))))))))))"

definition kd_apply :: "(bytes \<Rightarrow> string) \<Rightarrow> bool \<Rightarrow> (string \<Rightarrow> bytes option) \<Rightarrow> kd_args \<Rightarrow> kd_error + kd_out" where
  "kd_apply decode controls_ok files a =
     sbind (need ''baseline'' (kd_baseline a)) (\<lambda>pa. sbind (need ''delta'' (kd_delta a)) (\<lambda>pd. sbind (need ''out'' (kd_output a)) (\<lambda>po.
     sbind (get_file files pa) (\<lambda>base. sbind (get_file files pd) (\<lambda>delta.
       if \<not> controls_ok then Inr Controls_failed
       else sbind (parse_delta None (text_of_file decode delta)) (\<lambda>x.
            sbind (check_baseline_identity base (snd x)) (\<lambda>_.
            sbind (cmd_apply (text_of_file decode base) (text_of_file decode delta) (kd_variant a)) (\<lambda>t. Inr (Applied po t)))))))))"

definition kd_main :: "(bytes \<Rightarrow> string) \<Rightarrow> bool \<Rightarrow> (string \<Rightarrow> bytes option) \<Rightarrow> string list \<Rightarrow> kd_error + kd_out" where
  "kd_main decode controls_ok files argv =
     sbind (kd_parse_args argv) (\<lambda>(cmd, a).
       if cmd = ''self-test'' then Inr (if controls_ok then Controls_passed else Controls_failed)
       else if cmd = ''explain'' then
         sbind (need ''baseline'' (kd_baseline a)) (\<lambda>pa. sbind (need ''built'' (kd_built a)) (\<lambda>pb.
         sbind (cmd_explain decode files pa pb a) (\<lambda>rows. Inr (Explained rows))))
       else if cmd = ''apply'' then kd_apply decode controls_ok files a
       else if cmd \<noteq> ''check'' then Inl (Unknown_command cmd)
       else kd_check decode controls_ok files a)"


subsection \<open>What a check finds\<close>

lemma diff_iff: "(k, x, y) \<in> set (diff_configs a b) \<longleftrightarrow> x = value_in a k \<and> y = value_in b k \<and> x \<noteq> y"
proof -
  have "k \<in> set (map fst a @ map fst b)" if "value_in a k \<noteq> value_in b k"
  proof (rule ccontr)
    assume "k \<notin> set (map fst a @ map fst b)"
    then have "map_of a k = None" "map_of b k = None" by (auto simp: map_of_eq_None_iff)
    with that show False by (simp add: value_in_def)
  qed
  then show ?thesis by (auto simp: diff_configs_def)
qed

lemma diff_set: "set (diff_configs a b) = (\<lambda>k. (k, value_in a k, value_in b k)) ` {k. value_in a k \<noteq> value_in b k}"
  by (auto simp: diff_iff image_iff)

lemma judge_diffs_result:
  assumes "judge_diffs rules ds (r, seen) = (r', seen')"
  shows "k_unapplied r' = k_unapplied r \<and> (k_undeclared r' = [] \<longleftrightarrow> k_undeclared r = [] \<and> (\<forall>d \<in> set ds. map_of rules (fst d) \<noteq> None))
    \<and> (k_mismatch r' = [] \<longleftrightarrow> k_mismatch r = [] \<and>
        (\<forall>d \<in> set ds. \<forall>u. map_of rules (fst d) = Some u \<longrightarrow> ku_from u = fst (snd d) \<and> ku_to u = snd (snd d)))
    \<and> seen' = seen \<union> {s \<in> fst ` set ds. map_of rules s \<noteq> None}"
  using assms
proof (induction rules ds "(r, seen)" arbitrary: r seen rule: judge_diffs.induct)
  case (2 rules s frm to ds r seen)
  show ?case
  proof (cases "map_of rules s")
    case None
    then show ?thesis using 2(1) [OF None] 2(3) by auto
  next
    case (Some u)
    then show ?thesis using 2(2) [OF Some] 2(3) by (auto split: if_splits)
  qed
qed simp

text \<open>A symbol is as the rules say: unchanged where no rule names it, and changed as its rule declares where one does.\<close>

definition as_declared :: "krules \<Rightarrow> config \<Rightarrow> config \<Rightarrow> string \<Rightarrow> bool" where
  "as_declared rules a b s \<longleftrightarrow>
     (case map_of rules s of
        None \<Rightarrow> value_in b s = value_in a s
      | Some u \<Rightarrow> value_in a s = ku_from u \<and> value_in b s = ku_to u \<and> ku_from u \<noteq> ku_to u)"

lemma check_rules_exact:
  assumes "distinct (map fst rules)"
  shows "\<not> check_failed (check_rules a b rules) \<longleftrightarrow> (\<forall>s. as_declared rules a b s)"
proof -
  obtain r seen where j: "judge_diffs rules (diff_configs a b) (no_result, {}) = (r, seen)" by (cases "judge_diffs rules (diff_configs a b) (no_result, {})")
  have r: "k_undeclared r = [] \<longleftrightarrow> (\<forall>d \<in> set (diff_configs a b). map_of rules (fst d) \<noteq> None)"
    "k_mismatch r = [] \<longleftrightarrow> (\<forall>d \<in> set (diff_configs a b). \<forall>u. map_of rules (fst d) = Some u \<longrightarrow> ku_from u = fst (snd d) \<and> ku_to u = snd (snd d))"
    "seen = {s \<in> fst ` set (diff_configs a b). map_of rules s \<noteq> None}"
    using judge_diffs_result [OF j] by (simp_all add: no_result_def)
  have u: "k_undeclared r = [] \<longleftrightarrow> (\<forall>s. map_of rules s = None \<longrightarrow> value_in b s = value_in a s)"
    unfolding r(1) diff_set by (simp only: ball_simps mem_Collect_eq fst_conv) metis
  have m: "k_mismatch r = [] \<longleftrightarrow> (\<forall>s u. map_of rules s = Some u \<longrightarrow> value_in a s \<noteq> value_in b s \<longrightarrow> ku_from u = value_in a s \<and> ku_to u = value_in b s)"
    unfolding r(2) diff_set by (simp only: ball_simps mem_Collect_eq fst_conv snd_conv) metis
  have "map snd (filter (\<lambda>su. fst su \<notin> seen) (sort_key fst rules)) = [] \<longleftrightarrow> (\<forall>s u. map_of rules s = Some u \<longrightarrow> s \<in> seen)"
    using assms by (auto simp: filter_empty_conv)
  also have "\<dots> \<longleftrightarrow> (\<forall>s u. map_of rules s = Some u \<longrightarrow> value_in a s \<noteq> value_in b s)"
    unfolding r(3) diff_set by (auto simp: image_image)
  finally have n: "map snd (filter (\<lambda>su. fst su \<notin> seen) (sort_key fst rules)) = [] \<longleftrightarrow>
      (\<forall>s u. map_of rules s = Some u \<longrightarrow> value_in a s \<noteq> value_in b s)" .
  have "\<not> check_failed (check_rules a b rules) \<longleftrightarrow>
      k_undeclared r = [] \<and> k_mismatch r = [] \<and> map snd (filter (\<lambda>su. fst su \<notin> seen) (sort_key fst rules)) = []"
    by (auto simp: check_failed_def check_rules_def j)
  also have "\<dots> \<longleftrightarrow> (\<forall>s. as_declared rules a b s)"
    unfolding u m n as_declared_def by (auto split: option.splits) 
  finally show ?thesis .
qed

lemma delta_lines_distinct:
  "delta_lines variant no lns acc = Inr acc' \<Longrightarrow> distinct (map fst (fst acc)) \<Longrightarrow> distinct (map fst (fst acc'))"
proof (induction variant no lns acc rule: delta_lines.induct)
  case (2 variant no raw lns acc)
  have row: "distinct (map fst rules')" if "delta_row variant no ln rules = Inr rules'" "distinct (map fst rules)" for ln rules rules'
    using that by (auto simp: delta_row_def rule_check_def sbind_Inr map_of_eq_None_iff split: list.splits if_splits option.splits)
  show ?case using 2 row by (auto simp: Let_def sbind_Inr split: if_splits option.splits)
qed simp

lemma parse_delta_distinct: "parse_delta variant text = Inr (rules, hs) \<Longrightarrow> distinct (map fst rules)"
  using delta_lines_distinct [of variant 1 "split_on (CHR 0x0A) text" "([], [])" "(rules, hs)"]
  by (auto simp: parse_delta_def split: option.splits if_splits)


subsection \<open>The entries of a text\<close>

definition entries :: "string list \<Rightarrow> (string \<times> string) list" where
  "entries lns = List.map_filter (\<lambda>ln. config_line (rstrip_of {CHR 0x0D} ln)) lns"

lemma entries_simps [simp]: "entries [] = []" "entries (as @ bs) = entries as @ entries bs"
  "entries (ln # lns) = (case config_line (rstrip_of {CHR 0x0D} ln) of None \<Rightarrow> entries lns | Some e \<Rightarrow> e # entries lns)"
  by (simp_all add: entries_def map_filter_def split: option.splits)

lemma config_lines_set:
  "config_lines lns d = Inr d' \<Longrightarrow> distinct (map fst d) \<Longrightarrow> distinct (map fst d') \<and> set d' = set d \<union> set (entries lns)"
proof (induction lns arbitrary: d)
  case (Cons ln lns)
  show ?case
  proof (cases "config_line (rstrip_of {CHR 0x0D} ln)")
    case None
    then show ?thesis using Cons by simp
  next
    case (Some e)
    obtain k v where e: "e = (k, v)" by (cases e)
    show ?thesis
    proof (cases "map_of d k")
      case None
      then have "k \<notin> fst ` set d" by (simp add: map_of_eq_None_iff)
      then show ?thesis using Cons.prems Cons.IH [of "d @ [(k, v)]"] Some None e by auto
    next
      case v': (Some v')
      then have "(k, v') \<in> set d" by (rule map_of_SomeD)
      then show ?thesis using Cons.prems Cons.IH [of d] Some v' e by (auto split: if_splits)
    qed
  qed
qed simp

lemma config_lines_total:
  assumes "\<forall>kv \<in> set d \<union> set (entries lns). snd kv = f (fst kv)"
  shows "\<exists>d'. config_lines lns d = Inr d'"
  using assms
proof (induction lns arbitrary: d)
  case (Cons ln lns)
  show ?case
  proof (cases "config_line (rstrip_of {CHR 0x0D} ln)")
    case None
    then show ?thesis using Cons by simp
  next
    case (Some e)
    obtain k v where e: "e = (k, v)" by (cases e)
    show ?thesis
    proof (cases "map_of d k")
      case None
      then show ?thesis using Cons.prems Cons.IH [of "d @ [(k, v)]"] Some e by auto
    next
      case v': (Some v')
      then have "(k, v') \<in> set d" by (rule map_of_SomeD)
      then show ?thesis using Cons.prems Cons.IH [of d] Some v' e by force
    qed
  qed
qed simp

lemma value_in_distinct: "distinct (map fst d) \<Longrightarrow> (k, v) \<in> set d \<Longrightarrow> value_in d k = v"
  by (simp add: value_in_def)

lemma value_in_absent: "(\<forall>v. (k, v) \<notin> set d) \<Longrightarrow> value_in d k = ABSENT"
  by (cases "map_of d k") (auto simp: value_in_def dest: map_of_SomeD)

lemma parse_config_Inr:
  "parse_config t = Inr d \<Longrightarrow> distinct (map fst d) \<and> set d = set (entries (split_on (CHR 0x0A) t)) \<and> d \<noteq> []"
  using config_lines_set [of "split_on (CHR 0x0A) t" "[]" d] by (auto simp: parse_config_def sbind_Inr split: if_splits)

lemma parse_config_total:
  assumes "\<forall>kv \<in> set (entries (split_on (CHR 0x0A) t)). snd kv = f (fst kv)" "entries (split_on (CHR 0x0A) t) \<noteq> []"
  shows "\<exists>d. parse_config t = Inr d \<and> (\<forall>s. value_in d s = (if s \<in> fst ` set (entries (split_on (CHR 0x0A) t)) then f s else ABSENT))"
proof -
  let ?E = "entries (split_on (CHR 0x0A) t)"
  obtain d where d: "config_lines (split_on (CHR 0x0A) t) [] = Inr d" using config_lines_total [of "[]" "split_on (CHR 0x0A) t" f] assms(1) by auto
  then have s: "distinct (map fst d)" "set d = set ?E" using config_lines_set by fastforce+
  have "value_in d k = (if k \<in> fst ` set ?E then f k else ABSENT)" for k
  proof (cases "k \<in> fst ` set ?E")
    case True
    then obtain v where "(k, v) \<in> set ?E" by auto
    then show ?thesis using assms(1) s True value_in_distinct [OF s(1), of k v] by force
  next
    case False
    then have "\<forall>v. (k, v) \<notin> set d" using s(2) by force
    then show ?thesis using False by (simp add: value_in_absent)
  qed
  moreover have "d \<noteq> []" using s(2) assms(2) by auto
  ultimately show ?thesis using d by (simp add: parse_config_def)
qed

subsection \<open>Lines that are written\<close>

lemma rstrip_of_free: "c \<notin> set s \<Longrightarrow> rstrip_of {c} s = s"
  by (cases "rev s") (auto simp: rstrip_of_def)

lemma rstrip_of_split: "\<exists>k. s = rstrip_of {c} s @ replicate k c"
proof -
  have "rev s = takeWhile (\<lambda>x. x \<in> {c}) (rev s) @ dropWhile (\<lambda>x. x \<in> {c}) (rev s)" by simp
  then have "s = rstrip_of {c} s @ rev (takeWhile (\<lambda>x. x \<in> {c}) (rev s))"
    unfolding rstrip_of_def by (metis rev_append rev_rev_ident)
  moreover have "takeWhile (\<lambda>x. x \<in> {c}) (rev s) = replicate (length (takeWhile (\<lambda>x. x \<in> {c}) (rev s))) c"
    by (induction s rule: rev_induct) auto
  ultimately show ?thesis by (metis rev_replicate)
qed

definition config_name :: "string \<Rightarrow> bool" where
  "config_name s \<longleftrightarrow> config_sym s = Some (s, [])"

lemma config_name_shape: "config_name s \<Longrightarrow> \<exists>r. s = ''CONFIG_'' @ r \<and> r \<noteq> [] \<and> list_all sym_char r"
proof -
  assume "config_name s"
  then obtain r where r: "lit ''CONFIG_'' s = Some r" "takeWhile sym_char r \<noteq> []" "s = ''CONFIG_'' @ takeWhile sym_char r"
    unfolding config_name_def config_sym_def by (auto split: option.splits if_splits)
  have "list_all sym_char (takeWhile sym_char r)" by (auto simp: list_all_iff dest: set_takeWhileD)
  with r(2,3) show ?thesis by blast
qed

lemma config_sym_name:
  assumes "config_name s" "t = [] \<or> \<not> sym_char (hd t)"
  shows "config_sym (s @ t) = Some (s, t)"
proof -
  obtain r where r: "s = ''CONFIG_'' @ r" "r \<noteq> []" "list_all sym_char r" using config_name_shape [OF assms(1)] by blast
  have "takeWhile sym_char (r @ t) = r \<and> dropWhile sym_char (r @ t) = t"
    using r(3) assms(2) by (cases t) (auto simp: takeWhile_append dropWhile_append list_all_iff)
  moreover have "lit ''CONFIG_'' (s @ t) = Some (r @ t)" unfolding r(1) append_assoc by (rule lit_append)
  ultimately show ?thesis unfolding config_sym_def using r by simp
qed

lemma config_line_text: "config_name s \<Longrightarrow> config_line (config_text s v) = Some (s, v)"
proof (cases "v = ''n''")
  case True
  assume s: "config_name s"
  have "config_sym (CHR ''#'' # t) = None" for t by (simp add: config_sym_def lit_def)
  then have "RE_SET (''# '' @ s @ '' is not set'') = None" by (simp add: RE_SET_def)
  moreover have "RE_NOT (''# '' @ s @ '' is not set'') = Some s"
    using config_sym_name [OF s, of "'' is not set''"] lit_append [of "''# ''" "s @ '' is not set''"]
    by (simp add: RE_NOT_def sym_char_def is_digit_def)
  ultimately show ?thesis using True by (simp add: config_line_def config_text_def)
next
  case False
  assume s: "config_name s"
  have "config_sym (s @ ''='' @ v) = Some (s, ''='' @ v)" using config_sym_name [OF s, of "''='' @ v"] by (simp add: sym_char_def is_digit_def)
  then show ?thesis using False by (simp add: config_line_def config_text_def RE_SET_def)
qed


lemma entries_lines:
  assumes "\<forall>l \<in> set ls. CHR 0x0A \<notin> set l"
  shows "entries (split_on (CHR 0x0A) (rstrip_of {CHR 0x0A} (join [CHR 0x0A] ls) @ [CHR 0x0A])) = entries ls"
proof -
  have n: "config_line (rstrip_of {CHR 0x0D} []) = None"
    by (simp add: rstrip_of_def config_line_def RE_SET_def RE_NOT_def config_sym_def lit_def)
  have one: "entries (split_on (CHR 0x0A) (x @ [CHR 0x0A])) = entries (split_on (CHR 0x0A) x)" for x
    using split_on_append [of "CHR 0x0A" x "[]"] n by simp
  have many: "entries (split_on (CHR 0x0A) (x @ replicate k (CHR 0x0A))) = entries (split_on (CHR 0x0A) x)" for x k
  proof (induction k arbitrary: x)
    case (Suc k)
    have "entries (split_on (CHR 0x0A) ((x @ [CHR 0x0A]) @ replicate k (CHR 0x0A))) = entries (split_on (CHR 0x0A) (x @ [CHR 0x0A]))"
      by (rule Suc)
    then show ?case using one [of x] by simp
  qed simp
  obtain k where "join [CHR 0x0A] ls = rstrip_of {CHR 0x0A} (join [CHR 0x0A] ls) @ replicate k (CHR 0x0A)" using rstrip_of_split by blast
  then have "entries (split_on (CHR 0x0A) (rstrip_of {CHR 0x0A} (join [CHR 0x0A] ls))) = entries (split_on (CHR 0x0A) (join [CHR 0x0A] ls))"
    using many by metis
  also have "\<dots> = entries ls" using split_on_join [OF assms] n by (cases "ls = []") simp_all
  finally show ?thesis using one by simp
qed

text \<open>Rules whose lines can be written and read back.\<close>

definition plain_rules :: "krules \<Rightarrow> bool" where
  "plain_rules rules \<longleftrightarrow>
     distinct (map fst rules) \<and> (\<forall>su \<in> set rules. config_name (fst su) \<and> CHR 0x0A \<notin> set (ku_to (snd su)) \<and> CHR 0x0D \<notin> set (ku_to (snd su)))"

lemma name_chars: "config_name s \<Longrightarrow> CHR 0x0A \<notin> set s \<and> CHR 0x0D \<notin> set s"
proof -
  assume "config_name s"
  then obtain r where r: "s = ''CONFIG_'' @ r" "list_all sym_char r" using config_name_shape by blast
  have "\<not> sym_char (CHR 0x0A)" "\<not> sym_char (CHR 0x0D)" by (simp_all add: sym_char_def is_digit_def)
  then have "CHR 0x0A \<notin> set r" "CHR 0x0D \<notin> set r" using r(2) by (auto simp: list_all_iff)
  then show ?thesis by (simp add: r(1))
qed

lemma text_chars: "config_name s \<Longrightarrow> c \<in> {CHR 0x0A, CHR 0x0D} \<Longrightarrow> c \<notin> set v \<Longrightarrow> c \<notin> set (config_text s v)"
  using name_chars [of s] by (auto simp: config_text_def)

lemma entry_text: "config_name s \<Longrightarrow> CHR 0x0D \<notin> set v \<Longrightarrow> config_line (rstrip_of {CHR 0x0D} (config_text s v)) = Some (s, v)"
  using text_chars [of s "CHR 0x0D" v] by (simp add: rstrip_of_free config_line_text)

lemma entry_applied:
  assumes "plain_rules sets" "CHR 0x0D \<notin> set ln"
  shows "(s, v) \<in> set (entries (apply_line sets ln)) \<longleftrightarrow>
     (case map_of sets s of None \<Rightarrow> (s, v) \<in> set (entries [ln]) | Some u \<Rightarrow> s \<in> fst ` set (entries [ln]) \<and> v = ku_to u \<and> v \<noteq> ABSENT)"
proof (cases "config_line ln")
  case None
  then show ?thesis using assms(2) by (simp add: apply_line_def rstrip_of_free split: option.split)
next
  case (Some e)
  obtain t w where e: "config_line ln = Some (t, w)" using Some by (cases e) simp
  show ?thesis
  proof (cases "map_of sets t")
    case None
    then show ?thesis using assms(2) e by (auto simp: apply_line_def rstrip_of_free split: option.split)
  next
    case u: (Some u)
    then have "(t, u) \<in> set sets" by (rule map_of_SomeD)
    then have "config_line (rstrip_of {CHR 0x0D} (config_text t (ku_to u))) = Some (t, ku_to u)"
      using assms(1) entry_text by (auto simp: plain_rules_def)
    then show ?thesis using assms(2) e u by (auto simp: apply_line_def rstrip_of_free split: option.split)
  qed
qed

lemma entries_applied:
  assumes "plain_rules sets" "\<forall>l \<in> set lns. CHR 0x0D \<notin> set l"
  shows "(s, v) \<in> set (entries (concat (map (apply_line sets) lns))) \<longleftrightarrow>
     (case map_of sets s of None \<Rightarrow> (s, v) \<in> set (entries lns) | Some u \<Rightarrow> s \<in> fst ` set (entries lns) \<and> v = ku_to u \<and> v \<noteq> ABSENT)"
  using assms(2)
proof (induction lns)
  case Nil
  then show ?case by (simp split: option.split)
next
  case (Cons ln lns)
  have e: "entries (ln # lns) = entries [ln] @ entries lns" by (simp split: option.split)
  have "(s, v) \<in> set (entries (concat (map (apply_line sets) (ln # lns)))) \<longleftrightarrow>
      (s, v) \<in> set (entries (apply_line sets ln)) \<or> (s, v) \<in> set (entries (concat (map (apply_line sets) lns)))" by simp
  also have "\<dots> \<longleftrightarrow> (case map_of sets s of None \<Rightarrow> (s, v) \<in> set (entries [ln] @ entries lns)
      | Some u \<Rightarrow> s \<in> fst ` set (entries [ln] @ entries lns) \<and> v = ku_to u \<and> v \<noteq> ABSENT)"
    using Cons entry_applied [OF assms(1), of ln s v] by (cases "map_of sets s") (auto simp del: entries_simps(3))
  finally show ?case unfolding e .
qed

lemma named_entries:
  "\<forall>l \<in> set lns. CHR 0x0D \<notin> set l \<Longrightarrow> (\<exists>ln \<in> set lns. map_option fst (config_line ln) = Some s) \<longleftrightarrow> s \<in> fst ` set (entries lns)"
proof (induction lns)
  case (Cons ln lns)
  have "rstrip_of {CHR 0x0D} ln = ln" using Cons.prems by (simp add: rstrip_of_free)
  then show ?case using Cons by (cases "config_line ln") auto
qed simp

lemma entries_texts:
  assumes "plain_rules sets" "set us \<subseteq> set sets"
  shows "entries (map (\<lambda>su. config_text (fst su) (ku_to (snd su))) us) = map (\<lambda>su. (fst su, ku_to (snd su))) us"
  using assms(2)
proof (induction us)
  case (Cons su us)
  then have "config_name (fst su)" "CHR 0x0D \<notin> set (ku_to (snd su))" using assms(1) by (auto simp: plain_rules_def)
  then show ?case using Cons entry_text by simp
qed simp

lemma entries_appended:
  assumes "plain_rules sets" "\<forall>l \<in> set lns. CHR 0x0D \<notin> set l"
  shows "(s, v) \<in> set (entries (appended lns sets)) \<longleftrightarrow>
     (case map_of sets s of None \<Rightarrow> False | Some u \<Rightarrow> s \<notin> fst ` set (entries lns) \<and> v = ku_to u \<and> v \<noteq> ABSENT)"
proof -
  let ?us = "filter (\<lambda>su. (\<forall>ln \<in> set lns. map_option fst (config_line ln) \<noteq> Some (fst su)) \<and> ku_to (snd su) \<noteq> ABSENT) (sort_key fst sets)"
  have e: "entries (appended lns sets) = map (\<lambda>su. (fst su, ku_to (snd su))) ?us"
    unfolding appended_def by (rule entries_texts [OF assms(1)]) auto
  have m: "(s, u) \<in> set sets \<longleftrightarrow> map_of sets s = Some u" for u using assms(1) by (simp add: plain_rules_def)
  have "(s, v) \<in> set (entries (appended lns sets)) \<longleftrightarrow>
      (\<exists>u. (s, u) \<in> set sets \<and> \<not> (\<exists>ln \<in> set lns. map_option fst (config_line ln) = Some s) \<and> ku_to u \<noteq> ABSENT \<and> v = ku_to u)"
    unfolding e by (auto simp: image_iff)
  then show ?thesis unfolding m named_entries [OF assms(2)] by (cases "map_of sets s") auto
qed


subsection \<open>What is applied passes the check\<close>

text \<open>The configuration that the \<open>set\<close> rules make of a baseline.\<close>

definition after_rules :: "krules \<Rightarrow> config \<Rightarrow> string \<Rightarrow> string" where
  "after_rules sets a s = (case map_of sets s of None \<Rightarrow> value_in a s | Some u \<Rightarrow> ku_to u)"

lemma applied_values:
  assumes "parse_config base = Inr a" "CHR 0x0D \<notin> set base" "plain_rules sets" "after_rules sets a k \<noteq> ABSENT"
  shows "\<exists>d. parse_config (apply_text base sets) = Inr d \<and> (\<forall>s. value_in d s = after_rules sets a s)"
proof -
  let ?lns = "split_on (CHR 0x0A) base"
  let ?out = "concat (map (apply_line sets) ?lns) @ appended ?lns sets"
  let ?E = "entries (split_on (CHR 0x0A) (apply_text base sets))"
  have cr: "\<forall>l \<in> set ?lns. CHR 0x0D \<notin> set l" using assms(2) split_on_subset [of _ "CHR 0x0A" base] by blast
  have a: "distinct (map fst a)" "set a = set (entries ?lns)" using parse_config_Inr [OF assms(1)] by simp_all
  have plain: "CHR 0x0A \<notin> set (config_text s (ku_to u))" if "(s, u) \<in> set sets" for s u
    using that assms(3) text_chars [of s "CHR 0x0A" "ku_to u"] by (auto simp: plain_rules_def)
  have line: "l = ln \<or> (\<exists>s u. (s, u) \<in> set sets \<and> l = config_text s (ku_to u))" if "l \<in> set (apply_line sets ln)" for l ln
  proof (cases "config_line ln")
    case None
    then show ?thesis using that by (simp add: apply_line_def)
  next
    case (Some e)
    then show ?thesis using that map_of_SomeD [of sets "fst e"]
      by (cases e; cases "map_of sets (fst e)") (auto simp: apply_line_def split: if_splits)
  qed
  have "CHR 0x0A \<notin> set l" if "l \<in> set (apply_line sets ln)" "ln \<in> set ?lns" for l ln
    using line [OF that(1)] split_on_no_sep [OF that(2)] plain by blast
  moreover have "CHR 0x0A \<notin> set l" if "l \<in> set (appended ?lns sets)" for l using that plain by (auto simp: appended_def)
  ultimately have "\<forall>l \<in> set ?out. CHR 0x0A \<notin> set l" by auto
  from entries_lines [OF this] have E: "?E = entries ?out" by (simp add: apply_text_def Let_def)
  have mem: "(s, v) \<in> set ?E \<longleftrightarrow> (case map_of sets s of None \<Rightarrow> (s, v) \<in> set a | Some u \<Rightarrow> v = ku_to u \<and> v \<noteq> ABSENT)" for s v
    unfolding E a(2) using entries_applied [OF assms(3) cr, of s v] entries_appended [OF assms(3) cr, of s v]
    by (cases "map_of sets s") auto
  have "\<forall>kv \<in> set ?E. snd kv = after_rules sets a (fst kv)"
    using mem value_in_distinct [OF a(1)] by (auto simp: after_rules_def split: option.splits)
  moreover have miss: "after_rules sets a s = ABSENT" if "s \<notin> fst ` set ?E" for s
  proof -
    have "(s, v) \<notin> set ?E" for v using that by force
    then show ?thesis using mem [of s] value_in_absent [of s a] by (cases "map_of sets s") (auto simp: after_rules_def)
  qed
  moreover from this assms(4) have "?E \<noteq> []" by auto
  ultimately obtain d where "parse_config (apply_text base sets) = Inr d"
    "\<forall>s. value_in d s = (if s \<in> fst ` set ?E then after_rules sets a s else ABSENT)"
    using parse_config_total by blast
  then show ?thesis using miss by auto
qed

lemma delta_lines_text:
  assumes "delta_lines variant no lns acc = Inr acc'" "\<forall>l \<in> set lns. set l \<subseteq> A" "\<forall>su \<in> set (fst acc). set (ku_to (snd su)) \<subseteq> A"
  shows "\<forall>su \<in> set (fst acc'). set (ku_to (snd su)) \<subseteq> A"
  using assms
proof (induction variant no lns acc rule: delta_lines.induct)
  case (2 variant no raw lns acc)
  have row: "\<forall>su \<in> set rules'. set (ku_to (snd su)) \<subseteq> A"
    if d: "delta_row variant no ln rules = Inr rules'" and l: "set ln \<subseteq> A" and r: "\<forall>su \<in> set rules. set (ku_to (snd su)) \<subseteq> A" for ln rules rules'
  proof -
    have f: "set x \<subseteq> A" if "x \<in> set (split_on (CHR 0x09) ln)" for x using split_on_subset [OF that] l by blast
    have "rules' = rules \<or> (\<exists>k u. rules' = rules @ [(k, u)] \<and> ku_to u \<in> set (split_on (CHR 0x09) ln))"
      using d by (auto simp: delta_row_def rule_check_def sbind_Inr split: list.splits if_splits option.splits)
    then show ?thesis
    proof
      assume "\<exists>k u. rules' = rules @ [(k, u)] \<and> ku_to u \<in> set (split_on (CHR 0x09) ln)"
      then obtain k u where u: "rules' = rules @ [(k, u)]" "ku_to u \<in> set (split_on (CHR 0x09) ln)" by blast
      have "set (ku_to u) \<subseteq> A" by (rule f [OF u(2)])
      then show ?thesis using r u(1) by simp
    qed (use r in simp)
  qed
  let ?ln = "rstrip_of {CHR 0x0D, CHR 0x0A} raw"
  have "set ?ln \<subseteq> set raw" by (auto simp: rstrip_of_def dest: set_dropWhileD)
  then have ln: "set ?ln \<subseteq> A" using "2.prems"(2) by auto
  have lns: "\<forall>l \<in> set lns. set l \<subseteq> A" using "2.prems"(2) by simp
  consider "strip ?ln = []" | "strip ?ln \<noteq> []" "take 1 ?ln = ''#''" | "strip ?ln \<noteq> []" "take 1 ?ln \<noteq> ''#''" by blast
  then show ?case
  proof cases
    case 1
    show ?thesis by (rule "2.IH"(1) [OF refl 1 _ lns]) (use "2.prems" 1 in \<open>simp_all add: Let_def\<close>)
  next
    case h: 2
    show ?thesis by (rule "2.IH"(2) [OF refl h _ lns]) (use "2.prems" h in \<open>simp_all add: Let_def split: option.split\<close>)
  next
    case h: 3
    from "2.prems"(1) h obtain rules where d: "delta_row variant no ?ln (fst acc) = Inr rules"
      "delta_lines variant (Suc no) lns (rules, snd acc) = Inr acc'"
      by (auto simp: Let_def sbind_Inr)
    show ?thesis
      by (rule "2.IH"(3) [OF refl h d(2) lns]) (use row [OF d(1) ln "2.prems"(3)] in simp)
  qed
qed simp

lemma parse_delta_plain:
  assumes "parse_delta variant text = Inr (rules, hs)" "CHR 0x0D \<notin> set text" "\<forall>su \<in> set (set_rules rules). config_name (fst su)"
  shows "plain_rules (set_rules rules)"
proof -
  have "\<forall>su \<in> set rules. set (ku_to (snd su)) \<subseteq> - {CHR 0x0A, CHR 0x0D}"
    using delta_lines_text [of variant 1 "split_on (CHR 0x0A) text" "([], [])" "(rules, hs)" "- {CHR 0x0A, CHR 0x0D}"] assms(1,2)
      split_on_no_sep [of _ "CHR 0x0A" "text"] split_on_subset [of _ "CHR 0x0A" "text"]
    by (fastforce simp: parse_delta_def split: option.splits if_splits)
  moreover have "distinct (map fst (set_rules rules))"
    using parse_delta_distinct [OF assms(1)] by (simp add: set_rules_def distinct_map_filter)
  moreover have "set (set_rules rules) \<subseteq> set rules" by (auto simp: set_rules_def)
  ultimately show ?thesis using assms(3) unfolding plain_rules_def by blast
qed

lemma apply_refusal_ok: "apply_refusal a us = Inr () \<Longrightarrow> \<forall>su \<in> set us. value_in a (fst su) = ku_from (snd su) \<and> ku_from (snd su) \<noteq> ku_to (snd su)"
  by (induction a us rule: apply_refusal.induct) (auto split: if_splits)

lemma config_sym_is_name: "config_sym x = Some (s, t) \<Longrightarrow> config_name s"
proof -
  assume "config_sym x = Some (s, t)"
  then obtain r where r: "takeWhile sym_char r \<noteq> []" "s = ''CONFIG_'' @ takeWhile sym_char r"
    by (auto simp: config_sym_def split: option.splits if_splits)
  have "takeWhile sym_char (takeWhile sym_char r) = takeWhile sym_char r" "dropWhile sym_char (takeWhile sym_char r) = []"
    by (auto simp: takeWhile_eq_all_conv dropWhile_eq_Nil_conv dest: set_takeWhileD)
  moreover have "lit ''CONFIG_'' s = Some (takeWhile sym_char r)" unfolding r(2) by (rule lit_append)
  ultimately show ?thesis using r by (simp add: config_name_def config_sym_def)
qed

lemma config_line_name: "config_line ln = Some (s, v) \<Longrightarrow> config_name s"
  by (auto simp: config_line_def RE_SET_def RE_NOT_def intro: config_sym_is_name
      split: option.splits prod.splits list.splits char.splits bool.splits if_splits)

lemma entries_names: "s \<in> fst ` set (entries lns) \<Longrightarrow> config_name s"
  by (induction lns) (auto intro: config_line_name split: option.splits)

lemma parse_config_names: "parse_config text = Inr d \<Longrightarrow> \<not> config_name s \<Longrightarrow> value_in d s = ABSENT"
proof -
  assume p: "parse_config text = Inr d" and n: "\<not> config_name s"
  then have "set d = set (entries (split_on (CHR 0x0A) text))"
    using config_lines_set [of _ "[]" d] by (auto simp: parse_config_def sbind_Inr split: if_splits)
  then have "s \<notin> fst ` set d" using n entries_names by metis
  then show "value_in d s = ABSENT" by (simp add: value_in_def map_of_eq_None_iff [THEN iffD2])
qed

lemma applied_reads_back:
  assumes "cmd_apply base delta variant = Inr t" "parse_config base = Inr a" "parse_delta variant delta = Inr (rules, hs)"
    and "CHR 0x0D \<notin> set base" "CHR 0x0D \<notin> set delta" "after_rules (set_rules rules) a k \<noteq> ABSENT"
    and "\<forall>su \<in> set (set_rules rules). config_name (fst su)"
  shows "\<exists>d. parse_config t = Inr d \<and> (\<forall>s. value_in d s = after_rules (set_rules rules) a s)
    \<and> \<not> check_failed (check_rules a d (set_rules rules))"
proof -
  have t: "t = apply_text base (set_rules rules)" "apply_refusal a (set_rules rules) = Inr ()"
    using assms(1-3) by (auto simp: cmd_apply_def sbind_Inr)
  have p: "plain_rules (set_rules rules)" by (rule parse_delta_plain [OF assms(3,5,7)])
  obtain d where d: "parse_config t = Inr d" "\<forall>s. value_in d s = after_rules (set_rules rules) a s"
    using applied_values [OF assms(2,4) p assms(6)] t(1) by blast
  have "as_declared (set_rules rules) a d s" for s
    using apply_refusal_ok [OF t(2)] d(2) by (auto simp: as_declared_def after_rules_def dest!: map_of_SomeD split: option.splits)
  moreover have "distinct (map fst (set_rules rules))" using p by (simp add: plain_rules_def)
  ultimately have "\<not> check_failed (check_rules a d (set_rules rules))" by (simp add: check_rules_exact)
  with d show ?thesis by blast
qed

lemma checked_names:
  assumes "cmd_apply base delta variant = Inr t" "parse_config base = Inr a" "parse_delta variant delta = Inr (rules, hs)"
    and "set_rules rules = rules" "parse_config t = Inr d" "\<not> check_failed (check_rules a d rules)" "su \<in> set rules"
  shows "config_name (fst su)"
proof (rule ccontr)
  assume n: "\<not> config_name (fst su)"
  have dist: "distinct (map fst rules)" by (rule parse_delta_distinct [OF assms(3)])
  then have m: "map_of rules (fst su) = Some (snd su)" using assms(7) by simp
  have "as_declared rules a d (fst su)" using assms(6) check_rules_exact [OF dist] by blast
  then have "value_in a (fst su) = ku_from (snd su)" "value_in d (fst su) = ku_to (snd su)" "ku_from (snd su) \<noteq> ku_to (snd su)"
    by (simp_all add: as_declared_def m)
  then show False using parse_config_names [OF assms(2) n] parse_config_names [OF assms(5) n] by simp
qed

text \<open>
  C32. What \<open>apply\<close> writes from a baseline and a delta without carriage returns, where the rules leave some symbol set:
  if every \<open>set\<close> rule names a symbol that a configuration line can carry (\<open>config_name\<close>), the text reads back as the
  baseline with every \<open>set\<close> rule carried out and nothing else changed; and where the delta holds \<open>set\<close> rules only,
  \<open>check\<close> passes the text exactly when every rule names such a symbol.  (A rule for any other name is applied, against the
  comment that \<open>apply\<close>'s own output never fails \<open>check\<close>: \<open>unreadable_symbol_applied\<close>.)
\<close>
theorem applied_passes_check:
  assumes "cmd_apply base delta variant = Inr t" "parse_config base = Inr a" "parse_delta variant delta = Inr (rules, hs)"
    and "CHR 0x0D \<notin> set base" "CHR 0x0D \<notin> set delta" "after_rules (set_rules rules) a k \<noteq> ABSENT"
  shows "((\<forall>su \<in> set (set_rules rules). config_name (fst su)) \<longrightarrow>
       (\<exists>d. parse_config t = Inr d \<and> (\<forall>s. value_in d s = after_rules (set_rules rules) a s)))
    \<and> (set_rules rules = rules \<longrightarrow>
       (\<exists>r. check_delta base delta t variant = Inr (r, hs) \<and> \<not> check_failed r) = (\<forall>su \<in> set rules. config_name (fst su)))"
proof -
  note reread = applied_reads_back [OF assms]
  have "config_name (fst su)"
    if h: "set_rules rules = rules" "check_delta base delta t variant = Inr (r, hs)" "\<not> check_failed r" "su \<in> set rules" for r su
  proof -
    obtain d where d: "parse_config t = Inr d" "r = check_rules a d rules"
      using h(2) assms(2,3) by (auto simp: check_delta_def sbind_Inr)
    show ?thesis by (rule checked_names [OF assms(1-3) h(1) d(1) h(3) [unfolded d(2)] h(4)])
  qed
  moreover have "\<exists>r. check_delta base delta t variant = Inr (r, hs) \<and> \<not> check_failed r"
    if s: "set_rules rules = rules" and n: "\<forall>su \<in> set rules. config_name (fst su)"
  proof -
    obtain d where "parse_config t = Inr d" "\<not> check_failed (check_rules a d rules)" using reread n unfolding s by blast
    then show ?thesis using assms(2,3) by (simp add: check_delta_def)
  qed
  ultimately show ?thesis using reread by blast
qed


definition sample_base :: string where
  "sample_base = ''CONFIG_A=y'' @ [CHR 0x0A] @ ''CONFIG_C=y'' @ [CHR 0x0A]"

definition sample_row :: string where
  "sample_row = join [CHR 0x09] [''set'', ''CONFIG_A'', ''y'', ''n'', ''-'', ''pinned off'']"

definition sample_rule :: krule where
  "sample_rule = \<lparr>ku_kind = ''set'', ku_sym = ''CONFIG_A'', ku_from = ''y'', ku_to = ''n'', ku_tag = ''-'', ku_reason = ''pinned off'',
     ku_line = 1, ku_variants = None\<rparr>"

theorem applied_passes_check_witness:
  "\<exists>t r. cmd_apply sample_base sample_row None = Inr t \<and> check_delta sample_base sample_row t None = Inr (r, []) \<and> \<not> check_failed r"
proof -
  have p: "parse_config sample_base = Inr [(''CONFIG_A'', ''y''), (''CONFIG_C'', ''y'')]" by code_simp
  have d: "parse_delta None sample_row = Inr ([(''CONFIG_A'', sample_rule)], [])" by code_simp
  have s: "set_rules [(''CONFIG_A'', sample_rule)] = [(''CONFIG_A'', sample_rule)]" by code_simp
  have n: "config_name ''CONFIG_A''" by code_simp
  have t: "cmd_apply sample_base sample_row None = Inr (''# CONFIG_A is not set'' @ [CHR 0x0A] @ ''CONFIG_C=y'' @ [CHR 0x0A])" by code_simp
  have c: "CHR 0x0D \<notin> set sample_base" "CHR 0x0D \<notin> set sample_row" by code_simp+
  have k: "after_rules (set_rules [(''CONFIG_A'', sample_rule)]) [(''CONFIG_A'', ''y''), (''CONFIG_C'', ''y'')] ''CONFIG_C'' \<noteq> ABSENT" by code_simp
  have "(\<exists>r. check_delta sample_base sample_row (''# CONFIG_A is not set'' @ [CHR 0x0A] @ ''CONFIG_C=y'' @ [CHR 0x0A]) None = Inr (r, []) \<and> \<not> check_failed r)
      = (\<forall>su \<in> set [(''CONFIG_A'', sample_rule)]. config_name (fst su))"
    using applied_passes_check [OF t p d c k] s by simp
  then show ?thesis using t n by auto
qed

subsection \<open>What the gate lets through\<close>

text \<open>
  C31. The gate passes exactly when the controls passed, the baseline has the digest that the delta names, both configurations
  and the delta read, and every symbol of the built configuration is as declared: unchanged where no rule of the variant
  names it, and changed from and to what its rule says where one does.
\<close>
theorem gate_exact:
  assumes "kd_baseline args = Some pa" "kd_delta args = Some pd" "kd_built args = Some pb" "pa \<noteq> []" "pd \<noteq> []" "pb \<noteq> []"
    and "files pa = Some base" "files pd = Some delta" "files pb = Some built"
  shows "(\<exists>r. kd_check decode ok files args = Inr (Checked 0 r)) \<longleftrightarrow>
     ok \<and> (\<exists>a b rules0 hs0 rules hs.
       parse_delta None (text_of_file decode delta) = Inr (rules0, hs0) \<and> map_of hs0 ''baseline-sha256'' = Some (hex_of (sha256 base))
       \<and> parse_config (text_of_file decode base) = Inr a \<and> parse_config (text_of_file decode built) = Inr b
       \<and> parse_delta (kd_variant args) (text_of_file decode delta) = Inr (rules, hs) \<and> (\<forall>s. as_declared rules a b s))"
proof -
  have need: "need k (Some p) = Inr p" if "p \<noteq> []" for k p using that by (cases p) (simp_all add: need_def)
  have id: "check_baseline_identity base hs = Inr () \<longleftrightarrow> map_of hs ''baseline-sha256'' = Some (hex_of (sha256 base))" for hs
    using hex_of_shape [of "sha256 base"] length_sha256 [of base] by (auto simp: check_baseline_identity_def split: option.split)
  have "(\<exists>r. kd_check decode ok files args = Inr (Checked 0 r)) \<longleftrightarrow>
     ok \<and> (\<exists>rules0 hs0 r hs. parse_delta None (text_of_file decode delta) = Inr (rules0, hs0) \<and> check_baseline_identity base hs0 = Inr ()
       \<and> check_delta (text_of_file decode base) (text_of_file decode delta) (text_of_file decode built) (kd_variant args) = Inr (r, hs) \<and> \<not> check_failed r)"
    using assms need by (auto simp: kd_check_def get_file_def sbind_Inr or_err_def)
  also have "\<dots> \<longleftrightarrow> ok \<and> (\<exists>a b rules0 hs0 rules hs.
       parse_delta None (text_of_file decode delta) = Inr (rules0, hs0) \<and> map_of hs0 ''baseline-sha256'' = Some (hex_of (sha256 base))
       \<and> parse_config (text_of_file decode base) = Inr a \<and> parse_config (text_of_file decode built) = Inr b
       \<and> parse_delta (kd_variant args) (text_of_file decode delta) = Inr (rules, hs) \<and> (\<forall>s. as_declared rules a b s))"
    unfolding id check_delta_def using check_rules_exact parse_delta_distinct by (auto simp: sbind_Inr)
  finally show ?thesis .
qed


definition sample_delta :: string where
  "sample_delta = (''# baseline-sha256: '' @ hex_of (sha256 sample_base)) @ CHR 0x0A # sample_row"

lemma sample_delta_read: "parse_delta None sample_delta = Inr ([(''CONFIG_A'', sample_rule\<lparr>ku_line := 2\<rparr>)], [(''baseline-sha256'', hex_of (sha256 sample_base))])"
  and sample_delta_text: "universal_newlines sample_delta = sample_delta"
proof -
  let ?h = "hex_of (sha256 sample_base)"
  have h: "list_all is_hex_lower ?h" "?h \<noteq> []" using hex_of_shape [of "sha256 sample_base"] length_sha256 [of sample_base] by auto
  have lo: "\<not> py_space c" "c \<noteq> CHR 0x0A" "c \<noteq> CHR 0x0D" if "is_hex_lower c" for c
    using that by (auto simp: is_hex_lower_def is_digit_def py_space_def Let_def)
  have f: "CHR 0x0A \<notin> set (''# baseline-sha256: '' @ ?h)" "CHR 0x0D \<notin> set (''# baseline-sha256: '' @ ?h)"
    using h(1) lo by (auto simp: list_all_iff)
  have st: "strip ?h = ?h" using h(1) lo(1) by (intro strip_free) (auto simp: list_all_iff)
  have r: "rstrip_of {CHR 0x0D, CHR 0x0A} (''# baseline-sha256: '' @ ?h) = ''# baseline-sha256: '' @ ?h"
  proof -
    have l: "last ?h \<noteq> CHR 0x0D \<and> last ?h \<noteq> CHR 0x0A" using h lo(2,3) by (auto simp: list_all_iff)
    have "rev ?h = last ?h # rev (butlast ?h)" using h(2) by (cases ?h rule: rev_cases) auto
    then have "rev (''# baseline-sha256: '' @ ?h) = last ?h # rev (''# baseline-sha256: '' @ butlast ?h)" by simp
    then have "rstrip_of {CHR 0x0D, CHR 0x0A} (''# baseline-sha256: '' @ ?h) = rev (rev (''# baseline-sha256: '' @ ?h))"
      unfolding rstrip_of_def using l by (simp only: dropWhile.simps insert_iff empty_iff simp_thms if_False)
    then show ?thesis by (simp only: rev_rev_ident)
  qed
  have hd: "header_row (''# baseline-sha256: '' @ ?h) = Some (''baseline-sha256'', ?h)"
  proof -
    have "strip (CHR '' '' # ?h) = ?h" using st by (simp add: strip_def lstrip_def py_space_def)
    then show ?thesis by (simp add: header_row_def py_space_def header_char_def is_digit_def)
  qed
  have ns: "strip (''# baseline-sha256: '' @ ?h) \<noteq> []"
    using h lo(1) by (subst strip_ends) (auto simp: list_all_iff py_space_def)
  have row: "delta_lines None 2 (split_on (CHR 0x0A) sample_row) ([], [(''baseline-sha256'', ?h)]) =
      Inr ([(''CONFIG_A'', sample_rule\<lparr>ku_line := 2\<rparr>)], [(''baseline-sha256'', ?h)])"
  proof -
    have "split_on (CHR 0x0A) sample_row = [sample_row]" by (rule split_on_free) code_simp
    moreover have "delta_row None 2 (rstrip_of {CHR 0x0D, CHR 0x0A} sample_row) [] = Inr [(''CONFIG_A'', sample_rule\<lparr>ku_line := 2\<rparr>)]" by code_simp
    moreover have "strip (rstrip_of {CHR 0x0D, CHR 0x0A} sample_row) \<noteq> [] \<and> take 1 (rstrip_of {CHR 0x0D, CHR 0x0A} sample_row) \<noteq> ''#''" by code_simp
    ultimately show ?thesis by (simp add: Let_def)
  qed
  have sp: "split_on (CHR 0x0A) sample_delta = (''# baseline-sha256: '' @ ?h) # split_on (CHR 0x0A) sample_row"
    unfolding sample_delta_def by (rule split_on_piece [OF f(1)])
  have "delta_lines None 1 ((''# baseline-sha256: '' @ ?h) # split_on (CHR 0x0A) sample_row) ([], []) =
      delta_lines None 2 (split_on (CHR 0x0A) sample_row) ([], [(''baseline-sha256'', ?h)])"
    unfolding delta_lines.simps(2) r Let_def hd using ns by (simp add: numeral_2_eq_2)
  then show "parse_delta None sample_delta = Inr ([(''CONFIG_A'', sample_rule\<lparr>ku_line := 2\<rparr>)], [(''baseline-sha256'', ?h)])"
    by (simp only: parse_delta_def option.case sp row)
  have "CHR 0x0D \<notin> set sample_row" by code_simp
  then have "CHR 0x0D \<notin> set sample_delta" using f(2) by (auto simp: sample_delta_def)
  then show "universal_newlines sample_delta = sample_delta" using universal_newlines_free [of sample_delta "[]"] by simp
qed

theorem gate_exact_witness:
  "\<exists>r. kd_check (\<lambda>b. b) True [''b'' \<mapsto> sample_base, ''d'' \<mapsto> sample_delta, ''o'' \<mapsto> ''# CONFIG_A is not set'' @ [CHR 0x0A] @ ''CONFIG_C=y'']
     \<lparr>kd_baseline = Some ''b'', kd_delta = Some ''d'', kd_built = Some ''o'', kd_output = None, kd_variant = None\<rparr> = Inr (Checked 0 r)"
    (is "\<exists>r. kd_check _ True ?files ?args = _")
proof -
  let ?built = "''# CONFIG_A is not set'' @ [CHR 0x0A] @ ''CONFIG_C=y''"
  let ?rules = "[(''CONFIG_A'', sample_rule\<lparr>ku_line := 2\<rparr>)]"
  have a: "parse_config (text_of_file (\<lambda>b. b) sample_base) = Inr [(''CONFIG_A'', ''y''), (''CONFIG_C'', ''y'')]" by code_simp
  have b: "parse_config (text_of_file (\<lambda>b. b) ?built) = Inr [(''CONFIG_A'', ''n''), (''CONFIG_C'', ''y'')]" by code_simp
  have d: "text_of_file (\<lambda>b. b) sample_delta = sample_delta" by (simp add: text_of_file_def sample_delta_text)
  have e: "as_declared ?rules [(''CONFIG_A'', ''y''), (''CONFIG_C'', ''y'')] [(''CONFIG_A'', ''n''), (''CONFIG_C'', ''y'')] s" for s
    by (simp add: as_declared_def value_in_def sample_rule_def)
  have f: "?files ''b'' = Some sample_base" "?files ''d'' = Some sample_delta" "?files ''o'' = Some ?built" by simp_all
  show ?thesis
    by (subst gate_exact [of ?args "''b''" "''d''" "''o''" ?files, OF _ _ _ _ _ _ f])
      (use a b e sample_delta_read in \<open>auto simp del: append_Cons simp: d\<close>)
qed


text \<open>
  A rule for a name that is no symbol is applied, and the check of the text that was written reports it as not
  applied.
\<close>

lemma unreadable_symbol_applied:
  "\<exists>t r. cmd_apply sample_base (join [CHR 0x09] [''set'', ''CONFIG_A.B'', ''-'', ''y'', ''-'', ''why'']) None = Inr t
    \<and> check_delta sample_base (join [CHR 0x09] [''set'', ''CONFIG_A.B'', ''-'', ''y'', ''-'', ''why'']) t None = Inr (r, []) \<and> check_failed r"
proof -
  let ?d = "join [CHR 0x09] [''set'', ''CONFIG_A.B'', ''-'', ''y'', ''-'', ''why'']"
  let ?u = "\<lparr>ku_kind = ''set'', ku_sym = ''CONFIG_A.B'', ku_from = ''-'', ku_to = ''y'', ku_tag = ''-'', ku_reason = ''why'',
     ku_line = 1, ku_variants = None\<rparr>"
  let ?r = "\<lparr>k_undeclared = [], k_unapplied = [?u], k_mismatch = [], k_derive = 0, k_set = 0\<rparr>"
  let ?t' = "''CONFIG_A=y'' @ [CHR 0x0A] @ ''CONFIG_C=y'' @ [CHR 0x0A, CHR 0x0A] @ ''CONFIG_A.B=y'' @ [CHR 0x0A]"
  have "cmd_apply sample_base ?d None = Inr ?t'" by code_simp
  moreover have "check_delta sample_base ?d ?t' None = Inr (?r, [])" by code_simp
  moreover have "check_failed ?r" by (simp add: check_failed_def)
  ultimately show ?thesis by blast
qed

end
