(* ===== verification/RepDiff.thy ===== *)
theory RepDiff
  imports PyText
begin

text \<open>
  \<open>tools/repdiff.py\<close>: where two builds of one tree differ.  The reader of an ELF image, the differing offsets and their
  runs, the section and the symbol of a run, and the exit codes.
\<close>

subsection \<open>The image\<close>

datatype diff_error =
    Too_short nat | No_elf_magic | Not_elf32 | Not_big_endian | Section_past_end nat
  | Usage | Bad_number string | Missing_number | Missing_input string

record shdr =
  sh_name_off :: nat
  sh_type :: nat
  sh_flags :: nat
  sh_addr :: nat
  sh_off :: nat
  sh_size :: nat
  sh_link :: nat
  sh_name :: string

record elf32 =
  e_blob :: bytes
  e_sections :: "shdr list"

definition SHT_NOBITS :: nat where "SHT_NOBITS = 8"
definition SHF_ALLOC :: nat where "SHF_ALLOC = 2"
definition DEFAULT_GAP :: int where "DEFAULT_GAP = 8"

text \<open>\<open>struct.unpack_from\<close> of one field inside the blob.\<close>

definition u_be :: "nat \<Rightarrow> bytes \<Rightarrow> nat \<Rightarrow> nat" where
  "u_be w b o1 = be_val (slice b o1 (o1 + w))"

definition section_header :: "bytes \<Rightarrow> nat \<Rightarrow> shdr" where
  "section_header b o1 =
     \<lparr>sh_name_off = u_be 4 b o1, sh_type = u_be 4 b (o1 + 4), sh_flags = u_be 4 b (o1 + 8), sh_addr = u_be 4 b (o1 + 12),
      sh_off = u_be 4 b (o1 + 16), sh_size = u_be 4 b (o1 + 20), sh_link = u_be 4 b (o1 + 24), sh_name = ''?''\<rparr>"

fun section_loop :: "bytes \<Rightarrow> nat \<Rightarrow> nat \<Rightarrow> nat list \<Rightarrow> diff_error + shdr list" where
  "section_loop b shoff entsize [] = Inr []"
| "section_loop b shoff entsize (i # is) =
     (let o1 = shoff + i * entsize in
      if o1 + 40 > length b then Inl (Section_past_end i)
      else sbind (section_loop b shoff entsize is) (\<lambda>r. Inr (section_header b o1 # r)))"

text \<open>\<open>st.find(b"\0", i)\<close> and the text before it, decoded with \<open>("ascii", "replace")\<close>.\<close>

definition nul_text :: "bytes \<Rightarrow> nat \<Rightarrow> string option" where
  "nul_text st i =
     (if i \<le> length st \<and> CHR 0x00 \<in> set (drop i st) then Some (ascii_replace (takeWhile (\<lambda>c. c \<noteq> CHR 0x00) (drop i st))) else None)"

definition named :: "bytes \<Rightarrow> shdr list \<Rightarrow> nat \<Rightarrow> shdr list" where
  "named b shs strndx =
     (if strndx < length shs
      then let sh = shs ! strndx; st = slice b (sh_off sh) (sh_off sh + sh_size sh) in
        map (\<lambda>s. case nul_text st (sh_name_off s) of None \<Rightarrow> s | Some n \<Rightarrow> s\<lparr>sh_name := n\<rparr>) shs
      else shs)"

definition Elf32BE :: "bytes \<Rightarrow> diff_error + elf32" where
  "Elf32BE b =
     (if length b < 52 then Inl (Too_short (length b))
      else if take 4 b \<noteq> CHR 0x7F # ''ELF'' then Inl No_elf_magic
      else if b ! 4 \<noteq> CHR 0x01 then Inl Not_elf32
      else if b ! 5 \<noteq> CHR 0x02 then Inl Not_big_endian
      else sbind (section_loop b (u_be 4 b 32) (u_be 2 b 46) [0..<u_be 2 b 48]) (\<lambda>shs.
        Inr \<lparr>e_blob = b, e_sections = named b shs (u_be 2 b 50)\<rparr>))"

definition section_named :: "elf32 \<Rightarrow> bytes \<Rightarrow> shdr option" where
  "section_named e n = find (\<lambda>s. sh_name s = n) (e_sections e)"

definition sections_at :: "elf32 \<Rightarrow> nat \<Rightarrow> shdr list" where
  "sections_at e off =
     filter (\<lambda>s. sh_type s \<noteq> SHT_NOBITS \<and> sh_size s \<noteq> 0 \<and> sh_off s \<le> off \<and> off < sh_off s + sh_size s) (e_sections e)"

record symbol =
  y_name :: string
  y_value :: nat
  y_size :: nat
  y_shndx :: nat

fun symbol_loop :: "bytes \<Rightarrow> bytes \<Rightarrow> nat \<Rightarrow> nat list \<Rightarrow> symbol list" where
  "symbol_loop b st off [] = []"
| "symbol_loop b st off (i # is) =
     (let o1 = off + i * 16 in
      if o1 + 16 > length b then []
      else \<lparr>y_name = (case nul_text st (u_be 4 b o1) of None \<Rightarrow> ''?'' | Some n \<Rightarrow> n), y_value = u_be 4 b (o1 + 4),
          y_size = u_be 4 b (o1 + 8), y_shndx = u_be 2 b (o1 + 14)\<rparr> # symbol_loop b st off is)"

definition symbols :: "elf32 \<Rightarrow> symbol list" where
  "symbols e =
     (case section_named e ''.symtab'' of
        None \<Rightarrow> []
      | Some t \<Rightarrow>
          if sh_link t \<ge> length (e_sections e) then []
          else let s = e_sections e ! sh_link t; st = slice (e_blob e) (sh_off s) (sh_off s + sh_size s) in
            symbol_loop (e_blob e) st (sh_off t) [0..<sh_size t div 16])"

definition covering :: "symbol \<Rightarrow> int \<Rightarrow> bool" where
  "covering y v \<longleftrightarrow> y_shndx y \<notin> {0, 0xFFF1} \<and> y_name y \<noteq> [] \<and> int (y_value y) \<le> v \<and> (y_size y = 0 \<or> v < int (y_value y + y_size y))"

fun best_symbol :: "symbol list \<Rightarrow> int \<Rightarrow> symbol option \<Rightarrow> symbol option" where
  "best_symbol [] v best = best"
| "best_symbol (y # ys) v best =
     best_symbol ys v
       (if covering y v \<and> (case best of None \<Rightarrow> True | Some b \<Rightarrow> y_value y > y_value b) then Some y else best)"

definition symbol_at :: "symbol list \<Rightarrow> shdr \<Rightarrow> nat \<Rightarrow> (string \<times> int \<times> int) option" where
  "symbol_at syms sec off =
     (if (sh_flags sec div SHF_ALLOC) mod 2 = 0 then None
      else let v = int (sh_addr sec) + (int off - int (sh_off sec)) in
        map_option (\<lambda>y. (y_name y, v - int (y_value y), v)) (best_symbol syms v None))"

subsection \<open>The differences\<close>

text \<open>The loop of \<open>runs\<close> with the run that is open.\<close>

fun run_loop :: "int \<Rightarrow> nat \<times> nat \<Rightarrow> nat list \<Rightarrow> (nat \<times> nat) list" where
  "run_loop gap cur [] = [cur]"
| "run_loop gap cur (o1 # os) =
     (if int o1 - int (snd cur) \<le> gap then run_loop gap (fst cur, o1) os else cur # run_loop gap (o1, o1) os)"

definition runs :: "nat list \<Rightarrow> int \<Rightarrow> (nat \<times> nat) list" where
  "runs offsets gap = (case offsets of [] \<Rightarrow> [] | o1 # os \<Rightarrow> run_loop gap (o1, o1) os)"

definition differing :: "bytes \<Rightarrow> bytes \<Rightarrow> nat list" where
  "differing a b = filter (\<lambda>i. a ! i \<noteq> b ! i) [0..<min (length a) (length b)]"

definition compare_images :: "bytes \<Rightarrow> bytes \<Rightarrow> int \<Rightarrow> diff_error + nat \<times> nat list \<times> (nat \<times> nat) list \<times> elf32" where
  "compare_images a b gap =
     sbind (Elf32BE a) (\<lambda>elf. sbind (Elf32BE b) (\<lambda>_.
       let n = min (length a) (length b); diffs = differing a b in Inr (n, diffs, runs diffs gap, elf)))"

text \<open>One line of the report: the run, the bytes counted in it, its sections, the first symbol found in one of them.\<close>

record run_row =
  w_lo :: nat
  w_hi :: nat
  w_count :: nat
  w_sections :: "bytes list"
  w_symbol :: "(string \<times> int \<times> int) option"

fun first_symbol :: "symbol list \<Rightarrow> shdr list \<Rightarrow> nat \<Rightarrow> (string \<times> int \<times> int) option" where
  "first_symbol syms [] off = None"
| "first_symbol syms (s # ss) off = (case symbol_at syms s off of None \<Rightarrow> first_symbol syms ss off | Some h \<Rightarrow> Some h)"

definition run_row_of :: "elf32 \<Rightarrow> nat list \<Rightarrow> nat \<times> nat \<Rightarrow> run_row" where
  "run_row_of elf diffs r =
     (case r of (lo, hi) \<Rightarrow>
        \<lparr>w_lo = lo, w_hi = hi, w_count = length (filter (\<lambda>d. lo \<le> d \<and> d \<le> hi) diffs),
         w_sections = map sh_name (sections_at elf lo), w_symbol = first_symbol (symbols elf) (sections_at elf lo) lo\<rparr>)"

definition report :: "bytes \<Rightarrow> bytes \<Rightarrow> int \<Rightarrow> int \<Rightarrow> diff_error + nat \<times> run_row list" where
  "report a b gap limit =
     sbind (compare_images a b gap) (\<lambda>(n, diffs, rs, elf).
       if diffs = [] then Inr (0, [])
       else Inr (1, map (run_row_of elf diffs) (if limit = 0 then rs else py_slice rs 0 limit)))"

subsection \<open>The command line\<close>

definition arg_index :: "string \<Rightarrow> string list \<Rightarrow> nat" where
  "arg_index x argv = length (takeWhile (\<lambda>y. y \<noteq> x) argv)"

text \<open>The number after an option, and the positional arguments without any that equals its text.\<close>

definition number_arg :: "string \<Rightarrow> string list \<Rightarrow> int \<Rightarrow> string list \<Rightarrow> diff_error + int \<times> string list" where
  "number_arg opt argv dflt args =
     (if opt \<notin> set argv then Inr (dflt, args)
      else if arg_index opt argv + 1 \<ge> length argv then Inl Missing_number
      else let t = argv ! (arg_index opt argv + 1) in
        (case py_int 10 t of None \<Rightarrow> Inl (Bad_number t) | Some n \<Rightarrow> Inr (n, filter (\<lambda>a. a \<noteq> fmtd n) args)))"

definition repdiff_main :: "bool \<Rightarrow> (string \<Rightarrow> bytes option) \<Rightarrow> string list \<Rightarrow> diff_error + nat \<times> run_row list" where
  "repdiff_main controls_ok files argv =
     (if take 1 (tl argv) = [''--self-test''] then Inr (if controls_ok then 0 else 1, [])
      else let args = filter (\<lambda>a. \<not> prefix ''--'' a) (tl argv) in
      sbind (number_arg ''--gap'' argv DEFAULT_GAP args) (\<lambda>(gap, args).
      sbind (number_arg ''--limit'' argv 0 args) (\<lambda>(limit, args).
        case args of
          [pa, pb] \<Rightarrow> sbind (or_err (Missing_input pa) (files pa)) (\<lambda>a. sbind (or_err (Missing_input pb) (files pb)) (\<lambda>b. report a b gap limit))
        | _ \<Rightarrow> Inl Usage)))"

text \<open>A refusal and the usage text end with 2; the other errors are not caught.\<close>

fun diff_exit :: "diff_error + nat \<times> run_row list \<Rightarrow> nat option" where
  "diff_exit (Inr (rc, rows)) = Some rc"
| "diff_exit (Inl (Bad_number t)) = None"
| "diff_exit (Inl Missing_number) = None"
| "diff_exit (Inl (Missing_input p)) = None"
| "diff_exit (Inl e) = Some 2"


subsection \<open>The runs\<close>

text \<open>A list cut where two neighbours are more than \<open>gap\<close> apart, and nowhere else.\<close>

definition blocks_ok :: "int \<Rightarrow> nat list list \<Rightarrow> bool" where
  "blocks_ok gap bs \<longleftrightarrow>
     (\<forall>b \<in> set bs. b \<noteq> [] \<and> successively (\<lambda>x y. int y - int x \<le> gap) b)
     \<and> successively (\<lambda>b c. int (hd c) - int (last b) > gap) bs"

lemma run_loop_blocks:
  assumes "b \<noteq> []" "successively (\<lambda>x y. int y - int x \<le> gap) b"
  shows "\<exists>c bs. blocks_ok gap ((b @ c) # bs) \<and> c @ concat bs = os \<and> run_loop gap (hd b, last b) os = map (\<lambda>b. (hd b, last b)) ((b @ c) # bs)"
  using assms
proof (induction os arbitrary: b)
  case Nil
  then show ?case by (intro exI [of _ "[]"]) (simp add: blocks_ok_def)
next
  case (Cons o1 os)
  show ?case
  proof (cases "int o1 - int (last b) \<le> gap")
    case True
    have "successively (\<lambda>x y. int y - int x \<le> gap) (b @ [o1])" using Cons.prems True by (simp add: successively_append_iff)
    from Cons.IH [OF _ this] obtain c bs where "blocks_ok gap ((b @ o1 # c) # bs)" "c @ concat bs = os"
      "run_loop gap (hd b, o1) os = map (\<lambda>b. (hd b, last b)) ((b @ o1 # c) # bs)"
      using Cons.prems(1) by auto
    then show ?thesis using True by (intro exI [of _ "o1 # c"] exI [of _ bs]) simp
  next
    case False
    from Cons.IH [of "[o1]"] obtain c bs where i: "blocks_ok gap ((o1 # c) # bs)" "c @ concat bs = os"
      "run_loop gap (o1, o1) os = map (\<lambda>b. (hd b, last b)) ((o1 # c) # bs)" by auto
    have "blocks_ok gap (b # (o1 # c) # bs)" using i(1) Cons.prems False by (simp add: blocks_ok_def)
    then show ?thesis using False i(2,3) by (intro exI [of _ "[]"] exI [of _ "(o1 # c) # bs"]) simp
  qed
qed

lemma runs_blocks: "\<exists>bs. blocks_ok gap bs \<and> concat bs = ds \<and> runs ds gap = map (\<lambda>b. (hd b, last b)) bs"
proof (cases ds)
  case Nil
  then show ?thesis by (intro exI [of _ "[]"]) (simp add: runs_def blocks_ok_def)
next
  case (Cons d ds')
  then show ?thesis using run_loop_blocks [of "[d]" gap ds'] by (fastforce simp: runs_def)
qed

lemma sorted_block:
  assumes "sorted_wrt (<) (xs @ b @ ys)" "b \<noteq> []"
  shows "filter (\<lambda>d. hd b \<le> d \<and> d \<le> last b) (xs @ b @ ys) = (b :: nat list)"
proof -
  have x: "x < y" if "x \<in> set xs" "y \<in> set b" for x y using assms(1) that by (simp add: sorted_wrt_append)
  have y: "x < y" if "x \<in> set b" "y \<in> set ys" for x y using assms(1) that by (simp add: sorted_wrt_append)
  have s: "sorted_wrt (<) b" using assms(1) by (simp add: sorted_wrt_append)
  have "hd b \<le> d \<and> d \<le> last b" if m: "d \<in> set b" for d
  proof -
    obtain i where i: "i < length b" "d = b ! i" using m by (auto simp: in_set_conv_nth)
    have "hd b = b ! 0" "last b = b ! (length b - 1)" using assms(2) by (simp_all add: hd_conv_nth last_conv_nth)
    moreover have "b ! 0 \<le> b ! i" using s i(1) sorted_wrt_nth_less [of "(<)" b 0 i] by (cases i) auto
    moreover have "b ! i \<le> b ! (length b - 1)"
    proof (cases "i = length b - 1")
      case False
      then have "i < length b - 1" using i(1) by linarith
      moreover have "length b - 1 < length b" using assms(2) by simp
      ultimately have "b ! i < b ! (length b - 1)" using sorted_wrt_nth_less [OF s] by blast
      then show ?thesis by simp
    qed simp
    ultimately show ?thesis using i(2) by simp
  qed
  then have "filter (\<lambda>d. hd b \<le> d \<and> d \<le> last b) b = b" by (simp add: filter_id_conv)
  moreover have "filter (\<lambda>d. hd b \<le> d \<and> d \<le> last b) xs = []" using x [OF _ hd_in_set [OF assms(2)]] by (fastforce simp: filter_empty_conv)
  moreover have "filter (\<lambda>d. hd b \<le> d \<and> d \<le> last b) ys = []" using y [OF last_in_set [OF assms(2)]] by (fastforce simp: filter_empty_conv)
  ultimately show ?thesis by simp
qed

lemma block_counts:
  assumes "sorted_wrt (<) (concat bs)" "\<forall>b \<in> set bs. b \<noteq> []"
  shows "map (\<lambda>b. length (filter (\<lambda>d. hd b \<le> d \<and> d \<le> last b) (concat bs))) bs = map length (bs :: nat list list)"
proof (rule map_cong [OF refl])
  fix b assume "b \<in> set bs"
  then obtain xs ys where "bs = xs @ b # ys" by (auto simp: in_set_conv_decomp)
  then show "length (filter (\<lambda>d. hd b \<le> d \<and> d \<le> last b) (concat bs)) = length b"
    using sorted_block [of "concat xs" b "concat ys"] assms by simp
qed

lemma differing_sorted: "sorted_wrt (<) (differing a b)"
  by (simp add: differing_def sorted_wrt_filter)

lemma prefix_take: "prefix a b \<longleftrightarrow> take (length a) b = a"
proof
  show "take (length a) b = a \<Longrightarrow> prefix a b" by (metis take_is_prefix)
qed (auto simp: prefix_def)

lemma prefix_longer: "prefix b a \<Longrightarrow> length a \<le> length b \<Longrightarrow> prefix a b"
  by (auto elim!: prefixE)

lemma differing_Nil: "differing a b = [] \<longleftrightarrow> prefix a b \<or> prefix b a"
proof -
  let ?n = "min (length a) (length b)"
  have "differing a b = [] \<longleftrightarrow> (\<forall>i < ?n. a ! i = b ! i)" by (auto simp: differing_def filter_empty_conv)
  also have "\<dots> \<longleftrightarrow> take ?n a = take ?n b" by (simp add: list_eq_iff_nth_eq)
  also have "\<dots> \<longleftrightarrow> prefix a b \<or> prefix b a"
  proof (cases "length a \<le> length b")
    case True
    then have "prefix b a \<Longrightarrow> prefix a b" using prefix_longer by blast
    moreover have "take (min (length a) (length b)) a = a" "take (min (length a) (length b)) b = take (length a) b" using True by simp_all
    ultimately show ?thesis using prefix_take [of a b] by metis
  next
    case False
    then have "prefix a b \<Longrightarrow> prefix b a" using prefix_longer [of a b] by simp
    moreover have "take (min (length a) (length b)) b = b" "take (min (length a) (length b)) a = take (length b) a" using False by simp_all
    ultimately show ?thesis using prefix_take [of b a] by metis
  qed
  finally show ?thesis .
qed


lemma compare_images_Inr:
  "compare_images a b gap = Inr (n, diffs, rs, elf) \<longleftrightarrow>
     Elf32BE a = Inr elf \<and> (\<exists>e. Elf32BE b = Inr e) \<and> n = min (length a) (length b) \<and> diffs = differing a b \<and> rs = runs diffs gap"
  by (auto simp: compare_images_def sbind_Inr Let_def)

text \<open>
  The exit status tells whether the common part of the two images is the same: 0 exactly when one of the files is a prefix
  of the other, 1 otherwise; both are ELF images of this device's class and byte order.
\<close>
theorem status_is_prefix:
  assumes "report a b gap limit = Inr (rc, rows)"
  shows "rc = (if prefix a b \<or> prefix b a then 0 else 1) \<and> (\<exists>ea eb. Elf32BE a = Inr ea \<and> Elf32BE b = Inr eb)"
  using assms by (auto simp: report_def sbind_Inr compare_images_Inr differing_Nil split: if_splits)

text \<open>
  C33. A full report accounts for every differing byte once: its rows are the blocks of the differing offsets, in order, cut
  exactly where two neighbours are more than the gap apart; a row's ends are the first and the last offset of its block and
  its count is the number of them.
\<close>
theorem report_accounts:
  assumes "report a b gap 0 = Inr (rc, rows)"
  shows "\<exists>bs. concat bs = differing a b \<and> blocks_ok gap bs
    \<and> map (\<lambda>r. (w_lo r, w_hi r, w_count r)) rows = map (\<lambda>b. (hd b, last b, length b)) bs \<and> sum_list (map w_count rows) = length (differing a b)"
proof (cases "differing a b = []")
  case True
  then show ?thesis using assms by (intro exI [of _ "[]"]) (auto simp: report_def sbind_Inr compare_images_Inr blocks_ok_def)
next
  case False
  then obtain elf where rows: "rows = map (run_row_of elf (differing a b)) (runs (differing a b) gap)"
    using assms by (auto simp: report_def sbind_Inr compare_images_Inr)
  obtain bs where bs: "blocks_ok gap bs" "concat bs = differing a b" "runs (differing a b) gap = map (\<lambda>b. (hd b, last b)) bs"
    using runs_blocks by blast
  have ne: "\<forall>b \<in> set bs. b \<noteq> []" using bs(1) by (simp add: blocks_ok_def)
  let ?n = "\<lambda>x. length (filter (\<lambda>d. hd x \<le> d \<and> d \<le> last x) (differing a b))"
  have c: "map ?n bs = map length bs" using block_counts [OF _ ne] differing_sorted bs(2) by metis
  have "map (\<lambda>r. (w_lo r, w_hi r, w_count r)) rows = map (\<lambda>x. (hd x, last x, ?n x)) bs"
    by (simp add: rows bs(3) run_row_of_def)
  then have "map (\<lambda>r. (w_lo r, w_hi r, w_count r)) rows = map (\<lambda>b. (hd b, last b, length b)) bs"
    using c by (auto simp: map_eq_conv)
  moreover have "map w_count rows = map length bs" using c by (simp add: rows bs(3) run_row_of_def)
  then have "sum_list (map w_count rows) = length (differing a b)" using bs(2) by (metis length_concat)
  ultimately show ?thesis using bs(1,2) by blast
qed

text \<open>The symbol that is named covers the offset, and no covering symbol begins later.\<close>

lemma best_symbol_latest:
  "best_symbol ys v best = Some y \<Longrightarrow> (best = Some y \<or> y \<in> set ys \<and> covering y v) \<and> (\<forall>z. (z \<in> set ys \<and> covering z v) \<or> best = Some z \<longrightarrow> y_value z \<le> y_value y)"
proof (induction ys v best rule: best_symbol.induct)
  case (2 x ys v best)
  then show ?case by (fastforce split: if_splits option.splits)
qed simp

definition sample_elf :: "bytes \<Rightarrow> bytes" where
  "sample_elf body =
     CHR 0x7F # ''ELF'' @ [CHR 0x01, CHR 0x02] @ replicate 10 (CHR 0x00) @ be_bytes 2 2 @ be_bytes 2 8 @ be_bytes 4 1
       @ concat (replicate 4 (be_bytes 4 0)) @ concat (replicate 6 (be_bytes 2 0)) @ body"

theorem status_is_prefix_witness:
  "report (sample_elf ''ab'') (sample_elf ''abc'') 8 0 = Inr (0, []) \<and> prefix (sample_elf ''ab'') (sample_elf ''abc'')"
proof -
  have r: "report (sample_elf ''ab'') (sample_elf ''abc'') 8 0 = Inr (0, [])" by code_simp
  from status_is_prefix [OF r] have "prefix (sample_elf ''ab'') (sample_elf ''abc'') \<or> prefix (sample_elf ''abc'') (sample_elf ''ab'')"
    by (auto split: if_splits)
  moreover have "\<not> prefix (sample_elf ''abc'') (sample_elf ''ab'')" by code_simp
  ultimately show ?thesis using r by blast
qed

theorem report_accounts_witness:
  "\<exists>rows. report (sample_elf ''abcdefghijklmnop'') (sample_elf ''aXYdefghijklmnoZ'') 8 0 = Inr (1, rows) \<and> sum_list (map w_count rows) = 3"
proof -
  let ?rows = "[\<lparr>w_lo = 53, w_hi = 54, w_count = 2, w_sections = [], w_symbol = None\<rparr>, \<lparr>w_lo = 67, w_hi = 67, w_count = 1, w_sections = [], w_symbol = None\<rparr>]"
  have r: "report (sample_elf ''abcdefghijklmnop'') (sample_elf ''aXYdefghijklmnoZ'') 8 0 = Inr (1, ?rows)" by code_simp
  have "length (differing (sample_elf ''abcdefghijklmnop'') (sample_elf ''aXYdefghijklmnoZ'')) = 3" by code_simp
  then show ?thesis using r report_accounts [OF r] by (intro exI [of _ ?rows]) (elim exE conjE, intro conjI, simp_all)
qed

end
