(* ===== verification/ReplySize.thy ===== *)
theory ReplySize
  imports "HOL-Library.List_Lexorder" "HOL-Library.Char_ord" FlashWin PyText
begin

text \<open>
  \<open>tools/reply-size.py\<close>: how many bytes the loader sends back for a command, what a capture of another length is called,
  which silence is explained by the capture before it, and the exit code of a sweep.  With \<open>flashwin.py\<close>, whose renderer
  prints the reply that is predicted here.
\<close>

subsection \<open>The prediction\<close>

definition ECHO_TAIL :: int where "ECHO_TAIL = 2"
definition PROMPT_BYTES :: int where "PROMPT_BYTES = 9"
definition UNKNOWN_BODY :: int where "UNKNOWN_BODY = 20"
definition DW_LINE_BYTES :: int where "DW_LINE_BYTES = 47"
definition DW_DEFAULT_WORDS :: int where "DW_DEFAULT_WORDS = 4"

text \<open>What \<open>predict\<close> raises, and what it declines to model.\<close>

datatype size_raise = No_address | Not_decimal string | Negative_length
datatype size_reason = Empty_command | Not_modelled string | No_family string

definition dw_words_arg :: "string list \<Rightarrow> size_raise + int" where
  "dw_words_arg argv =
     (case argv of
        [] \<Rightarrow> Inl No_address
      | [_] \<Rightarrow> Inr DW_DEFAULT_WORDS
      | _ # t # _ \<Rightarrow>
          (case py_int 10 t of None \<Rightarrow> Inl (Not_decimal t) | Some n \<Rightarrow> if n < 0 then Inl Negative_length else Inr n))"

text \<open>\<open>math.ceil(n / 4)\<close>; the division is exact up to 2 to the 53.\<close>

definition dw_reply_body :: "string list \<Rightarrow> size_raise + int" where
  "dw_reply_body argv = sbind (dw_words_arg argv) (\<lambda>n. Inr (DW_LINE_BYTES * ((n + 3) div 4)))"

text \<open>The body of a family, and whether it ends with the prompt.\<close>

definition SIZE_MODELS :: "(string \<times> (string list \<Rightarrow> size_raise + int) \<times> bool) list" where
  "SIZE_MODELS =
     [(''DW'', dw_reply_body, True), (''EW'', \<lambda>_. Inr 0, True), (''EB'', \<lambda>_. Inr 0, True), (''Y'', \<lambda>_. Inr 23, True),
      (''PHYR'', \<lambda>_. Inr 68, True), (''FLR'', \<lambda>_. Inr 79, False)]"

definition UNMODELLED :: "string list" where "UNMODELLED = [''DB'', ''J'', ''MDIOR'']"

definition predict_size :: "string \<Rightarrow> size_raise + (size_reason + int)" where
  "predict_size cmd =
     (let cmd = strip cmd in
      case py_words cmd of
        [] \<Rightarrow> Inr (Inl Empty_command)
      | fam # argv \<Rightarrow>
          if fam \<in> set UNMODELLED then Inr (Inl (Not_modelled fam))
          else (case map_of SIZE_MODELS fam of
              None \<Rightarrow> Inr (Inl (No_family fam))
            | Some (body, has_prompt) \<Rightarrow>
                sbind (body argv) (\<lambda>b. Inr (Inr (int (length cmd) + ECHO_TAIL + b + (if has_prompt then PROMPT_BYTES else 0))))))"

datatype size_state =
    Size_ok | Echo_only | Unknown_reply | Silent | Silent_explained | Short | Long | Unmodelled_family | Unreadable | Unparseable | Without_command

definition classify_size :: "string \<Rightarrow> int \<Rightarrow> size_raise + size_state" where
  "classify_size cmd nbytes =
     sbind (predict_size cmd) (\<lambda>p.
       case p of
         Inl _ \<Rightarrow> Inr Unmodelled_family
       | Inr want \<Rightarrow>
           let body_seen = nbytes - int (length (strip cmd)) - ECHO_TAIL - PROMPT_BYTES in
           Inr (if nbytes = want then Size_ok
                else if nbytes = 0 then Silent
                else if body_seen = 0 then Echo_only
                else if body_seen = UNKNOWN_BODY then Unknown_reply
                else if nbytes < want then Short else Long))"

subsection \<open>An explained silence\<close>

text \<open>
  The metadata of a capture.  \<open>sm_started\<close> stands for the instant that \<open>strptime\<close> reads from \<open>started_wallclock\<close>; an
  entry of \<open>cr\<close> is None where it is not an object, and its \<open>prompt_seen\<close> is None where it is not a truth value.
\<close>

record size_meta =
  sm_sent :: "string option"
  sm_esc :: bool
  sm_bytes :: "int option"
  sm_started :: "int option"
  sm_cr :: "(string \<times> bool option option) list"

text \<open>A directory: its files, None where the metadata cannot be read.\<close>

type_synonym size_dir = "(string \<times> size_meta option) list"

definition meta_name :: "string \<Rightarrow> bool" where "meta_name n \<longleftrightarrow> suffix ''.meta.json'' n"

definition started_rows :: "size_dir \<Rightarrow> (int \<times> string) list" where
  "started_rows dir =
     sort (List.map_filter (\<lambda>(n, m).
       if \<not> meta_name n then None else (case m of None \<Rightarrow> None | Some m \<Rightarrow> map_option (\<lambda>t. (t, n)) (sm_started m))) dir)"

definition unseen_key :: "(string \<times> bool option option) list \<Rightarrow> string option" where
  "unseen_key cr = find (\<lambda>k. map_of cr k = Some (Some (Some False))) (sort (map fst cr))"

definition explained_by :: "size_dir \<Rightarrow> string \<Rightarrow> (string \<times> string) option" where
  "explained_by dir me =
     (let rows = started_rows dir; i = length (takeWhile (\<lambda>r. snd r \<noteq> me) rows) in
      if i \<ge> length rows \<or> i = 0 then None
      else let prev = snd (rows ! (i - 1)) in
        (case map_of dir prev of
           Some (Some m) \<Rightarrow> map_option (\<lambda>k. (prev, k)) (unseen_key (sm_cr m))
         | _ \<Rightarrow> None))"

subsection \<open>The sweep\<close>

text \<open>A capture: the directory it is in, its name, its metadata.\<close>

definition sweep_row :: "size_dir \<times> string \<times> size_meta option \<Rightarrow> size_state option" where
  "sweep_row c =
     (case c of (dir, n, m) \<Rightarrow>
        (case m of
           None \<Rightarrow> Some Unreadable
         | Some m \<Rightarrow>
             let sent = strip (case sm_sent m of None \<Rightarrow> [] | Some s \<Rightarrow> s) in
             if sm_esc m then None
             else if sent = [] then Some Without_command
             else Some (case predict_size sent of
                 Inl _ \<Rightarrow> Unparseable
               | Inr (Inl _) \<Rightarrow> Unmodelled_family
               | Inr (Inr _) \<Rightarrow>
                   (case sm_bytes m of
                      None \<Rightarrow> Unparseable
                    | Some b \<Rightarrow>
                        (case classify_size sent b of
                           Inl _ \<Rightarrow> Unparseable
                         | Inr st \<Rightarrow> if st = Silent \<and> explained_by dir n \<noteq> None then Silent_explained else st)))))"

definition sweep_rows :: "(size_dir \<times> string \<times> size_meta option) list \<Rightarrow> size_state list" where
  "sweep_rows cs = List.map_filter sweep_row cs"

definition cmd_check_size :: "(size_dir \<times> string \<times> size_meta option) list \<Rightarrow> nat" where
  "cmd_check_size cs =
     (let rows = sweep_rows cs;
          modelled = length (filter (\<lambda>s. s \<notin> {Unmodelled_family, Without_command, Unreadable, Unparseable}) rows);
          misses = length (filter (\<lambda>s. s \<in> {Short, Long, Silent, Unreadable, Unparseable}) rows)
      in if cs = [] then 2 else if modelled = 0 then 2 else if misses \<noteq> 0 then 1 else 0)"

subsection \<open>The renderer's reply and its prediction\<close>

lemma strip_stable: "strip w \<noteq> [] \<Longrightarrow> strip (strip w) = strip w"
proof (rule strip_ends)
  assume "strip w \<noteq> []"
  have hd: "\<not> py_space (hd (dropWhile py_space u))" if "dropWhile py_space u \<noteq> []" for u using hd_dropWhile [OF that] .
  have last: "last (rstrip u) = hd (dropWhile py_space (rev u))" for u by (simp add: rstrip_def last_rev)
  have r: "rstrip (lstrip w) \<noteq> []" using \<open>strip w \<noteq> []\<close> by (simp add: strip_def)
  show "\<not> py_space (last (strip w))" using hd [of "rev (lstrip w)"] r by (simp add: strip_def rstrip_def last_rev)
  have "\<exists>v. lstrip w = rstrip (lstrip w) @ v"
    by (metis rev_append rev_rev_ident rstrip_def takeWhile_dropWhile_id)
  then obtain v where "lstrip w = rstrip (lstrip w) @ v" ..
  then have "hd (lstrip w) = hd (strip w)" "lstrip w \<noteq> []" using r by (metis hd_append2 strip_def, auto)
  then show "\<not> py_space (hd (strip w))" using hd [of w] by (simp add: lstrip_def)
qed simp

lemma length_dw_lines:
  assumes "length data mod 16 = 0" "0 \<le> ram" "ram + int (length data) \<le> 2 ^ 32"
  shows "int (length (dw_lines ram data)) = DW_LINE_BYTES * (int (length data) div 16)"
  using assms
proof (induction ram data rule: dw_lines.induct)
  case (2 ram b bs)
  have l: "15 \<le> length bs" and m: "length (drop 15 bs) mod 16 = 0"
    using 2(2) by (auto simp: mod_if [of "Suc (length bs)"] split: if_splits)
  have d: "length (take 16 (b # bs)) = 16" using l by simp
  have "length (dw_line ram (take 16 (b # bs))) = 47"
  proof -
    have "\<forall>w \<in> set (dw_words (take 16 (b # bs))). length w = 8" using dw_words_shape(2) [OF d] by blast
    then have "map (\<lambda>w. length (tab # w)) (dw_words (take 16 (b # bs))) = replicate 4 9"
      using dw_words_shape(1) [OF d] by (intro nth_equalityI) auto
    then have "length (concat (map (\<lambda>w. tab # w) (dw_words (take 16 (b # bs))))) = 36"
      by (simp add: length_concat comp_def sum_list_replicate)
    then show ?thesis using fmtX8(1) [of ram] 2(3,4) by (simp add: dw_line_def)
  qed
  moreover have "int (length (dw_lines (ram + 16) (drop 15 bs))) = DW_LINE_BYTES * (int (length (drop 15 bs)) div 16)"
    using 2(1) [OF m] 2(3,4) l by simp
  moreover have "int (length (b # bs)) div 16 = 1 + int (length (drop 15 bs)) div 16" using l by simp
  ultimately show ?case by (simp add: DW_LINE_BYTES_def algebra_simps)
qed simp

lemma dw_cmd_read:
  assumes "0 \<le> ram" "ram < 2 ^ 32" "0 \<le> n"
  shows "strip (dw_cmd ram n) = dw_cmd ram n" "py_words (dw_cmd ram n) = [''DW'', fmtX 8 ram, dec (nat (n div 4))]"
proof -
  have h: "list_all (\<lambda>x. \<not> py_space x) (fmtX 8 ram)" "fmtX 8 ram \<noteq> []"
    using fmtX8 [OF assms(1,2)] hex_no_space by (auto simp: list_all_iff)
  have d: "fmtd (n div 4) = dec (nat (n div 4))" using assms(3) by (simp add: fmtd_def)
  then have f: "list_all (\<lambda>x. \<not> py_space x) (dec (nat (n div 4)))" "dec (nat (n div 4)) \<noteq> []"
    using fmtd_digits [of "n div 4"] assms(3) digits_hex(1) hex_no_space by (auto simp: list_all_iff)
  have "last (dw_cmd ram n) \<in> set (dec (nat (n div 4)))" unfolding dw_cmd_def d using f(2) by simp
  then have "\<not> py_space (last (dw_cmd ram n))" using f(1) by (auto simp: list_all_iff)
  moreover have "hd (dw_cmd ram n) = CHR ''D''" "dw_cmd ram n \<noteq> []" by (simp_all add: dw_cmd_def)
  ultimately show "strip (dw_cmd ram n) = dw_cmd ram n" by (intro strip_ends) (simp_all add: py_space_def)
  have "dw_cmd ram n = join '' '' [''DW'', fmtX 8 ram, dec (nat (n div 4))]" by (simp add: dw_cmd_def d)
  then show "py_words (dw_cmd ram n) = [''DW'', fmtX 8 ram, dec (nat (n div 4))]"
    using py_words_join [of "[''DW'', fmtX 8 ram, dec (nat (n div 4))]"] h f by (simp add: py_space_def)
qed

lemma predict_dw:
  assumes "0 \<le> ram" "ram < 2 ^ 32" "0 \<le> n"
  shows "predict_size (dw_cmd ram n) = Inr (Inr (int (length (dw_cmd ram n)) + ECHO_TAIL + DW_LINE_BYTES * ((n div 4 + 3) div 4) + PROMPT_BYTES))"
  using assms dw_cmd_read [OF assms] py_int_dec [of "nat (n div 4)"]
  by (simp add: predict_size_def UNMODELLED_def SIZE_MODELS_def dw_reply_body_def dw_words_arg_def)

text \<open>
  C34. The prediction is the renderer's length: for the command that reads a window, the reply that \<open>flashwin.py\<close> prints
  for the first \<open>j\<close> lines of the window (echo, lines, prompt) is called OK exactly where no line is missing, an echo alone
  where all are, and short in between; it is never taken for the loader's answer to an unknown command.
\<close>
theorem cut_reply_classified:
  assumes "length data mod 16 = 0" "data \<noteq> []" "0 \<le> ram" "ram + int (length data) \<le> 2 ^ 32" "16 * j \<le> length data"
    and "render_dw ram (take (16 * j) data) (dw_cmd ram (int (length data))) = Inr reply"
  shows "classify_size (dw_cmd ram (int (length data))) (int (length reply)) =
     Inr (if 16 * j = length data then Size_ok else if j = 0 then Echo_only else Short)"
proof -
  let ?c = "dw_cmd ram (int (length data))"
  have r: "ram < 2 ^ 32" using assms(2,4) by (cases data) auto
  have "int (length (dw_lines ram (take (16 * j) data))) = 47 * int j"
    using length_dw_lines [of "take (16 * j) data" ram] assms(3-5) by (simp add: DW_LINE_BYTES_def)
  moreover have "reply = ?c @ nlcr @ dw_lines ram (take (16 * j) data) @ dw_prompt"
    using assms(6) by (simp add: render_dw_def split: if_splits)
  ultimately have reply: "int (length reply) = int (length ?c) + 11 + 47 * int j" by (simp add: dw_prompt_def)
  obtain q where q: "length data = 16 * q" using assms(1) by (metis mult_div_mod_eq add.right_neutral)
  have "(int (length data) div 4 + 3) div 4 = int q" using q by simp
  then have "predict_size ?c = Inr (Inr (int (length ?c) + 11 + 47 * int q))"
    using predict_dw [OF assms(3) r, of "int (length data)"] by (simp add: ECHO_TAIL_def DW_LINE_BYTES_def PROMPT_BYTES_def)
  then have "classify_size ?c (int (length reply)) =
     Inr (if j = q then Size_ok else if j = 0 then Echo_only else if 47 * int j = 20 then Unknown_reply else if j < q then Short else Long)"
    using dw_cmd_read(1) [OF assms(3) r, of "int (length data)"] assms(5) q reply
    by (simp add: classify_size_def ECHO_TAIL_def PROMPT_BYTES_def UNKNOWN_BODY_def)
  moreover have "47 * int j \<noteq> 20" by presburger
  ultimately show ?thesis using assms(5) q by auto
qed

subsection \<open>The capture before\<close>

lemma neighbour_exact:
  fixes rs :: "'a :: linorder list"
  assumes "sorted_wrt (<) rs" "i < length rs"
  shows "0 < i \<and> rs ! (i - 1) = x \<longleftrightarrow> x \<in> set rs \<and> x < rs ! i \<and> \<not> (\<exists>z \<in> set rs. x < z \<and> z < rs ! i)"
proof
  have mono: "a < b \<longleftrightarrow> rs ! a < rs ! b" if "a < length rs" "b < length rs" for a b
    using that sorted_wrt_nth_less [OF assms(1)] by (metis linorder_neqE_nat order_less_asym order_less_irrefl)
  { assume l: "0 < i \<and> rs ! (i - 1) = x"
    then have "i - 1 < length rs" using assms(2) by simp
    moreover have "\<not> (i - 1 < k \<and> k < i)" for k by linarith
    ultimately show "x \<in> set rs \<and> x < rs ! i \<and> \<not> (\<exists>z \<in> set rs. x < z \<and> z < rs ! i)"
      using l mono assms(2) by (metis diff_less in_set_conv_nth less_numeral_extra(1)) }
  assume r: "x \<in> set rs \<and> x < rs ! i \<and> \<not> (\<exists>z \<in> set rs. x < z \<and> z < rs ! i)"
  then obtain p where p: "p < length rs" "x = rs ! p" by (metis in_set_conv_nth)
  then have "p < i" using r mono assms(2) by blast
  moreover have "\<not> p < i - 1"
    using r p mono assms(2) nth_mem [of "i - 1" rs] by (metis diff_less less_imp_diff_less less_numeral_extra(1) calculation gr_implies_not_zero neq0_conv)
  ultimately have "p = i - 1" by linarith
  with p \<open>p < i\<close> show "0 < i \<and> rs ! (i - 1) = x" by simp
qed

text \<open>The specification: what a directory must record for a silence not to count.\<close>

definition started_in :: "size_dir \<Rightarrow> int \<times> string \<Rightarrow> bool" where
  "started_in dir r \<longleftrightarrow> meta_name (snd r) \<and> (\<exists>m. (snd r, Some m) \<in> set dir \<and> sm_started m = Some (fst r))"

definition excused :: "size_dir \<Rightarrow> string \<Rightarrow> string \<Rightarrow> bool" where
  "excused dir me prev \<longleftrightarrow>
     (\<exists>t t' m k. started_in dir (t, prev) \<and> started_in dir (t', me) \<and> (t, prev) < (t', me)
       \<and> \<not> (\<exists>r. started_in dir r \<and> (t, prev) < r \<and> r < (t', me))
       \<and> (prev, Some m) \<in> set dir \<and> map_of (sm_cr m) k = Some (Some (Some False)))"

lemma set_started_rows: "r \<in> set (started_rows dir) \<longleftrightarrow> started_in dir r"
  by (cases r) (force simp: started_rows_def started_in_def List.map_filter_def split: option.splits if_splits)

lemma started_rows_sorted:
  assumes "distinct (map fst dir)"
  shows "sorted_wrt (<) (started_rows dir)" "distinct (map snd (started_rows dir))"
proof -
  let ?f = "\<lambda>(n, m). if \<not> meta_name n then None else (case m of None \<Rightarrow> None | Some m \<Rightarrow> map_option (\<lambda>t. (t, n)) (sm_started m))"
  have "map snd (List.map_filter ?f dir) = map fst (filter (\<lambda>x. ?f x \<noteq> None) dir)"
    by (induction dir) (auto simp: List.map_filter_simps split: option.splits if_splits)
  then have d: "distinct (map snd (List.map_filter ?f dir))" using assms by (simp add: distinct_map_filter)
  then show "distinct (map snd (started_rows dir))" by (simp add: started_rows_def distinct_map)
  then have "distinct (started_rows dir)" by (simp add: distinct_map)
  moreover have "sorted (started_rows dir)" by (simp add: started_rows_def)
  ultimately show "sorted_wrt (<) (started_rows dir)" by (simp add: strict_sorted_iff)
qed

lemma unseen_key_exists: "unseen_key cr \<noteq> None \<longleftrightarrow> (\<exists>k. map_of cr k = Some (Some (Some False)))"
proof -
  have "map_of cr k = Some (Some (Some False)) \<Longrightarrow> k \<in> set (map fst cr)" for k by (metis domI dom_map_of_conv_image_fst set_map)
  then show ?thesis by (auto simp: unseen_key_def find_None_iff)
qed

lemma first_named:
  assumes "distinct (map snd rs)" "(t, me) \<in> set rs"
  shows "\<exists>i < length rs. length (takeWhile (\<lambda>r. snd r \<noteq> me) rs) = i \<and> rs ! i = (t, me)"
  using assms
proof (induction rs)
  case (Cons r rs)
  then show ?case by (cases "snd r = me") (auto simp: image_iff)
qed simp

lemma explained_excused:
  assumes "distinct (map fst dir)"
  shows "(\<exists>k. explained_by dir me = Some (prev, k)) \<longleftrightarrow> excused dir me prev"
proof (cases "\<exists>t. started_in dir (t, me)")
  case False
  then have "\<forall>r \<in> set (started_rows dir). snd r \<noteq> me" using set_started_rows [of _ dir] by (metis prod.collapse)
  then have "takeWhile (\<lambda>r. snd r \<noteq> me) (started_rows dir) = started_rows dir" by (simp only: takeWhile_eq_all_conv)
  then have "length (takeWhile (\<lambda>r. snd r \<noteq> me) (started_rows dir)) = length (started_rows dir)" by (rule arg_cong)
  then have "explained_by dir me = None" by (simp add: explained_by_def Let_def)
  then show ?thesis using False by (auto simp: excused_def)
next
  case True
  let ?rows = "started_rows dir"
  note so = started_rows_sorted [OF assms]
  from True obtain t' where t': "started_in dir (t', me)" by blast
  then obtain i where i: "i < length ?rows" "length (takeWhile (\<lambda>r. snd r \<noteq> me) ?rows) = i" "?rows ! i = (t', me)"
    using first_named [OF so(2)] set_started_rows by metis
  have one: "u = t'" if "started_in dir (u, me)" for u
  proof -
    from that t' obtain m m' where "(me, Some m) \<in> set dir" "sm_started m = Some u" "(me, Some m') \<in> set dir" "sm_started m' = Some t'"
      by (auto simp: started_in_def)
    with eq_key_imp_eq_value [OF assms] show ?thesis by (metis option.inject)
  qed
  have mp: "map_of dir prev = Some (Some m) \<longleftrightarrow> (prev, Some m) \<in> set dir" for m using assms by simp
  have "explained_by dir me = (if i = 0 then None else
      (case map_of dir (snd (?rows ! (i - 1))) of
         Some (Some m) \<Rightarrow> map_option (\<lambda>k. (snd (?rows ! (i - 1)), k)) (unseen_key (sm_cr m)) | _ \<Rightarrow> None))"
    unfolding explained_by_def Let_def i(2) using i(1) by auto
  then have "(\<exists>k. explained_by dir me = Some (prev, k)) \<longleftrightarrow>
      0 < i \<and> snd (?rows ! (i - 1)) = prev \<and> (\<exists>m. map_of dir prev = Some (Some m) \<and> unseen_key (sm_cr m) \<noteq> None)"
    by (auto split: option.splits)
  also have "\<dots> \<longleftrightarrow> 0 < i \<and> snd (?rows ! (i - 1)) = prev \<and> (\<exists>m. (prev, Some m) \<in> set dir \<and> unseen_key (sm_cr m) \<noteq> None)"
    unfolding mp ..
  also have "\<dots> \<longleftrightarrow> (\<exists>t. 0 < i \<and> ?rows ! (i - 1) = (t, prev)) \<and> (\<exists>m. (prev, Some m) \<in> set dir \<and> unseen_key (sm_cr m) \<noteq> None)"
    by (metis prod.collapse snd_conv)
  also have "\<dots> \<longleftrightarrow> excused dir me prev"
    unfolding neighbour_exact [OF so(1) i(1)] unseen_key_exists excused_def set_started_rows i(3) bex_simps Bex_def
    using t' one by blast
  finally show ?thesis .
qed

text \<open>
  A silence is excused exactly when the capture immediately before it recorded that the prompt did not come back: of the
  captures of the directory that have a start time, the last one that started before this one (of two with one start
  time, the one whose name is first).
\<close>
theorem explained_exact:
  assumes "distinct (map fst dir)"
  shows "(\<exists>k. explained_by dir me = Some (prev, k)) \<longleftrightarrow> excused dir me prev"
  by (rule explained_excused [OF assms])

subsection \<open>A clean sweep\<close>

text \<open>What status 0 leaves open for a capture: skipped, not modelled, or of a length that is not a miss.\<close>

definition answered :: "size_dir \<Rightarrow> string \<Rightarrow> size_meta \<Rightarrow> bool" where
  "answered dir n m \<longleftrightarrow>
     (\<exists>want b. predict_size (strip (case sm_sent m of None \<Rightarrow> [] | Some s \<Rightarrow> s)) = Inr (Inr want) \<and> sm_bytes m = Some b
       \<and> (let l = int (length (strip (case sm_sent m of None \<Rightarrow> [] | Some s \<Rightarrow> s)))
          in b = want \<or> b = l + 11 \<or> b = l + 31 \<or> b = 0 \<and> (\<exists>prev. excused dir n prev)))"

lemma sweep_row_hit:
  assumes "distinct (map fst dir)"
    and "sweep_row (dir, n, m) = Some st" "st \<in> {Size_ok, Echo_only, Unknown_reply, Silent_explained}"
  shows "\<exists>md. m = Some md \<and> \<not> sm_esc md \<and> answered dir n md"
proof -
  obtain md where m: "m = Some md" using assms(2,3) by (cases m) (auto simp: sweep_row_def)
  let ?s = "strip (case sm_sent md of None \<Rightarrow> [] | Some s \<Rightarrow> s)"
  have e: "\<not> sm_esc md" "?s \<noteq> []" using assms(2,3) by (auto simp: sweep_row_def m Let_def split: if_splits)
  have s: "strip ?s = ?s" by (rule strip_stable [OF e(2)])
  have r: "Some st = Some (case predict_size ?s of
                 Inl _ \<Rightarrow> Unparseable
               | Inr (Inl _) \<Rightarrow> Unmodelled_family
               | Inr (Inr _) \<Rightarrow>
                   (case sm_bytes md of
                      None \<Rightarrow> Unparseable
                    | Some b \<Rightarrow>
                        (case classify_size ?s b of
                           Inl _ \<Rightarrow> Unparseable
                         | Inr st \<Rightarrow> if st = Silent \<and> explained_by dir n \<noteq> None then Silent_explained else st)))"
    using assms(2) e by (simp add: sweep_row_def m Let_def)
  then obtain want b where w: "predict_size ?s = Inr (Inr want)" "sm_bytes md = Some b"
    using assms(3) by (auto split: sum.splits option.splits)
  have "explained_by dir n \<noteq> None \<longleftrightarrow> (\<exists>prev. excused dir n prev)"
    unfolding explained_excused [OF assms(1), symmetric] by (cases "explained_by dir n") auto
  with r w s assms(3) have "answered dir n md"
    unfolding answered_def
    by (intro exI [of _ want] exI [of _ b]) (auto simp: Let_def classify_size_def ECHO_TAIL_def PROMPT_BYTES_def UNKNOWN_BODY_def split: if_splits)
  with m e show ?thesis by blast
qed

text \<open>
  Status 0 of a sweep says that some capture of a modelled command was examined and answered, and that no capture was
  unreadable, unparseable or a miss: each was streamed, or held no command, or one of no model, or has the predicted
  length, the length of an echo and a prompt, the length of the answer to an unknown command, or no byte at all where the
  capture before it recorded that the prompt was gone.
\<close>
theorem clean_sweep_means:
  assumes "cmd_check_size cs = 0" "\<forall>(dir, n, m) \<in> set cs. distinct (map fst dir)"
  shows "(\<exists>(dir, n, m) \<in> set cs. \<exists>md. m = Some md \<and> \<not> sm_esc md \<and> answered dir n md)
    \<and> (\<forall>(dir, n, m) \<in> set cs. \<exists>md. m = Some md \<and> (sm_esc md \<or> answered dir n md
         \<or> (let sent = strip (case sm_sent md of None \<Rightarrow> [] | Some s \<Rightarrow> s)
            in sent = [] \<or> (\<exists>why. predict_size sent = Inr (Inl why)))))"
proof -
  let ?hit = "{Size_ok, Echo_only, Unknown_reply, Silent_explained}"
  let ?off = "{Unmodelled_family, Without_command, Unreadable, Unparseable}"
  let ?miss = "{Short, Long, Silent, Unreadable, Unparseable}"
  have rows: "st \<in> set (sweep_rows cs) \<longleftrightarrow> (\<exists>c \<in> set cs. sweep_row c = Some st)" for st
    by (force simp: sweep_rows_def List.map_filter_def)
  have n: "length (filter (\<lambda>s. s \<notin> ?off) (sweep_rows cs)) \<noteq> 0" "length (filter (\<lambda>s. s \<in> ?miss) (sweep_rows cs)) = 0"
    using assms(1) unfolding cmd_check_size_def Let_def by (auto split: if_splits)
  have nomiss: "st \<notin> ?miss" if "c \<in> set cs" "sweep_row c = Some st" for c st
    using n(2) that rows by (auto simp: filter_empty_conv)
  obtain st c where c: "c \<in> set cs" "sweep_row c = Some st" "st \<notin> ?off"
    using n(1) rows by (auto simp: filter_empty_conv)
  then have "st \<in> ?hit" using nomiss [of c st] by (cases st) auto
  with c assms(2) have one: "\<exists>(dir, n, m) \<in> set cs. \<exists>md. m = Some md \<and> \<not> sm_esc md \<and> answered dir n md"
    by (intro bexI [of _ c]) (auto intro: sweep_row_hit)
  have all: "\<exists>md. m = Some md \<and> (sm_esc md \<or> answered dir n md
         \<or> (let sent = strip (case sm_sent md of None \<Rightarrow> [] | Some s \<Rightarrow> s)
            in sent = [] \<or> (\<exists>why. predict_size sent = Inr (Inl why))))" if i: "(dir, n, m) \<in> set cs" for dir n m
  proof -
    have d: "distinct (map fst dir)" using assms(2) i by auto
    obtain md where m: "m = Some md" using nomiss [OF i] by (cases m) (auto simp: sweep_row_def)
    let ?s = "strip (case sm_sent md of None \<Rightarrow> [] | Some s \<Rightarrow> s)"
    have "answered dir n md" if e: "\<not> sm_esc md" "?s \<noteq> []" "\<not> (\<exists>why. predict_size ?s = Inr (Inl why))"
    proof -
      have "\<exists>st. sweep_row (dir, n, m) = Some st" using e(1,2) by (simp add: sweep_row_def m Let_def)
      then obtain st where st: "sweep_row (dir, n, m) = Some st" ..
      moreover have "st \<noteq> Without_command" "st \<noteq> Unmodelled_family"
        using st e unfolding sweep_row_def m classify_size_def sbind_def Let_def
        by (auto split: sum.splits option.splits if_splits)
      ultimately have "st \<in> ?hit" using nomiss [OF i] by (cases st) auto
      from sweep_row_hit [OF d st this] m show ?thesis by simp
    qed
    then show ?thesis using m unfolding Let_def by blast
  qed
  from one all show ?thesis by blast
qed

subsection \<open>Instances\<close>

definition sample_lost :: size_meta where
  "sample_lost = \<lparr>sm_sent = Some ''reboot'', sm_esc = True, sm_bytes = Some 900, sm_started = Some 5, sm_cr = [(''esc_after'', Some (Some False))]\<rparr>"

definition sample_silent :: size_meta where
  "sample_silent = \<lparr>sm_sent = Some ''DW 8040D4A0 1'', sm_esc = False, sm_bytes = Some 0, sm_started = Some 6, sm_cr = []\<rparr>"

definition sample_sitting :: size_dir where
  "sample_sitting = [(''F0.meta.json'', Some sample_silent), (''F0.log'', None), (''F0-RB.meta.json'', Some sample_lost)]"

theorem cut_reply_classified_witness:
  "\<exists>reply. render_dw 0 (replicate 16 (CHR 0x41)) (dw_cmd 0 32) = Inr reply \<and> classify_size (dw_cmd 0 32) (int (length reply)) = Inr Short"
proof -
  let ?d = "replicate 32 (CHR 0x41)"
  have "is_ascii (dw_cmd 0 32)" by (rule dw_cmd_ascii) simp_all
  then obtain reply where r: "render_dw 0 (take (16 * 1) ?d) (dw_cmd 0 (int (length ?d))) = Inr reply" by (simp add: render_dw_def)
  from cut_reply_classified [OF _ _ _ _ _ this] show ?thesis using r by (intro exI [of _ reply]) simp
qed

lemma sample_explained: "explained_by sample_sitting ''F0.meta.json'' = Some (''F0-RB.meta.json'', ''esc_after'')"
  by code_simp

theorem explained_exact_witness: "excused sample_sitting ''F0.meta.json'' ''F0-RB.meta.json''"
proof -
  have "distinct (map fst sample_sitting)" by code_simp
  from explained_exact [OF this] sample_explained show ?thesis by blast
qed

theorem clean_sweep_means_witness:
  "cmd_check_size [(sample_sitting, ''F0.meta.json'', Some sample_silent)] = 0 \<and> answered sample_sitting ''F0.meta.json'' sample_silent"
proof -
  have z: "cmd_check_size [(sample_sitting, ''F0.meta.json'', Some sample_silent)] = 0" by code_simp
  have "distinct (map fst sample_sitting)" by code_simp
  then have "\<forall>(dir, n, m) \<in> set [(sample_sitting, ''F0.meta.json'', Some sample_silent)]. distinct (map fst dir)" by simp
  from clean_sweep_means [OF z this] z show ?thesis by simp
qed

text \<open>
  Two of the lengths that are no miss are lengths a reply can be cut to: a reply of one line that lost all but twenty bytes
  of it is taken for the answer to an unknown command, and the sweep ends with 0.
\<close>

lemma truncated_reply_passes:
  "classify_size ''DW 80000000'' 69 = Inr Size_ok \<and> classify_size ''DW 80000000'' (69 - 27) = Inr Unknown_reply
    \<and> cmd_check_size [([], ''a.meta.json'', Some (sample_silent\<lparr>sm_sent := Some ''DW 80000000'', sm_bytes := Some (69 - 27)\<rparr>))] = 0"
  by code_simp

end
