(* ===== verification/CapField.thy ===== *)
theory CapField
  imports "HOL-Library.List_Lexorder" "HOL-Library.Char_ord" PyText
begin

text \<open>
  \<open>tools/capfield.py\<close>: one field read out of a console capture.  The echoed command is stepped over, the lines that are a
  name and one value are collected, and a value is printed or compared only where it is the only answer.  A capture is
  the decoded text of its log and the command that its metadata names.
\<close>

subsection \<open>The capture\<close>

datatype cap_error =
    No_capture string
  | Nth_range int string nat
  | Several string "string list"
  | Is_mark string
  | Not_a_name string
  | Not_base string string nat

text \<open>The logs by path, and the \<open>sent\<close> of a metadata file: None where the file is absent, is no JSON, or names none.\<close>

record captures =
  cap_logs :: "string \<Rightarrow> string option"
  cap_sent :: "string \<Rightarrow> string option"

definition read_capture :: "captures \<Rightarrow> string \<Rightarrow> cap_error + (string \<times> string option)" where
  "read_capture fs p =
     (let p = (if suffix ''.log'' p then take (length p - 4) p else p) in
      case cap_logs fs (p @ ''.log'') of
        None \<Rightarrow> Inl (No_capture (p @ ''.log''))
      | Some log \<Rightarrow> Inr (log, cap_sent fs (p @ ''.meta.json'')))"

subsection \<open>The echo\<close>

definition line_end :: "char \<Rightarrow> bool" where
  "line_end c \<longleftrightarrow> c = CHR 0x0D \<or> c = CHR 0x0A"

text \<open>The loop over the log from index \<open>i\<close>, with what is left of the command.\<close>

fun echo_loop :: "string \<Rightarrow> string \<Rightarrow> nat \<Rightarrow> nat option" where
  "echo_loop log [] i = Some i"
| "echo_loop [] (s # ss) i = None"
| "echo_loop (c # log) (s # ss) i =
     (if line_end c then echo_loop log (s # ss) (i + 1)
      else if c \<noteq> s then None
      else echo_loop log ss (i + 1))"

definition echo_end :: "string \<Rightarrow> string option \<Rightarrow> nat option" where
  "echo_end log sent =
     (case sent of None \<Rightarrow> None | Some s \<Rightarrow> if s = [] then None else echo_loop log s 0)"

subsection \<open>The fields\<close>

definition lower_char :: "char \<Rightarrow> bool" where
  "lower_char c = (let n = (of_char c :: nat) in 97 \<le> n \<and> n \<le> 122)"

definition field_char :: "char \<Rightarrow> bool" where
  "field_char c \<longleftrightarrow> lower_char c \<or> is_digit c \<or> c = CHR ''_''"

definition field_name :: "string \<Rightarrow> bool" where
  "field_name n \<longleftrightarrow> (case n of [] \<Rightarrow> False | c # cs \<Rightarrow> lower_char c \<and> list_all field_char cs)"

text \<open>
  \<open>FIELD.match(raw.strip())\<close>: the name cannot hold a space, so it ends at the first one; a stripped line has no
  newline for \<open>$\<close> to stop before.
\<close>

definition FIELD :: "string \<Rightarrow> (string \<times> string) option" where
  "FIELD l =
     (let n = takeWhile field_char l in
      case dropWhile field_char l of
        [] \<Rightarrow> None
      | c # v \<Rightarrow> if field_name n \<and> c = CHR '' '' \<and> v \<noteq> [] \<and> list_all (\<lambda>x. \<not> py_space x) v then Some (n, v) else None)"

text \<open>The dictionary as the list of its entries in the order of the log; \<open>occurrences\<close> is what it holds for a name.\<close>

definition fields_of :: "string \<Rightarrow> string option \<Rightarrow> (string \<times> string) list \<times> bool" where
  "fields_of log sent =
     (let ee = echo_end log sent; body = (case ee of None \<Rightarrow> log | Some i \<Rightarrow> drop i log) in
      (List.map_filter (\<lambda>raw. FIELD (strip raw)) (split_on (CHR 0x0A) (universal_newlines body)), ee \<noteq> None))"

definition occurrences :: "(string \<times> string) list \<Rightarrow> string \<Rightarrow> string list" where
  "occurrences f n = map snd (filter (\<lambda>e. fst e = n) f)"

definition pick :: "string list \<Rightarrow> string \<Rightarrow> int option \<Rightarrow> cap_error + string" where
  "pick vs n at =
     (case at of
        Some k \<Rightarrow> if 1 \<le> k \<and> k \<le> int (length vs) then Inr (vs ! nat (k - 1)) else Inl (Nth_range k n (length vs))
      | None \<Rightarrow> if length vs > 1 then Inl (Several n vs) else Inr (hd vs))"

text \<open>The name asked for; \<open>$\<close> of the last pattern also stops before a final newline.\<close>

definition check_name :: "string \<Rightarrow> cap_error + unit" where
  "check_name n =
     (if prefix ''RLXFW-'' n \<or> CHR ''='' \<in> set n then Inl (Is_mark n)
      else if field_name n \<or> field_name (butlast n) \<and> last n = CHR 0x0A then Inr ()
      else Inl (Not_a_name n))"

definition to_int :: "string \<Rightarrow> nat \<Rightarrow> string \<Rightarrow> cap_error + int" where
  "to_int t b what = or_err (Not_base what t b) (py_int b t)"

subsection \<open>The command\<close>

datatype cap_cmd =
    Cap_get string string "int option" bool
  | Cap_eq string string string "int option"
  | Cap_num string string nat "int option"
  | Cap_sub string string string nat
  | Cap_dump string

datatype cap_out =
    Values "string list"
  | Held string string
  | Differs string string string
  | Number int
  | Fields "(string \<times> string) list"
  | Absent string
  | Refused_cap cap_error
  | Self_test_failed

fun cap_of :: "cap_cmd \<Rightarrow> string" where
  "cap_of (Cap_get p _ _ _) = p"
| "cap_of (Cap_eq p _ _ _) = p"
| "cap_of (Cap_num p _ _ _) = p"
| "cap_of (Cap_sub p _ _ _) = p"
| "cap_of (Cap_dump p) = p"

text \<open>\<open>check_name\<close> and the test that the name is there, before \<open>k\<close>.\<close>

definition with_field :: "(string \<times> string) list \<Rightarrow> string \<Rightarrow> (string list \<Rightarrow> cap_error + cap_out) \<Rightarrow> cap_error + cap_out" where
  "with_field f n k =
     sbind (check_name n) (\<lambda>_. if occurrences f n = [] then Inr (Absent n) else k (occurrences f n))"

text \<open>\<open>sorted(f)\<close> with the values of each name in their order.\<close>

definition dump_lines :: "(string \<times> string) list \<Rightarrow> (string \<times> string) list" where
  "dump_lines f = sort_key fst f"

fun cap_answer :: "(string \<times> string) list \<Rightarrow> cap_cmd \<Rightarrow> cap_error + cap_out" where
  "cap_answer f (Cap_dump p) = Inr (Fields (dump_lines f))"
| "cap_answer f (Cap_get p n at every) =
     with_field f n (\<lambda>vs. if every then Inr (Values vs) else sbind (pick vs n at) (\<lambda>v. Inr (Values [v])))"
| "cap_answer f (Cap_eq p n want at) =
     with_field f n (\<lambda>vs. sbind (pick vs n at) (\<lambda>got. Inr (if got = want then Held n got else Differs n got want)))"
| "cap_answer f (Cap_num p n b at) =
     with_field f n (\<lambda>vs. sbind (pick vs n at) (\<lambda>v. sbind (to_int v b n) (\<lambda>i. Inr (Number i))))"
| "cap_answer f (Cap_sub p x y b) =
     with_field f x (\<lambda>vs. with_field f y (\<lambda>ws.
       sbind (pick vs x None) (\<lambda>v. sbind (to_int v b x) (\<lambda>i.
       sbind (pick ws y None) (\<lambda>w. sbind (to_int w b y) (\<lambda>j. Inr (Number (i - j))))))))"

text \<open>
  What is printed, and whether the warning that the echo did not match comes before it; \<open>ok\<close> is the outcome of the self
  test, which \<open>--no-selftest\<close> skips.
\<close>

definition cap_main :: "bool \<Rightarrow> bool \<Rightarrow> captures \<Rightarrow> cap_cmd \<Rightarrow> bool \<times> cap_out" where
  "cap_main no_selftest ok fs cmd =
     (if \<not> no_selftest \<and> \<not> ok then (False, Self_test_failed)
      else case read_capture fs (cap_of cmd) of
        Inl e \<Rightarrow> (False, Refused_cap e)
      | Inr (log, sent) \<Rightarrow>
          let (f, matched) = fields_of log sent;
              warned = (\<not> matched \<and> sent \<noteq> None \<and> sent \<noteq> Some [])
          in (warned, (case cap_answer f cmd of Inl e \<Rightarrow> Refused_cap e | Inr out \<Rightarrow> out)))"

fun cap_status :: "cap_out \<Rightarrow> nat" where
  "cap_status (Differs _ _ _) = 1"
| "cap_status (Absent _) = 3"
| "cap_status (Refused_cap _) = 2"
| "cap_status Self_test_failed = 2"
| "cap_status _ = 0"

subsection \<open>The census of the wraps\<close>

record wrap_row =
  wr_path :: string
  wr_n :: nat
  wr_sent :: string
  wr_wrap :: bool

record census =
  c_metas :: nat
  c_rows :: "wrap_row list"
  c_unmatched :: nat
  c_wrapped :: "wrap_row list"
  c_plain :: "wrap_row list"
  c_lo :: "nat option"
  c_hi :: "nat option"
  c_exceptions :: "wrap_row list"

definition WRAP :: string where
  "WRAP = [CHR 0x0D, CHR 0x0D, CHR 0x0A]"

definition least_of :: "nat list \<Rightarrow> nat option" where
  "least_of ns = (if ns = [] then None else Some (Min (set ns)))"

definition greatest_of :: "nat list \<Rightarrow> nat option" where
  "greatest_of ns = (if ns = [] then None else Some (Max (set ns)))"

text \<open>A metadata file in the order of the sweep: its prefix, its \<open>sent\<close>, the log beside it.\<close>

fun census_loop :: "(string \<times> string option \<times> string option) list \<Rightarrow> wrap_row list \<times> nat" where
  "census_loop [] = ([], 0)"
| "census_loop ((p, sent, log) # ms) =
     (case sent of
        None \<Rightarrow> census_loop ms
      | Some s \<Rightarrow>
          (case log of
             None \<Rightarrow> census_loop ms
           | Some log \<Rightarrow>
               (case echo_end log (Some s) of
                  None \<Rightarrow> (case census_loop ms of (rows, un) \<Rightarrow> (rows, un + 1))
                | Some ee \<Rightarrow>
                    (case census_loop ms of
                       (rows, un) \<Rightarrow> (\<lparr>wr_path = p, wr_n = length s, wr_sent = s, wr_wrap = occurs WRAP (take ee log)\<rparr> # rows, un)))))"

definition wrap_census :: "(string \<times> string option \<times> string option) list \<Rightarrow> census" where
  "wrap_census ms =
     (let (rows, un) = census_loop ms;
          wrapped = filter wr_wrap rows;
          plain = filter (\<lambda>r. \<not> wr_wrap r) rows;
          lo = least_of (map wr_n wrapped)
      in \<lparr>c_metas = length ms, c_rows = rows, c_unmatched = un, c_wrapped = wrapped, c_plain = plain, c_lo = lo,
          c_hi = greatest_of (map wr_n (filter (\<lambda>r. case lo of None \<Rightarrow> True | Some l \<Rightarrow> wr_n r < l) plain)),
          c_exceptions = (case lo of None \<Rightarrow> [] | Some l \<Rightarrow> filter (\<lambda>r. l \<le> wr_n r) plain)\<rparr>)"

text \<open>The threshold that is reported, with the lengths in it that no capture has, and the exit status.\<close>

definition bracket :: "census \<Rightarrow> (nat \<times> nat \<times> nat list) option" where
  "bracket c =
     (case (c_hi c, c_lo c) of
        (Some hi, Some lo) \<Rightarrow> Some (hi, lo, filter (\<lambda>n. n \<notin> set (map wr_n (c_rows c))) [hi + 1..<lo + 1])
      | _ \<Rightarrow> None)"

definition report_wrapcensus :: "(string \<times> string option \<times> string option) list \<Rightarrow> (nat \<times> nat \<times> nat list) option \<times> wrap_row list \<times> nat" where
  "report_wrapcensus ms =
     (let c = wrap_census ms in (bracket c, c_exceptions c, if c_wrapped c = [] then 2 else 0))"

subsection \<open>Where the echo ends\<close>

abbreviation typed :: "string \<Rightarrow> string" where
  "typed l \<equiv> filter (\<lambda>c. \<not> line_end c) l"

lemma typed_Nil: "typed p = [] \<Longrightarrow> p = [] \<or> line_end (last p)"
  by (cases p rule: rev_cases) (auto split: if_splits)

lemma split_Cons: "\<not> Q [] \<Longrightarrow> (\<exists>p r. c # log = p @ r \<and> Q p) \<longleftrightarrow> (\<exists>p r. log = p @ r \<and> Q (c # p))"
  by (metis append_Cons append_eq_Cons_conv)

lemma echo_loop_exact:
  "echo_loop log s i = Some k \<longleftrightarrow>
     (\<exists>p r. log = p @ r \<and> k = i + length p \<and> typed p = s \<and> (p = [] \<or> \<not> line_end (last p)))"
proof (induction log s i rule: echo_loop.induct)
  case (1 log i)
  have "typed p = [] \<and> (p = [] \<or> \<not> line_end (last p)) \<longleftrightarrow> p = []" for p using typed_Nil by auto
  then have "(\<exists>p r. log = p @ r \<and> k = i + length p \<and> typed p = [] \<and> (p = [] \<or> \<not> line_end (last p))) \<longleftrightarrow> k = i"
    by simp
  then show ?case by (simp only: echo_loop.simps) auto
next
  case (2 s ss i)
  then show ?case by auto
next
  case (3 c log s ss i)
  have split: "(\<exists>p r. c # log = p @ r \<and> k = i + length p \<and> typed p = s # ss \<and> (p = [] \<or> \<not> line_end (last p))) \<longleftrightarrow>
     (\<exists>p r. log = p @ r \<and> k = i + 1 + length p \<and> typed (c # p) = s # ss \<and> \<not> line_end (last (c # p)))"
    using split_Cons [of "\<lambda>p. k = i + length p \<and> typed p = s # ss \<and> (p = [] \<or> \<not> line_end (last p))" c log] by simp
  have last: "\<not> line_end (last (c # p)) \<longleftrightarrow> (if p = [] then \<not> line_end c else \<not> line_end (last p))" for p by simp
  show ?case
  proof (cases "line_end c")
    case True
    have "typed (c # p) = s # ss \<and> \<not> line_end (last (c # p)) \<longleftrightarrow> typed p = s # ss \<and> (p = [] \<or> \<not> line_end (last p))" for p
      using True by auto
    then show ?thesis unfolding split using 3(1) True by simp
  next
    case False
    have "typed (c # p) = s # ss \<and> \<not> line_end (last (c # p)) \<longleftrightarrow> c = s \<and> typed p = ss \<and> (p = [] \<or> \<not> line_end (last p))" for p
      using False by auto
    then show ?thesis unfolding split using 3(2) False by auto
  qed
qed

text \<open>
  The echo is the shortest beginning of the log that is the command once its line ends are taken out: the offset is one
  past the last character of it, wherever the line editor wrapped, and there is none where the log begins otherwise, the
  command holds a line end itself, or nothing was sent.
\<close>
theorem echo_end_exact:
  "echo_end log sent = Some k \<longleftrightarrow>
     (\<exists>s. sent = Some s \<and> s \<noteq> [] \<and> k \<le> length log \<and> typed (take k log) = s \<and> \<not> line_end (log ! (k - 1)))"
proof -
  have "(\<exists>p r. log = p @ r \<and> k = length p \<and> typed p = s \<and> (p = [] \<or> \<not> line_end (last p))) \<longleftrightarrow>
      k \<le> length log \<and> typed (take k log) = s \<and> \<not> line_end (log ! (k - 1))" if s: "s \<noteq> []" for s
  proof
    assume "\<exists>p r. log = p @ r \<and> k = length p \<and> typed p = s \<and> (p = [] \<or> \<not> line_end (last p))"
    then obtain p r where p: "log = p @ r" "k = length p" "typed p = s" "p = [] \<or> \<not> line_end (last p)" by blast
    with s have "p \<noteq> []" by auto
    with p show "k \<le> length log \<and> typed (take k log) = s \<and> \<not> line_end (log ! (k - 1))"
      by (auto simp: nth_append last_conv_nth)
  next
    assume r: "k \<le> length log \<and> typed (take k log) = s \<and> \<not> line_end (log ! (k - 1))"
    then have ne: "take k log \<noteq> []" using s by (metis filter.simps(1))
    then have "0 < k" by (cases k) simp_all
    then have "last (take k log) = log ! (k - 1)" using r by (subst last_conv_nth [OF ne]) (simp add: min_absorb2)
    then show "\<exists>p r. log = p @ r \<and> k = length p \<and> typed p = s \<and> (p = [] \<or> \<not> line_end (last p))"
      using r by (intro exI [of _ "take k log"] exI [of _ "drop k log"]) auto
  qed
  then show ?thesis by (cases sent) (auto simp: echo_end_def echo_loop_exact)
qed

subsection \<open>What a field is\<close>

lemma field_char_space: "field_char c \<Longrightarrow> \<not> py_space c" "\<not> field_char (CHR '' '')"
  by (auto simp: field_char_def lower_char_def is_digit_def py_space_def Let_def)

lemma field_name_chars: "field_name n \<Longrightarrow> n \<noteq> [] \<and> list_all field_char n"
  by (cases n) (auto simp: field_name_def field_char_def)

lemma FIELD_exact:
  "FIELD l = Some (n, v) \<longleftrightarrow> field_name n \<and> l = n @ '' '' @ v \<and> v \<noteq> [] \<and> list_all (\<lambda>x. \<not> py_space x) v"
proof
  assume h: "FIELD l = Some (n, v)"
  then obtain c w where d: "dropWhile field_char l = c # w" by (auto simp: FIELD_def Let_def split: list.splits)
  with h have "n = takeWhile field_char l" "c = CHR '' ''" "w = v" "field_name n" "v \<noteq> []" "list_all (\<lambda>x. \<not> py_space x) v"
    by (auto simp: FIELD_def Let_def split: if_splits)
  with d show "field_name n \<and> l = n @ '' '' @ v \<and> v \<noteq> [] \<and> list_all (\<lambda>x. \<not> py_space x) v"
    using takeWhile_dropWhile_id [of field_char l] by simp
next
  assume r: "field_name n \<and> l = n @ '' '' @ v \<and> v \<noteq> [] \<and> list_all (\<lambda>x. \<not> py_space x) v"
  then have a: "\<forall>c \<in> set n. field_char c" using field_name_chars [of n] by (simp add: list_all_iff)
  then have "takeWhile field_char l = n" "dropWhile field_char l = CHR '' '' # v"
    using r field_char_space(2) by (simp_all add: takeWhile_append2 dropWhile_append2)
  with r show "FIELD l = Some (n, v)" by (simp add: FIELD_def)
qed

text \<open>The specification: the value a printed line has for a name.\<close>

definition value_on :: "string \<Rightarrow> string \<Rightarrow> string option" where
  "value_on n l =
     (case lit (n @ '' '') (strip l) of
        Some v \<Rightarrow> if v \<noteq> [] \<and> list_all (\<lambda>x. \<not> py_space x) v then Some v else None
      | None \<Rightarrow> None)"

lemma value_on_FIELD:
  assumes "field_name n"
  shows "value_on n l = Some v \<longleftrightarrow> FIELD (strip l) = Some (n, v)"
proof -
  have "value_on n l = Some v \<longleftrightarrow> lit (n @ '' '') (strip l) = Some v \<and> v \<noteq> [] \<and> list_all (\<lambda>x. \<not> py_space x) v"
    by (auto simp: value_on_def split: option.splits)
  then show ?thesis using assms by (simp only: FIELD_exact lit_iff append.assoc) simp
qed

lemma occurrences_printed:
  assumes "field_name n"
  shows "occurrences (List.map_filter (\<lambda>l. FIELD (strip l)) ls) n = List.map_filter (value_on n) ls"
proof (induction ls)
  case (Cons l ls)
  show ?case
  proof (cases "FIELD (strip l)")
    case None
    then have "value_on n l = None" using value_on_FIELD [OF assms, of l] by (metis option.distinct(1) option.exhaust)
    with None Cons show ?thesis by (simp add: List.map_filter_simps)
  next
    case (Some e)
    then have "value_on n l = Some v \<longleftrightarrow> fst e = n \<and> snd e = v" for v using value_on_FIELD [OF assms, of l v] by (cases e) simp
    then have "value_on n l = (if fst e = n then Some (snd e) else None)" by (metis option.exhaust)
    with Some Cons show ?thesis by (simp add: List.map_filter_simps occurrences_def)
  qed
qed (simp add: List.map_filter_simps occurrences_def)

subsection \<open>Reading back what the console printed\<close>

text \<open>The log of a command: its echo as the line editor shows it, then lines that end in CR LF; a prompt may be the last.\<close>

definition console :: "string \<Rightarrow> string list \<Rightarrow> string" where
  "console e ls = e @ concat (map (\<lambda>l. [CHR 0x0D, CHR 0x0A] @ l) ls)"

abbreviation line_free :: "string \<Rightarrow> bool" where
  "line_free l \<equiv> list_all (\<lambda>c. \<not> line_end c) l"

lemma console_lines:
  assumes "list_all line_free ls"
  shows "split_on (CHR 0x0A) (universal_newlines (concat (map (\<lambda>l. [CHR 0x0D, CHR 0x0A] @ l) ls))) = [] # ls"
  using assms
proof (induction ls)
  case (Cons l ls)
  have f: "CHR 0x0D \<notin> set l" "CHR 0x0A \<notin> set l" using Cons.prems by (auto simp: list_all_iff line_end_def)
  show ?case
  proof (cases ls)
    case Nil
    then show ?thesis using f universal_newlines_free [OF f(1), of "[]"] by (simp add: split_on_free)
  next
    case c: (Cons m ms)
    let ?r = "concat (map (\<lambda>l. [CHR 0x0D, CHR 0x0A] @ l) ls)"
    let ?t = "CHR 0x0A # universal_newlines (m @ concat (map (\<lambda>l. [CHR 0x0D, CHR 0x0A] @ l) ms))"
    have "universal_newlines ?r = ?t" by (simp add: c)
    moreover from this have "split_on (CHR 0x0A) (l @ ?t) = l # ls"
      using Cons f by (simp add: split_on_piece)
    ultimately show ?thesis using universal_newlines_free [OF f(1), of ?r] by simp
  qed
qed simp

lemma console_fields:
  assumes "typed e = s" "s \<noteq> []" "\<not> line_end (last e)" "list_all line_free ls"
  shows "fields_of (console e ls) (Some s) = (List.map_filter (\<lambda>l. FIELD (strip l)) ls, True)"
proof -
  have "echo_loop (console e ls) s 0 = Some (length e)"
    unfolding echo_loop_exact console_def using assms(1-3) by auto
  then have "echo_end (console e ls) (Some s) = Some (length e)" using assms(2) by (simp add: echo_end_def)
  moreover have "FIELD (strip []) = None" by code_simp
  ultimately show ?thesis
    using console_lines [OF assms(4)] by (simp add: fields_of_def console_def List.map_filter_simps)
qed

lemma check_name_ok: "field_name n \<Longrightarrow> check_name n = Inr ()"
proof -
  assume n: "field_name n"
  have "CHR ''='' \<notin> set n" using field_name_chars [OF n] by (auto simp: list_all_iff field_char_def lower_char_def is_digit_def Let_def)
  moreover have "\<not> prefix ''RLXFW-'' n" using n by (cases n) (auto simp: field_name_def lower_char_def Let_def)
  ultimately show ?thesis using n by (simp add: check_name_def)
qed

text \<open>
  C35. A comparison answers for what the console printed: where the log is the echo of the command, wrapped anywhere, and
  lines ended by CR LF, \<open>eq\<close> holds, differs, is absent or refuses by the values that the lines have for the name, a
  carriage return never being part of one; its status is 0 exactly where the one value is the expected one.
\<close>
theorem eq_reads_the_printed:
  assumes "cap_logs fs (p @ ''.log'') = Some (console e ls)" "cap_sent fs (p @ ''.meta.json'') = Some s" "\<not> suffix ''.log'' p"
    and "typed e = s" "s \<noteq> []" "\<not> line_end (last e)" "list_all line_free ls" "field_name n"
  shows "cap_main True ok fs (Cap_eq p n want None) = (False,
      (case List.map_filter (value_on n) ls of
         [] \<Rightarrow> Absent n
       | [v] \<Rightarrow> if v = want then Held n v else Differs n v want
       | vs \<Rightarrow> Refused_cap (Several n vs)))
    \<and> (cap_status (snd (cap_main True ok fs (Cap_eq p n want None))) = 0 \<longleftrightarrow> List.map_filter (value_on n) ls = [want])"
proof -
  let ?vs = "List.map_filter (value_on n) ls"
  have m: "cap_main True ok fs (Cap_eq p n want None) = (False,
      (case ?vs of [] \<Rightarrow> Absent n | [v] \<Rightarrow> if v = want then Held n v else Differs n v want | vs \<Rightarrow> Refused_cap (Several n vs)))"
    using assms(1-3) console_fields [OF assms(4-7)] occurrences_printed [OF assms(8), of ls] check_name_ok [OF assms(8)]
    by (simp add: cap_main_def read_capture_def with_field_def pick_def Let_def split: list.split)
  moreover have "cap_status (snd (cap_main True ok fs (Cap_eq p n want None))) = 0 \<longleftrightarrow> ?vs = [want]"
    unfolding m by (auto split: list.split)
  ultimately show ?thesis by blast
qed

subsection \<open>The threshold\<close>

text \<open>
  The census divides the captures by length: below the longest unwrapped one nothing wrapped, between the two ends nothing
  was measured, and from the shortest wrapped one on what did not wrap is reported as an exception.
\<close>

lemma bracket_means:
  assumes "bracket (wrap_census ms) = Some (hi, lo, gap)"
  shows "hi < lo" "set gap = {hi<..lo} - wr_n ` set (c_rows (wrap_census ms))"
    and "r \<in> set (c_rows (wrap_census ms)) \<Longrightarrow>
      (wr_wrap r \<longrightarrow> lo \<le> wr_n r) \<and> (wr_n r \<le> hi \<or> lo \<le> wr_n r) \<and> (lo \<le> wr_n r \<longrightarrow> wr_wrap r \<or> r \<in> set (c_exceptions (wrap_census ms)))"
proof -
  obtain rows un where l: "census_loop ms = (rows, un)" by fastforce
  let ?w = "filter wr_wrap rows" and ?p = "filter (\<lambda>r. \<not> wr_wrap r) rows"
  have lo: "least_of (map wr_n ?w) = Some lo" and rows: "c_rows (wrap_census ms) = rows"
    and hi: "greatest_of (map wr_n (filter (\<lambda>r. wr_n r < lo) ?p)) = Some hi"
    and gap: "gap = filter (\<lambda>n. n \<notin> set (map wr_n rows)) [hi + 1..<lo + 1]"
    and exc: "c_exceptions (wrap_census ms) = filter (\<lambda>r. lo \<le> wr_n r) ?p"
    using assms l by (auto simp: bracket_def wrap_census_def Let_def split: option.splits)
  from hi have h: "hi = Max (wr_n ` set (filter (\<lambda>r. wr_n r < lo) ?p))" "filter (\<lambda>r. wr_n r < lo) ?p \<noteq> []"
    by (auto simp: greatest_of_def split: if_splits)
  then have "hi \<in> wr_n ` set (filter (\<lambda>r. wr_n r < lo) ?p)" by (metis Max_in List.finite_set finite_imageI image_is_empty set_empty)
  then show "hi < lo" by auto
  then show "set gap = {hi<..lo} - wr_n ` set (c_rows (wrap_census ms))" by (auto simp: gap rows)
  assume r: "r \<in> set (c_rows (wrap_census ms))"
  have "wr_n r \<le> hi" if "\<not> wr_wrap r" "wr_n r < lo" using that r by (auto simp: h(1) rows intro: Max_ge)
  moreover have "lo \<le> wr_n r" if "wr_wrap r"
    using that r lo by (auto simp: least_of_def rows split: if_splits intro: Min_le)
  ultimately show "(wr_wrap r \<longrightarrow> lo \<le> wr_n r) \<and> (wr_n r \<le> hi \<or> lo \<le> wr_n r)
      \<and> (lo \<le> wr_n r \<longrightarrow> wr_wrap r \<or> r \<in> set (c_exceptions (wrap_census ms)))"
    using r by (cases "wr_wrap r") (auto simp: exc rows)
qed

subsection \<open>An instance\<close>

definition sample_log :: string where
  "sample_log = console (''cat /pr'' @ WRAP @ ''oc/rtl'') [''n_writes 0'', ''sfcr FFC00000 '', ''~ # '']"

theorem eq_reads_the_printed_witness:
  "\<exists>fs. cap_logs fs ''VF.log'' = Some sample_log
     \<and> cap_main True False fs (Cap_eq ''VF'' ''sfcr'' ''FFC00000'' None) = (False, Held ''sfcr'' ''FFC00000'')
     \<and> cap_status (snd (cap_main True False fs (Cap_eq ''VF'' ''n_writes'' ''1'' None))) \<noteq> 0"
proof -
  let ?ls = "[''n_writes 0'', ''sfcr FFC00000 '', ''~ # '']"
  let ?fs = "\<lparr>cap_logs = [''VF.log'' \<mapsto> sample_log], cap_sent = [''VF.meta.json'' \<mapsto> ''cat /proc/rtl'']\<rparr>"
  have f: "cap_logs ?fs (''VF'' @ ''.log'') = Some (console (''cat /pr'' @ WRAP @ ''oc/rtl'') ?ls)"
    "cap_sent ?fs (''VF'' @ ''.meta.json'') = Some ''cat /proc/rtl''" "\<not> suffix ''.log'' ''VF''"
    by (simp_all add: sample_log_def suffix_def)
  have e: "typed (''cat /pr'' @ WRAP @ ''oc/rtl'') = ''cat /proc/rtl''" "''cat /proc/rtl'' \<noteq> []"
    "\<not> line_end (last (''cat /pr'' @ WRAP @ ''oc/rtl''))" "list_all line_free ?ls" by code_simp+
  have n: "field_name ''sfcr''" "field_name ''n_writes''" by code_simp+
  have v: "List.map_filter (value_on ''sfcr'') ?ls = [''FFC00000'']" "List.map_filter (value_on ''n_writes'') ?ls = [''0'']" by code_simp+
  have "cap_main True False ?fs (Cap_eq ''VF'' ''sfcr'' ''FFC00000'' None) = (False, Held ''sfcr'' ''FFC00000'')"
    using eq_reads_the_printed [OF f e n(1)] v(1) by simp
  moreover have "cap_status (snd (cap_main True False ?fs (Cap_eq ''VF'' ''n_writes'' ''1'' None))) \<noteq> 0"
    using eq_reads_the_printed [OF f e n(2), of False "''1''"] v(2) by simp
  ultimately show ?thesis by (intro exI [of _ ?fs] conjI) simp_all
qed

end
