(* ===== verification/RbCheck.thy ===== *)
theory RbCheck
  imports "HOL-Library.Word" FlashWin PyText
begin

text \<open>
  \<open>tools/rbcheck.py\<close>: the result block of a probe payload, read out of a capture of the loader's \<open>DW\<close> reply and judged by
  arithmetic: the sum of its words against its seal and against the line on the console, the stage it stopped at, the
  timing group, the bitmap and the poison past its end.  Python's integers with their masks are \<open>int\<close>; the words the
  payload adds are \<open>32 word\<close>.
\<close>

unbundle bit_operations_syntax

subsection \<open>The ladders\<close>

definition MASK :: int where "MASK = 0xFFFFFFFF"
definition POISON :: int where "POISON = 0xDEADC0DE"

type_synonym ladder = "(int \<times> string) list"

definition PROGRESS :: "(int \<times> ladder) list" where
  "PROGRESS =
     [(0x524C5832, [(0x10, ''P_HEADER''), (0x20, ''P_STATUS''), (0x30, ''P_SAVED''), (0x40, ''P_INSTALLED''), (0x50, ''P_BREAK''),
        (0x60, ''P_CENSUS''), (0x70, ''P_COUNT''), (0x80, ''P_RESTORED''), (0x90, ''P_SEALED'')]),
      (0x524C5833, [(0x10, ''P_HEADER''), (0x20, ''P_HANDLER''), (0x30, ''P_TIMER''), (0x40, ''P_WALK_I''), (0x50, ''P_IMEM_OFF''),
        (0x60, ''P_SCRATCH''), (0x70, ''P_COHERE''), (0x80, ''P_WALK_D''), (0x90, ''P_CACHEOP''), (0xA0, ''P_ISC''),
        (0xA8, ''P_FLASHWIN''), (0xB0, ''P_RESTORED''), (0xC0, ''P_SEALED'')]),
      (0x524C5834, [(0x01, ''P_POISON''), (0x02, ''P_HEADER''), (0x03, ''P_INSTALLED''), (0x04, ''P_BREAK''), (0x10, ''P_ROWS''),
        (0xF0, ''P_RESTORED''), (0xF1, ''P_SEALED'')]),
      (0x524C5835, [(0x01, ''P_POISON''), (0x02, ''P_HEADER''), (0x03, ''P_INSTALLED''), (0x04, ''P_BREAK''), (0x05, ''P_ADDR0''),
        (0x10, ''P_ROWS''), (0xF0, ''P_RESTORED''), (0xF1, ''P_SEALED'')]),
      (0x524C5836, [(0x01, ''P_POISON''), (0x02, ''P_HEADER''), (0x03, ''P_INSTALLED''), (0x04, ''P_BREAK''), (0x05, ''P_CELLS''),
        (0x10, ''P_ROWS''), (0xF0, ''P_RESTORED''), (0xF1, ''P_SEALED'')])]"

definition stage_at :: "ladder \<Rightarrow> string \<Rightarrow> int option" where
  "stage_at names n = map_option fst (find (\<lambda>e. snd e = n) names)"

text \<open>The names, \<open>P_SEALED\<close> and its distance from \<open>P_RESTORED\<close>; every ladder has both.\<close>

definition ladder_of :: "int \<Rightarrow> (ladder \<times> int \<times> int) option" where
  "ladder_of magic =
     (case map_of PROGRESS magic of
        None \<Rightarrow> None
      | Some names \<Rightarrow>
          (case (stage_at names ''P_SEALED'', stage_at names ''P_RESTORED'') of
             (Some s, Some r) \<Rightarrow> Some (names, s, s - r)
           | _ \<Rightarrow> None))"

datatype stage = Stage string | In_rows int | Not_a_stage

definition stage_name :: "ladder \<Rightarrow> int \<Rightarrow> stage" where
  "stage_name names prog =
     (case map_of names prog of
        Some n \<Rightarrow> Stage n
      | None \<Rightarrow>
          (case stage_at names ''P_ROWS'' of
             None \<Rightarrow> Not_a_stage
           | Some base \<Rightarrow>
               let above = filter (\<lambda>v. v > base) (map fst names) in
               if prog > base \<and> (above = [] \<or> prog < Min (set above)) then In_rows (prog - base) else Not_a_stage))"

subsection \<open>The capture\<close>

datatype rb_refuse =
    Read_twice int int int
  | No_reply
  | Missing_word nat int
  | Seal_lines "(string \<times> string) list"
  | No_such_file string

text \<open>What ends the command early: a refusal, or an exception that nothing catches.\<close>

datatype rb_end = Refused rb_refuse | Index_error | Value_error

text \<open>\<open>str.splitlines()\<close> on the code points below 256: CR LF is one boundary.\<close>

definition line_boundary :: "char \<Rightarrow> bool" where
  "line_boundary c = (let n = (of_char c :: nat) in 0x0A \<le> n \<and> n \<le> 0x0D \<or> 0x1C \<le> n \<and> n \<le> 0x1E \<or> n = 0x85)"

function splitlines :: "string \<Rightarrow> string list" where
  "splitlines [] = []"
| "splitlines (c # s) =
     (let l = takeWhile (\<lambda>x. \<not> line_boundary x) (c # s); r = dropWhile (\<lambda>x. \<not> line_boundary x) (c # s) in
      case r of
        [] \<Rightarrow> [l]
      | b # r' \<Rightarrow> l # splitlines (if b = CHR 0x0D \<and> take 1 r' = [CHR 0x0A] then tl r' else r'))"
  by pat_completeness auto
termination
proof (relation "measure length")
  fix c s and l r b r' :: string and x
  assume "r = dropWhile (\<lambda>x. \<not> line_boundary x) (c # s)" "r = x # r'"
  then have "Suc (length r') \<le> length (c # s)" by (metis length_Cons length_dropWhile_le)
  then show "(if x = CHR 0x0D \<and> take 1 r' = [CHR 0x0A] then tl r' else r', c # s) \<in> measure length" by auto
qed simp

text \<open>\<open>DWLINE\<close> on a line without the CR before it: the address and the words.\<close>

definition DWLINE :: "string \<Rightarrow> (string \<times> string list) option" where
  "DWLINE s =
     (case take_hex8 s of
        None \<Rightarrow> None
      | Some (a, r) \<Rightarrow>
          (if prefix [colon] r then
             (let (ws, t) = tab_words (length r) (tl r)
              in if ws \<noteq> [] \<and> list_all py_space t then Some (a, ws) else None)
           else None))"

text \<open>The dictionary of the words by address.\<close>

type_synonym readings = "(int \<times> int) list"

fun put_words :: "int \<Rightarrow> string list \<Rightarrow> readings \<Rightarrow> rb_end + readings" where
  "put_words a [] m = Inr m"
| "put_words a (t # ts) m =
     (let v = int (hex_num t) in
      case map_of m a of
        None \<Rightarrow> put_words (a + 4) ts ((a, v) # m)
      | Some w \<Rightarrow> if w \<noteq> v then Inl (Refused (Read_twice a w v)) else put_words (a + 4) ts m)"

fun word_lines :: "string list \<Rightarrow> readings \<Rightarrow> rb_end + readings" where
  "word_lines [] m = Inr m"
| "word_lines (raw # ls) m =
     (case DWLINE (dropWhile (\<lambda>c. c = CHR 0x0D) raw) of
        None \<Rightarrow> word_lines ls m
      | Some (a, ws) \<Rightarrow> sbind (put_words (int (hex_num a)) ws m) (word_lines ls))"

definition parse_words :: "string \<Rightarrow> rb_end + readings" where
  "parse_words text = sbind (word_lines (splitlines text) []) (\<lambda>m. if m = [] then Inl (Refused No_reply) else Inr m)"

text \<open>The words of the block, from index \<open>i\<close> on.\<close>

fun block_from :: "readings \<Rightarrow> int \<Rightarrow> nat \<Rightarrow> nat \<Rightarrow> rb_end + int list" where
  "block_from m base i 0 = Inr []"
| "block_from m base i (Suc k) =
     (case map_of m (base + 4 * int i) of
        None \<Rightarrow> Inl (Refused (Missing_word i (base + 4 * int i)))
      | Some w \<Rightarrow> sbind (block_from m base (Suc i) k) (\<lambda>ws. Inr (w # ws)))"

definition block :: "readings \<Rightarrow> int \<Rightarrow> int \<Rightarrow> rb_end + int list" where
  "block m base count = block_from m base 0 (nat count)"

definition margin :: "readings \<Rightarrow> int \<Rightarrow> int \<Rightarrow> int \<Rightarrow> (int \<times> int \<times> int) list" where
  "margin m base count poison_words =
     List.map_filter (\<lambda>i. map_option (\<lambda>v. (i, base + 4 * i, v)) (map_of m (base + 4 * i))) [count..poison_words - 1]"

subsection \<open>What can fail\<close>

datatype rb_fail =
    Magic_differs int int
  | No_ladder int
  | Not_sealed int stage
  | Seal_is_poison
  | Sum_differs int int
  | Uart_differs int int
  | F_mixed nat
  | F_unwritten nat
  | F_zero nat
  | F_faults int
  | F_dead int
  | F_unrepeatable int int
  | F_faster int int
  | Kept_too_many int int
  | Fresh_differs nat int
  | Fresh_too_many nat int
  | Passes_differ nat nat
  | Margin_written int int int

definition word_at :: "int list \<Rightarrow> int \<Rightarrow> rb_end + int" where
  "word_at b i = (if 0 \<le> i \<and> i < int (length b) then Inr (b ! nat i) else Inl Index_error)"

definition resum :: "int list \<Rightarrow> int" where
  "resum ws = foldl (\<lambda>naive w. (naive + w) AND MASK) 0 ws"

text \<open>The magic, the progress word and the sums: the part every payload has.\<close>

definition seal_fails :: "int list \<Rightarrow> int option \<Rightarrow> int \<Rightarrow> int option \<Rightarrow> rb_end + rb_fail list" where
  "seal_fails b uart_sum seal_kind expect_magic =
     sbind (word_at b 0) (\<lambda>magic. sbind (word_at b 1) (\<lambda>nonce. sbind (word_at b 2) (\<lambda>prog.
     sbind (word_at b (int (length b) - 1)) (\<lambda>seal.
       let wrong = (case expect_magic of None \<Rightarrow> [] | Some e \<Rightarrow> if magic \<noteq> e then [Magic_differs magic e] else []);
           (stopped, restamp) = (case ladder_of magic of
              None \<Rightarrow> ([No_ladder magic], 0x10)
            | Some (names, sealed, restamp) \<Rightarrow> (if prog \<noteq> sealed then [Not_sealed prog (stage_name names prog)] else [], restamp));
           naive = resum (butlast b);
           corrected = (if seal_kind = 1 then (naive - restamp) AND MASK else naive);
           sums = (if seal = POISON then [Seal_is_poison] else if corrected \<noteq> seal then [Sum_differs corrected seal] else []);
           uart = (case uart_sum of None \<Rightarrow> [] | Some u \<Rightarrow> if u \<noteq> seal then [Uart_differs u seal] else [])
       in Inr (wrong @ stopped @ sums @ uart)))))"

subsection \<open>Group F\<close>

definition PROBE3 :: int where "PROBE3 = 0x524C5833"

text \<open>The timing legs by their slots: win.seq, win.str, boot.seq, boot.str, dram.seq, dram.str, win.seq2.\<close>

definition F_LEGS :: "nat list" where "F_LEGS = [195, 196, 197, 198, 199, 200, 201]"

text \<open>\<open>g\<close> are the result words 194 to 204 of the block.\<close>

definition group_f :: "(nat \<Rightarrow> int) \<Rightarrow> rb_fail list" where
  "group_f g =
     (let npois = length (filter (\<lambda>k. g k = POISON) F_LEGS);
          legs = (if npois = length F_LEGS then [] else F_LEGS);
          mixed = (if npois \<noteq> length F_LEGS \<and> npois \<noteq> 0 then [F_mixed npois] else []);
          dead = concat (map (\<lambda>k. if g k = 0xFFFFFFFF then [F_unwritten k] else if g k = 0 then [F_zero k] else []) legs);
          faults = (if g 204 \<noteq> 0 then [F_faults (g 204)] else []);
          live = (if drop_bit 8 (g 203) AND 0xFF = 0 \<or> g 203 AND 0xFF = 0 then [F_dead (g 203)] else []);
          s1 = g 195; s2 = g 201;
          repeat' = (if s1 \<notin> {0, 0xFFFFFFFF} \<and> s2 \<notin> {0, 0xFFFFFFFF} \<and> \<bar>s2 - s1\<bar> * 10 > s1 then [F_unrepeatable s1 s2] else []);
          faster = (if 0 < g 200 \<and> g 200 \<noteq> 0xFFFFFFFF \<and> 0 < g 196 \<and> g 196 < g 200 then [F_faster (g 196) (g 200)] else [])
      in mixed @ dead @ faults @ live @ repeat' @ faster)"

definition f_fails :: "int list \<Rightarrow> rb_end + rb_fail list" where
  "f_fails b =
     sbind (word_at b 40) (\<lambda>o_res. sbind (word_at b 41) (\<lambda>o_rows.
       if (if o_rows > o_res then o_rows - o_res else 0) < 205 then Inr []
       else sbind (traverse (\<lambda>v. word_at b (o_res + int v)) [194..<205]) (\<lambda>ws. Inr (group_f (\<lambda>k. ws ! (k - 194))))))"

subsection \<open>The bitmap\<close>

definition nibbles_of :: "int list \<Rightarrow> nat \<Rightarrow> nat \<Rightarrow> int list" where
  "nibbles_of b lo hi =
     concat (map (\<lambda>w. map (\<lambda>sh. drop_bit sh (b ! w) AND 0xF) [28, 24, 20, 16, 12, 8, 4, 0]) [lo..<min hi (length b)])"

text \<open>The victims of the first \<open>kept\<close> that read fresh.\<close>

definition fresh_positions :: "int list \<Rightarrow> nat \<Rightarrow> nat \<Rightarrow> nat \<Rightarrow> nat list" where
  "fresh_positions b lo hi kept =
     (let ns = take kept (nibbles_of b lo hi) in filter (\<lambda>k. ns ! k = 2) [0..<length ns])"

definition fresh_count :: "int list \<Rightarrow> nat \<Rightarrow> nat \<Rightarrow> nat \<Rightarrow> nat" where
  "fresh_count b lo hi kept = length (filter (\<lambda>n. n = 2) (take kept (nibbles_of b lo hi)))"

datatype pairing = Not_parsed | One_region | No_verdict | Pure_pairing | All_singletons | Mixed

definition pairing_of :: "nat list \<Rightarrow> nat \<Rightarrow> pairing" where
  "pairing_of pos kept =
     (let period = kept div 2 in
      if period = 0 \<or> pos = [] \<or> length pos = kept then No_verdict
      else let pairs = filter (\<lambda>k. k < period \<and> k + period \<in> set pos) pos;
               alone = filter (\<lambda>k. k < period \<and> k + period \<notin> set pos \<or> k \<ge> period \<and> k - period \<notin> set pos) pos
           in if length pairs * 2 = length pos \<and> alone = [] then Pure_pairing
              else if pairs = [] then All_singletons else Mixed)"

definition kept_fails :: "nat \<Rightarrow> int \<Rightarrow> int \<Rightarrow> int \<Rightarrow> nat \<Rightarrow> rb_fail list" where
  "kept_fails got kept adv said n_pos =
     (if kept > adv then [Kept_too_many kept adv]
      else if kept = adv \<and> int got \<noteq> said then [Fresh_differs got said]
      else if kept < adv \<and> int got > said then [Fresh_too_many got said] else [])
     @ (if n_pos \<noteq> got then [Passes_differ n_pos got] else [])"

definition bitmap_fails :: "int list \<Rightarrow> rb_end + (rb_fail list \<times> pairing)" where
  "bitmap_fails b =
     sbind (word_at b 42) (\<lambda>o_bmp. sbind (word_at b 53) (\<lambda>o_bmpk. sbind (word_at b 43) (\<lambda>o_seal.
     sbind (word_at b 23) (\<lambda>adv.
       if \<not> (0 < o_bmp \<and> o_bmp < o_seal \<and> o_seal \<le> int (length b)) then Inr ([], Not_parsed)
       else if o_bmpk = POISON \<or> \<not> (o_bmp < o_bmpk \<and> o_bmpk < o_seal) then Inr ([], One_region)
       else sbind (word_at b 52) (\<lambda>kept. sbind (word_at b 54) (\<lambda>said.
         let got = fresh_count b (nat o_bmpk) (nat o_seal) (nat kept);
             pos = fresh_positions b (nat o_bmpk) (nat o_seal) (nat kept)
         in Inr (kept_fails got kept adv said (length pos), pairing_of pos (nat kept))))))))"

subsection \<open>The block\<close>

text \<open>What failed, in the order of the code, and the verdict of the bitmap that is printed.\<close>

definition check_block :: "readings \<Rightarrow> int \<Rightarrow> int \<Rightarrow> int option \<Rightarrow> int \<Rightarrow> int option \<Rightarrow> int option \<Rightarrow> rb_end + (rb_fail list \<times> pairing)" where
  "check_block m base count uart_sum seal_kind poison_words expect_magic =
     (let poison_words = (case poison_words of None \<Rightarrow> count + 8 | Some p \<Rightarrow> p) in
      sbind (block m base count) (\<lambda>b.
      sbind (seal_fails b uart_sum seal_kind expect_magic) (\<lambda>fs.
      sbind (if hd b = PROBE3 \<and> count > 50 then f_fails b else Inr []) (\<lambda>gs.
      sbind (if hd b = PROBE3 \<and> count > 50 then bitmap_fails b else Inr ([], Not_parsed)) (\<lambda>(hs, p).
        Inr (fs @ gs @ hs @ map (\<lambda>(i, a, v). Margin_written i a v) (filter (\<lambda>(i, a, v). v \<noteq> POISON) (margin m base count poison_words)), p))))))"

subsection \<open>The console line\<close>

text \<open>\<open>UARTSUM\<close> at a position.\<close>

definition UARTSUM :: "string \<Rightarrow> ((string \<times> string) \<times> string) option" where
  "UARTSUM s =
     (case lit ''rlxprobe:'' s of
        None \<Rightarrow> None
      | Some r \<Rightarrow>
          let t = dropWhile py_space r in
          case (case lit ''sum='' t of Some u \<Rightarrow> Some (''sum'', u) | None \<Rightarrow> map_option (Pair ''seal'') (lit ''seal='' t)) of
            None \<Rightarrow> None
          | Some (key, u) \<Rightarrow>
              if length (take 8 u) = 8 \<and> list_all (\<lambda>c. is_digit c \<or> is_hex_lower c) (take 8 u)
              then Some ((key, take 8 u), drop 8 u) else None)"

definition read_uart_sum :: "string \<Rightarrow> rb_end + int option" where
  "read_uart_sum text =
     (case findall UARTSUM text of
        [] \<Rightarrow> Inr None
      | h # hs \<Rightarrow> if \<exists>x \<in> set hs. x \<noteq> h then Inl (Refused (Seal_lines (h # hs))) else Inr (Some (int (hex_num (snd h)))))"

subsection \<open>The command\<close>

record rb_args =
  rb_base :: "int option"
  rb_words :: "int option"
  rb_uart :: "string option"
  rb_seal_kind :: int
  rb_poison :: "int option"
  rb_magic :: "int option"

datatype rb_out = Usage | Controls_failed nat | Ended rb_end | Disagrees "rb_fail list" pairing | Agrees nat pairing

definition rb_number :: "string option \<Rightarrow> (int \<Rightarrow> rb_args) \<Rightarrow> rb_out + rb_args" where
  "rb_number v put =
     (case v of None \<Rightarrow> Inl Usage | Some t \<Rightarrow> (case int0 t of None \<Rightarrow> Inl (Ended Value_error) | Some n \<Rightarrow> Inr (put n)))"

definition rb_option :: "string \<Rightarrow> string option \<Rightarrow> rb_args \<Rightarrow> rb_out + rb_args" where
  "rb_option a v st =
     (if a = ''--base'' then rb_number v (\<lambda>n. st\<lparr>rb_base := Some n\<rparr>)
      else if a = ''--words'' then rb_number v (\<lambda>n. st\<lparr>rb_words := Some n\<rparr>)
      else if a = ''--uart'' then or_err Usage (map_option (\<lambda>t. st\<lparr>rb_uart := Some t\<rparr>) v)
      else if a = ''--seal-kind'' then rb_number v (\<lambda>n. st\<lparr>rb_seal_kind := n\<rparr>)
      else if a = ''--poison-words'' then rb_number v (\<lambda>n. st\<lparr>rb_poison := Some n\<rparr>)
      else if a = ''--expect-magic'' then rb_number v (\<lambda>n. st\<lparr>rb_magic := Some n\<rparr>)
      else Inl Usage)"

fun rb_options :: "string list \<Rightarrow> rb_args \<Rightarrow> rb_out + rb_args" where
  "rb_options [] st = Inr st"
| "rb_options [a] st = rb_option a None st"
| "rb_options (a # v # rest) st = sbind (rb_option a (Some v) st) (rb_options rest)"

definition rb_no_args :: rb_args where
  "rb_no_args = \<lparr>rb_base = None, rb_words = None, rb_uart = None, rb_seal_kind = 1, rb_poison = None, rb_magic = None\<rparr>"

definition file_text :: "(string \<Rightarrow> bytes option) \<Rightarrow> string \<Rightarrow> rb_end + string" where
  "file_text files p = or_err (Refused (No_such_file p)) (files p)"

definition rb_judge :: "(string \<Rightarrow> bytes option) \<Rightarrow> string \<Rightarrow> int \<Rightarrow> int \<Rightarrow> rb_args \<Rightarrow> rb_end + rb_out" where
  "rb_judge files p base count st =
     sbind (file_text files p) (\<lambda>text. sbind (parse_words text) (\<lambda>m.
     sbind (case rb_uart st of None \<Rightarrow> Inr None | Some u \<Rightarrow>
              if u = [] then Inr None else sbind (file_text files u) read_uart_sum) (\<lambda>usum.
     sbind (check_block m base count usum (rb_seal_kind st) (rb_poison st) (rb_magic st)) (\<lambda>(fails, pair).
       Inr (if fails \<noteq> [] then Disagrees fails pair else Agrees (if usum \<noteq> None then 3 else 2) pair)))))"

text \<open>\<open>controls\<close> is the status of the controls, which the self test returns.\<close>

definition rb_main :: "nat \<Rightarrow> (string \<Rightarrow> bytes option) \<Rightarrow> string list \<Rightarrow> rb_out" where
  "rb_main controls files argv =
     (case argv of
        [] \<Rightarrow> Usage
      | p # rest \<Rightarrow>
          if p = ''--self-test'' then Controls_failed controls
          else (case rb_options rest rb_no_args of
             Inl out \<Rightarrow> out
           | Inr st \<Rightarrow>
               (case (rb_base st, rb_words st) of
                  (Some base, Some count) \<Rightarrow>
                    if controls \<noteq> 0 then Controls_failed controls
                    else (case rb_judge files p base count st of Inl e \<Rightarrow> Ended e | Inr out \<Rightarrow> out)
                | _ \<Rightarrow> Usage)))"

text \<open>The exit status; an exception that nothing catches is 1.\<close>

fun rb_status :: "rb_out \<Rightarrow> nat" where
  "rb_status Usage = 2"
| "rb_status (Controls_failed rc) = rc"
| "rb_status (Ended (Refused _)) = 2"
| "rb_status (Ended Index_error) = 1"
| "rb_status (Ended Value_error) = 1"
| "rb_status (Disagrees _ _) = 1"
| "rb_status (Agrees _ _) = 0"

subsection \<open>Reading what the loader printed\<close>

abbreviation solid :: "string \<Rightarrow> bool" where
  "solid l \<equiv> list_all (\<lambda>c. \<not> line_boundary c) l"

lemma splitlines_line:
  assumes "solid l" "take 1 r \<noteq> [CHR 0x0A]"
  shows "splitlines (l @ nlcr @ r) = l # [] # splitlines r"
proof -
  have lf: "line_boundary (CHR 0x0A)" "line_boundary (CHR 0x0D)" by (simp_all add: line_boundary_def)
  have d: "takeWhile (\<lambda>x. \<not> line_boundary x) (l @ t) = l @ takeWhile (\<lambda>x. \<not> line_boundary x) t"
    "dropWhile (\<lambda>x. \<not> line_boundary x) (l @ t) = dropWhile (\<lambda>x. \<not> line_boundary x) t" for t
    using assms(1) by (simp_all add: list_all_iff takeWhile_append2 dropWhile_append2)
  have e: "splitlines (CHR 0x0D # r) = [] # splitlines r"
    using assms(2) lf by (cases r) simp_all
  obtain c t where c: "l @ nlcr @ r = c # t" by (cases "l @ nlcr @ r") auto
  have "splitlines (l @ nlcr @ r) = l # splitlines (CHR 0x0D # r)"
    using d [of "nlcr @ r"] lf unfolding c by simp
  then show ?thesis using e by simp
qed

lemma word_lines_skip: "DWLINE [] = None" "word_lines ([] # ls) = word_lines ls"
  by (simp_all add: DWLINE_def take_hex8_def fun_eq_iff)

lemma hex_solid: "is_hex c \<Longrightarrow> \<not> line_boundary c \<and> c \<noteq> CHR 0x0D"
  by (auto simp: is_hex_def is_hex_lower_def is_digit_def line_boundary_def)

lemma dw_body_read:
  assumes "length d = 16" "0 \<le> a" "a < 2 ^ 32"
  shows "solid (dw_body a d)" "dropWhile (\<lambda>c. c = CHR 0x0D) (dw_body a d) = dw_body a d"
    "DWLINE (dw_body a d) = Some (fmtX 8 a, dw_words d)"
proof -
  note w = dw_words_shape [OF assms(1)] and f = fmtX8 [OF assms(2,3)]
  have "\<not> line_boundary colon" "\<not> line_boundary tab" by (simp_all add: line_boundary_def)
  then show "solid (dw_body a d)" using w f hex_solid by (auto simp: dw_body_def list_all_iff)
  obtain c cs where "fmtX 8 a = c # cs" "is_hex c" using f by (cases "fmtX 8 a") auto
  then show "dropWhile (\<lambda>c. c = CHR 0x0D) (dw_body a d) = dw_body a d" using hex_solid by (simp add: dw_body_def)
  let ?t = "concat (map (\<lambda>w. tab # w) (dw_words d))"
  have "tab_words (Suc (length ?t)) (?t @ []) = (dw_words d, [])"
    by (rule tab_words_concat) (use w in \<open>auto simp: length_concat dw_words_def\<close>)
  then show "DWLINE (dw_body a d) = Some (fmtX 8 a, dw_words d)"
    using w f by (auto simp: DWLINE_def dw_body_def take_hex8_app)
qed

text \<open>The entries that a run of words adds to the dictionary.\<close>

fun laid :: "int \<Rightarrow> int list \<Rightarrow> readings" where
  "laid a [] = []"
| "laid a (v # vs) = laid (a + 4) vs @ [(a, v)]"

lemma laid_append: "laid a (us @ vs) = laid (a + 4 * int (length us)) vs @ laid a us"
  by (induction us arbitrary: a) (simp_all add: algebra_simps)

lemma map_of_laid:
  "map_of (laid a vs) k = (if a \<le> k \<and> k < a + 4 * int (length vs) \<and> 4 dvd k - a then Some (vs ! nat ((k - a) div 4)) else None)"
proof (induction vs arbitrary: a)
  case (Cons v vs)
  have "4 dvd k - a \<longleftrightarrow> 4 dvd k - (a + 4)" by presburger
  moreover have "nat ((k - a) div 4) = Suc (nat ((k - (a + 4)) div 4))" if "a + 4 \<le> k"
  proof -
    have "(k - a) div 4 = (k - (a + 4)) div 4 + 1" by presburger
    then show ?thesis using that by simp
  qed
  moreover have "a \<le> k \<and> k < a + 4 \<and> 4 dvd k - a \<longleftrightarrow> k = a" by presburger
  ultimately show ?case using Cons [of "a + 4"] by (auto simp: map_add_def split: option.splits)
qed simp

lemma map_of_laid_at: "i < length vs \<Longrightarrow> map_of (laid a vs) (a + 4 * int i) = Some (vs ! i)"
  by (simp add: map_of_laid)

lemma put_words_fresh:
  assumes "\<forall>i < length ts. map_of m (a + 4 * int i) = None"
  shows "put_words a ts m = Inr (laid a (map (\<lambda>t. int (hex_num t)) ts) @ m)"
  using assms
proof (induction ts arbitrary: a m)
  case (Cons t ts)
  let ?m = "(a, int (hex_num t)) # m"
  have "map_of m a = None" using spec [OF Cons.prems, of 0] by simp
  moreover have "map_of ?m (a + 4 + 4 * int i) = None" if "i < length ts" for i
    using spec [OF Cons.prems, of "Suc i"] that by (simp add: algebra_simps)
  ultimately show ?case using Cons.IH [of ?m "a + 4"] by simp
qed simp

text \<open>The bytes of a run of machine words, as the loader reads them.\<close>

definition bytes_of :: "32 word list \<Rightarrow> bytes" where
  "bytes_of ws = concat (map (\<lambda>w. be_bytes 4 (unat w)) ws)"

lemma bytes_of_simps [simp]: "bytes_of [] = []" "bytes_of (w # ws) = be_bytes 4 (unat w) @ bytes_of ws" "length (bytes_of ws) = 4 * length ws"
proof -
  show "length (bytes_of ws) = 4 * length ws" by (induction ws) (simp_all add: bytes_of_def)
qed (simp_all add: bytes_of_def)

lemma dw_words_of:
  "map (\<lambda>t. int (hex_num t)) (dw_words (bytes_of [a, b, c, d])) = map uint [a, b, c, d]"
proof -
  have v: "be_val (be_bytes 4 (unat w)) = unat w" for w :: "32 word"
  proof -
    have "unat w < 256 ^ 4" using unsigned_less [of w, where 'a = nat] by simp
    then show ?thesis by (simp add: be_val_be_bytes)
  qed
  have "slice (bytes_of [a, b, c, d]) 0 4 = be_bytes 4 (unat a)" "slice (bytes_of [a, b, c, d]) 4 8 = be_bytes 4 (unat b)"
    "slice (bytes_of [a, b, c, d]) 8 12 = be_bytes 4 (unat c)" "slice (bytes_of [a, b, c, d]) 12 16 = be_bytes 4 (unat d)"
    by (simp_all add: slice_def del: be_bytes.simps)
  then show ?thesis by (simp add: dw_words_def hex_num_fmtX v del: bytes_of_simps(2))
qed

lemma dw_lines_step: "length d = 16 \<Longrightarrow> dw_lines a (d @ r) = dw_line a d @ dw_lines (a + 16) r"
  by (cases d) simp_all

lemma dw_lines_head:
  assumes "0 \<le> a" "a + int (length d) \<le> 2 ^ 32" "take 1 r \<noteq> [CHR 0x0A]"
  shows "take 1 (dw_lines a d @ r) \<noteq> [CHR 0x0A]"
proof (cases d)
  case (Cons b bs)
  then have f: "length (fmtX 8 a) = 8" "\<forall>c \<in> set (fmtX 8 a). is_hex c" using fmtX8 [of a] assms by simp_all
  then obtain c cs where c: "fmtX 8 a = c # cs" "is_hex c" by (cases "fmtX 8 a") auto
  then have "c \<noteq> CHR 0x0A" using not_hex_char(1) by auto
  then show ?thesis using c by (simp add: Cons dw_line_def)
qed (use assms in simp)

lemma four_first: "length ws = 4 * Suc n \<Longrightarrow> \<exists>w x y z vs. ws = w # x # y # z # vs \<and> length vs = 4 * n"
proof -
  assume "length ws = 4 * Suc n"
  then have "length ws = Suc (Suc (Suc (Suc (4 * n))))" by simp
  then show ?thesis by (auto simp: length_Suc_conv)
qed

lemma word_lines_dw:
  assumes "length ws = 4 * n" "0 \<le> a" "a + 4 * int (length ws) \<le> 2 ^ 32" "take 1 r \<noteq> [CHR 0x0A]"
    and "\<forall>k. a \<le> k \<longrightarrow> map_of m k = None"
  shows "word_lines (splitlines (dw_lines a (bytes_of ws) @ r)) m = word_lines (splitlines r) (laid a (map uint ws) @ m)"
  using assms
proof (induction n arbitrary: ws a m)
  case (Suc n)
  then obtain w x y z vs where ws: "ws = [w, x, y, z] @ vs" "length vs = 4 * n" using four_first [OF Suc.prems(1)] by auto
  let ?d = "bytes_of [w, x, y, z]"
  have d: "length ?d = 16" by simp
  have a: "a < 2 ^ 32" using Suc.prems ws by simp
  have split: "bytes_of ws = ?d @ bytes_of vs" by (simp add: ws bytes_of_def)
  have "dw_lines a (bytes_of ws) = dw_line a ?d @ dw_lines (a + 16) (bytes_of vs)"
    unfolding split by (rule dw_lines_step [OF d])
  then have t: "dw_lines a (bytes_of ws) @ r = dw_body a ?d @ nlcr @ dw_lines (a + 16) (bytes_of vs) @ r"
    by (simp add: dw_line_body)
  note b = dw_body_read [OF d Suc.prems(2) a]
  have "take 1 (dw_lines (a + 16) (bytes_of vs) @ r) \<noteq> [CHR 0x0A]"
    by (rule dw_lines_head) (use Suc.prems ws in auto)
  from splitlines_line [OF b(1) this]
  have "word_lines (splitlines (dw_lines a (bytes_of ws) @ r)) m =
      sbind (put_words (int (hex_num (fmtX 8 a))) (dw_words ?d) m) (word_lines (splitlines (dw_lines (a + 16) (bytes_of vs) @ r)))"
    unfolding t by (simp only: word_lines.simps b(2,3) option.case prod.case word_lines_skip(2))
  also have "put_words (int (hex_num (fmtX 8 a))) (dw_words ?d) m = Inr (laid a (map uint [w, x, y, z]) @ m)"
    using put_words_fresh [of "dw_words ?d" m a] Suc.prems(2,5) dw_words_of [of w x y z]
    by (simp add: hex_num_fmtX del: bytes_of_simps)
  also have "sbind \<dots> (word_lines (splitlines (dw_lines (a + 16) (bytes_of vs) @ r))) =
      word_lines (splitlines r) (laid (a + 16) (map uint vs) @ laid a (map uint [w, x, y, z]) @ m)"
    using Suc.prems ws Suc.IH [of vs "a + 16" "laid a (map uint [w, x, y, z]) @ m"]
    by (simp add: map_of_laid)
  finally show ?case by (simp add: ws laid_append add.commute)
qed simp

lemma splitlines_solid: "solid l \<Longrightarrow> l \<noteq> [] \<Longrightarrow> splitlines l = [l]"
proof (cases l)
  case (Cons c cs)
  assume "solid l"
  then have "takeWhile (\<lambda>x. \<not> line_boundary x) l = l" "dropWhile (\<lambda>x. \<not> line_boundary x) l = []" by (simp_all add: list_all_iff)
  then show ?thesis unfolding Cons by simp
qed simp

lemma parse_rendered:
  assumes "length ws = 4 * n" "ws \<noteq> []" "0 \<le> base" "base + 4 * int (length ws) \<le> 2 ^ 32"
    and "render_dw base (bytes_of ws) (dw_cmd base (4 * int (length ws))) = Inr reply"
  shows "parse_words reply = Inr (laid base (map uint ws))"
proof -
  let ?c = "dw_cmd base (4 * int (length ws))"
  have b: "base < 2 ^ 32" using assms(2,4) by (cases ws) auto
  have reply: "reply = ?c @ nlcr @ dw_lines base (bytes_of ws) @ dw_prompt"
    using assms(5) by (simp add: render_dw_def split: if_splits)
  have h: "is_hex c \<or> c \<in> set ''DW ''" if "c \<in> set ?c" for c
    using that fmtX8(2) [OF assms(3) b] fmtd_digits [of "int (length ws)"] by (auto simp: dw_cmd_def dest: digit_hex)
  have "\<not> line_boundary c" if "c \<in> set ''DW ''" for c using that by (auto simp: line_boundary_def)
  then have c: "solid ?c" using h hex_solid by (auto simp: list_all_iff)
  have n: "DWLINE (dropWhile (\<lambda>c. c = CHR 0x0D) ?c) = None"
    by (simp add: dw_cmd_def DWLINE_def take_hex8_def is_hex_def is_hex_lower_def is_digit_def)
  have "take 1 (dw_lines base (bytes_of ws) @ dw_prompt) \<noteq> [CHR 0x0A]"
    by (rule dw_lines_head) (use assms in \<open>simp_all add: dw_prompt_def\<close>)
  from splitlines_line [OF c this] have s: "splitlines reply = ?c # [] # splitlines (dw_lines base (bytes_of ws) @ dw_prompt)"
    by (simp add: reply)
  have p: "splitlines dw_prompt = [dw_prompt]"
    by (rule splitlines_solid) (simp_all add: dw_prompt_def line_boundary_def)
  have q: "DWLINE (dropWhile (\<lambda>c. c = CHR 0x0D) dw_prompt) = None"
    by (simp add: dw_prompt_def DWLINE_def take_hex8_def is_hex_def is_hex_lower_def is_digit_def)
  have "word_lines (splitlines reply) [] = word_lines (splitlines dw_prompt) (laid base (map uint ws) @ [])"
    unfolding s word_lines.simps n option.case word_lines_skip(2)
    by (rule word_lines_dw [OF assms(1,3,4)]) (simp_all add: dw_prompt_def)
  then have w: "word_lines (splitlines reply) [] = Inr (laid base (map uint ws))" by (simp add: p q)
  have "laid base (map uint ws) \<noteq> []" using assms(2) by (cases ws) simp_all
  then show ?thesis by (simp add: parse_words_def w)
qed

lemma block_laid: "i + k \<le> length vs \<Longrightarrow> block_from (laid base vs) base i k = Inr (take k (drop i vs))"
proof (induction k arbitrary: i)
  case (Suc k)
  have "drop i vs = vs ! i # drop (Suc i) vs" using Suc.prems by (simp add: Cons_nth_drop_Suc)
  then show ?case using Suc.IH [of "Suc i"] Suc.prems map_of_laid_at [of i vs base] by simp
qed simp

subsection \<open>The sum\<close>

lemma and_MASK: "x AND MASK = x mod 2 ^ 32"
proof -
  have "mask 32 = MASK" by (simp add: MASK_def mask_eq_exp_minus_1)
  then show ?thesis by (metis take_bit_eq_mask take_bit_eq_mod)
qed

lemma resum_mod: "resum ws = sum_list ws mod 2 ^ 32"
proof -
  have "foldl (\<lambda>naive w. (naive + w) AND MASK) n ws = (n + sum_list ws) mod 2 ^ 32" if "n = n mod 2 ^ 32" for n
    using that
  proof (induction ws arbitrary: n)
    case (Cons w ws)
    then show ?case using Cons.IH [of "(n + w) mod 2 ^ 32"] by (simp add: and_MASK mod_simps add.assoc)
  qed simp
  from this [of 0] show ?thesis by (simp add: resum_def)
qed

lemma sum_uint: "sum_list (map uint ws) mod 2 ^ 32 = uint (sum_list ws :: 32 word)"
proof (induction ws)
  case (Cons w ws)
  then have "(uint w + sum_list (map uint ws)) mod 2 ^ 32 = (uint w + uint (sum_list ws)) mod 2 ^ 32" by (metis mod_add_right_eq)
  then show ?case by (simp add: uint_word_ariths)
qed simp

lemma sum_list_put: "k < length xs \<Longrightarrow> sum_list (xs[k := v]) = sum_list xs + v - (xs ! k :: 'a :: ab_group_add)"
  by (induction xs arbitrary: k) (auto split: nat.splits simp: algebra_simps)

text \<open>
  How a payload seals its block (\<open>tools/rlxprobe\<close>): the sum of the words before the last goes into the last, and only then
  is the progress word stamped again.
\<close>

definition seal_block :: "32 word \<Rightarrow> 32 word list \<Rightarrow> 32 word list" where
  "seal_block sealed b = (b[length b - 1 := sum_list (butlast b)])[2 := sealed]"

lemma seal_block_words:
  assumes "4 \<le> length b"
  shows "length (seal_block v b) = length b" "seal_block v b ! 2 = v" "seal_block v b ! 0 = b ! 0"
    "last (seal_block v b) = sum_list (butlast b)" "butlast (seal_block v b) = (butlast b)[2 := v]"
proof -
  show l: "length (seal_block v b) = length b" by (simp add: seal_block_def)
  then have ne: "seal_block v b \<noteq> []" using assms by auto
  show "seal_block v b ! 2 = v" "seal_block v b ! 0 = b ! 0" using assms by (simp_all add: seal_block_def)
  show "last (seal_block v b) = sum_list (butlast b)"
    using assms l ne by (simp add: last_conv_nth seal_block_def)
  show "butlast (seal_block v b) = (butlast b)[2 := v]"
  proof -
    have "length b - 1 \<noteq> 2" using assms by linarith
    then show ?thesis by (simp add: seal_block_def butlast_list_update)
  qed
qed

lemma ladder_magic:
  assumes "ladder_of magic = Some (names, sealed, restamp)"
  shows "(magic, sealed, restamp) \<in> {(0x524C5832, 0x90, 0x10), (0x524C5833, 0xC0, 0x10), (0x524C5834, 0xF1, 1), (0x524C5835, 0xF1, 1), (0x524C5836, 0xF1, 1)}"
proof -
  obtain names where n: "map_of PROGRESS magic = Some names" using assms by (auto simp: ladder_of_def split: option.splits)
  then have "magic \<in> fst ` set PROGRESS" by (metis domI dom_map_of_conv_image_fst)
  then have "magic \<in> {0x524C5832, 0x524C5833, 0x524C5834, 0x524C5835, 0x524C5836}" by (simp add: PROGRESS_def)
  then show ?thesis using assms by (elim insertE emptyE) (simp_all add: ladder_of_def PROGRESS_def stage_at_def)
qed

lemma word_at_nth: "i < length b \<Longrightarrow> word_at b (int i) = Inr (b ! i)"
  by (simp add: word_at_def)

lemma word_at_small: "4 \<le> length b \<Longrightarrow> word_at b 0 = Inr (b ! 0)" "4 \<le> length b \<Longrightarrow> word_at b 1 = Inr (b ! 1)" "4 \<le> length b \<Longrightarrow> word_at b 2 = Inr (b ! 2)"
    "4 \<le> length b \<Longrightarrow> word_at b (int (length b) - 1) = Inr (last b)"
proof -
  assume l: "4 \<le> length b"
  then have "b \<noteq> []" by auto
  with l show "word_at b 0 = Inr (b ! 0)" "word_at b 1 = Inr (b ! 1)" "word_at b 2 = Inr (b ! 2)"
    "word_at b (int (length b) - 1) = Inr (last b)"
    by (auto simp: word_at_def last_conv_nth nat_diff_distrib')
qed

lemma sealed_agrees:
  assumes "ladder_of (uint (b ! 0)) = Some (names, sealed, restamp)" "4 \<le> length b"
    and "b ! 2 = word_of_int (sealed - restamp)" "uint (sum_list (butlast b)) \<noteq> POISON"
  shows "seal_fails (map uint (seal_block (word_of_int sealed) b)) (Some (uint (sum_list (butlast b)))) 1 None = Inr []"
proof -
  let ?c = "seal_block (word_of_int sealed) b" and ?s = "sum_list (butlast b)"
  note w = seal_block_words [OF assms(2), of "word_of_int sealed"]
  have l: "4 \<le> length (map uint ?c)" using assms(2) w(1) by simp
  have sm: "uint (word_of_int sealed :: 32 word) = sealed" using ladder_magic [OF assms(1)] by auto
  have sr: "uint (word_of_int restamp :: 32 word) = restamp" using ladder_magic [OF assms(1)] by auto
  have two: "2 < length (butlast b)" "butlast b ! 2 = b ! 2" using assms(2) by (auto simp: nth_butlast)
  have ne: "?c \<noteq> []" using assms(2) w(1) by auto
  have "sum_list (butlast ?c) = ?s + word_of_int sealed - b ! 2"
    unfolding w(5) by (simp add: sum_list_put [OF two(1)] two(2))
  also have "\<dots> = ?s + word_of_int restamp" by (simp add: assms(3))
  finally have "resum (map uint (butlast ?c)) = (uint ?s + restamp) mod 2 ^ 32"
    unfolding resum_mod sum_uint by (simp add: uint_word_ariths sr)
  then have "(resum (butlast (map uint ?c)) - restamp) AND MASK = uint ?s"
    using sum_uint [of "[?s]"] by (simp add: and_MASK map_butlast mod_simps)
  moreover have "map uint ?c ! 0 = uint (b ! 0)" "map uint ?c ! 2 = sealed" "last (map uint ?c) = uint ?s"
    using l ne w(2-4) sm by (simp_all add: last_map)
  ultimately show ?thesis
    unfolding seal_fails_def word_at_small [OF l] sbind_simps by (simp add: assms(1,4) Let_def)
qed

lemma margin_poison:
  assumes "\<forall>v \<in> set (drop (nat count) vs). v = POISON" "0 \<le> count"
  shows "filter (\<lambda>(i, a, v). v \<noteq> POISON) (margin (laid base vs) base count p) = []"
proof -
  have "v = POISON" if "(i, a, v) \<in> set (margin (laid base vs) base count p)" for i a v
  proof -
    from that have i: "count \<le> i" "map_of (laid base vs) (base + 4 * i) = Some v"
      by (auto simp: margin_def List.map_filter_def)
    then have j: "nat i < length vs" "v = vs ! nat i" using assms(2) by (auto simp: map_of_laid split: if_splits)
    then have "v \<in> set (drop (nat count) vs)"
      using i(1) assms(2) nth_mem [of "nat i - nat count" "drop (nat count) vs"] by (simp add: nat_mono)
    with assms(1) show ?thesis by blast
  qed
  then show ?thesis by (auto simp: filter_empty_conv)
qed

text \<open>What a block is judged by besides its seal and the words after it: probe3's Group F and bitmap.\<close>

definition own_checks :: "int list \<Rightarrow> rb_end + (rb_fail list \<times> pairing)" where
  "own_checks bs =
     (if hd bs = PROBE3 \<and> 50 < length bs
      then sbind (f_fails bs) (\<lambda>gs. sbind (bitmap_fails bs) (\<lambda>(hs, p). Inr (gs @ hs, p)))
      else Inr ([], Not_parsed))"

lemma own_checks_other: "hd bs \<noteq> PROBE3 \<or> length bs \<le> 50 \<Longrightarrow> own_checks bs = Inr ([], Not_parsed)"
  by (auto simp: own_checks_def)

lemma check_block_own:
  assumes "block m base count = Inr bs" "count = int (length bs)" "seal_fails bs u k e = Inr []"
    and "filter (\<lambda>(i, a, v). v \<noteq> POISON) (margin m base count (count + 8)) = []"
  shows "check_block m base count u k None e = own_checks bs"
proof -
  have "(50 < count) = (50 < length bs)" using assms(2) by auto
  then show ?thesis
    unfolding check_block_def own_checks_def assms(1,3) Let_def option.case sbind_simps assms(4)
    by (cases "f_fails bs"; cases "bitmap_fails bs") auto
qed

lemma sealed_judged:
  assumes "ladder_of (uint (b ! 0)) = Some (names, sealed, restamp)" "4 \<le> length b"
    and "b ! 2 = word_of_int (sealed - restamp)" "uint (sum_list (butlast b)) \<noteq> POISON"
    and "ws = seal_block (word_of_int sealed) b @ replicate k (word_of_int POISON)" "4 dvd length ws"
    and "0 \<le> base" "base + 4 * int (length ws) \<le> 2 ^ 32"
    and "render_dw base (bytes_of ws) (dw_cmd base (4 * int (length ws))) = Inr reply"
    and "files p = Some reply" "files u = Some console" "u \<noteq> []"
    and "findall UARTSUM console = [(key, hexL 8 (unat (sum_list (butlast b))))]"
  shows "rb_judge files p base (int (length b)) (rb_no_args\<lparr>rb_uart := Some u\<rparr>) =
    (case own_checks (map uint (seal_block (word_of_int sealed) b)) of
       Inl e \<Rightarrow> Inl e
     | Inr (fs, pr) \<Rightarrow> Inr (if fs = [] then Agrees 3 pr else Disagrees fs pr))"
proof -
  note w = seal_block_words [OF assms(2), of "word_of_int sealed"]
  let ?vs = "map uint ws" and ?b = "map uint (seal_block (word_of_int sealed) b)"
  obtain n where n: "length ws = 4 * n" using assms(6) by auto
  have ne: "ws \<noteq> []" using assms(2,5) w(1) by auto
  note parsed = parse_rendered [OF n ne assms(7-9)]
  have uart: "read_uart_sum console = Inr (Some (uint (sum_list (butlast b))))"
    using assms(13) by (simp add: read_uart_sum_def hex_num_hexL)
  have take: "take (length b) ?vs = ?b" using w(1) by (simp add: assms(5))
  have block: "block (laid base ?vs) base (int (length b)) = Inr ?b"
    using block_laid [of 0 "length b" ?vs base] w(1) take by (simp add: block_def assms(5))
  have "uint (word_of_int POISON :: 32 word) = POISON" by (simp add: POISON_def)
  then have "\<forall>v \<in> set (drop (nat (int (length b))) ?vs). v = POISON" using w(1) by (auto simp: assms(5))
  then have m: "filter (\<lambda>(i, a, v). v \<noteq> POISON) (margin (laid base ?vs) base (int (length b)) q) = []" for q
    by (rule margin_poison) simp
  have "check_block (laid base ?vs) base (int (length b)) (Some (uint (sum_list (butlast b)))) 1 None None = own_checks ?b"
    by (rule check_block_own [OF block _ sealed_agrees [OF assms(1-4)] m]) (simp add: w(1))
  then show ?thesis
    using parsed uart assms(10-12) by (cases "own_checks ?b") (auto simp: rb_judge_def file_text_def rb_no_args_def)
qed

lemma sealed_hd:
  assumes "4 \<le> length b"
  shows "hd (map uint (seal_block v b)) = uint (b ! 0)" "length (map uint (seal_block v b)) = length b"
  using seal_block_words(1,3) [OF assms, of v] assms by (cases "seal_block v b"; auto)+

text \<open>
  C36. A sealed block is judged by its contents alone: where a payload with a ladder wrote its words, sealed them at the stage
  before the last and stamped the last stage, the loader's \<open>DW\<close> reply for the block and the poison after it, as
  \<open>flashwin.py\<close> renders it, together with a console that holds the seal once, fails none of the checks of the seal, the
  channels and the margin.  Every payload but probe3 is then accepted on all three channels; a block of probe3 of more
  than 50 words is besides judged by its Group F and bitmap words (\<open>own_checks\<close>), and by nothing else.
\<close>
theorem sealed_block_agrees:
  assumes "ladder_of (uint (b ! 0)) = Some (names, sealed, restamp)" "4 \<le> length b"
    and "b ! 2 = word_of_int (sealed - restamp)" "uint (sum_list (butlast b)) \<noteq> POISON"
    and "ws = seal_block (word_of_int sealed) b @ replicate k (word_of_int POISON)" "4 dvd length ws"
    and "0 \<le> base" "base + 4 * int (length ws) \<le> 2 ^ 32"
    and "render_dw base (bytes_of ws) (dw_cmd base (4 * int (length ws))) = Inr reply"
    and "files p = Some reply" "files u = Some console" "u \<noteq> []"
    and "findall UARTSUM console = [(key, hexL 8 (unat (sum_list (butlast b))))]"
  shows "rb_judge files p base (int (length b)) (rb_no_args\<lparr>rb_uart := Some u\<rparr>) =
    (case own_checks (map uint (seal_block (word_of_int sealed) b)) of
       Inl e \<Rightarrow> Inl e
     | Inr (fs, pr) \<Rightarrow> Inr (if fs = [] then Agrees 3 pr else Disagrees fs pr))
    \<and> (uint (b ! 0) \<noteq> PROBE3 \<or> length b \<le> 50 \<longrightarrow>
        rb_judge files p base (int (length b)) (rb_no_args\<lparr>rb_uart := Some u\<rparr>) = Inr (Agrees 3 Not_parsed))"
proof -
  let ?b = "map uint (seal_block (word_of_int sealed) b)"
  have "own_checks ?b = Inr ([], Not_parsed)" if "uint (b ! 0) \<noteq> PROBE3 \<or> length b \<le> 50"
    by (rule own_checks_other) (use that sealed_hd [OF assms(2)] in simp)
  then show ?thesis using sealed_judged [OF assms] by simp
qed

subsection \<open>What an agreement excludes\<close>

lemma seal_ok:
  assumes "seal_fails b u k e = Inr []"
  shows "\<exists>names sealed restamp. 3 \<le> length b \<and> ladder_of (b ! 0) = Some (names, sealed, restamp) \<and> b ! 2 = sealed
    \<and> last b = (if k = 1 then sum_list (butlast b) - restamp else sum_list (butlast b)) mod 2 ^ 32"
proof -
  have l: "3 \<le> length b" using assms by (auto simp: seal_fails_def sbind_Inr word_at_def split: if_splits)
  then have "b \<noteq> []" by auto
  with l have w: "word_at b 0 = Inr (b ! 0)" "word_at b 1 = Inr (b ! 1)" "word_at b 2 = Inr (b ! 2)"
    "word_at b (int (length b) - 1) = Inr (last b)"
    by (auto simp: word_at_def last_conv_nth nat_diff_distrib')
  have "(if k = 1 then (resum (butlast b) - r) AND MASK else resum (butlast b))
      = (if k = 1 then sum_list (butlast b) - r else sum_list (butlast b)) mod 2 ^ 32" for r
    by (simp add: resum_mod and_MASK mod_simps)
  then show ?thesis
    using assms l unfolding seal_fails_def w sbind_simps Let_def
    by (auto split: option.splits if_splits prod.splits)
qed

lemma tab_words_hex:
  "tab_words k s = (ws, t) \<Longrightarrow> w \<in> set ws \<Longrightarrow> length w = 8 \<and> list_all is_hex w"
proof (induction k arbitrary: s ws)
  case (Suc k)
  show ?case
  proof (cases "\<exists>r v r'. s = tab # r \<and> take_hex8 r = Some (v, r')")
    case True
    then obtain r v r' where r: "s = tab # r" "take_hex8 r = Some (v, r')" by blast
    obtain us u where u: "tab_words k r' = (us, u)" by fastforce
    then have "ws = v # us" "t = u" using Suc.prems(1) r by simp_all
    moreover have "length v = 8 \<and> list_all is_hex v" using r(2) by (auto simp: take_hex8_def split: if_splits)
    ultimately show ?thesis using Suc.IH [of r' us] u Suc.prems(2) by auto
  next
    case False
    then have "ws = []" using Suc.prems(1) by (auto split: list.splits if_splits option.splits)
    then show ?thesis using Suc.prems(2) by simp
  qed
qed simp

lemma hex_num_range:
  assumes "list_all is_hex w"
  shows "hex_num w < 16 ^ length w"
proof -
  have "of_base 16 (map hex_val w) < 16 ^ length w" using assms
  proof (induction w rule: rev_induct)
    case (snoc c w)
    then have "hex_val c < 16" "of_base 16 (map hex_val w) + 1 \<le> 16 ^ length w" using hex_val_less [of c] by auto
    then show ?case by simp
  qed (simp add: of_base_def)
  then show ?thesis by (simp add: hex_num_def)
qed

abbreviation words_ok :: "readings \<Rightarrow> bool" where
  "words_ok m \<equiv> \<forall>v \<in> snd ` set m. 0 \<le> v \<and> v < 2 ^ 32"

lemma put_words_range:
  "put_words a ts m = Inr m' \<Longrightarrow> \<forall>t \<in> set ts. hex_num t < 16 ^ 8 \<Longrightarrow> words_ok m \<Longrightarrow> words_ok m'"
proof (induction ts arbitrary: a m)
  case (Cons t ts)
  have "words_ok ((a, int (hex_num t)) # m)" using Cons.prems(2,3) by (auto simp: nat_less_iff)
  moreover obtain m1 where m1: "put_words (a + 4) ts m1 = Inr m'" "m1 = m \<or> m1 = (a, int (hex_num t)) # m"
    using Cons.prems(1) by (auto simp: Let_def split: option.splits if_splits)
  ultimately have "words_ok m1" using Cons.prems(3) by (elim disjE) simp_all
  with Cons.IH [OF m1(1)] Cons.prems(2) show ?case by simp
qed simp

lemma word_lines_range: "word_lines ls m0 = Inr m' \<Longrightarrow> words_ok m0 \<Longrightarrow> words_ok m'"
proof (induction ls m0 rule: word_lines.induct)
  case (2 raw ls m0)
  show ?case
  proof (cases "DWLINE (dropWhile (\<lambda>c. c = CHR 0x0D) raw)")
    case None
    with 2 show ?thesis by simp
  next
    case (Some e)
    obtain x ws where e: "e = (x, ws)" by fastforce
    then have "\<forall>t \<in> set ws. length t = 8 \<and> list_all is_hex t"
      using Some by (auto simp: DWLINE_def dest: tab_words_hex split: option.splits if_splits prod.splits)
    then have h: "\<forall>t \<in> set ws. hex_num t < 16 ^ 8" using hex_num_range by metis
    obtain m1 where m1: "put_words (int (hex_num x)) ws m0 = Inr m1" "word_lines ls m1 = Inr m'"
      using 2(3) Some e by (auto simp: sbind_Inr)
    show ?thesis by (rule 2(2) [OF Some e [symmetric] m1(2) put_words_range [OF m1(1) h 2(4)]])
  qed
qed simp

lemma parse_words_range:
  assumes "parse_words text = Inr m" "map_of m a = Some v"
  shows "0 \<le> v \<and> v < 2 ^ 32"
proof -
  have "word_lines (splitlines text) [] = Inr m" using assms(1) by (auto simp: parse_words_def sbind_Inr split: if_splits)
  then have "words_ok m" by (rule word_lines_range) simp
  moreover have "v \<in> snd ` set m" using map_of_SomeD [OF assms(2)] by force
  ultimately show ?thesis by blast
qed

lemma block_from_words:
  "block_from m base i k = Inr b \<Longrightarrow> length b = k \<and> (\<forall>j < k. map_of m (base + 4 * int (i + j)) = Some (b ! j))"
proof (induction k arbitrary: i b)
  case (Suc k)
  then obtain w ws where b: "b = w # ws" "map_of m (base + 4 * int i) = Some w" "block_from m base (Suc i) k = Inr ws"
    by (auto simp: sbind_Inr split: option.splits)
  from Suc.IH [OF b(3)] have "length ws = k" "\<forall>j < k. map_of m (base + 4 * int (Suc i + j)) = Some (ws ! j)" by blast+
  then show ?case using b(1,2) by (auto simp: nth_Cons algebra_simps split: nat.splits)
qed simp

lemma judged_block:
  assumes "rb_judge files p base count st = Inr (Agrees x pr)" "files p = Some t" "parse_words t = Inr m"
  shows "\<exists>b u. block_from m base 0 (nat count) = Inr b \<and> seal_fails b u (rb_seal_kind st) (rb_magic st) = Inr []"
  using assms by (auto simp: rb_judge_def file_text_def sbind_Inr check_block_def block_def Let_def split: if_splits)

lemma near_equal: "0 \<le> v \<Longrightarrow> v < 2 ^ 32 \<Longrightarrow> 0 \<le> w \<Longrightarrow> w < 2 ^ 32 \<Longrightarrow> (2 ^ 32 :: int) dvd v - w \<Longrightarrow> v = w"
proof -
  assume r: "0 \<le> v" "v < 2 ^ 32" "0 \<le> w" "w < 2 ^ 32" and d: "(2 ^ 32 :: int) dvd v - w"
  then have "v mod 2 ^ 32 = w mod 2 ^ 32" by (simp only: mod_eq_dvd_iff)
  then show ?thesis unfolding mod_pos_pos_trivial [OF r(1,2)] mod_pos_pos_trivial [OF r(3,4)] .
qed

lemma restamps_apart:
  assumes "ladder_of v = Some (x, s, r)" "ladder_of w = Some (x', s', r')" "(2 ^ 32 :: int) dvd (v - w) - (r - r') \<or> (2 ^ 32 :: int) dvd v - w"
  shows "v = w"
  using ladder_magic [OF assms(1)] ladder_magic [OF assms(2)] assms(3)
  by (elim insertE emptyE) simp_all

lemma agreed_same:
  assumes "seal_fails b u k e = Inr []" "seal_fails c u' k e' = Inr []" "length c = length b" "i < length b"
    and "\<forall>j < length b. j \<noteq> i \<longrightarrow> b ! j = c ! j"
    and "0 \<le> b ! i" "b ! i < 2 ^ 32" "0 \<le> c ! i" "c ! i < 2 ^ 32"
  shows "b ! i = c ! i"
proof -
  obtain x s r where b: "3 \<le> length b" "ladder_of (b ! 0) = Some (x, s, r)"
      "last b = (if k = 1 then sum_list (butlast b) - r else sum_list (butlast b)) mod 2 ^ 32"
    using seal_ok [OF assms(1)] by blast
  obtain x' s' r' where c: "ladder_of (c ! 0) = Some (x', s', r')"
      "last c = (if k = 1 then sum_list (butlast c) - r' else sum_list (butlast c)) mod 2 ^ 32"
    using seal_ok [OF assms(2)] by blast
  have c_put: "c = b[i := c ! i]"
  proof (rule nth_equalityI)
    show "c ! j = b[i := c ! i] ! j" if "j < length c" for j
      using assms(3-5) that by (cases "j = i") simp_all
  qed (use assms(3) in simp)
  have ne: "b \<noteq> []" "c \<noteq> []" using b(1) assms(3) by auto
  have l: "last b = b ! (length b - 1)" "last c = c ! (length b - 1)" using ne assms(3) by (simp_all add: last_conv_nth)
  show ?thesis
  proof (cases "i = length b - 1")
    case True
    then have "butlast c = butlast b" by (subst c_put) (simp add: butlast_list_update)
    moreover have "c ! 0 = b ! 0" using assms(4,5) b(1) True by (auto simp: dest: spec [of _ 0])
    ultimately have "last b = last c" using b(2,3) c by simp
    then show ?thesis using l True by simp
  next
    case False
    then have i: "i < length (butlast b)" using assms(4) by simp
    have "butlast c = (butlast b)[i := c ! i]" using False by (subst c_put) (simp add: butlast_list_update)
    then have "sum_list (butlast c) = sum_list (butlast b) + c ! i - butlast b ! i" by (simp add: sum_list_put [OF i])
    then have sum: "sum_list (butlast b) = sum_list (butlast c) + (b ! i - c ! i)" using i by (simp add: nth_butlast)
    have "last b = last c" using l assms(4,5) False b(1) by (auto simp: dest: spec [of _ "length b - 1"])
    then have d: "(2 ^ 32 :: int) dvd (if k = 1 then (b ! i - c ! i) - (r - r') else b ! i - c ! i)"
      unfolding b(3) c(2) sum by (auto simp: mod_eq_dvd_iff algebra_simps)
    show ?thesis
    proof (cases "i = 0")
      case True
      then show ?thesis using restamps_apart [OF b(2) c(1)] d by (auto split: if_splits)
    next
      case False
      then have "b ! 0 = c ! 0" using assms(4,5) by (auto simp: dest: spec [of _ 0])
      then have "r = r'" using b(2) c(1) by simp
      then show ?thesis using near_equal [OF assms(6-9)] d by (auto split: if_splits)
    qed
  qed
qed

text \<open>
  C37. No single wrong word passes: two captures that are both accepted for one block hold the same block, or differ in at
  least two of its words; the seal counts as a word, and the word may be the magic that selects the correction.
\<close>
theorem one_word_seen:
  assumes "rb_judge files p base count st = Inr (Agrees x pr)" "rb_judge files q base count st = Inr (Agrees y qr)"
    and "files p = Some t" "files q = Some t'" "parse_words t = Inr m" "parse_words t' = Inr m'"
    and "i < nat count" "\<forall>j < nat count. j \<noteq> i \<longrightarrow> map_of m (base + 4 * int j) = map_of m' (base + 4 * int j)"
  shows "map_of m (base + 4 * int i) = map_of m' (base + 4 * int i)"
proof -
  obtain b u where b: "block_from m base 0 (nat count) = Inr b" "seal_fails b u (rb_seal_kind st) (rb_magic st) = Inr []"
    using judged_block [OF assms(1,3,5)] by blast
  obtain c u' where c: "block_from m' base 0 (nat count) = Inr c" "seal_fails c u' (rb_seal_kind st) (rb_magic st) = Inr []"
    using judged_block [OF assms(2,4,6)] by blast
  have wb: "length b = nat count" "map_of m (base + 4 * int j) = Some (b ! j)" if "j < nat count" for j
    using block_from_words [OF b(1)] that by simp_all
  have wc: "length c = nat count" "map_of m' (base + 4 * int j) = Some (c ! j)" if "j < nat count" for j
    using block_from_words [OF c(1)] that by simp_all
  have "b ! i = c ! i"
    by (rule agreed_same [OF b(2) c(2)])
      (use wb wc assms(7,8) parse_words_range [OF assms(5) wb(2) [OF assms(7)]] parse_words_range [OF assms(6) wc(2) [OF assms(7)]]
        in auto)
  then show ?thesis using wb(2) wc(2) assms(7) by simp
qed

subsection \<open>A block that ends the command\<close>

text \<open>
  The bitmap is read where the block has more than fifty words, but its layout words are the fifty-third to the
  fifty-fifth: a block of 51 to 53 words with that magic ends in an exception that nothing catches.
\<close>

lemma short_block_uncaught:
  assumes "block m base count = Inr b" "hd b = PROBE3" "50 < count" "count \<le> 53"
  shows "\<exists>ex. check_block m base count u k q e = Inl ex" "bitmap_fails b = Inl Index_error"
proof -
  have "length b = nat count" using block_from_words assms(1) unfolding block_def by blast
  then have l: "50 < length b" "length b \<le> 53" using assms(3,4) by linarith+
  then show x: "bitmap_fails b = Inl Index_error" by (simp add: bitmap_fails_def word_at_def)
  show "\<exists>ex. check_block m base count u k q e = Inl ex"
    using assms(1-3) x by (cases "seal_fails b u k e"; cases "f_fails b") (simp_all add: check_block_def)
qed

subsection \<open>Instances\<close>

definition sample_block :: "32 word list" where
  "sample_block = [0x524C5832, 7, 0x80, 0]"

definition sample_console :: string where
  "sample_console = ''rlxprobe: sum=524c58b9''"

lemma sample_ladder: "ladder_of (uint (sample_block ! 0)) = Some (snd (PROGRESS ! 0), 0x90, 0x10)"
  by (simp add: sample_block_def ladder_of_def PROGRESS_def stage_at_def)

lemma sample_sum: "sum_list (butlast sample_block) = 0x524C58B9" "hexL 8 (unat (sum_list (butlast sample_block))) = ''524c58b9''"
proof -
  show s: "sum_list (butlast sample_block) = 0x524C58B9" by (simp add: sample_block_def)
  show "hexL 8 (unat (sum_list (butlast sample_block))) = ''524c58b9''"
    by (simp add: s hexL_def pad0_def hex_char_lower_def to_base.simps text_simps)
qed

lemma sample_line: "findall UARTSUM sample_console = [(''sum'', ''524c58b9'')]"
  by code_simp

lemma sample_render:
  "length ws = 4 \<Longrightarrow> \<exists>reply. render_dw 0 (bytes_of ws) (dw_cmd 0 16) = Inr reply \<and> parse_words reply = Inr (laid 0 (map uint ws))"
proof -
  assume l: "length ws = 4"
  have "is_ascii (dw_cmd 0 16)" by (rule dw_cmd_ascii) simp_all
  then obtain reply where r: "render_dw 0 (bytes_of ws) (dw_cmd 0 16) = Inr reply" using l by (simp add: render_dw_def)
  moreover have "parse_words reply = Inr (laid 0 (map uint ws))"
    by (rule parse_rendered [of ws 1]) (use l r in auto)
  ultimately show ?thesis by blast
qed

definition sample_sealed :: "32 word list" where
  "sample_sealed = [0x524C5832, 7, 0x90, 0x524C58B9]"

lemma sample_seal: "seal_block (word_of_int 0x90) sample_block @ replicate 0 (word_of_int POISON) = sample_sealed" "length sample_sealed = 4"
  by (simp_all add: seal_block_def sample_block_def sample_sealed_def)

lemmas sample_facts = sample_ladder sample_sum sample_line sample_seal

theorem sealed_block_agrees_witness:
  "\<exists>files. rb_judge files ''b.log'' 0 4 (rb_no_args\<lparr>rb_uart := Some ''u.log''\<rparr>) = Inr (Agrees 3 Not_parsed)"
proof -
  obtain reply where r: "render_dw 0 (bytes_of sample_sealed) (dw_cmd 0 16) = Inr reply" using sample_render sample_seal(2) by blast
  let ?files = "[''b.log'' \<mapsto> reply, ''u.log'' \<mapsto> sample_console]"
  have "rb_judge ?files ''b.log'' 0 (int (length sample_block)) (rb_no_args\<lparr>rb_uart := Some ''u.log''\<rparr>) = Inr (Agrees 3 Not_parsed)"
    by (rule sealed_block_agrees [OF sample_ladder, where ws = sample_sealed and k = 0, THEN conjunct2, THEN mp])
      (use r sample_facts in \<open>simp_all add: sample_block_def PROBE3_def POISON_def\<close>)
  then show ?thesis by (auto simp: sample_block_def)
qed

theorem one_word_seen_witness:
  "\<exists>files. rb_judge files ''b.log'' 0 4 (rb_no_args\<lparr>rb_uart := Some ''u.log''\<rparr>) = Inr (Agrees 3 Not_parsed)
     \<and> (\<forall>y pr. rb_judge files ''c.log'' 0 4 (rb_no_args\<lparr>rb_uart := Some ''u.log''\<rparr>) \<noteq> Inr (Agrees y pr))"
proof -
  let ?bad = "sample_sealed[1 := 8]"
  obtain b where b: "render_dw 0 (bytes_of sample_sealed) (dw_cmd 0 16) = Inr b" "parse_words b = Inr (laid 0 (map uint sample_sealed))"
    using sample_render sample_seal(2) by blast
  obtain c where c: "parse_words c = Inr (laid 0 (map uint ?bad))"
    using sample_render [of ?bad] sample_seal(2) by auto
  let ?files = "[''b.log'' \<mapsto> b, ''c.log'' \<mapsto> c, ''u.log'' \<mapsto> sample_console]" and ?st = "rb_no_args\<lparr>rb_uart := Some ''u.log''\<rparr>"
  have own: "own_checks (map uint (seal_block (word_of_int 0x90) sample_block)) = Inr ([], Not_parsed)"
    by (rule own_checks_other) (simp add: seal_block_def sample_block_def)
  have "rb_judge ?files ''b.log'' 0 (int (length sample_block)) ?st =
      (case own_checks (map uint (seal_block (word_of_int 0x90) sample_block)) of Inl e \<Rightarrow> Inl e
       | Inr (fs, pr) \<Rightarrow> Inr (if fs = [] then Agrees 3 pr else Disagrees fs pr))"
    by (rule sealed_judged [OF sample_ladder, where ws = sample_sealed and k = 0])
      (use b sample_facts in \<open>simp_all add: sample_block_def PROBE3_def POISON_def\<close>)
  then have good: "rb_judge ?files ''b.log'' 0 (int (length sample_block)) ?st = Inr (Agrees 3 Not_parsed)"
    unfolding own by simp
  have "rb_judge ?files ''c.log'' 0 (int (length sample_block)) ?st \<noteq> Inr (Agrees y pr)" for y pr
  proof
    assume "rb_judge ?files ''c.log'' 0 (int (length sample_block)) ?st = Inr (Agrees y pr)"
    from one_word_seen [OF good this _ _ b(2) c, of 1]
    have "map_of (laid 0 (map uint sample_sealed)) 4 = map_of (laid 0 (map uint ?bad)) 4"
      using map_of_laid_at [of _ "map uint sample_sealed" 0] map_of_laid_at [of _ "map uint ?bad" 0]
      by (auto simp: sample_block_def sample_seal(2))
    then show False by (simp add: sample_sealed_def)
  qed
  with good show ?thesis by (auto simp: sample_block_def)
qed

end
