(* ===== verification/Initramfs.thy ===== *)
theory Initramfs
  imports "HOL-Library.Word" "HOL-Library.List_Lexorder" "HOL-Library.Char_ord" Sha2 PyText
begin

text \<open>
  \<open>tools/mkinitramfs.py\<close> up to the specification it writes, and the reader of applet tables it asks
  (\<open>tools/appletcensus.py\<close>): the declaration of the initramfs, what it must hold, where its sources may lie, and the two
  bans, on nodes through which flash can be written and on programs that print or digest what a node reads.  The option
  \<open>--init\<close>, which asks git, is not modelled.
\<close>

unbundle bit_operations_syntax

subsection \<open>The applet table of a binary\<close>

type_synonym run = "nat \<times> bytes"

fun runs_loop :: "nat \<Rightarrow> nat \<Rightarrow> bytes \<Rightarrow> bytes \<Rightarrow> run list" where
  "runs_loop i start cur [] = (if cur \<noteq> [] then [(start, cur)] else [])"
| "runs_loop i start cur (ch # bs) =
     (if ch = CHR 0x00 then (if cur \<noteq> [] then [(start, cur)] else []) @ runs_loop (i + 1) (i + 1) [] bs
      else runs_loop (i + 1) (if cur = [] then i else start) (cur @ [ch]) bs)"

definition nul_runs :: "bytes \<Rightarrow> run list" where
  "nul_runs blob = runs_loop 0 0 [] blob"

definition small_letter :: "char \<Rightarrow> bool" where
  "small_letter c = (let n = (of_char c :: nat) in 97 \<le> n \<and> n \<le> 122)"

definition applet_char :: "char \<Rightarrow> bool" where
  "applet_char c \<longleftrightarrow> small_letter c \<or> is_digit c \<or> c \<in> set ''_.-''"

text \<open>The end that \<open>$\<close> stops at: before a final newline.\<close>

definition dollar :: "bytes \<Rightarrow> bytes" where
  "dollar s = (if s \<noteq> [] \<and> last s = CHR 0x0A then butlast s else s)"

definition applet_name :: "bytes \<Rightarrow> bool" where
  "applet_name s \<longleftrightarrow> (case dollar s of [] \<Rightarrow> False | c # cs \<Rightarrow> small_letter c \<and> list_all applet_char cs)"

fun groups_from :: "run list \<Rightarrow> run list \<Rightarrow> run list list" where
  "groups_from cur [] = (if cur = [] then [] else [cur])"
| "groups_from cur (r # rs) =
     (if cur \<noteq> [] \<and> fst r \<noteq> fst (last cur) + length (snd (last cur)) + 1 then cur # groups_from [r] rs
      else groups_from (cur @ [r]) rs)"

text \<open>The maximal stretches on which the names increase, and the first of the longest.\<close>

fun rising :: "run list \<Rightarrow> run list \<Rightarrow> run list list" where
  "rising cur [] = (if cur = [] then [] else [cur])"
| "rising cur (r # rs) = (if cur = [] \<or> snd r > snd (last cur) then rising (cur @ [r]) rs else cur # rising [r] rs)"

definition first_longest :: "'a list list \<Rightarrow> 'a list" where
  "first_longest = foldl (\<lambda>best r. if length r > length best then r else best) []"

definition MIN_RUN :: nat where "MIN_RUN = 20"

text \<open>The first name of the table, cut off the datum before it.\<close>

definition tail_name :: "bytes \<Rightarrow> bytes" where
  "tail_name raw = dropWhile (\<lambda>c. \<not> small_letter c) (rev (takeWhile applet_char (rev (dollar raw))))"

definition recovered :: "bytes \<Rightarrow> run list \<Rightarrow> run list" where
  "recovered data best =
     (case best of
        [] \<Rightarrow> []
      | (off, nm) # _ \<Rightarrow>
          (case filter (\<lambda>r. fst r + length (snd r) + 1 = off) (nul_runs data) of
             [] \<Rightarrow> best
           | (o1, raw) # _ \<Rightarrow>
               let m = tail_name raw in
               if m \<noteq> [] \<and> m \<noteq> raw \<and> m < nm then (o1 + (length (dollar raw) - length m), m) # best else best))"

definition find_applets :: "bytes \<Rightarrow> bytes list option" where
  "find_applets data =
     (let cand = filter (\<lambda>r. applet_name (snd r)) (nul_runs data);
          best = recovered data (first_longest (map (\<lambda>g. first_longest (rising [] g)) (groups_from [] cand)))
      in if length best < MIN_RUN then None else Some (map snd best))"

definition H601_DUMPER_APPLETS :: "string list" where
  "H601_DUMPER_APPLETS =
     [''od'', ''hexdump'', ''xxd'', ''base64'', ''uuencode'', ''uudecode'', ''strings'', ''md5sum'', ''sha1sum'', ''sha256sum'',
      ''sha512sum'', ''cksum'', ''sum'', ''cmp'', ''dd'', ''awk'', ''vi'', ''ed'']"

subsection \<open>POSIX paths\<close>

fun norm_comps :: "bool \<Rightarrow> string list \<Rightarrow> string list \<Rightarrow> string list" where
  "norm_comps rooted acc [] = rev acc"
| "norm_comps rooted acc (c # cs) =
     (if c = [] \<or> c = ''.'' then norm_comps rooted acc cs
      else if c \<noteq> ''..'' \<or> (\<not> rooted \<and> acc = []) \<or> (acc \<noteq> [] \<and> hd acc = ''..'') then norm_comps rooted (c # acc) cs
      else norm_comps rooted (tl acc) cs)"

definition normpath :: "string \<Rightarrow> string" where
  "normpath p =
     (if p = [] then ''.''
      else let slashes = (if prefix ''//'' p \<and> \<not> prefix ''///'' p then 2 else if prefix ''/'' p then 1 else 0);
               q = replicate slashes (CHR ''/'') @ join ''/'' (norm_comps (slashes > 0) [] (split_on (CHR ''/'') p))
           in if q = [] then ''.'' else q)"

definition posix_join :: "string \<Rightarrow> string \<Rightarrow> string" where
  "posix_join a b = (if prefix ''/'' b then b else if a = [] \<or> suffix ''/'' a then a @ b else a @ ''/'' @ b)"

definition dirname :: "string \<Rightarrow> string" where
  "dirname p =
     (let head = rev (dropWhile (\<lambda>c. c \<noteq> CHR ''/'') (rev p)) in
      if list_all (\<lambda>c. c = CHR ''/'') head then head else rev (dropWhile (\<lambda>c. c = CHR ''/'') (rev head)))"

definition replaced :: "string \<Rightarrow> string \<Rightarrow> string \<Rightarrow> string" where
  "replaced old new s = join new (split_seq old s)"

subsection \<open>The declaration\<close>

datatype ikind = Dir | File | Slink | Nod
datatype owner = Unit | Rlxfw

definition KINDS :: "(string \<times> ikind) list" where
  "KINDS = [(''dir'', Dir), (''file'', File), (''slink'', Slink), (''nod'', Nod)]"

definition OWNERS :: "(string \<times> owner) list" where
  "OWNERS = [(''unit'', Unit), (''rlxfw'', Rlxfw)]"

record entry =
  en_kind :: ikind
  en_path :: string
  en_source :: string
  en_mode :: string
  en_owner :: owner
  en_note :: string
  en_line :: nat
  en_resolved :: "string option"
  en_size :: nat
  en_digest :: string

text \<open>The refusals, with the line of the declaration where there is one.\<close>

datatype init_refusal =
    Wrong_fields nat nat
  | Unknown_kind nat string
  | Not_absolute nat string
  | Not_normal nat string
  | White_space nat string
  | Unknown_owner nat string
  | Bad_mode nat string
  | Declared_twice nat string nat
  | No_entries
  | Init_not_file nat ikind
  | Init_not_executable nat string
  | No_init
  | No_console
  | Console_not_nod nat
  | Console_wrong nat string
  | Not_in_dump nat string
  | Node_of_unit nat
  | No_target nat
  | Dangling nat string
  | Bad_node nat string
  | Source_space nat string
  | Source_relative nat string
  | Source_missing nat string
  | Source_link nat string
  | Source_not_file nat string
  | Outside_tree nat string
  | Writable_block nat string
  | Writable_char nat string
  | Dumper nat string "string list"
  | No_table nat string

definition octal_mode :: "string \<Rightarrow> bool" where
  "octal_mode m \<longleftrightarrow> (length m = 3 \<or> length m = 4) \<and> list_all (\<lambda>c. is_digit c \<and> c \<notin> set ''89'') m"

definition octal :: "string \<Rightarrow> int" where
  "octal m = int (of_base 8 (map hex_val m))"

text \<open>The checks of a row in their order; \<open>seen\<close> are the paths above it with their lines.\<close>

definition decl_row :: "nat \<Rightarrow> (string \<times> nat) list \<Rightarrow> string \<Rightarrow> init_refusal + entry" where
  "decl_row n seen ln =
     (case split_on (CHR 0x09) ln of
        [kind, p, source, mode, own, note] \<Rightarrow>
          (case map_of KINDS kind of
             None \<Rightarrow> Inl (Unknown_kind n kind)
           | Some k \<Rightarrow>
               if \<not> prefix ''/'' p then Inl (Not_absolute n p)
               else if normpath p \<noteq> p \<or> occurs ''//'' p then Inl (Not_normal n p)
               else if list_ex py_space p then Inl (White_space n p)
               else if k \<noteq> Nod \<and> list_ex py_space source then Inl (White_space n source)
               else (case map_of OWNERS own of
                  None \<Rightarrow> Inl (Unknown_owner n own)
                | Some w \<Rightarrow>
                    if \<not> octal_mode mode then Inl (Bad_mode n mode)
                    else (case map_of seen p of
                       Some l \<Rightarrow> Inl (Declared_twice n p l)
                     | None \<Rightarrow>
                         Inr \<lparr>en_kind = k, en_path = p, en_source = source, en_mode = mode, en_owner = w, en_note = note, en_line = n,
                              en_resolved = None, en_size = 0, en_digest = ''-''\<rparr>)))
      | fs \<Rightarrow> Inl (Wrong_fields n (length fs)))"

fun decl_lines :: "nat \<Rightarrow> (string \<times> nat) list \<Rightarrow> string list \<Rightarrow> init_refusal + entry list" where
  "decl_lines n seen [] = Inr []"
| "decl_lines n seen (raw # ls) =
     (let ln = rev (dropWhile (\<lambda>c. c = CHR 0x0D) (rev raw)) in
      if strip ln = [] \<or> prefix ''#'' ln then decl_lines (n + 1) seen ls
      else sbind (decl_row n seen ln) (\<lambda>e.
           sbind (decl_lines (n + 1) ((en_path e, n) # seen) ls) (\<lambda>es. Inr (e # es))))"

definition parse_decl :: "string \<Rightarrow> init_refusal + entry list" where
  "parse_decl text =
     sbind (decl_lines 1 [] (split_on (CHR 0x0A) text)) (\<lambda>es. if es = [] then Inl No_entries else Inr es)"

subsection \<open>What every image must hold\<close>

text \<open>The execute bits, 0o111, are 0x49.\<close>

definition at_path :: "entry list \<Rightarrow> string \<Rightarrow> entry option" where
  "at_path es p = find (\<lambda>e. en_path e = p) (rev es)"

definition console_row :: "entry \<Rightarrow> init_refusal + unit" where
  "console_row e =
     (if en_path e \<noteq> ''/dev/console'' then Inr ()
      else if en_kind e \<noteq> Nod then Inl (Console_not_nod (en_line e))
      else if en_source e \<noteq> ''c:5:1'' then Inl (Console_wrong (en_line e) (en_source e)) else Inr ())"

definition check_required :: "entry list \<Rightarrow> init_refusal + unit" where
  "check_required es =
     (case at_path es ''/init'' of
        None \<Rightarrow> Inl No_init
      | Some i \<Rightarrow>
          if en_kind i \<noteq> File then Inl (Init_not_file (en_line i) (en_kind i))
          else if octal (en_mode i) AND 0x49 = 0 then Inl (Init_not_executable (en_line i) (en_mode i))
          else if at_path es ''/dev/console'' = None then Inl No_console
          else sbind (traverse console_row es) (\<lambda>_. Inr ()))"

subsection \<open>Where the sources lie\<close>

text \<open>
  The file system: the target of a symbolic link, whether a path is a directory, the bytes of a regular file (both through
  links), whether it exists, and the path with every link resolved.  The two directories are absolute paths, as \<open>os.path.abspath\<close>
  leaves them.
\<close>

record host =
  h_link :: "string \<Rightarrow> string option"
  h_dir :: "string \<Rightarrow> bool"
  h_file :: "string \<Rightarrow> bytes option"
  h_exists :: "string \<Rightarrow> bool"
  h_real :: "string \<Rightarrow> string"

definition inside_tree :: "host \<Rightarrow> string \<Rightarrow> string \<Rightarrow> bool" where
  "inside_tree h child parent \<longleftrightarrow> h_real h child = h_real h parent \<or> prefix (h_real h parent @ ''/'') (h_real h child)"

definition unit_counterpart :: "host \<Rightarrow> string \<Rightarrow> entry \<Rightarrow> init_refusal + unit" where
  "unit_counterpart h unit_dir e =
     (let up = posix_join unit_dir (dropWhile (\<lambda>c. c = CHR ''/'') (en_path e)) in
      case en_kind e of
        Slink \<Rightarrow> if h_link h up \<noteq> Some (en_source e) then Inl (Not_in_dump (en_line e) (en_path e)) else Inr ()
      | Dir \<Rightarrow> if h_link h up \<noteq> None \<or> \<not> h_dir h up then Inl (Not_in_dump (en_line e) (en_path e)) else Inr ()
      | Nod \<Rightarrow> Inl (Node_of_unit (en_line e))
      | File \<Rightarrow> Inr ())"

definition resolve_slink :: "string list \<Rightarrow> entry \<Rightarrow> init_refusal + entry" where
  "resolve_slink declared e =
     (if en_source e = [] \<or> en_source e = ''-'' then Inl (No_target (en_line e))
      else let tgt = normpath (if prefix ''/'' (en_source e) then en_source e else posix_join (dirname (en_path e)) (en_source e))
           in if tgt \<notin> set declared then Inl (Dangling (en_line e) tgt) else Inr e)"

definition small_decimal :: "string \<Rightarrow> bool" where
  "small_decimal v \<longleftrightarrow> 1 \<le> length v \<and> length v \<le> 3 \<and> list_all is_digit v"

text \<open>The device of a node's source column: its type, its major and minor numbers.\<close>

definition node_parts :: "string \<Rightarrow> (string \<times> int \<times> int) option" where
  "node_parts source =
     (case split_on (CHR '':'') source of
        [t, maj, mnr] \<Rightarrow>
          if t \<in> {''c'', ''b''} \<and> small_decimal maj \<and> small_decimal mnr then Some (t, int (dec_num maj), int (dec_num mnr)) else None
      | _ \<Rightarrow> None)"

definition resolve_node :: "entry \<Rightarrow> init_refusal + entry" where
  "resolve_node e = (if node_parts (en_source e) = None then Inl (Bad_node (en_line e) (en_source e)) else Inr e)"

definition resolve_file :: "host \<Rightarrow> string \<Rightarrow> string \<Rightarrow> entry \<Rightarrow> init_refusal + entry" where
  "resolve_file h unit_dir repo e =
     (let src = normpath (replaced ''$REPO'' repo (replaced ''$UNIT'' unit_dir (en_source e))); n = en_line e in
      if list_ex py_space src then Inl (Source_space n src)
      else if \<not> prefix ''/'' src then Inl (Source_relative n src)
      else if \<not> h_exists h src then Inl (Source_missing n src)
      else if h_link h src \<noteq> None then Inl (Source_link n src)
      else (case h_file h src of
         None \<Rightarrow> Inl (Source_not_file n src)
       | Some b \<Rightarrow>
           if \<not> inside_tree h src (case en_owner e of Unit \<Rightarrow> unit_dir | Rlxfw \<Rightarrow> repo) then Inl (Outside_tree n src)
           else Inr (e\<lparr>en_resolved := Some src, en_size := length b, en_digest := hex_of (sha256 b)\<rparr>)))"

definition resolve_entry :: "host \<Rightarrow> string \<Rightarrow> string \<Rightarrow> string list \<Rightarrow> entry \<Rightarrow> init_refusal + entry" where
  "resolve_entry h unit_dir repo declared e =
     sbind (if en_kind e \<noteq> File \<and> en_owner e = Unit then unit_counterpart h unit_dir e else Inr ()) (\<lambda>_.
       case en_kind e of
         Dir \<Rightarrow> Inr e
       | Slink \<Rightarrow> resolve_slink declared e
       | Nod \<Rightarrow> resolve_node e
       | File \<Rightarrow> resolve_file h unit_dir repo e)"

subsection \<open>The two bans\<close>

definition MTD_BLOCK_MAJOR :: int where "MTD_BLOCK_MAJOR = 31"
definition MTD_CHAR_MAJOR :: int where "MTD_CHAR_MAJOR = 90"

definition flash_node :: "entry \<Rightarrow> init_refusal + unit" where
  "flash_node e =
     (if en_kind e \<noteq> Nod then Inr ()
      else (case node_parts (en_source e) of
         None \<Rightarrow> Inr ()
       | Some (_, maj, mnr) \<Rightarrow>
           if maj = MTD_BLOCK_MAJOR then Inl (Writable_block (en_line e) (en_path e))
           else if maj = MTD_CHAR_MAJOR \<and> mnr mod 2 = 0 then Inl (Writable_char (en_line e) (en_path e)) else Inr ()))"

definition check_no_writable_flash_node :: "entry list \<Rightarrow> init_refusal + unit" where
  "check_no_writable_flash_node es = sbind (traverse flash_node es) (\<lambda>_. Inr ())"

definition mtd_nodes :: "entry list \<Rightarrow> entry list" where
  "mtd_nodes es =
     filter (\<lambda>e. en_kind e = Nod \<and> (case node_parts (en_source e) of None \<Rightarrow> False | Some (_, maj, _) \<Rightarrow> maj \<in> {MTD_BLOCK_MAJOR, MTD_CHAR_MAJOR})) es"

text \<open>The applet table of an entry's file, None where it has no file or no readable table.\<close>

definition applet_table :: "host \<Rightarrow> entry \<Rightarrow> bytes list option" where
  "applet_table h e =
     (if en_kind e \<noteq> File then None
      else (case en_resolved e of None \<Rightarrow> None | Some p \<Rightarrow> (case h_file h p of None \<Rightarrow> None | Some b \<Rightarrow> find_applets b)))"

definition dumper_row :: "host \<Rightarrow> entry \<Rightarrow> init_refusal + nat" where
  "dumper_row h e =
     (case applet_table h e of
        None \<Rightarrow> Inr 0
      | Some names \<Rightarrow>
          let hit = filter (\<lambda>n. n \<in> set names) (sort H601_DUMPER_APPLETS) in
          if hit \<noteq> [] then Inl (Dumper (en_line e) (en_path e) hit) else Inr 1)"

definition check_no_h601_dumper :: "host \<Rightarrow> entry list \<Rightarrow> init_refusal + unit" where
  "check_no_h601_dumper h es =
     (case mtd_nodes es of
        [] \<Rightarrow> Inr ()
      | node # _ \<Rightarrow>
          sbind (traverse (dumper_row h) es) (\<lambda>tables.
            if sum_list tables = 0 then Inl (No_table (en_line node) (en_path node)) else Inr ()))"

definition resolve :: "host \<Rightarrow> string \<Rightarrow> string \<Rightarrow> entry list \<Rightarrow> init_refusal + entry list" where
  "resolve h unit_dir repo es =
     sbind (traverse (resolve_entry h unit_dir repo (map en_path es)) es) (\<lambda>rs.
     sbind (check_no_writable_flash_node rs) (\<lambda>_.
     sbind (check_no_h601_dumper h rs) (\<lambda>_. Inr rs)))"

definition load_entries :: "host \<Rightarrow> string \<Rightarrow> string \<Rightarrow> string \<Rightarrow> init_refusal + entry list" where
  "load_entries h unit_dir repo text =
     sbind (parse_decl text) (\<lambda>es. sbind (check_required es) (\<lambda>_. resolve h unit_dir repo es))"

subsection \<open>What the build reads\<close>

definition spec_line :: "entry \<Rightarrow> string" where
  "spec_line e =
     (case en_kind e of
        Dir \<Rightarrow> join '' '' [''dir'', en_path e, en_mode e, ''0'', ''0'']
      | File \<Rightarrow> join '' '' [''file'', en_path e, (case en_resolved e of None \<Rightarrow> ''None'' | Some p \<Rightarrow> p), en_mode e, ''0'', ''0'']
      | Slink \<Rightarrow> join '' '' [''slink'', en_path e, en_source e, en_mode e, ''0'', ''0'']
      | Nod \<Rightarrow> join '' '' ([''nod'', en_path e, en_mode e, ''0'', ''0''] @ split_on (CHR '':'') (en_source e)))"

definition emit_spec :: "entry list \<Rightarrow> string" where
  "emit_spec es = join [CHR 0x0A] (map spec_line es) @ [CHR 0x0A]"

definition KIND_NAME :: "ikind \<Rightarrow> string" where
  "KIND_NAME k = (case k of Dir \<Rightarrow> ''dir'' | File \<Rightarrow> ''file'' | Slink \<Rightarrow> ''slink'' | Nod \<Rightarrow> ''nod'')"

definition OWNER_NAME :: "owner \<Rightarrow> string" where
  "OWNER_NAME w = (case w of Unit \<Rightarrow> ''unit'' | Rlxfw \<Rightarrow> ''rlxfw'')"

definition manifest_line :: "string \<Rightarrow> string \<Rightarrow> entry \<Rightarrow> string" where
  "manifest_line unit_dir repo e =
     (let src = (case en_resolved e of
            Some p \<Rightarrow> if p \<noteq> [] then replaced repo ''$REPO'' (replaced unit_dir ''$UNIT'' p) else en_source e
          | None \<Rightarrow> en_source e)
      in join [CHR 0x09] [en_path e, KIND_NAME (en_kind e), dec (en_size e), en_digest e, OWNER_NAME (en_owner e), src])"

definition emit_manifest :: "string \<Rightarrow> string \<Rightarrow> entry list \<Rightarrow> string" where
  "emit_manifest unit_dir repo es =
     join [CHR 0x0A]
       ([''# path'' @ [CHR 0x09] @ ''kind'' @ [CHR 0x09] @ ''bytes'' @ [CHR 0x09] @ ''sha256'' @ [CHR 0x09] @ ''owner'' @ [CHR 0x09] @ ''source'',
         ''# unit = carved from this device'' @ [CHR 0x27] @ ''s own flash dump ('' @ unit_dir @ '')'', ''# rlxfw = mine ('' @ repo @ '')'']
        @ map (manifest_line unit_dir repo) es) @ [CHR 0x0A]"

subsection \<open>What an accepted declaration says\<close>

lemma traverse_units: "sbind (traverse f xs) (\<lambda>_. Inr ()) = Inr u \<longleftrightarrow> (\<forall>x \<in> set xs. \<exists>y. f x = Inr y)"
proof (induction xs)
  case (Cons x xs)
  then show ?case by (cases "f x"; cases "traverse f xs") auto
qed simp

lemma decl_row_ok:
  assumes "decl_row n seen ln = Inr e"
  shows "prefix ''/'' (en_path e)" "normpath (en_path e) = en_path e" "map_of seen (en_path e) = None"
    "octal_mode (en_mode e)" "\<not> list_ex py_space (en_path e)" "en_resolved e = None"
  using assms unfolding decl_row_def by (auto split: list.splits option.splits if_splits)

lemma decl_lines_ok:
  "decl_lines n seen ls = Inr es \<Longrightarrow> distinct (map en_path es) \<and> (\<forall>e \<in> set es. en_path e \<notin> fst ` set seen)
    \<and> (\<forall>e \<in> set es. prefix ''/'' (en_path e) \<and> normpath (en_path e) = en_path e \<and> octal_mode (en_mode e)
        \<and> \<not> list_ex py_space (en_path e))"
proof (induction n seen ls arbitrary: es rule: decl_lines.induct)
  case (2 n seen raw ls)
  let ?ln = "rev (dropWhile (\<lambda>c. c = CHR 0x0D) (rev raw))"
  show ?case
  proof (cases "strip ?ln = [] \<or> prefix ''#'' ?ln")
    case True
    then show ?thesis using 2 by (simp add: Let_def)
  next
    case False
    then obtain e fs where e: "decl_row n seen ?ln = Inr e" "decl_lines (n + 1) ((en_path e, n) # seen) ls = Inr fs" "es = e # fs"
      using 2(3) by (auto simp: Let_def sbind_Inr split: if_splits)
    note r = decl_row_ok [OF e(1)]
    from 2(2) [OF refl False e(2)] have "distinct (map en_path fs)" "\<forall>x \<in> set fs. en_path x \<notin> fst ` set ((en_path e, n) # seen)"
      "\<forall>x \<in> set fs. prefix ''/'' (en_path x) \<and> normpath (en_path x) = en_path x \<and> octal_mode (en_mode x) \<and> \<not> list_ex py_space (en_path x)"
      by blast+
    moreover have "en_path e \<notin> fst ` set seen" using r(3) by (simp add: map_of_eq_None_iff)
    ultimately show ?thesis using r e(3) by auto
  qed
qed simp

lemma resolve_entry_kind:
  "resolve_entry h u repo ps e = Inr r \<Longrightarrow>
     (case en_kind e of Dir \<Rightarrow> r = e | Slink \<Rightarrow> resolve_slink ps e = Inr r | Nod \<Rightarrow> resolve_node e = Inr r | File \<Rightarrow> resolve_file h u repo e = Inr r)"
  by (auto simp: resolve_entry_def sbind_Inr split: ikind.split)

lemma resolve_slink_ok:
  "resolve_slink ps e = Inr r \<Longrightarrow> r = e
     \<and> normpath (if prefix ''/'' (en_source e) then en_source e else posix_join (dirname (en_path e)) (en_source e)) \<in> set ps"
  unfolding resolve_slink_def Let_def by (simp split: if_splits)

lemma resolve_node_ok: "resolve_node e = Inr r \<Longrightarrow> r = e \<and> node_parts (en_source e) \<noteq> None"
  by (auto simp: resolve_node_def split: if_splits)

lemma resolve_file_ok:
  assumes "resolve_file h u repo e = Inr r"
  shows "\<exists>src b. r = e\<lparr>en_resolved := Some src, en_size := length b, en_digest := hex_of (sha256 b)\<rparr> \<and> h_file h src = Some b
      \<and> inside_tree h src (case en_owner e of Unit \<Rightarrow> u | Rlxfw \<Rightarrow> repo)"
  using assms unfolding resolve_file_def Let_def by (simp split: if_splits option.splits) metis

lemma resolve_entry_same:
  assumes "resolve_entry h u repo ps e = Inr r"
  shows "en_kind r = en_kind e \<and> en_path r = en_path e \<and> en_mode r = en_mode e \<and> en_source r = en_source e \<and> en_owner r = en_owner e"
  using resolve_entry_kind [OF assms] resolve_slink_ok [of ps e r] resolve_node_ok [of e r] resolve_file_ok [of h u repo e r]
  by (cases "en_kind e") auto

lemma resolve_entry_ok:
  assumes "resolve_entry h u repo ps e = Inr r"
  shows "en_kind r = Nod \<Longrightarrow> node_parts (en_source r) \<noteq> None"
    and "en_kind r = File \<Longrightarrow> \<exists>src b. en_resolved r = Some src \<and> h_file h src = Some b \<and> en_digest r = hex_of (sha256 b)
      \<and> inside_tree h src (case en_owner r of Unit \<Rightarrow> u | Rlxfw \<Rightarrow> repo)"
    and "en_kind r = Slink \<Longrightarrow> normpath (if prefix ''/'' (en_source r) then en_source r else posix_join (dirname (en_path r)) (en_source r)) \<in> set ps"
proof -
  note same = resolve_entry_same [OF assms] and k = resolve_entry_kind [OF assms]
  show "node_parts (en_source r) \<noteq> None" if "en_kind r = Nod" using that same k resolve_node_ok [of e r] by simp
  show "normpath (if prefix ''/'' (en_source r) then en_source r else posix_join (dirname (en_path r)) (en_source r)) \<in> set ps"
    if "en_kind r = Slink"
  proof -
    have "resolve_slink ps e = Inr r" using that same k by simp
    note s = resolve_slink_ok [OF this]
    then show ?thesis by (simp only: s)
  qed
  show "\<exists>src b. en_resolved r = Some src \<and> h_file h src = Some b \<and> en_digest r = hex_of (sha256 b)
      \<and> inside_tree h src (case en_owner r of Unit \<Rightarrow> u | Rlxfw \<Rightarrow> repo)" if "en_kind r = File"
    using that same k resolve_file_ok [of h u repo e r] by auto
qed

lemma find_hit: "find P xs = Some x \<Longrightarrow> x \<in> set xs \<and> P x"
  by (induction xs) (auto split: if_splits)

lemma at_path_hit: "at_path es p = Some e \<Longrightarrow> e \<in> set es \<and> en_path e = p"
  unfolding at_path_def by (drule find_hit) simp

lemma at_path_distinct:
  assumes d: "distinct (map en_path es)"
  shows "at_path es p = Some e \<longleftrightarrow> e \<in> set es \<and> en_path e = p"
proof
  assume "at_path es p = Some e"
  then show "e \<in> set es \<and> en_path e = p" by (rule at_path_hit)
next
  assume e: "e \<in> set es \<and> en_path e = p"
  then have "at_path es p \<noteq> None" by (auto simp: at_path_def find_None_iff)
  then obtain x where x: "at_path es p = Some x" by blast
  have "inj_on en_path (set es)" using d by (simp add: distinct_map)
  then have "x = e" using at_path_hit [OF x] e by (auto dest: inj_onD)
  with x show "at_path es p = Some e" by simp
qed

text \<open>The specification of an accepted declaration.\<close>

definition flash_safe :: "entry \<Rightarrow> bool" where
  "flash_safe e \<longleftrightarrow>
     (en_kind e = Nod \<longrightarrow> (\<exists>t maj mnr. node_parts (en_source e) = Some (t, maj, mnr) \<and> maj \<noteq> 31 \<and> (maj = 90 \<longrightarrow> odd mnr)))"

definition sourced :: "host \<Rightarrow> string \<Rightarrow> string \<Rightarrow> string list \<Rightarrow> entry \<Rightarrow> bool" where
  "sourced h u repo paths e \<longleftrightarrow>
     (en_kind e = File \<longrightarrow> (\<exists>src b. en_resolved e = Some src \<and> h_file h src = Some b \<and> en_digest e = hex_of (sha256 b)
        \<and> inside_tree h src (case en_owner e of Unit \<Rightarrow> u | Rlxfw \<Rightarrow> repo)))
     \<and> (en_kind e = Slink \<longrightarrow> normpath (if prefix ''/'' (en_source e) then en_source e else posix_join (dirname (en_path e)) (en_source e)) \<in> set paths)"

lemma resolve_ok:
  assumes "resolve h u repo es = Inr rs"
  shows "list_all2 (\<lambda>e r. resolve_entry h u repo (map en_path es) e = Inr r) es rs" "map en_path rs = map en_path es"
    "\<forall>r \<in> set rs. flash_safe r" "\<forall>r \<in> set rs. sourced h u repo (map en_path rs) r"
    "mtd_nodes rs \<noteq> [] \<Longrightarrow> r \<in> set rs \<Longrightarrow> applet_table h r = Some names \<Longrightarrow> set names \<inter> set H601_DUMPER_APPLETS = {}"
proof -
  have t: "traverse (resolve_entry h u repo (map en_path es)) es = Inr rs" "check_no_writable_flash_node rs = Inr ()" "check_no_h601_dumper h rs = Inr ()"
    using assms by (auto simp: resolve_def sbind_Inr)
  show a: "list_all2 (\<lambda>e r. resolve_entry h u repo (map en_path es) e = Inr r) es rs" using t(1) by (simp add: traverse_Inr)
  then have ex: "\<exists>e. resolve_entry h u repo (map en_path es) e = Inr r" if "r \<in> set rs" for r
    using that by (auto simp: list_all2_conv_all_nth in_set_conv_nth)
  show paths: "map en_path rs = map en_path es"
    using a by (induction rule: list_all2_induct) (auto dest: resolve_entry_same)
  show "\<forall>r \<in> set rs. flash_safe r"
  proof
    fix r assume r: "r \<in> set rs"
    then have "\<exists>y. flash_node r = Inr y" using t(2) by (auto simp: check_no_writable_flash_node_def traverse_units)
    moreover have "en_kind r = Nod \<Longrightarrow> node_parts (en_source r) \<noteq> None" using ex [OF r] resolve_entry_ok(1) by blast
    ultimately show "flash_safe r"
      by (auto simp: flash_safe_def flash_node_def MTD_BLOCK_MAJOR_def MTD_CHAR_MAJOR_def even_iff_mod_2_eq_zero split: if_splits option.splits)
  qed
  show "\<forall>r \<in> set rs. sourced h u repo (map en_path rs) r"
    unfolding sourced_def paths using ex resolve_entry_ok(2,3) by blast
  assume m: "mtd_nodes rs \<noteq> []" and r: "r \<in> set rs" "applet_table h r = Some names"
  obtain node ns where "mtd_nodes rs = node # ns" using m by (cases "mtd_nodes rs") auto
  then obtain ts where "traverse (dumper_row h) rs = Inr ts" using t(3) by (auto simp: check_no_h601_dumper_def sbind_Inr)
  then have "\<exists>y. dumper_row h r = Inr y" using r(1) by (auto simp: traverse_Inr list_all2_conv_all_nth in_set_conv_nth)
  then show "set names \<inter> set H601_DUMPER_APPLETS = {}"
    using r(2) by (auto simp: dumper_row_def Let_def filter_empty_conv split: if_splits)
qed

lemma check_required_ok:
  assumes "check_required es = Inr ()" "distinct (map en_path es)"
  shows "\<exists>i \<in> set es. en_path i = ''/init'' \<and> en_kind i = File \<and> octal (en_mode i) AND 0x49 \<noteq> 0"
    "\<exists>c \<in> set es. en_path c = ''/dev/console'' \<and> en_kind c = Nod \<and> en_source c = ''c:5:1''"
proof -
  obtain i where i: "at_path es ''/init'' = Some i" "en_kind i = File" "octal (en_mode i) AND 0x49 \<noteq> 0"
    "at_path es ''/dev/console'' \<noteq> None" "\<forall>e \<in> set es. \<exists>y. console_row e = Inr y"
    using assms(1) by (auto simp: check_required_def traverse_units split: option.splits if_splits)
  then show "\<exists>i \<in> set es. en_path i = ''/init'' \<and> en_kind i = File \<and> octal (en_mode i) AND 0x49 \<noteq> 0"
    using at_path_distinct [OF assms(2)] by blast
  obtain c where c: "c \<in> set es" "en_path c = ''/dev/console''" using i(4) at_path_distinct [OF assms(2)] by blast
  then have "\<exists>y. console_row c = Inr y" using i(5) by blast
  with c show "\<exists>c \<in> set es. en_path c = ''/dev/console'' \<and> en_kind c = Nod \<and> en_source c = ''c:5:1''"
    by (intro bexI [of _ c]) (auto simp: console_row_def split: if_splits)
qed

lemma load_ok:
  assumes "load_entries h u repo text = Inr rs"
  shows "\<exists>es. parse_decl text = Inr es \<and> check_required es = Inr () \<and> resolve h u repo es = Inr rs \<and> distinct (map en_path es)"
proof -
  obtain es where e: "parse_decl text = Inr es" "check_required es = Inr ()" "resolve h u repo es = Inr rs"
    using assms by (auto simp: load_entries_def sbind_Inr)
  then have "decl_lines 1 [] (split_on (CHR 0x0A) text) = Inr es" by (auto simp: parse_decl_def sbind_Inr split: if_splits)
  with e decl_lines_ok show ?thesis by blast
qed

subsection \<open>The declaration accepted\<close>

definition dumper_clean :: "host \<Rightarrow> entry list \<Rightarrow> bool" where
  "dumper_clean h es \<longleftrightarrow>
     (\<forall>e \<in> set es. case applet_table h e of None \<Rightarrow> True | Some names \<Rightarrow> set names \<inter> set H601_DUMPER_APPLETS = {})
     \<and> (\<exists>e \<in> set es. applet_table h e \<noteq> None)"

lemma dumper_row_Inr:
  "dumper_row h e = Inr t \<longleftrightarrow>
     (case applet_table h e of None \<Rightarrow> t = 0 | Some names \<Rightarrow> t = 1 \<and> set names \<inter> set H601_DUMPER_APPLETS = {})"
  by (auto simp: dumper_row_def Let_def filter_empty_conv split: option.split)

lemma dumper_rows:
  "traverse (dumper_row h) es = Inr ts \<Longrightarrow>
     (\<forall>e \<in> set es. case applet_table h e of None \<Rightarrow> True | Some names \<Rightarrow> set names \<inter> set H601_DUMPER_APPLETS = {})
     \<and> (sum_list ts = 0 \<longleftrightarrow> (\<forall>e \<in> set es. applet_table h e = None))"
proof (induction es arbitrary: ts)
  case (Cons e es)
  then obtain t us where "dumper_row h e = Inr t" "traverse (dumper_row h) es = Inr us" "ts = t # us"
    by (auto simp: sbind_Inr)
  with Cons.IH [of us] show ?case by (auto simp: dumper_row_Inr split: option.splits)
qed simp

lemma dumper_rows_ok:
  "(\<forall>e \<in> set es. case applet_table h e of None \<Rightarrow> True | Some names \<Rightarrow> set names \<inter> set H601_DUMPER_APPLETS = {})
   \<Longrightarrow> \<exists>ts. traverse (dumper_row h) es = Inr ts"
proof (induction es)
  case (Cons e es)
  then obtain us where "traverse (dumper_row h) es = Inr us" by auto
  moreover have "\<exists>t. dumper_row h e = Inr t" using Cons.prems by (auto simp: dumper_row_Inr split: option.splits)
  ultimately show ?case by (auto simp: sbind_Inr)
qed simp

text \<open>
  The ban, exactly: a table that cannot be read is no refusal as long as some other entry has one, although the reader's comment
  says that an unreadable table is refused.
\<close>

lemma dumper_ban_exact: "check_no_h601_dumper h es = Inr () \<longleftrightarrow> (mtd_nodes es = [] \<or> dumper_clean h es)"
proof (cases "mtd_nodes es")
  case (Cons node ns)
  show ?thesis
  proof
    assume "check_no_h601_dumper h es = Inr ()"
    then obtain ts where t: "traverse (dumper_row h) es = Inr ts" and n: "sum_list ts \<noteq> 0"
      using Cons by (auto simp: check_no_h601_dumper_def sbind_Inr split: if_splits)
    from dumper_rows [OF t] n have "dumper_clean h es" unfolding dumper_clean_def by blast
    then show "mtd_nodes es = [] \<or> dumper_clean h es" ..
  next
    assume "mtd_nodes es = [] \<or> dumper_clean h es"
    then have c: "dumper_clean h es" using Cons by simp
    then obtain ts where t: "traverse (dumper_row h) es = Inr ts" using dumper_rows_ok unfolding dumper_clean_def by blast
    then have "sum_list ts \<noteq> 0" using c dumper_rows [OF t] by (auto simp: dumper_clean_def)
    with t Cons show "check_no_h601_dumper h es = Inr ()" by (simp add: check_no_h601_dumper_def)
  qed
qed (simp add: check_no_h601_dumper_def)

lemma resolve_member:
  assumes "resolve h u repo es = Inr rs" "e \<in> set es"
  shows "\<exists>r \<in> set rs. en_kind r = en_kind e \<and> en_path r = en_path e \<and> en_mode r = en_mode e \<and> en_source r = en_source e"
proof -
  obtain k where "k < length es" "es ! k = e" using assms(2) by (auto simp: in_set_conv_nth)
  with resolve_ok(1) [OF assms(1)] have "rs ! k \<in> set rs" "resolve_entry h u repo (map en_path es) e = Inr (rs ! k)"
    by (auto simp: list_all2_conv_all_nth)
  then show ?thesis using resolve_entry_same by blast
qed

lemma load_checked:
  assumes "load_entries h u repo text = Inr rs"
  shows "distinct (map en_path rs)"
    "\<forall>r \<in> set rs. prefix ''/'' (en_path r) \<and> normpath (en_path r) = en_path r \<and> octal_mode (en_mode r) \<and> flash_safe r \<and> sourced h u repo (map en_path rs) r"
    "\<exists>i \<in> set rs. en_path i = ''/init'' \<and> en_kind i = File \<and> octal (en_mode i) AND 0x49 \<noteq> 0"
    "\<exists>c \<in> set rs. en_path c = ''/dev/console'' \<and> en_kind c = Nod \<and> en_source c = ''c:5:1''"
    "mtd_nodes rs = [] \<or> dumper_clean h rs"
proof -
  obtain es where e: "parse_decl text = Inr es" "check_required es = Inr ()" "resolve h u repo es = Inr rs" "distinct (map en_path es)"
    using load_ok [OF assms] by blast
  note r = resolve_ok [OF e(3)] and m = resolve_member [OF e(3)]
  show "distinct (map en_path rs)" using e(4) r(2) by simp
  have "decl_lines 1 [] (split_on (CHR 0x0A) text) = Inr es"
    using e(1) by (auto simp: parse_decl_def sbind_Inr split: if_splits)
  note d = decl_lines_ok [OF this, THEN conjunct2, THEN conjunct2]
  show "\<forall>r \<in> set rs. prefix ''/'' (en_path r) \<and> normpath (en_path r) = en_path r \<and> octal_mode (en_mode r) \<and> flash_safe r \<and> sourced h u repo (map en_path rs) r"
  proof
    fix x assume x: "x \<in> set rs"
    then obtain k where "k < length rs" "rs ! k = x" by (auto simp: in_set_conv_nth)
    with r(1) have "es ! k \<in> set es" "resolve_entry h u repo (map en_path es) (es ! k) = Inr x"
      by (auto simp: list_all2_conv_all_nth)
    then obtain y where y: "y \<in> set es" "resolve_entry h u repo (map en_path es) y = Inr x" by blast
    note s = resolve_entry_same [OF y(2)]
    have "prefix ''/'' (en_path y) \<and> normpath (en_path y) = en_path y \<and> octal_mode (en_mode y)" using d y(1) by blast
    then have "prefix ''/'' (en_path x) \<and> normpath (en_path x) = en_path x \<and> octal_mode (en_mode x)" by (simp only: s)
    with r(3,4) x show "prefix ''/'' (en_path x) \<and> normpath (en_path x) = en_path x \<and> octal_mode (en_mode x) \<and> flash_safe x \<and> sourced h u repo (map en_path rs) x"
      by blast
  qed
  show "\<exists>i \<in> set rs. en_path i = ''/init'' \<and> en_kind i = File \<and> octal (en_mode i) AND 0x49 \<noteq> 0"
    using check_required_ok(1) [OF e(2,4)] m by metis
  show "\<exists>c \<in> set rs. en_path c = ''/dev/console'' \<and> en_kind c = Nod \<and> en_source c = ''c:5:1''"
    using check_required_ok(2) [OF e(2,4)] m by metis
  have "check_no_h601_dumper h rs = Inr ()" using e(3) by (auto simp: resolve_def sbind_Inr)
  then show "mtd_nodes rs = [] \<or> dumper_clean h rs" by (simp only: dumper_ban_exact)
qed

text \<open>A declaration of a console and an /init.\<close>

definition sample_text :: string where
  "sample_text = join [CHR 0x0A]
     [join [CHR 0x09] [''nod'', ''/dev/console'', ''c:5:1'', ''600'', ''rlxfw'', ''-''],
      join [CHR 0x09] [''file'', ''/init'', ''$REPO/init'', ''755'', ''rlxfw'', ''-'']]"

definition sample_host :: host where
  "sample_host = \<lparr>h_link = \<lambda>_. None, h_dir = \<lambda>_. False, h_file = \<lambda>p. if p = ''/r/init'' then Some ''x'' else None,
     h_exists = \<lambda>p. p = ''/r/init'', h_real = \<lambda>p. p\<rparr>"

definition sample_entries :: "entry list" where
  "sample_entries =
     [\<lparr>en_kind = Nod, en_path = ''/dev/console'', en_source = ''c:5:1'', en_mode = ''600'', en_owner = Rlxfw, en_note = ''-'', en_line = 1, en_resolved = None, en_size = 0, en_digest = ''-''\<rparr>,
      \<lparr>en_kind = File, en_path = ''/init'', en_source = ''$REPO/init'', en_mode = ''755'', en_owner = Rlxfw, en_note = ''-'', en_line = 2, en_resolved = None, en_size = 0, en_digest = ''-''\<rparr>]"

lemma sample_parsed: "parse_decl sample_text = Inr sample_entries" by code_simp

lemma sample_required: "check_required sample_entries = Inr ()" by code_simp

lemma sample_source: "normpath (replaced ''$REPO'' ''/r'' (replaced ''$UNIT'' ''/u'' ''$REPO/init'')) = ''/r/init''" by code_simp

lemma sample_console: "node_parts ''c:5:1'' = Some (''c'', 5, 1)" by code_simp

definition sample_resolved :: "entry list" where
  "sample_resolved = (case sample_entries of [c, i] \<Rightarrow> [c, i\<lparr>en_resolved := Some ''/r/init'', en_size := 1, en_digest := hex_of (sha256 ''x'')\<rparr>])"

lemma sample_resolves: "resolve sample_host ''/u'' ''/r'' sample_entries = Inr sample_resolved"
  by (simp add: resolve_def sample_entries_def sample_resolved_def resolve_entry_def resolve_node_def resolve_file_def sample_source sample_console sample_host_def inside_tree_def
    check_no_writable_flash_node_def flash_node_def MTD_BLOCK_MAJOR_def MTD_CHAR_MAJOR_def check_no_h601_dumper_def mtd_nodes_def py_space_def)

lemma sample_decl_loads: "load_entries sample_host ''/u'' ''/r'' sample_text = Inr sample_resolved"
  by (simp add: load_entries_def sample_parsed sample_required sample_resolves)

text \<open>
  C38. A declaration that is accepted has one row per path, every path absolute and in normal form, a regular executable /init,
  /dev/console as c:5:1, no node through which the kernel would let flash be written, every source inside the tree its owner
  column names and with the digest of the bytes read, every link's target declared, and, with any flash node at all, no readable
  applet table that holds an encoder or a digest.
\<close>

theorem declaration_accepted:
  assumes "load_entries h u repo text = Inr es"
  shows "distinct (map en_path es)
    \<and> (\<forall>e \<in> set es. prefix ''/'' (en_path e) \<and> normpath (en_path e) = en_path e \<and> flash_safe e \<and> sourced h u repo (map en_path es) e)
    \<and> (\<exists>i \<in> set es. en_path i = ''/init'' \<and> en_kind i = File \<and> octal (en_mode i) AND 0x49 \<noteq> 0)
    \<and> (\<exists>c \<in> set es. en_path c = ''/dev/console'' \<and> en_kind c = Nod \<and> en_source c = ''c:5:1'')
    \<and> (mtd_nodes es = [] \<or> dumper_clean h es)"
  using load_checked [OF assms] by blast

theorem declaration_accepted_witness:
  "list_all (\<lambda>e. flash_safe e \<and> sourced sample_host ''/u'' ''/r'' (map en_path sample_resolved) e) sample_resolved
   \<and> (\<exists>i \<in> set sample_resolved. en_path i = ''/init'' \<and> en_kind i = File)"
  using declaration_accepted [OF sample_decl_loads] unfolding list_all_iff by blast

end
