(* ===== verification/InitImage.thy ===== *)
theory InitImage
  imports Initramfs
begin

text \<open>
  \<open>tools/mkinitramfs.py verify\<close>: the archive of a built kernel, found as an ELF section and parsed as newc entries, is
  compared with the declaration; with the writers of both formats that the tool's controls use.
\<close>

unbundle bit_operations_syntax

subsection \<open>The section\<close>

datatype elf_refusal =
    Not_elf
  | Not_class32
  | Short_header
  | No_sections
  | Names_past nat nat
  | Header_past nat
  | Section_past
  | Uncaught_index

text \<open>A field of k bytes in the byte order of the file.\<close>

definition field_at :: "bool \<Rightarrow> nat \<Rightarrow> bytes \<Rightarrow> nat \<Rightarrow> nat" where
  "field_at big k b i = (if big then be_val (slice b i (i + k)) else le_val (slice b i (i + k)))"

definition header_at :: "bool \<Rightarrow> bytes \<Rightarrow> nat \<Rightarrow> nat \<Rightarrow> nat \<Rightarrow> elf_refusal + nat" where
  "header_at big b shoff entsize i = (let off = shoff + i * entsize in if off + 40 > length b then Inl (Header_past i) else Inr off)"

definition section_text :: "bytes \<Rightarrow> nat \<Rightarrow> bytes" where
  "section_text b i = takeWhile (\<lambda>c. c \<noteq> CHR 0x00) (slice b i (i + 64))"

text \<open>The loop over the headers; a later section of the name overrides an earlier one.\<close>

fun section_search :: "bool \<Rightarrow> bytes \<Rightarrow> nat \<Rightarrow> nat \<Rightarrow> nat \<Rightarrow> bytes \<Rightarrow> nat list \<Rightarrow> (nat \<times> nat) option \<Rightarrow> elf_refusal + (nat \<times> nat) option" where
  "section_search big b shoff entsize str want [] found = Inr found"
| "section_search big b shoff entsize str want (i # ks) found =
     sbind (header_at big b shoff entsize i) (\<lambda>o1.
       let offset = field_at big 4 b (o1 + 16); sz = field_at big 4 b (o1 + 20) in
       if section_text b (str + field_at big 4 b o1) \<noteq> want then section_search big b shoff entsize str want ks found
       else if offset + sz > length b then Inl Section_past
       else section_search big b shoff entsize str want ks (Some (offset, sz)))"

definition elf_section :: "bytes \<Rightarrow> bytes \<Rightarrow> elf_refusal + (nat \<times> nat) option" where
  "elf_section b want =
     (if take 4 b \<noteq> CHR 0x7F # ''ELF'' then Inl Not_elf
      else if length b \<le> 4 then Inl Uncaught_index
      else if b ! 4 \<noteq> CHR 0x01 then Inl Not_class32
      else if length b \<le> 5 then Inl Uncaught_index
      else let big = (b ! 5 = CHR 0x02) in
           if length b < 0x34 then Inl Short_header
           else let shoff = field_at big 4 b 0x20; entsize = field_at big 2 b 0x2E; num = field_at big 2 b 0x30; strndx = field_at big 2 b 0x32 in
                if shoff = 0 \<or> num = 0 then Inl No_sections
                else if strndx \<ge> num then Inl (Names_past strndx num)
                else sbind (header_at big b shoff entsize strndx) (\<lambda>o1.
                     section_search big b shoff entsize (field_at big 4 b (o1 + 16)) want [0..<num] None))"

subsection \<open>The archive\<close>

text \<open>\<open>int(b, 16)\<close> of bytes: ASCII white space around it, a sign, a prefix, underscores between digits.\<close>

definition bytes_int16 :: "bytes \<Rightarrow> int option" where
  "bytes_int16 s =
     (let t = dropWhile ascii_space (rev (dropWhile ascii_space (rev s)));
          u = (if take 1 t \<in> {''-'', ''+''} then tl t else t);
          v = (if take 2 u \<in> {''0x'', ''0X''} then prefixed 16 (drop 2 u) else base_num 16 u)
      in if take 1 t = ''-'' then map_option uminus v else v)"

definition CPIO_MAGIC :: bytes where "CPIO_MAGIC = ''070701''"
definition CPIO_TRAILER :: string where "CPIO_TRAILER = ''TRAILER!!!''"

datatype cpio_refusal = Ran_off int | No_magic int | Malformed int | Name_range int int

record item =
  it_name :: string
  it_mode :: int
  it_size :: int
  it_rmaj :: int
  it_rmin :: int

text \<open>The thirteen fields of a header.\<close>

definition cpio_fields :: "bytes \<Rightarrow> int list option" where
  "cpio_fields hdr =
     (let fs = map (\<lambda>k. bytes_int16 (slice hdr (6 + 8 * k) (6 + 8 * (k + 1)))) [0..<13] in
      if None \<in> set fs then None else Some (map the fs))"

definition align4 :: "int \<Rightarrow> int" where
  "align4 pos = pos + (- pos) mod 4"

text \<open>
  The loop of \<open>parse_cpio\<close>; None is a run that does not end.  \<open>decode\<close> stands for the decoding of UTF-8 with replacement,
  under which no other bytes read as the trailer's name.
\<close>

partial_function (option) cpio_loop ::
    "(bytes \<Rightarrow> string) \<Rightarrow> bytes \<Rightarrow> int \<Rightarrow> int \<Rightarrow> item list \<Rightarrow> (cpio_refusal + item list) option" where
  "cpio_loop decode blob limit pos out =
     (if pos + 110 > limit then Some (Inl (Ran_off pos))
      else let hdr = py_slice blob pos (pos + 110) in
        if take 6 hdr \<noteq> CPIO_MAGIC then Some (Inl (No_magic pos))
        else (case cpio_fields hdr of
           None \<Rightarrow> Some (Inl (Malformed pos))
         | Some f \<Rightarrow>
             let mode = f ! 1; fsize = f ! 6; rmaj = f ! 9; rmin = f ! 10; nsize = f ! 11 in
             if nsize = 0 \<or> pos + 110 + nsize > limit then Some (Inl (Name_range pos nsize))
             else let name = py_slice blob (pos + 110) (pos + 110 + nsize - 1) in
               if name = CPIO_TRAILER then Some (Inr out)
               else cpio_loop decode blob limit (align4 (align4 (pos + 110 + nsize) + fsize))
                 (out @ [\<lparr>it_name = decode name, it_mode = mode, it_size = fsize, it_rmaj = rmaj, it_rmin = rmin\<rparr>])))"

definition parse_cpio :: "(bytes \<Rightarrow> string) \<Rightarrow> bytes \<Rightarrow> nat \<Rightarrow> nat \<Rightarrow> (cpio_refusal + item list) option" where
  "parse_cpio decode blob start sz = cpio_loop decode blob (int (start + sz)) (int start) []"

subsection \<open>The comparison\<close>

text \<open>The shape of an entry: its type, its permissions, its device.  The constants are 0o170000, 0o7777 and the types.\<close>

definition S_IFMT :: int where "S_IFMT = 0xF000"

definition KIND_IFMT :: "ikind \<Rightarrow> string \<Rightarrow> int" where
  "KIND_IFMT k t = (case k of Dir \<Rightarrow> 0x4000 | File \<Rightarrow> 0x8000 | Slink \<Rightarrow> 0xA000 | Nod \<Rightarrow> if t = ''c'' then 0x2000 else 0x6000)"

type_synonym shape = "int \<times> int \<times> int \<times> int"

definition entry_shape :: "entry \<Rightarrow> shape" where
  "entry_shape e =
     (case (if en_kind e = Nod then node_parts (en_source e) else None) of
        Some (t, maj, mnr) \<Rightarrow> (KIND_IFMT Nod t, octal (en_mode e), maj, mnr)
      | None \<Rightarrow> (KIND_IFMT (en_kind e) [], octal (en_mode e), 0, 0))"

definition declared_shape :: "entry list \<Rightarrow> (string \<times> shape) list" where
  "declared_shape es = map (\<lambda>e. (en_path e, entry_shape e)) es"

definition item_shape :: "item \<Rightarrow> shape" where
  "item_shape i = (it_mode i AND S_IFMT, it_mode i AND 0xFFF, it_rmaj i, it_rmin i)"

text \<open>A dictionary that is filled in order: the last entry of a name counts.\<close>

definition dict :: "(string \<times> shape) list \<Rightarrow> string \<Rightarrow> shape option" where
  "dict xs = map_of (rev xs)"

datatype difference = Unexpected | Missing | Differs shape shape

definition differences :: "(string \<times> shape) list \<Rightarrow> (string \<times> shape) list \<Rightarrow> (string \<times> difference) list" where
  "differences want have =
     List.map_filter (\<lambda>p.
       case (dict want p, dict have p) of
         (None, _) \<Rightarrow> Some (p, Unexpected)
       | (Some w, None) \<Rightarrow> Some (p, Missing)
       | (Some w, Some h) \<Rightarrow> if w \<noteq> h then Some (p, Differs w h) else None)
     (sort (remdups (map fst want @ map fst have)))"

datatype verify_refusal = Decl init_refusal | Elf elf_refusal | Cpio cpio_refusal | No_ramfs

datatype verdict = Spec_changed | Matches nat | Fails "(string \<times> difference) list"

text \<open>
  \<open>verify\<close> after its options: the text of the declaration, the bytes of the image, the specification it was built from
  where one is named.  None is a run that does not end.
\<close>

definition cmd_verify ::
    "(bytes \<Rightarrow> string) \<Rightarrow> host \<Rightarrow> string \<Rightarrow> string \<Rightarrow> string \<Rightarrow> bytes \<Rightarrow> string option \<Rightarrow> (verify_refusal + verdict) option" where
  "cmd_verify decode h unit_dir repo decl img built_spec =
     (case load_entries h unit_dir repo decl of
        Inl e \<Rightarrow> Some (Inl (Decl e))
      | Inr es \<Rightarrow>
          if built_spec \<noteq> None \<and> built_spec \<noteq> Some (emit_spec es) then Some (Inr Spec_changed)
          else (case elf_section img ''.init.ramfs'' of
             Inl e \<Rightarrow> Some (Inl (Elf e))
           | Inr None \<Rightarrow> Some (Inl No_ramfs)
           | Inr (Some (off, sz)) \<Rightarrow>
               (case parse_cpio decode img off sz of
                  None \<Rightarrow> None
                | Some (Inl e) \<Rightarrow> Some (Inl (Cpio e))
                | Some (Inr items) \<Rightarrow>
                    let bad = differences (declared_shape es) (map (\<lambda>i. (it_name i, item_shape i)) items) in
                    Some (Inr (if bad = [] then Matches (length items) else Fails bad)))))"

fun verify_status :: "verify_refusal + verdict \<Rightarrow> nat" where
  "verify_status (Inl (Elf Uncaught_index)) = 1"
| "verify_status (Inl e) = 3"
| "verify_status (Inr Spec_changed) = 2"
| "verify_status (Inr (Matches _)) = 0"
| "verify_status (Inr (Fails _)) = 1"

subsection \<open>The writers of the controls\<close>

type_synonym member = "string \<times> nat \<times> bytes \<times> nat \<times> nat"

definition padded :: "bytes \<Rightarrow> bytes" where
  "padded out = out @ replicate ((4 - length out mod 4) mod 4) (CHR 0x00)"

definition cpio_header :: "nat \<Rightarrow> nat \<Rightarrow> nat \<Rightarrow> nat \<Rightarrow> nat \<Rightarrow> nat \<Rightarrow> bytes" where
  "cpio_header ino mode sz rmaj rmin nsize =
     CPIO_MAGIC @ concat (map (hexU 8) [ino, mode, 0, 0, 1, 0, sz, 0, 0, rmaj, rmin, nsize, 0])"

fun cpio_items :: "nat \<Rightarrow> bytes \<Rightarrow> member list \<Rightarrow> bytes" where
  "cpio_items ino out [] = out"
| "cpio_items ino out ((name, mode, data, rmaj, rmin) # ms) =
     cpio_items (ino + 1)
       (padded (padded (out @ cpio_header ino mode (length data) rmaj rmin (length name + 1) @ name @ [CHR 0x00]) @ data)) ms"

definition cpio_newc :: "member list \<Rightarrow> bytes" where
  "cpio_newc ms = cpio_items 1 [] (ms @ [(CPIO_TRAILER, 0, [], 0, 0)])"

definition shdr_bytes :: "nat \<Rightarrow> nat \<Rightarrow> nat \<Rightarrow> nat \<Rightarrow> nat \<Rightarrow> bytes" where
  "shdr_bytes nm typ off sz align = concat (map (be_bytes 4) [nm, typ, 0, 0, off, sz, 0, 0, align, 0])"

text \<open>\<open>_elf_with_section\<close> in the byte order of the kernel.\<close>

definition elf_with_section :: "bytes \<Rightarrow> bytes \<Rightarrow> bytes" where
  "elf_with_section secname payload =
     (let names = [CHR 0x00] @ secname @ [CHR 0x00] @ ''.shstrtab'' @ [CHR 0x00];
          off_names = 52 + length (padded payload);
          off_sh = off_names + length (padded names);
          eh = CHR 0x7F # ''ELF'' @ [CHR 0x01, CHR 0x02, CHR 0x01] @ replicate 9 (CHR 0x00)
            @ be_bytes 2 2 @ be_bytes 2 8 @ be_bytes 4 1 @ be_bytes 4 0 @ be_bytes 4 0 @ be_bytes 4 off_sh
            @ be_bytes 4 0 @ concat (map (be_bytes 2) [52, 32, 0, 40, 3, 2])
      in eh @ padded payload @ padded names @ shdr_bytes 0 0 0 0 0 @ shdr_bytes 1 1 52 (length payload) 4
         @ shdr_bytes (1 + length secname + 1) 3 off_names (length names) 1)"

subsection \<open>Reading what the writer wrote\<close>

lemma bytes_int16_hexU: "bytes_int16 (hexU w n) = Some (int n)"
proof -
  have d: "list_all is_hex (hexU w n)" using hexU_hex by (auto simp: list_all_iff)
  have x: "\<not> ascii_space c" if "is_hex c" for c
    using that by (auto simp: is_hex_def is_hex_lower_def is_digit_def ascii_space_def Let_def)
  have w: "dropWhile ascii_space u = u" if "list_all is_hex u" for u using that x by (cases u) auto
  have t: "dropWhile ascii_space (rev (dropWhile ascii_space (rev (hexU w n)))) = hexU w n"
    using w [of "hexU w n"] w [of "rev (hexU w n)"] d by simp
  have s: "strip (hexU w n) = hexU w n" using d hex_no_space by (intro strip_free) (auto simp: list_all_iff)
  have "bytes_int16 (hexU w n) = py_int 16 (hexU w n)"
    unfolding bytes_int16_def py_int_def by (simp only: t s simp_thms)
  then show ?thesis by (simp only: py_int_hexU)
qed

definition pad :: "nat \<Rightarrow> nat" where
  "pad n = (4 - n mod 4) mod 4"

lemma pad_split: "r < 4 \<Longrightarrow> pad (4 * q + r) = (if r = 0 then 0 else 4 - r)"
  by (simp add: pad_def)

lemma quarter: "\<exists>q r. r < 4 \<and> n = 4 * q + (r :: nat)"
  by (rule exI [of _ "n div 4"], rule exI [of _ "n mod 4"]) simp

lemma pad_dvd: "4 dvd n + pad n"
proof -
  obtain q r where "r < 4" "n = 4 * q + r" using quarter by blast
  then have "n + pad n = 4 * (q + (if r = 0 then 0 else 1))" by (simp add: pad_split)
  then show ?thesis by (metis dvd_triv_left)
qed

lemma pad_shift: "4 dvd m \<Longrightarrow> pad (m + n) = pad n"
  by (auto simp: pad_def elim!: dvdE)

lemma align4_int: "align4 (int n) = int (n + pad n)"
proof -
  obtain q r where r: "r < 4" "n = 4 * q + r" using quarter by blast
  have "- int n = - int r + 4 * (- int q)" using r(2) by simp
  then have "(- int n) mod 4 = (- int r) mod 4" by (simp only: mod_mult_self2)
  also have "\<dots> = int (if r = 0 then 0 else 4 - r)"
  proof -
    from r(1) consider "r = 0" | "r = 1" | "r = 2" | "r = 3" by linarith
    then show ?thesis by cases simp_all
  qed
  finally show ?thesis using r by (simp only: align4_def pad_split of_nat_add)
qed

lemma padded_eq: "padded b = b @ replicate (pad (length b)) (CHR 0x00)"
  by (simp add: padded_def pad_def)

lemma padded_append: "4 dvd length a \<Longrightarrow> padded (a @ b) = a @ padded b"
  by (simp add: padded_eq pad_shift)

lemma padded_length: "4 dvd length (padded b)"
  using pad_dvd by (simp add: padded_eq)

fun cpio_entry :: "nat \<Rightarrow> member \<Rightarrow> bytes" where
  "cpio_entry ino (nm, mode, data, rmaj, rmin) =
     padded (padded (cpio_header ino mode (length data) rmaj rmin (length nm + 1) @ nm @ [CHR 0x00]) @ data)"

fun cpio_cat :: "nat \<Rightarrow> member list \<Rightarrow> bytes" where
  "cpio_cat ino [] = []"
| "cpio_cat ino (m # ms) = cpio_entry ino m @ cpio_cat (ino + 1) ms"

lemma cpio_entry_dvd: "4 dvd length (cpio_entry ino m)"
  by (cases m) (simp add: padded_length)

lemma cpio_items_cat: "4 dvd length out \<Longrightarrow> cpio_items ino out ms = out @ cpio_cat ino ms"
proof (induction ms arbitrary: ino out)
  case (Cons m ms)
  obtain nm mode data rmaj rmin where m: "m = (nm, mode, data, rmaj, rmin)" by (cases m)
  have "padded (padded (out @ cpio_header ino mode (length data) rmaj rmin (length nm + 1) @ nm @ [CHR 0x00]) @ data) = out @ cpio_entry ino m"
    using Cons.prems by (simp only: m cpio_entry.simps padded_append append_assoc)
  then have "cpio_items ino out (m # ms) = cpio_items (ino + 1) (out @ cpio_entry ino m) ms"
    by (simp only: m cpio_items.simps)
  moreover have "4 dvd length (out @ cpio_entry ino m)" using Cons.prems cpio_entry_dvd by (simp add: dvd_add)
  ultimately show ?case using Cons.IH [of "out @ cpio_entry ino m" "ino + 1"] by simp
qed simp

definition header_fits :: "nat \<Rightarrow> member \<Rightarrow> bool" where
  "header_fits ino m =
     (case m of (nm, mode, data, rmaj, rmin) \<Rightarrow> list_all (\<lambda>n. n < 2 ^ 32) [ino, mode, length data, rmaj, rmin, length nm + 1])"

lemma header_read:
  assumes "list_all (\<lambda>n. n < 2 ^ 32) [ino, mode, sz, rmaj, rmin, nsize]"
  shows "length (cpio_header ino mode sz rmaj rmin nsize) = 110" "take 6 (cpio_header ino mode sz rmaj rmin nsize) = CPIO_MAGIC"
    "cpio_fields (cpio_header ino mode sz rmaj rmin nsize) = Some (map int [ino, mode, 0, 0, 1, 0, sz, 0, 0, rmaj, rmin, nsize, 0])"
proof -
  let ?ns = "[ino, mode, 0, 0, 1, 0, sz, 0, 0, rmaj, rmin, nsize, 0]"
  have l: "length (hexU 8 n) = 8" if "n \<in> set ?ns" for n
    using that assms by (intro length_hexU) auto
  have lc: "length (concat (map (hexU 8) ns)) = 8 * length ns" if "set ns \<subseteq> set ?ns" for ns
    using that
  proof (induction ns)
    case (Cons n ns)
    have "length (hexU 8 n) = 8" using Cons.prems by (intro l) (simp only: list.set insert_subset)
    moreover have "length (concat (map (hexU 8) ns)) = 8 * length ns" using Cons.prems by (intro Cons.IH) (simp only: list.set insert_subset)
    ultimately show ?case by simp
  qed simp
  have g: "slice (concat (map (hexU 8) ns)) (8 * k) (8 * (k + 1)) = hexU 8 (ns ! k)" if "k < length ns" "set ns \<subseteq> set ?ns" for ns k
    using that
  proof (induction ns arbitrary: k)
    case (Cons n ns)
    have n: "length (hexU 8 n) = 8" using Cons.prems(2) by (intro l) (simp only: list.set insert_subset)
    show ?case
    proof (cases k)
      case 0
      then show ?thesis using n by (simp add: slice_here)
    next
      case (Suc j)
      then show ?thesis using n Cons.IH [of j] Cons.prems by (simp add: slice_skip)
    qed
  qed simp
  have f: "slice (cpio_header ino mode sz rmaj rmin nsize) (6 + 8 * k) (6 + 8 * (k + 1)) = hexU 8 (?ns ! k)" if "k < 13" for k
  proof -
    have "length CPIO_MAGIC = 6" by (simp add: CPIO_MAGIC_def)
    then have "slice (CPIO_MAGIC @ r) (6 + i) (6 + j) = slice r i j" for r i j by (simp add: slice_skip)
    moreover have "k < length ?ns" using that by simp
    ultimately show ?thesis unfolding cpio_header_def by (simp only: g subset_refl)
  qed
  have "length ?ns = 13" by simp
  then show "length (cpio_header ino mode sz rmaj rmin nsize) = 110"
    using lc [of ?ns] unfolding cpio_header_def length_append by (simp only: CPIO_MAGIC_def subset_refl) simp
  show "take 6 (cpio_header ino mode sz rmaj rmin nsize) = CPIO_MAGIC" by (simp add: cpio_header_def CPIO_MAGIC_def)
  have "map (\<lambda>k. bytes_int16 (slice (cpio_header ino mode sz rmaj rmin nsize) (6 + 8 * k) (6 + 8 * (k + 1)))) [0..<13]
      = map (\<lambda>k. Some (int (?ns ! k))) [0..<13]"
    by (rule map_cong [OF refl]) (simp only: f bytes_int16_hexU set_upt atLeastLessThan_iff)
  also have "\<dots> = map Some (map int ?ns)" by (simp add: upt_rec)
  finally have m: "map (\<lambda>k. bytes_int16 (slice (cpio_header ino mode sz rmaj rmin nsize) (6 + 8 * k) (6 + 8 * (k + 1)))) [0..<13] = map Some (map int ?ns)" .
  show "cpio_fields (cpio_header ino mode sz rmaj rmin nsize) = Some (map int ?ns)"
    unfolding cpio_fields_def Let_def m by simp
qed

definition item_of :: "(bytes \<Rightarrow> string) \<Rightarrow> member \<Rightarrow> item" where
  "item_of decode m =
     (case m of (nm, mode, data, rmaj, rmin) \<Rightarrow>
        \<lparr>it_name = decode nm, it_mode = int mode, it_size = int (length data), it_rmaj = int rmaj, it_rmin = int rmin\<rparr>)"

lemma slice_mid: "length p = i \<Longrightarrow> i + length x = j \<Longrightarrow> slice (p @ x @ r) i j = x"
  by (auto simp: slice_def)

text \<open>One entry at a four-byte boundary.\<close>

lemma cpio_step:
  assumes m: "m = (nm, mode, data, rmaj, rmin)" and fit: "header_fits ino m" and p: "4 dvd length p"
    and lim: "length p + length (cpio_entry ino m) \<le> limit"
  shows "cpio_loop decode (p @ cpio_entry ino m @ r) (int limit) (int (length p)) out =
     (if nm = CPIO_TRAILER then Some (Inr out)
      else cpio_loop decode (p @ cpio_entry ino m @ r) (int limit) (int (length (p @ cpio_entry ino m))) (out @ [item_of decode m]))"
proof -
  let ?h = "cpio_header ino mode (length data) rmaj rmin (length nm + 1)"
  let ?n1 = "pad (110 + length nm + 1)"
  let ?a = "110 + (length nm + 1) + ?n1"
  let ?b = "p @ cpio_entry ino m @ r"
  have fs: "list_all (\<lambda>n. n < 2 ^ 32) [ino, mode, length data, rmaj, rmin, length nm + 1]" using fit by (simp add: header_fits_def m)
  note h = header_read [OF fs]
  have l1: "length (?h @ nm @ [CHR 0x00]) = 110 + length nm + 1" by (simp only: length_append h(1)) simp
  have l2: "length ((?h @ nm @ [CHR 0x00] @ replicate ?n1 (CHR 0x00)) @ data) = ?a + length data"
    by (simp only: length_append h(1) length_replicate) simp
  have e1: "padded (?h @ nm @ [CHR 0x00]) = ?h @ nm @ [CHR 0x00] @ replicate ?n1 (CHR 0x00)"
    by (simp only: padded_eq l1 append_assoc)
  have e: "cpio_entry ino m = ?h @ nm @ [CHR 0x00] @ replicate ?n1 (CHR 0x00) @ data @ replicate (pad (?a + length data)) (CHR 0x00)"
    unfolding m cpio_entry.simps e1 padded_eq [of "(?h @ nm @ [CHR 0x00] @ replicate ?n1 (CHR 0x00)) @ data"] l2
    by (simp only: append_assoc)
  have l: "length (cpio_entry ino m) = ?a + length data + pad (?a + length data)"
    by (simp only: e length_append length_replicate h(1)) simp
  let ?pos = "int (length p)"
  have c1: "\<not> ?pos + 110 > int limit" using lim l by simp
  have c2: "py_slice ?b ?pos (?pos + 110) = ?h"
    using slice_mid [of p "length p" ?h "length p + 110"] h(1) by (simp add: py_slice_nonneg e nat_add_distrib)
  have c3: "\<not> (int (length nm + 1) = 0 \<or> ?pos + 110 + int (length nm + 1) > int limit)" using lim l by simp
  have c4: "py_slice ?b (?pos + 110) (?pos + 110 + int (length nm + 1) - 1) = nm"
  proof -
    have "?pos + 110 + int (length nm + 1) - 1 = int (length p + 110 + length nm)" by simp
    then have "py_slice ?b (?pos + 110) (?pos + 110 + int (length nm + 1) - 1) = slice ?b (length p + 110) (length p + 110 + length nm)"
      by (simp add: py_slice_nonneg nat_add_distrib add.assoc add.commute add.left_commute)
    also have "\<dots> = nm" unfolding e using slice_mid [of "p @ ?h" "length p + 110" nm "length p + 110 + length nm"] h(1) by simp
    finally show ?thesis .
  qed
  have c5: "align4 (align4 (?pos + 110 + int (length nm + 1)) + int (length data)) = int (length (p @ cpio_entry ino m))"
  proof -
    have "?pos + 110 + int (length nm + 1) = int (length p + (110 + length nm + 1))" by simp
    then have "align4 (?pos + 110 + int (length nm + 1)) + int (length data) = int (length p + (?a + length data))"
      by (simp only: align4_int pad_shift [OF p])
    then have "align4 (align4 (?pos + 110 + int (length nm + 1)) + int (length data)) = int (length p + (?a + length data) + pad (?a + length data))"
      by (simp only: align4_int pad_shift [OF p])
    then show ?thesis by (simp add: l)
  qed
  let ?f = "map int [ino, mode, 0, 0, 1, 0, length data, 0, 0, rmaj, rmin, length nm + 1, 0]"
  have f: "?f ! 1 = int mode" "?f ! 6 = int (length data)" "?f ! 9 = int rmaj" "?f ! 10 = int rmin" "?f ! 11 = int (length nm + 1)"
    by simp_all
  have it: "item_of decode m = \<lparr>it_name = decode nm, it_mode = int mode, it_size = int (length data), it_rmaj = int rmaj, it_rmin = int rmin\<rparr>"
    by (simp add: m item_of_def)
  show ?thesis
    by (subst cpio_loop.simps) (simp only: c1 c2 h(2,3) c3 c4 c5 f it Let_def if_False option.case simp_thms)
qed

lemma cpio_entries:
  assumes "4 dvd length p" "\<forall>k < length ms. header_fits (ino + k) (ms ! k) \<and> fst (ms ! k) \<noteq> CPIO_TRAILER" "ino + length ms < 2 ^ 32"
  shows "cpio_loop decode (p @ cpio_cat ino (ms @ [(CPIO_TRAILER, 0, [], 0, 0)]) @ r)
      (int (length p + length (cpio_cat ino (ms @ [(CPIO_TRAILER, 0, [], 0, 0)])))) (int (length p)) out
    = Some (Inr (out @ map (item_of decode) ms))"
  using assms
proof (induction ms arbitrary: ino p out)
  case Nil
  have "header_fits ino (CPIO_TRAILER, 0, [], 0, 0)" using Nil.prems(3) by (simp add: header_fits_def CPIO_TRAILER_def)
  note st = cpio_step [OF refl this Nil.prems(1) order_refl, of decode r out]
  then show ?case by simp
next
  case (Cons m ms)
  obtain nm mode data rmaj rmin where m: "m = (nm, mode, data, rmaj, rmin)" by (cases m)
  let ?t = "[(CPIO_TRAILER, 0, [], 0, 0)]"
  have fit: "header_fits ino m" "nm \<noteq> CPIO_TRAILER" using Cons.prems(2) m by (auto dest: spec [of _ 0])
  have rest: "\<forall>k < length ms. header_fits (ino + 1 + k) (ms ! k) \<and> fst (ms ! k) \<noteq> CPIO_TRAILER"
  proof (intro allI impI)
    fix k assume "k < length ms"
    with Cons.prems(2) [rule_format, of "Suc k"] show "header_fits (ino + 1 + k) (ms ! k) \<and> fst (ms ! k) \<noteq> CPIO_TRAILER" by simp
  qed
  have d: "4 dvd length (p @ cpio_entry ino m)" using Cons.prems(1) cpio_entry_dvd by (simp add: dvd_add)
  have n: "ino + 1 + length ms < 2 ^ 32" using Cons.prems(3) by simp
  have lim: "length p + length (cpio_entry ino m) \<le> length p + length (cpio_cat ino ((m # ms) @ ?t))" by simp
  note st = cpio_step [OF m fit(1) Cons.prems(1) lim, of decode "cpio_cat (ino + 1) (ms @ ?t) @ r" out]
  note ih = Cons.IH [OF d rest n, of "out @ [item_of decode m]"]
  show ?case using st ih fit(2) by (simp add: add.assoc)
qed

lemma cpio_cat_bounds:
  "length ms \<le> length (cpio_cat ino ms) \<and> (\<forall>m \<in> set ms. length (fst m) + length (fst (snd (snd m))) + 1 \<le> length (cpio_cat ino ms))"
proof (induction ms arbitrary: ino)
  case (Cons m ms)
  obtain nm mode data rmaj rmin where m: "m = (nm, mode, data, rmaj, rmin)" by (cases m)
  have "length nm + length data + 1 \<le> length (cpio_entry ino m)" by (simp add: m padded_eq)
  then show ?case using Cons.IH [of "ino + 1"] m by fastforce
qed simp

lemma cpio_newc_cat: "cpio_newc ms = cpio_cat 1 (ms @ [(CPIO_TRAILER, 0, [], 0, 0)])"
  by (simp add: cpio_newc_def cpio_items_cat)

lemma parse_written:
  assumes "4 dvd length p" "\<forall>m \<in> set ms. case m of (nm, mode, data, rmaj, rmin) \<Rightarrow> mode < 2 ^ 32 \<and> rmaj < 2 ^ 32 \<and> rmin < 2 ^ 32 \<and> nm \<noteq> CPIO_TRAILER"
    and "length (cpio_newc ms) < 2 ^ 32"
  shows "parse_cpio decode (p @ cpio_newc ms @ r) (length p) (length (cpio_newc ms)) = Some (Inr (map (item_of decode) ms))"
proof -
  let ?t = "[(CPIO_TRAILER, 0, [], 0, 0)]"
  note c = cpio_newc_cat [of ms]
  note b = cpio_cat_bounds [of "ms @ ?t" 1, folded c]
  have "header_fits (1 + k) (ms ! k) \<and> fst (ms ! k) \<noteq> CPIO_TRAILER" if k: "k < length ms" for k
  proof -
    obtain nm mode data rmaj rmin where m: "ms ! k = (nm, mode, data, rmaj, rmin)" by (cases "ms ! k")
    have i: "ms ! k \<in> set ms" using k by simp
    with b have "length nm + length data + 1 \<le> length (cpio_newc ms)" "length ms < length (cpio_newc ms)"
      by (force simp: m)+
    with assms(2) [rule_format, OF i] assms(3) k show ?thesis by (simp add: m header_fits_def)
  qed
  moreover have "1 + length ms < 2 ^ 32" using b assms(3) by simp
  ultimately show ?thesis
    unfolding parse_cpio_def c using cpio_entries [OF assms(1), of ms 1 decode r "[]"] by (simp add: c)
qed

text \<open>The section of a written ELF file.\<close>

definition elf_head :: "nat \<Rightarrow> bytes" where
  "elf_head off_sh = CHR 0x7F # ''ELF'' @ [CHR 0x01, CHR 0x02, CHR 0x01] @ replicate 9 (CHR 0x00)
            @ be_bytes 2 2 @ be_bytes 2 8 @ be_bytes 4 1 @ be_bytes 4 0 @ be_bytes 4 0 @ be_bytes 4 off_sh
            @ be_bytes 4 0 @ concat (map (be_bytes 2) [52, 32, 0, 40, 3, 2])"

lemma field_at_be: "length p = i \<Longrightarrow> i < 256 ^ 0 + i + k \<Longrightarrow> n < 256 ^ k \<Longrightarrow> field_at True k (p @ be_bytes k n @ r) i = n"
  by (simp add: field_at_def slice_mid be_val_be_bytes)

lemma elf_head_fields:
  assumes "off < 2 ^ 32"
  shows "length (elf_head off) = 52" "take 4 (elf_head off @ r) = CHR 0x7F # ''ELF''" "(elf_head off @ r) ! 4 = CHR 0x01" "(elf_head off @ r) ! 5 = CHR 0x02"
    "field_at True 4 (elf_head off @ r) 0x20 = off" "field_at True 2 (elf_head off @ r) 0x2E = 40"
    "field_at True 2 (elf_head off @ r) 0x30 = 3" "field_at True 2 (elf_head off @ r) 0x32 = 2"
proof -
  show "length (elf_head off) = 52" by (simp add: elf_head_def)
  show "take 4 (elf_head off @ r) = CHR 0x7F # ''ELF''" "(elf_head off @ r) ! 4 = CHR 0x01" "(elf_head off @ r) ! 5 = CHR 0x02"
    by (simp_all add: elf_head_def)
  let ?p = "CHR 0x7F # ''ELF'' @ [CHR 0x01, CHR 0x02, CHR 0x01] @ replicate 9 (CHR 0x00) @ be_bytes 2 2 @ be_bytes 2 8 @ be_bytes 4 1 @ be_bytes 4 0 @ be_bytes 4 0"
  let ?q = "be_bytes 4 off @ be_bytes 4 0 @ be_bytes 2 52 @ be_bytes 2 32 @ be_bytes 2 0"
  have p: "length ?p = 32" by simp
  have e: "elf_head off = ?p @ ?q @ be_bytes 2 40 @ be_bytes 2 3 @ be_bytes 2 2" by (simp add: elf_head_def)
  have o: "off < 256 ^ 4" using assms by simp
  show "field_at True 4 (elf_head off @ r) 0x20 = off"
    unfolding e append_assoc using p o by (intro field_at_be) simp_all
  show "field_at True 2 (elf_head off @ r) 0x2E = 40"
    using field_at_be [of "?p @ ?q" 46 2 40 "be_bytes 2 3 @ be_bytes 2 2 @ r"] unfolding e append_assoc by simp
  show "field_at True 2 (elf_head off @ r) 0x30 = 3"
    using field_at_be [of "?p @ ?q @ be_bytes 2 40" 48 2 3 "be_bytes 2 2 @ r"] unfolding e append_assoc by simp
  show "field_at True 2 (elf_head off @ r) 0x32 = 2"
    using field_at_be [of "?p @ ?q @ be_bytes 2 40 @ be_bytes 2 3" 50 2 2 r] unfolding e append_assoc by simp
qed

lemma shdr_fields:
  assumes "length p = o1" "nm < 2 ^ 32" "off < 2 ^ 32" "sz < 2 ^ 32"
  shows "field_at True 4 (p @ shdr_bytes nm typ off sz al @ r) o1 = nm"
    "field_at True 4 (p @ shdr_bytes nm typ off sz al @ r) (o1 + 16) = off"
    "field_at True 4 (p @ shdr_bytes nm typ off sz al @ r) (o1 + 20) = sz"
  using field_at_be [of p o1 4 nm "be_bytes 4 typ @ be_bytes 4 0 @ be_bytes 4 0 @ be_bytes 4 off @ be_bytes 4 sz @ be_bytes 4 0 @ be_bytes 4 0 @ be_bytes 4 al @ be_bytes 4 0 @ r"]
    field_at_be [of "p @ be_bytes 4 nm @ be_bytes 4 typ @ be_bytes 4 0 @ be_bytes 4 0" "o1 + 16" 4 off "be_bytes 4 sz @ be_bytes 4 0 @ be_bytes 4 0 @ be_bytes 4 al @ be_bytes 4 0 @ r"]
    field_at_be [of "p @ be_bytes 4 nm @ be_bytes 4 typ @ be_bytes 4 0 @ be_bytes 4 0 @ be_bytes 4 off" "o1 + 20" 4 sz "be_bytes 4 0 @ be_bytes 4 0 @ be_bytes 4 al @ be_bytes 4 0 @ r"]
    assms by (simp_all add: shdr_bytes_def)

lemma shdr_length: "length (shdr_bytes nm typ off sz al) = 40"
  by (simp add: shdr_bytes_def)

lemma elf_written:
  assumes "length payload + 1024 \<le> 2 ^ 32"
  shows "\<exists>r. elf_with_section ''.init.ramfs'' payload = elf_head (76 + length (padded payload)) @ payload @ r"
    and "elf_section (elf_with_section ''.init.ramfs'' payload) ''.init.ramfs'' = Inr (Some (52, length payload))"
proof -
  let ?N = "52 + length (padded payload)"
  let ?names = "padded ([CHR 0x00] @ ''.init.ramfs'' @ [CHR 0x00] @ ''.shstrtab'' @ [CHR 0x00])"
  let ?s0 = "shdr_bytes 0 0 0 0 0" and ?s1 = "shdr_bytes 1 1 52 (length payload) 4" and ?s2 = "shdr_bytes 13 3 ?N 23 1"
  let ?h = "elf_head (76 + length (padded payload))" and ?p = "padded payload"
  have nl: "length ?names = 24" by (simp add: padded_def)
  have n1: "?N + length ?names = 76 + length ?p" using nl by linarith
  have n2: "1 + length ''.init.ramfs'' + 1 = 13" by simp
  have n3: "length ([CHR 0x00] @ ''.init.ramfs'' @ [CHR 0x00] @ ''.shstrtab'' @ [CHR 0x00]) = 23" by simp
  have e: "elf_with_section ''.init.ramfs'' payload = ?h @ ?p @ ?names @ ?s0 @ ?s1 @ ?s2"
    unfolding elf_with_section_def Let_def elf_head_def n1 n2 n3 by (simp only: append_assoc)
  then show "\<exists>r. elf_with_section ''.init.ramfs'' payload = ?h @ payload @ r"
    unfolding padded_eq [of payload] by auto
  have pl: "length ?p \<le> length payload + 3"
    using mod_less_divisor [of 4 "4 - length payload mod 4"] by (simp add: padded_eq pad_def)
  let ?b = "?h @ ?p @ ?names @ ?s0 @ ?s1 @ ?s2"
  have o: "76 + length ?p < 2 ^ 32" using pl assms by simp
  note h = elf_head_fields(1) [OF o] elf_head_fields(2-) [OF o, of "?p @ ?names @ ?s0 @ ?s1 @ ?s2"]
  have bl: "length ?b = 196 + length ?p" using h(1) nl by (simp add: shdr_length)
  have hd: "header_at True ?b (76 + length ?p) 40 i = Inr (76 + length ?p + i * 40)" if "i < 3" for i
    using that bl by (auto simp: header_at_def)
  have f0: "field_at True 4 ?b (76 + length ?p + 0 * 40) = 0"
    using shdr_fields(1) [of "?h @ ?p @ ?names" "76 + length ?p" 0 0 0 0 0 "?s1 @ ?s2"] h(1) nl by simp
  have f1: "field_at True 4 ?b (76 + length ?p + 1 * 40) = 1" "field_at True 4 ?b (76 + length ?p + 1 * 40 + 16) = 52"
    "field_at True 4 ?b (76 + length ?p + 1 * 40 + 20) = length payload"
    using shdr_fields [of "?h @ ?p @ ?names @ ?s0" "76 + length ?p + 1 * 40" 1 52 "length payload" 1 4 "?s2"] h(1) nl assms by (simp_all add: shdr_length)
  have f2: "field_at True 4 ?b (76 + length ?p + 2 * 40) = 13" "field_at True 4 ?b (76 + length ?p + 2 * 40 + 16) = ?N"
    using shdr_fields [of "?h @ ?p @ ?names @ ?s0 @ ?s1" "76 + length ?p + 2 * 40" 13 ?N 23 3 1 "[]"] h(1) nl o by (simp_all add: shdr_length)
  have st: "section_text ?b (?N + k) = takeWhile (\<lambda>c. c \<noteq> CHR 0x00) (take 64 (drop k (?names @ ?s0 @ ?s1 @ ?s2)))" for k
    using h(1) by (simp add: section_text_def slice_def)
  have t: "section_text ?b (?N + 0) = []" "section_text ?b (?N + 1) = ''.init.ramfs''" "section_text ?b (?N + 13) = ''.shstrtab''"
    unfolding st by (simp_all add: padded_def)
  show "elf_section (elf_with_section ''.init.ramfs'' payload) ''.init.ramfs'' = Inr (Some (52, length payload))"
  proof -
    have g: "take 4 ?b = CHR 0x7F # ''ELF''" "\<not> length ?b \<le> 4" "?b ! 4 = CHR 0x01" "\<not> length ?b \<le> 5" "\<not> length ?b < 0x34"
      "(?b ! 5 = CHR 0x02) = True" "field_at True 4 ?b 0x20 = 76 + length ?p" "field_at True 2 ?b 0x2E = 40" "field_at True 2 ?b 0x30 = 3"
      "field_at True 2 ?b 0x32 = 2" "\<not> (76 + length ?p = 0 \<or> (3 :: nat) = 0)" "\<not> (2 :: nat) \<ge> 3" "[0..<3] = [0, 1, 2]"
      using h bl by (simp_all add: upt_rec)
    have w: "\<not> 52 + length payload > length ?b" using bl padded_eq [of payload] by simp
    have ne: "[] \<noteq> ''.init.ramfs''" "''.shstrtab'' \<noteq> ''.init.ramfs''" by simp_all
    have hs: "header_at True ?b (76 + length ?p) 40 0 = Inr (76 + length ?p + 0 * 40)"
      "header_at True ?b (76 + length ?p) 40 1 = Inr (76 + length ?p + 1 * 40)" "header_at True ?b (76 + length ?p) 40 2 = Inr (76 + length ?p + 2 * 40)"
      by (rule hd, simp)+
    show ?thesis
      unfolding e elf_section_def
      by (simp only: g(1-6) Let_def not_True_eq_False if_True if_False simp_thms)
        (simp only: g(7-) hs sbind_simps f0 f1 f2 t w ne section_search.simps Let_def not_True_eq_False if_True if_False simp_thms)
  qed
qed

subsection \<open>What the comparison shows\<close>

lemma dict_None: "dict xs p = None \<longleftrightarrow> p \<notin> fst ` set xs"
  by (simp add: dict_def map_of_eq_None_iff)

lemma dict_Some: "dict xs p = Some v \<Longrightarrow> (p, v) \<in> set xs"
  unfolding dict_def by (drule map_of_SomeD) simp

lemma map_filter_Nil: "List.map_filter f xs = [] \<longleftrightarrow> (\<forall>x \<in> set xs. f x = None)"
  by (induction xs) (auto simp: map_filter_simps split: option.splits)

lemma differences_Nil: "differences want have = [] \<longleftrightarrow> dict want = dict have"
proof -
  have d: "(case (dict want p, dict have p) of
         (None, _) \<Rightarrow> Some (p, Unexpected)
       | (Some w, None) \<Rightarrow> Some (p, Missing)
       | (Some w, Some h) \<Rightarrow> if w \<noteq> h then Some (p, Differs w h) else None) = None
     \<longleftrightarrow> dict want p \<noteq> None \<and> dict want p = dict have p" for p
    by (auto split: option.split)
  have ks: "set (sort (remdups (map fst want @ map fst have))) = {p. dict want p \<noteq> None \<or> dict have p \<noteq> None}"
    using dict_None [of want] dict_None [of "have"] by auto
  have "differences want have = [] \<longleftrightarrow> (\<forall>p. dict want p \<noteq> None \<or> dict have p \<noteq> None \<longrightarrow> dict want p \<noteq> None \<and> dict want p = dict have p)"
    unfolding differences_def map_filter_Nil d ks by simp
  also have "\<dots> \<longleftrightarrow> dict want = dict have" unfolding fun_eq_iff by metis
  finally show ?thesis .
qed

definition shaped :: "item list \<Rightarrow> (string \<times> shape) list" where
  "shaped items = map (\<lambda>i. (it_name i, item_shape i)) items"

lemma verify_Matches:
  "cmd_verify decode h u repo decl img spec = Some (Inr (Matches n)) \<longleftrightarrow>
     (\<exists>es off sz items. load_entries h u repo decl = Inr es \<and> (spec = None \<or> spec = Some (emit_spec es))
        \<and> elf_section img ''.init.ramfs'' = Inr (Some (off, sz)) \<and> parse_cpio decode img off sz = Some (Inr items)
        \<and> n = length items \<and> dict (declared_shape es) = dict (shaped items))"
proof (cases "load_entries h u repo decl")
  case (Inr es)
  note l = Inr
  show ?thesis
  proof (cases "spec = None \<or> spec = Some (emit_spec es)")
    case True
    then have sp: "\<not> (spec \<noteq> None \<and> spec \<noteq> Some (emit_spec es))" by blast
    show ?thesis
    proof (cases "elf_section img ''.init.ramfs''")
      case (Inr found)
      note f = Inr
      show ?thesis
      proof (cases found)
        case (Some sec)
        obtain off sz where s: "sec = (off, sz)" by (cases sec)
        show ?thesis
        proof (cases "parse_cpio decode img off sz")
          case (Some res)
          then show ?thesis
            using \<open>found = Some sec\<close> l f s True
            by (cases res) (auto simp: cmd_verify_def sp differences_Nil Let_def shaped_def [symmetric] simp del: not_None_eq)
        qed (use Some l f s sp in \<open>simp add: cmd_verify_def\<close>)
      qed (use l f sp in \<open>simp add: cmd_verify_def\<close>)
    qed (use l sp in \<open>simp add: cmd_verify_def\<close>)
  qed (use l in \<open>simp add: cmd_verify_def\<close>)
qed (simp add: cmd_verify_def)

lemma last_of_name:
  assumes "k < length items" "it_name (items ! k) \<notin> it_name ` set (drop (k + 1) items)"
  shows "dict (shaped items) (it_name (items ! k)) = Some (item_shape (items ! k))"
proof -
  have "items = take k items @ items ! k # drop (k + 1) items" using assms(1) by (simp add: id_take_nth_drop)
  then have "shaped items = shaped (take k items) @ (it_name (items ! k), item_shape (items ! k)) # shaped (drop (k + 1) items)"
    unfolding shaped_def by (metis (no_types, lifting) list.simps(9) map_append)
  moreover have "map_of (rev (shaped (drop (k + 1) items))) (it_name (items ! k)) = None"
    using assms(2) by (auto simp: map_of_eq_None_iff shaped_def)
  ultimately show ?thesis by (simp add: dict_def map_add_def)
qed

text \<open>A node through which the kernel lets flash be written.\<close>

definition writes_flash :: "item \<Rightarrow> bool" where
  "writes_flash i \<longleftrightarrow>
     it_mode i AND S_IFMT = 0x6000 \<and> it_rmaj i = 31 \<or> it_mode i AND S_IFMT = 0x2000 \<and> it_rmaj i = 90 \<and> even (it_rmin i)"

lemma safe_shape:
  assumes "flash_safe e" "item_shape i = entry_shape e"
  shows "\<not> writes_flash i"
proof (cases "en_kind e = Nod")
  case True
  then obtain t maj mnr where n: "node_parts (en_source e) = Some (t, maj, mnr)" "maj \<noteq> 31" "maj = 90 \<longrightarrow> odd mnr"
    using assms(1) by (auto simp: flash_safe_def)
  then show ?thesis using assms(2) True by (auto simp: writes_flash_def item_shape_def entry_shape_def)
next
  case False
  then show ?thesis using assms(2)
    by (cases "en_kind e") (auto simp: writes_flash_def item_shape_def entry_shape_def KIND_IFMT_def)
qed

lemma verified_image:
  assumes "cmd_verify decode h u repo decl img spec = Some (Inr (Matches n))"
  shows "\<exists>es off sz items. load_entries h u repo decl = Inr es \<and> (spec = None \<or> spec = Some (emit_spec es))
    \<and> elf_section img ''.init.ramfs'' = Inr (Some (off, sz)) \<and> parse_cpio decode img off sz = Some (Inr items) \<and> n = length items
    \<and> dict (shaped items) = dict (declared_shape es)
    \<and> (\<forall>k < n. it_name (items ! k) \<notin> it_name ` set (drop (k + 1) items) \<longrightarrow> \<not> writes_flash (items ! k))"
proof -
  obtain es off sz items where v: "load_entries h u repo decl = Inr es" "spec = None \<or> spec = Some (emit_spec es)"
    "elf_section img ''.init.ramfs'' = Inr (Some (off, sz))" "parse_cpio decode img off sz = Some (Inr items)" "n = length items"
    "dict (declared_shape es) = dict (shaped items)"
    using assms unfolding verify_Matches by blast
  have "\<not> writes_flash (items ! k)" if k: "k < n" "it_name (items ! k) \<notin> it_name ` set (drop (k + 1) items)" for k
  proof -
    have "dict (declared_shape es) (it_name (items ! k)) = Some (item_shape (items ! k))"
      using last_of_name [of k items] k v(5,6) by simp
    from dict_Some [OF this] obtain e where "e \<in> set es" "item_shape (items ! k) = entry_shape e" by (auto simp: declared_shape_def)
    with load_checked(2) [OF v(1)] show ?thesis using safe_shape by blast
  qed
  with v show ?thesis by (intro exI conjI) auto
qed

text \<open>An archive that lists a path twice is compared on its last entry only, and the report counts both.\<close>

lemma earlier_duplicate_unseen:
  assumes "it_name i \<in> it_name ` set items"
  shows "dict (shaped (i # items)) = dict (shaped items)"
proof
  fix p
  have "map_of (rev (shaped items)) (it_name i) \<noteq> None" using assms by (simp add: map_of_eq_None_iff shaped_def image_image)
  then show "dict (shaped (i # items)) p = dict (shaped items) p"
    by (auto simp: dict_def shaped_def map_add_def split: option.split)
qed

text \<open>A signed name size of -110 moves the reader nowhere: the run does not end.\<close>

definition standing_header :: bytes where
  "standing_header = CPIO_MAGIC @ concat (replicate 11 ''00000000'') @ ''-000006E'' @ ''00000000''"

lemma standing_fields:
  "length standing_header = 110" "take 6 standing_header = CPIO_MAGIC"
  "cpio_fields standing_header = Some [0, 0, 0, 0, 0, 0, 0, 0, 0, 0, 0, -110, 0]"
  by code_simp+

lemma parse_stands:
  assumes "4 dvd length p" "p \<noteq> []" "110 \<le> sz"
  shows "parse_cpio decode (p @ standing_header @ r) (length p) sz = None"
proof -
  let ?b = "p @ standing_header @ r" and ?f = "[0, 0, 0, 0, 0, 0, 0, 0, 0, 0, 0, -110, 0 :: int]"
  let ?pos = "int (length p)" and ?limit = "int (length p + sz)"
  have c1: "\<not> ?pos + 110 > ?limit" using assms(3) by simp
  have c2: "py_slice ?b ?pos (?pos + 110) = standing_header"
    using slice_mid [of p "length p" standing_header "length p + 110" r] standing_fields(1) by (simp add: py_slice_nonneg nat_add_distrib)
  have f: "?f ! 6 = 0" "?f ! 11 = -110" by simp_all
  have c3: "\<not> (-110 = (0 :: int) \<or> ?pos + 110 + - 110 > ?limit)" by simp
  have "py_slice ?b (?pos + 110) (?pos + 110 + -110 - 1) = []"
    using assms(2) by (simp add: py_slice_nonneg slice_def nat_diff_distrib)
  then have c4: "\<not> py_slice ?b (?pos + 110) (?pos + 110 + -110 - 1) = CPIO_TRAILER" by (simp add: CPIO_TRAILER_def)
  have "pad (length p) = 0" using assms(1) pad_shift [of "length p" 0] by (simp add: pad_def)
  then have a: "align4 ?pos = ?pos" by (simp only: align4_int add_0_right)
  have c5: "align4 (align4 (?pos + 110 + -110) + 0) = ?pos" by (simp add: a)
  have "decode' = decode \<and> b = ?b \<and> l = ?limit \<and> q = ?pos \<longrightarrow> False" if c: "cpio_loop decode' b l q out = Some y" for decode' b l q out y
  proof (rule cpio_loop.raw_induct [OF _ c, where P = "\<lambda>decode' b l q out y. decode' = decode \<and> b = ?b \<and> l = ?limit \<and> q = ?pos \<longrightarrow> False"], intro impI, elim conjE)
    fix loop decode' b l q out y
    assume ih: "\<And>d b l q out y. loop d b l q out = Some y \<Longrightarrow> d = decode \<and> b = ?b \<and> l = ?limit \<and> q = ?pos \<longrightarrow> False"
      and body: "(if q + 110 > l then Some (Inl (Ran_off q))
      else let hdr = py_slice b q (q + 110) in
        if take 6 hdr \<noteq> CPIO_MAGIC then Some (Inl (No_magic q))
        else (case cpio_fields hdr of
           None \<Rightarrow> Some (Inl (Malformed q))
         | Some f \<Rightarrow>
             let mode = f ! 1; fsize = f ! 6; rmaj = f ! 9; rmin = f ! 10; nsize = f ! 11 in
             if nsize = 0 \<or> q + 110 + nsize > l then Some (Inl (Name_range q nsize))
             else let name = py_slice b (q + 110) (q + 110 + nsize - 1) in
               if name = CPIO_TRAILER then Some (Inr out)
               else loop decode' b l (align4 (align4 (q + 110 + nsize) + fsize))
                 (out @ [\<lparr>it_name = decode' name, it_mode = mode, it_size = fsize, it_rmaj = rmaj, it_rmin = rmin\<rparr>]))) = Some y"
      and eqs: "decode' = decode" "b = ?b" "l = ?limit" "q = ?pos"
    from body [unfolded eqs] have "\<exists>o'. loop decode ?b ?limit ?pos o' = Some y"
      by (simp only: c1 c2 standing_fields f c3 c4 c5 Let_def if_False option.case simp_thms) blast
    with ih show False by blast
  qed
  then show ?thesis unfolding parse_cpio_def by fastforce
qed

subsection \<open>The archive of a declaration\<close>

text \<open>A member that an entry packs to: its path, its type and permissions, any content, its device.\<close>

definition packs :: "entry \<Rightarrow> member \<Rightarrow> bool" where
  "packs e m \<longleftrightarrow>
     (case (m, entry_shape e) of ((nm, mode, data, rmaj, rmin), (ty, perm, maj, mnr)) \<Rightarrow>
        nm = en_path e \<and> int mode = ty + perm \<and> int rmaj = maj \<and> int rmin = mnr)"

lemma of_base_bound: "\<forall>d \<in> set ds. d < b \<Longrightarrow> of_base b ds < b ^ length ds"
proof (induction ds rule: rev_induct)
  case (snoc d ds)
  then have "of_base b ds + 1 \<le> b ^ length ds" "d < b" by auto
  then have "(of_base b ds + 1) * b \<le> b ^ length ds * b" by (intro mult_right_mono) auto
  then show ?case using \<open>d < b\<close> by (simp add: mult.commute)
qed simp

lemma octal_bound:
  assumes "octal_mode m"
  shows "0 \<le> octal m \<and> octal m < 4096"
proof -
  have v: "hex_val c < 8" if "is_digit c" "c \<notin> set ''89''" for c
  proof -
    have "CHR ''8'' = char_of (56 :: nat)" "CHR ''9'' = char_of (57 :: nat)" by code_simp+
    then have "c \<noteq> char_of (56 :: nat)" "c \<noteq> char_of (57 :: nat)" using that(2) by auto
    then have "(of_char c :: nat) \<noteq> 56" "(of_char c :: nat) \<noteq> 57" using char_of_char by metis+
    then show ?thesis using that(1) by (auto simp: hex_val_def is_digit_def Let_def)
  qed
  have "of_base 8 (map hex_val m) < 8 ^ length (map hex_val m)"
    using v assms by (intro of_base_bound) (auto simp: octal_mode_def list_all_iff)
  also have "\<dots> \<le> (8 :: nat) ^ 4" unfolding length_map using assms by (intro power_increasing) (auto simp: octal_mode_def)
  finally show ?thesis by (simp add: octal_def)
qed

lemma small_decimal_bound: "small_decimal v \<Longrightarrow> dec_num v < 1000"
proof -
  assume v: "small_decimal v"
  have "hex_val c < 10" if "is_digit c" for c
    using that by (auto simp: hex_val_def is_digit_def Let_def)
  with v have "dec_num v < 10 ^ length (map hex_val v)"
    unfolding dec_num_def by (intro of_base_bound) (auto simp: small_decimal_def list_all_iff)
  also have "\<dots> \<le> (10 :: nat) ^ 3" unfolding length_map using v by (intro power_increasing) (auto simp: small_decimal_def)
  finally show ?thesis by simp
qed

lemma type_bits:
  assumes "0 \<le> p" "p < (4096 :: int)" "t \<in> {0x2000, 0x4000, 0x6000, 0x8000, 0xA000}"
  shows "(t + p) AND S_IFMT = t \<and> (t + p) AND 0xFFF = p"
proof -
  have m: "(0xFFF :: int) = mask 12" "S_IFMT = mask 16 - mask 12" by (simp_all add: mask_eq_exp_minus_1 S_IFMT_def)
  have s: "x AND S_IFMT = push_bit 12 (take_bit 4 (drop_bit 12 x))" for x
  proof -
    have e: "S_IFMT = push_bit 12 (mask 4)" by (simp add: S_IFMT_def mask_eq_exp_minus_1 push_bit_eq_mult)
    show ?thesis unfolding e by (intro bit_eqI) (auto simp: bit_and_iff bit_push_bit_iff bit_take_bit_iff bit_drop_bit_eq bit_mask_iff)
  qed
  have "(t + p) div 4096 = t div 4096" using assms by auto
  then have "(t + p) AND S_IFMT = t" using assms(3) by (auto simp: s push_bit_eq_mult take_bit_eq_mod drop_bit_eq_div)
  moreover have "(t + p) AND 0xFFF = (t + p) mod 4096" by (simp add: m(1) take_bit_eq_mask [symmetric] take_bit_eq_mod)
  moreover have "(t + p) mod 4096 = p"
  proof -
    have "t mod 4096 = 0" using assms(3) by auto
    then have "(t + p) mod 4096 = p mod 4096" using mod_add_left_eq [of t 4096 p] by simp
    with assms(1,2) show ?thesis by simp
  qed
  ultimately show ?thesis by simp
qed

lemma node_parts_range:
  assumes "node_parts src = Some (t, maj, mnr)"
  shows "t \<in> {''c'', ''b''}" "0 \<le> maj" "maj < 1000" "0 \<le> mnr" "mnr < 1000"
  using assms small_decimal_bound unfolding node_parts_def by (auto split: list.splits if_splits)

lemma entry_shape_range:
  assumes "octal_mode (en_mode e)" "entry_shape e = (ty, perm, maj, mnr)"
  shows "perm = octal (en_mode e)" "ty \<in> {0x2000, 0x4000, 0x6000, 0x8000, 0xA000}" "0 \<le> maj" "maj < 1000" "0 \<le> mnr" "mnr < 1000"
  using assms(2) node_parts_range [of "en_source e"]
  by (auto simp: entry_shape_def KIND_IFMT_def split: option.splits if_splits ikind.splits)

lemma packs_shape:
  assumes "octal_mode (en_mode e)" "packs e m" "decode (en_path e) = en_path e"
  shows "it_name (item_of decode m) = en_path e" "item_shape (item_of decode m) = entry_shape e"
    "case m of (nm, mode, data, rmaj, rmin) \<Rightarrow> mode < 2 ^ 32 \<and> rmaj < 2 ^ 32 \<and> rmin < 2 ^ 32 \<and> nm = en_path e"
proof -
  obtain ty perm maj mnr where s: "entry_shape e = (ty, perm, maj, mnr)" by (cases "entry_shape e")
  note r = entry_shape_range [OF assms(1) s]
  obtain nm mode data rmaj rmin where m: "m = (nm, mode, data, rmaj, rmin)" by (cases m)
  have p: "nm = en_path e" "int mode = ty + perm" "int rmaj = maj" "int rmin = mnr" using assms(2) by (simp_all add: packs_def m s)
  have o: "0 \<le> perm" "perm < 4096" using octal_bound [OF assms(1)] r(1) by simp_all
  note t = type_bits [OF o r(2)]
  show "it_name (item_of decode m) = en_path e" using p assms(3) by (simp add: item_of_def m)
  show "item_shape (item_of decode m) = entry_shape e" using p t by (simp add: item_of_def item_shape_def m s)
  have "int mode < 2 ^ 32 \<and> int rmaj < 2 ^ 32 \<and> int rmin < 2 ^ 32" using p r o by auto
  then show "case m of (nm, mode, data, rmaj, rmin) \<Rightarrow> mode < 2 ^ 32 \<and> rmaj < 2 ^ 32 \<and> rmin < 2 ^ 32 \<and> nm = en_path e"
    using p(1) by (simp add: m)
qed

lemma packed_verifies:
  assumes "load_entries h u repo decl = Inr es" "list_all2 packs es ms" "\<forall>e \<in> set es. decode (en_path e) = en_path e"
    and "length (cpio_newc ms) + 1024 \<le> 2 ^ 32" "spec = None \<or> spec = Some (emit_spec es)"
  shows "cmd_verify decode h u repo decl (elf_with_section ''.init.ramfs'' (cpio_newc ms)) spec = Some (Inr (Matches (length es)))"
proof -
  note c = load_checked(2) [OF assms(1)]
  have p: "packs (es ! k) (ms ! k) \<and> octal_mode (en_mode (es ! k)) \<and> decode (en_path (es ! k)) = en_path (es ! k) \<and> prefix ''/'' (en_path (es ! k))"
    if "k < length es" for k
    using that assms(2,3) c by (simp add: list_all2_conv_all_nth)
  have len: "length ms = length es" using assms(2) by (simp add: list_all2_lengthD)
  have fits: "\<forall>m \<in> set ms. case m of (nm, mode, data, rmaj, rmin) \<Rightarrow> mode < 2 ^ 32 \<and> rmaj < 2 ^ 32 \<and> rmin < 2 ^ 32 \<and> nm \<noteq> CPIO_TRAILER"
  proof
    fix m assume "m \<in> set ms"
    then obtain k where k: "k < length es" "ms ! k = m" using len by (auto simp: in_set_conv_nth)
    note q = p [OF k(1), unfolded k(2)]
    have "\<not> prefix ''/'' CPIO_TRAILER" by (simp add: CPIO_TRAILER_def)
    with packs_shape(3) [of "es ! k" m decode] q
    show "case m of (nm, mode, data, rmaj, rmin) \<Rightarrow> mode < 2 ^ 32 \<and> rmaj < 2 ^ 32 \<and> rmin < 2 ^ 32 \<and> nm \<noteq> CPIO_TRAILER"
      by (auto split: prod.splits)
  qed
  have "shaped (map (item_of decode) ms) = declared_shape es"
    unfolding shaped_def declared_shape_def
    by (rule nth_equalityI) (use len p packs_shape(1,2) in \<open>auto simp: len\<close>)
  then have d: "dict (declared_shape es) = dict (shaped (map (item_of decode) ms))" and n: "length es = length (map (item_of decode) ms)"
    using len by simp_all
  obtain r where e: "elf_with_section ''.init.ramfs'' (cpio_newc ms) = elf_head (76 + length (padded (cpio_newc ms))) @ cpio_newc ms @ r"
    using elf_written(1) [OF assms(4)] by blast
  let ?h = "elf_head (76 + length (padded (cpio_newc ms)))"
  have l: "length ?h = 52" by (simp add: elf_head_def)
  then have "4 dvd length ?h" by simp
  moreover have "length (cpio_newc ms) < 2 ^ 32" using assms(4) by simp
  ultimately have "parse_cpio decode (?h @ cpio_newc ms @ r) 52 (length (cpio_newc ms)) = Some (Inr (map (item_of decode) ms))"
    using parse_written [OF _ fits, of ?h decode r] l by metis
  with d n e elf_written(2) [OF assms(4)] assms(1,5) show ?thesis unfolding verify_Matches by metis
qed

text \<open>
  C40. An archive with one member per entry of an accepted declaration, in its order, with the entry's path, type, permissions and
  device and any content, written as a section of an ELF file, verifies: the two writers of the controls and the two readers of
  the tool agree, with the section at a multiple of four, as the writer's comment asks.
\<close>

theorem packed_image_verifies:
  assumes "load_entries h u repo decl = Inr es" "list_all2 packs es ms" "\<forall>e \<in> set es. decode (en_path e) = en_path e"
    and "length (cpio_newc ms) + 1024 \<le> 2 ^ 32" "spec = None \<or> spec = Some (emit_spec es)"
  shows "cmd_verify decode h u repo decl (elf_with_section ''.init.ramfs'' (cpio_newc ms)) spec = Some (Inr (Matches (length es)))"
  using assms by (rule packed_verifies)

text \<open>
  C39. An image that verifies holds an archive whose paths are those of the accepted declaration, each with the type, permissions
  and device declared for it, and no entry of the archive that is the last of its name is a node through which the kernel would
  let flash be written.  (An entry whose name comes again later is not compared: \<open>earlier_duplicate_unseen\<close>.)
\<close>

theorem verified_image_safe:
  assumes "cmd_verify decode h u repo decl img spec = Some (Inr (Matches n))"
  shows "\<exists>es off sz items. load_entries h u repo decl = Inr es \<and> (spec = None \<or> spec = Some (emit_spec es))
    \<and> elf_section img ''.init.ramfs'' = Inr (Some (off, sz)) \<and> parse_cpio decode img off sz = Some (Inr items) \<and> n = length items
    \<and> dict (shaped items) = dict (declared_shape es)
    \<and> (\<forall>k < n. it_name (items ! k) \<notin> it_name ` set (drop (k + 1) items) \<longrightarrow> \<not> writes_flash (items ! k))"
  using assms by (rule verified_image)

text \<open>The image of the sample declaration.\<close>

definition sample_members :: "member list" where
  "sample_members = [(''/dev/console'', 0x2180, [], 5, 1), (''/init'', 0x81ED, ''x'', 0, 0)]"

lemma sample_packs: "list_all2 packs sample_resolved sample_members"
proof -
  have "KIND_IFMT Nod ''c'' + octal ''600'' = 0x2180" "KIND_IFMT File [] + octal ''755'' = 0x81ED" by code_simp+
  then show ?thesis
    by (simp add: sample_resolved_def sample_entries_def sample_members_def packs_def entry_shape_def sample_console)
qed

lemma cpio_entry_upper:
  assumes "header_fits ino (nm, mode, data, rmaj, rmin)"
  shows "length (cpio_entry ino (nm, mode, data, rmaj, rmin)) \<le> 117 + length nm + length data"
proof -
  have h: "length (cpio_header ino mode (length data) rmaj rmin (length nm + 1)) = 110"
    using assms by (intro header_read(1)) (simp add: header_fits_def)
  have u: "length (padded b) \<le> length b + 3" for b
    using mod_less_divisor [of 4 "4 - length b mod 4"] by (simp add: padded_eq pad_def)
  let ?x = "cpio_header ino mode (length data) rmaj rmin (length nm + 1) @ nm @ [CHR 0x00]"
  have "length (padded (padded ?x @ data)) \<le> length (padded ?x @ data) + 3" by (rule u)
  moreover have "length (padded ?x) \<le> length ?x + 3" by (rule u)
  moreover have "length ?x = 111 + length nm" by (simp only: length_append h) simp
  ultimately show ?thesis by simp
qed

lemma sample_archive: "length (cpio_newc sample_members) + 1024 \<le> 2 ^ 32"
proof -
  have "cpio_newc sample_members = cpio_entry 1 (''/dev/console'', 0x2180, [], 5, 1) @ cpio_entry 2 (''/init'', 0x81ED, ''x'', 0, 0)
      @ cpio_entry 3 (CPIO_TRAILER, 0, [], 0, 0)"
    unfolding cpio_newc_cat sample_members_def by (simp del: cpio_entry.simps add: numeral_2_eq_2 numeral_3_eq_3)
  moreover have "header_fits 1 (''/dev/console'', 0x2180, [], 5, 1)" "header_fits 2 (''/init'', 0x81ED, ''x'', 0, 0)"
    "header_fits 3 (CPIO_TRAILER, 0, [], 0, 0)"
    by (simp_all add: header_fits_def CPIO_TRAILER_def)
  note this [THEN cpio_entry_upper]
  ultimately show ?thesis by (simp add: CPIO_TRAILER_def del: cpio_entry.simps)
qed

theorem packed_image_verifies_witness:
  "cmd_verify (\<lambda>s. s) sample_host ''/u'' ''/r'' sample_text (elf_with_section ''.init.ramfs'' (cpio_newc sample_members)) None
    = Some (Inr (Matches (length sample_resolved)))"
  by (rule packed_image_verifies [OF sample_decl_loads sample_packs _ sample_archive]) simp_all

theorem verified_image_safe_witness:
  "\<exists>es off sz items. load_entries sample_host ''/u'' ''/r'' sample_text = Inr es
    \<and> parse_cpio (\<lambda>s. s) (elf_with_section ''.init.ramfs'' (cpio_newc sample_members)) off sz = Some (Inr items)
    \<and> length items = length sample_resolved \<and> dict (shaped items) = dict (declared_shape es)"
proof -
  have "cmd_verify (\<lambda>s. s) sample_host ''/u'' ''/r'' sample_text (elf_with_section ''.init.ramfs'' (cpio_newc sample_members)) None
      = Some (Inr (Matches (length sample_resolved)))"
    by (rule packed_verifies [OF sample_decl_loads sample_packs _ sample_archive]) simp_all
  from verified_image_safe [OF this] show ?thesis by metis
qed

end
