(* ===== verification/Spec2Isabelle.thy ===== *)
theory Spec2Isabelle
  imports Prelude PyText FlashWin FlashGuard FlrBracket FlashMap RtkImage Sha2 RlxSign MkFw2 MkCr6c BootSlot BootCapture BootJudge IsaVerdict CardEnd
    Kconfig RepDiff ReplySize CapField RbCheck InitImage
begin

text \<open>
  This development models the tools under \<open>tools/\<close> that stand between a build of the firmware and the
  flash of the router: what may be written or published, what is built and signed, what the stock loader
  does with it, how a bench card is run, and how a serial capture is judged afterwards.  All of it is Python;
  the definitions are translated function by function and keep the source's names.

  \<^bold>\<open>The parts and how they meet.\<close>
  \<^item> \<open>Prelude\<close>: Python's slices, searches, splits and number formats; bytes are characters below 256,
    \<open>int\<close> is \<open>int\<close>, a refusal is the left of a sum.  \<open>Sha2\<close>: SHA-256 and SHA-512 (the standard library).
  \<^item> \<open>FlashWin\<close> (\<open>flashwin.py\<close>): the range that may not be published, the renderer of a flash window and
    the scanner that looks for its bytes in captures.
  \<^item> \<open>FlashGuard\<close> (\<open>flashguard.py\<close>): the destinations that may not be written and the owner's licence; it
    asks \<open>FlashWin\<close> for the range both share.
  \<^item> \<open>FlrBracket\<close> (\<open>flrbracket.py\<close>): one flash read through the loader's console; the loader is a
    parameter that answers from the history of what was sent, the containment comes from \<open>FlashWin\<close>.
  \<^item> \<open>FlashMap\<close> (\<open>flashmap.py\<close>): the digest map of the chip, predicted from a dump and compared with a
    capture; every range it hashes goes through \<open>FlashWin\<close>.
  \<^item> \<open>RtkImage\<close> (\<open>rtkimage.py\<close>, two functions of \<open>mkinitramfs.py\<close>): the readers of the loader stub and
    the gates between make and the build record.
  \<^item> \<open>RlxSign\<close> (\<open>rlxsign.py\<close>): Ed25519.  \<open>MkFw2\<close> (\<open>mkfw2.py\<close>): the signed container, which signs with
    \<open>RlxSign\<close>, digests with \<open>Sha2\<close> and asks \<open>FlashGuard\<close> before a container names a destination.
  \<^item> \<open>MkCr6c\<close> (\<open>mkcr6c.py\<close>): the images the stock loader boots and the scan of a whole chip, over
    \<open>MkFw2\<close>'s verdict of that loader, \<open>RtkImage\<close>'s sum and \<open>FlashGuard\<close>'s check.
  \<^item> \<open>BootSlot\<close>, \<open>BootCapture\<close>, \<open>BootJudge\<close> (\<open>bootslot.py\<close>): the capture of a boot, its parser, the
    judgement against an expectation, the fixture that prints such a capture, and what a pass means.
  \<^item> \<open>IsaModel\<close>, \<open>IsaRow\<close>, \<open>IsaVerdict\<close> (\<open>isapay.py\<close>): what each probed instruction computes, in the tool's
    unbounded integers; the table of rows with its refusals, the word built from fields and the two
    comparisons; the capture of a run, the verdict of every row and the controls of the three arms.
  \<^item> \<open>CardText\<close>, \<open>CardShell\<close>, \<open>CardRun\<close>, \<open>CardEnd\<close> (\<open>cardrun.py\<close>): the cells and macros of a card; the
    reading of a shell command, down to the program a background cell starts; the runner as a step relation
    between phases, with the environment's answers as arguments of the steps; what its two exits mean.
  \<^item> \<open>Kconfig\<close> (\<open>kconfig-delta.py\<close>): the gate between a declared configuration and a built one; the digest of the
    baseline is \<open>Sha2\<close>'s.  \<open>RepDiff\<close> (\<open>repdiff.py\<close>): where two ELF images of one build differ.
  \<^item> \<open>ReplySize\<close> (\<open>reply-size.py\<close>): the length of a reply, predicted for what \<open>FlashWin\<close>'s renderer prints, and the
    sweep over captures.  \<open>CapField\<close> (\<open>capfield.py\<close>): one field of a capture, the echo stepped over.
  \<^item> \<open>RbCheck\<close> (\<open>rbcheck.py\<close>): the block that a probe sealed in memory, as \<open>FlashWin\<close>'s renderer prints it, checked
    word for word against its sum, its progress ladder and the console.
  \<^item> \<open>Initramfs\<close> (\<open>mkinitramfs.py\<close>, the table reader of \<open>appletcensus.py\<close>): the declaration of the initramfs, its two bans
    and the specification it writes.  \<open>InitImage\<close> (\<open>mkinitramfs.py verify\<close>): the archive of a built kernel against the
    declaration.

  \<^bold>\<open>State and errors.\<close>  A name out of an ELF string table is decoded as the code decodes it, with every octet that is
  not ASCII replaced (\<open>ascii_replace\<close>).  A process group may hold members that this user may signal and members he may
  not: the answer of \<open>killpg\<close> and what lives on follow from the two (\<open>stop_child\<close>).  The tools keep no state between runs; the runner's own state (background children,
  declared readings, transcript) is a record, and its runs are the reflexive transitive closure of \<open>run_step\<close>.  A file system is a map from paths to bytes
  or decoded texts; what a command writes or prints is its result; \<open>Refused\<close>, \<open>ValueError\<close> and the
  one-line exits are constructors, and so is each exception that the source does not catch.

  \<^bold>\<open>The lemmas.\<close>  Per theory: exactness of a guard against a set-based statement (\<open>check_exact\<close>,
  \<open>checks_exact\<close>, \<open>wrap_exact\<close>, \<open>scan_exact\<close>); round trips (\<open>licence_opens_its_write\<close>,
  \<open>elf_table_roundtrip\<close>, \<open>honest_capture_judged\<close>); safety of what is published or sent
  (\<open>render_contained\<close>, \<open>yes_only_when_asked\<close>); refinement of an abstract chip (\<open>place_refines\<close>);
  the invariant of the curve (\<open>arithmetic_on_curve\<close>); equivalence with a machine on 32-bit words,
  and the offsets at which it fails (\<open>model_is_machine\<close>, \<open>departs\<close>), and with word substitution (\<open>expand_is_word_substitution\<close>); exactness of the configuration gate (\<open>gate_exact\<close>) and
  of an excused silence (\<open>explained_exact\<close>); what an accepted declaration and a verified image exclude
  (\<open>declaration_accepted\<close>, \<open>verified_image_safe\<close>) and what a checked sum does (\<open>one_word_seen\<close>); the invariants of the
  runner, each an instance of the locale \<open>invariant\<close> (\<open>ordered\<close>, \<open>planned\<close>, \<open>ending\<close>).  This theory holds the property that spans the
  container, the images, the guard and the scan.

  \<^bold>\<open>Termination and bounds.\<close>  Loops are structural recursion or carry a measure; the sweep of the loader's
  table is a partial function whose termination is \<open>candidates_total\<close>.  The reader of an archive is a partial function too
  (\<open>cpio_loop\<close>): it returns on what the writer writes (\<open>packed_image_verifies\<close>), and \<open>parse_stands\<close> is an archive
  on which it does not.  There is no fuel; the polling of a
  start signal recurses over the list of its rounds, and a list that ends without an answer is \<open>Unfinished\<close>.  Words are used
  where the code packs or sums them (16-bit sums, 32- and 64-bit SHA words, 32-bit header fields).

  \<^bold>\<open>Not modelled.\<close>  Argument parsers, self tests, help texts and the wording of reports; the staging of a
  build tree and the running of make; serial and process I/O (the runner's children are answers of the
  environment); the option \<open>--init\<close> of \<open>mkinitramfs.py\<close>, which asks git; the templates, the census and the disassembly of the probe table; the
  self tests that run before an answer, which are one truth value, and the decoding of UTF-8, JSON and dates, which are
  arguments (characters are code points below 256); and the tools that census, lint or archive
  the repository itself rather than act on the firmware.
\<close>

section \<open>Properties that span components\<close>

lemma accepted_slot:
  assumes "accepted (checks blob pub counter w form)"
  shows "blob \<noteq> []" "int (length blob) \<le> 0x300000 + 160"
    "stock_loader_verdict (take HDR_LEN blob) = Not_an_image"
proof -
  have h: "header_ok blob (unpack_header (take HEADER_LEN blob))"
    using assms by (simp add: checks_spec Let_def)
  then show "blob \<noteq> []" "int (length blob) \<le> 0x300000 + 160"
    by (auto simp: header_ok_def MAX_PAYLOAD_def BODY_def HEADER_LEN_def SIG_LEN_def)
  show "stock_loader_verdict (take HDR_LEN blob) = Not_an_image"
    using accepted_magic [OF assms] by (intro magic_not_stock) (simp add: HDR_LEN_def min_def)
qed

lemma described_boots:
  assumes "describes chip ps m" "(at, path, image_of binary start at) \<in> set ps" "wrappable binary start at"
    and "length (image_of binary start at) \<le> 0xFFFFFFFF"
  shows "bootable m (nat at)"
proof -
  have p: "0 \<le> at" using assms(3) by (simp add: wrappable_def)
  obtain rest where r: "drop (nat at) m = image_of binary start at @ rest"
    using describes_drop [OF assms(1,2) p] by blast
  have "length m = nat chip" "at + int (length (image_of binary start at)) \<le> chip"
    using assms(1,2) by (auto simp: describes_def)
  then have "nat at \<le> length m" using p by linarith
  from check_image_ret_drop [OF this] show ?thesis
    using image_ret [OF assms(3,4), of rest] by (simp add: bootable_def r)
qed

lemma chip_policy:
  assumes "wrappable b1 s1 0x10000" "int (length b1) + 18 \<le> REGION_BYTES"
    and "wrappable b2 s2 0x20000" "int (length b2) + 18 \<le> REGION_BYTES"
    and "stock_loader_verdict (take HDR_LEN blob) = Not_an_image" "int (length blob) \<le> 0x300000 + 160"
    and ps: "ps = [(0x10000, p1, image_of b1 s1 0x10000), (0x20000, p2, image_of b2 s2 0x20000),
                   (0x70000, p3, blob)]"
  shows "\<exists>m. place CHIP_SIZE ps = Inr m \<and> describes CHIP_SIZE ps m \<and> policy_holds ps m"
proof -
  have l: "int (length (image_of b1 s1 0x10000)) \<le> 0x10000" "int (length (image_of b2 s2 0x20000)) \<le> 0x10000"
    using assms(2,4) by (simp_all add: length_image_of HDR_LEN_def TAIL_LEN_def REGION_BYTES_def)
  have "fits CHIP_SIZE ps"
    using l assms(6) by (simp add: fits_def ps clear_of_def CHIP_SIZE_def)
  then obtain m where m: "place CHIP_SIZE ps = Inr m"
    using place_loop_fits [of CHIP_SIZE ps _ "[]"] by (auto simp: place_def fits_def)
  have d: "describes CHIP_SIZE ps m" using place_describes [OF m] by (simp add: ps)
  have "bootable m (nat 0x10000)" "bootable m (nat 0x20000)"
    using described_boots [OF d, of "0x10000" p1 b1 s1] described_boots [OF d, of "0x20000" p2 b2 s2] l assms(1,3)
    by (simp_all add: ps)
  moreover have "\<not> may_boot m c" if "c \<in> {0x30000, 0x40000, 0x50000, 0x60000}" for c
  proof -
    have "check_image_ret m c = (0, None)"
      using l that by (intro describes_erased [OF d]) (auto simp: ps CHIP_SIZE_def)
    then show ?thesis by (simp add: may_boot_def)
  qed
  ultimately have "policy_holds ps m"
    using assms(5) by (simp add: policy_holds_def MUST_BOOT_def MUST_NOT_BOOT_def ps)
  with m d show ?thesis by blast
qed

text \<open>
  C19. The whole chip boots as intended: two images made by \<open>wrap\<close> for the two offsets that must boot,
  placed with a container the verifier accepts for the first slot, pass \<open>scan\<close> with status 0: the
  loader boots the two, nothing it tries in the erased barrier, and does not know the container.
\<close>

theorem update_chip_boots:
  assumes "cmd_wrap files1 a1 = Wrapped o1 img1 g1" "wa_flash_at a1 = 0x10000" "wa_region_bytes a1 = REGION_BYTES"
    and "cmd_wrap files2 a2 = Wrapped o2 img2 g2" "wa_flash_at a2 = 0x20000" "wa_region_bytes a2 = REGION_BYTES"
    and "accepted (checks blob pub counter (Some 0x70000) (Some FORM_WHOLE))"
    and "files ''rb'' = Some img1" "files ''rescue'' = Some img2" "files ''slot'' = Some blob"
  shows "\<exists>rows slots. cmd_scan files CHIP_SIZE [''0x010000=rb'', ''0x020000=rescue'', ''0x070000=slot''] =
    Some (Scanned rows slots 0)"
proof -
  have r: "wa_region_bytes a1 \<le> 0xFFFFFFFF" "wa_region_bytes a2 \<le> 0xFFFFFFFF"
    using assms(3,6) by (simp_all add: REGION_BYTES_def)
  obtain b1 b2 where b: "wrappable b1 (wa_start_addr a1) 0x10000" "int (length b1) + 18 \<le> REGION_BYTES"
      "img1 = image_of b1 (wa_start_addr a1) 0x10000"
      "wrappable b2 (wa_start_addr a2) 0x20000" "int (length b2) + 18 \<le> REGION_BYTES"
      "img2 = image_of b2 (wa_start_addr a2) 0x20000"
    using assms(1-6) by (auto simp: cmd_wrap_iff [OF r(1)] cmd_wrap_iff [OF r(2)])
  note s = accepted_slot [OF assms(7)]
  let ?ps = "[(0x10000, ''rb'', img1), (0x20000, ''rescue'', img2), (0x70000, ''slot'', blob)]"
  obtain m where m: "place CHIP_SIZE ?ps = Inr m" "describes CHIP_SIZE ?ps m" "policy_holds ?ps m"
    using chip_policy [OF b(1,2,4,5) s(3,2) refl] unfolding b(3,6) by blast
  have i: "int0 ''0x010000'' = Some 0x10000" "int0 ''0x020000'' = Some 0x20000" "int0 ''0x070000'' = Some 0x70000"
    by (simp_all add: int0_def unsigned0_def prefixed_def base_num_def strip_def lstrip_def rstrip_def py_space_def
        of_base_def is_hex_def is_hex_lower_def is_digit_def hex_val_def)
  have "traverse (placement_of files) [''0x010000=rb'', ''0x020000=rescue'', ''0x070000=slot''] = Inr ?ps"
    using assms(8-10) by (simp add: placement_of_def i)
  moreover have "img1 \<noteq> []" "img2 \<noteq> []"
    by (auto simp: b(3,6) image_of_def Let_def CS6C_def)
  ultimately show ?thesis
    using m s(1) by (intro scan_passes) auto
qed

theorem update_chip_boots_witness:
  "\<exists>files rows slots. cmd_scan files CHIP_SIZE [''0x010000=rb'', ''0x020000=rescue'', ''0x070000=slot''] =
    Some (Scanned rows slots 0)"
proof -
  let ?a = "\<lambda>at. \<lparr>wa_in = ''b'', wa_out = ''o'', wa_start_addr = 0x80100000, wa_flash_at = at,
      wa_region_bytes = REGION_BYTES\<rparr>"
  let ?b = "\<lambda>p. if p = ''b'' then Some ''ab'' else None"
  let ?i = "\<lambda>at. image_of ''ab'' 0x80100000 at"
  have w: "\<exists>ok. cmd_wrap ?b (?a at) = Wrapped ''o'' (?i at) ok" if "at = 0x10000 \<or> at = 0x20000" for at
    using that cmd_wrap_iff [of "?a at" ?b "''o''" "?i at"]
    by (auto simp: REGION_BYTES_def MUST_BOOT_def wrappable_def)
  obtain g1 g2 where g: "cmd_wrap ?b (?a 0x10000) = Wrapped ''o'' (?i 0x10000) g1"
    "cmd_wrap ?b (?a 0x20000) = Wrapped ''o'' (?i 0x20000) g2"
    using w [of "0x10000"] w [of "0x20000"] by auto
  obtain blob where c: "accepted (checks blob neutral 0 (Some 0x70000) (Some FORM_WHOLE))"
    using sample_container [of "0x70000"] by auto
  let ?files = "[''rb'' \<mapsto> ?i 0x10000, ''rescue'' \<mapsto> ?i 0x20000, ''slot'' \<mapsto> blob]"
  show ?thesis
    using update_chip_boots [OF g(1) _ _ g(2) _ _ c, of ?files] by fastforce
qed

end
